(* ===== verification/Prelude.thy ===== *)
theory Prelude
  imports Main "HOL-Library.Word" "HOL-Library.Multiset"
begin

text \<open>
  The prelude of the fsfuse development: the errors a C operation can run into, the result
  type built on them, the errno values the program returns, and the generic lemmas on lists
  and strings that the component theories share.

  A C function that can abort (a failed \<^verbatim>\<open>assert\<close>), dereference a null pointer, read or
  write outside its block, or use memory after it was freed is modelled as a function into
  \<open>c_error + 'a\<close>, with \<open>Inl\<close> for the run-time error. Error codes that the C code returns
  as ordinary values (\<^verbatim>\<open>ENOENT\<close>, \<^verbatim>\<open>EIO\<close>, ...) are ordinary values here as well.
\<close>

named_theorems res_simps \<open>evaluation of the result type\<close>
named_theorems errno_defs \<open>the numeric errno values\<close>

section \<open>Results of C operations\<close>

datatype c_error =
    AssertFail      \<comment> \<open>assert() failed\<close>
  | NullDeref       \<comment> \<open>a null pointer was dereferenced\<close>
  | OutOfBounds     \<comment> \<open>access outside the allocated block\<close>
  | Uninitialised   \<comment> \<open>an indeterminate value was used\<close>
  | UseAfterFree    \<comment> \<open>access to a block that was freed\<close>
  | InvalidFree     \<comment> \<open>free() of something that is not a live heap block\<close>
  | DivZero         \<comment> \<open>an integer division by zero\<close>
  | BadCall         \<comment> \<open>a call through a pointer that is not a function of the called type\<close>

type_synonym 'a res = "c_error + 'a"

definition bind_res :: "'a res \<Rightarrow> ('a \<Rightarrow> 'b res) \<Rightarrow> 'b res" where
  "bind_res m f = (case m of Inl e \<Rightarrow> Inl e | Inr x \<Rightarrow> f x)"

definition c_assert :: "bool \<Rightarrow> unit res" where
  "c_assert b = (if b then Inr () else Inl AssertFail)"

lemma bind_res_simps [simp, res_simps]:
  "bind_res (Inl e) f = Inl e"
  "bind_res (Inr x) f = f x"
  by (simp_all add: bind_res_def)

lemma c_assert_simps [simp, res_simps]:
  "c_assert True = Inr ()"
  "c_assert False = Inl AssertFail"
  by (simp_all add: c_assert_def)

lemma bind_res_eq_Inr [simp]:
  "bind_res m f = Inr y \<longleftrightarrow> (\<exists>x. m = Inr x \<and> f x = Inr y)"
  by (cases m) auto

lemma c_assert_eq_Inr [simp]: "c_assert b = Inr u \<longleftrightarrow> b"
  by (simp add: c_assert_def)

lemma bind_res_cong [fundef_cong]:
  "m = m' \<Longrightarrow> (\<And>x. m' = Inr x \<Longrightarrow> f x = f' x) \<Longrightarrow> bind_res m f = bind_res m' f'"
  by (cases m') auto

text \<open>Running an operation over a list from left to right, stopping at the first error.\<close>

fun fold_res :: "('a \<Rightarrow> 's \<Rightarrow> 's res) \<Rightarrow> 'a list \<Rightarrow> 's \<Rightarrow> 's res" where
  "fold_res f [] s = Inr s"
| "fold_res f (x # xs) s = bind_res (f x s) (fold_res f xs)"

lemma fold_res_append:
  "fold_res f (xs @ ys) s = bind_res (fold_res f xs s) (fold_res f ys)"
proof (induction xs arbitrary: s)
  case Nil
  then show ?case by simp
next
  case (Cons x xs)
  then show ?case by (cases "f x s") simp_all
qed

lemma fold_res_invariant:
  assumes "\<And>x s s'. x \<in> set xs \<Longrightarrow> P s \<Longrightarrow> f x s = Inr s' \<Longrightarrow> P s'"
    and "P s" and "fold_res f xs s = Inr s'"
  shows "P s'"
  using assms by (induction xs arbitrary: s) auto

section \<open>errno values (Linux)\<close>

abbreviation (input) rc_ok :: int where "rc_ok \<equiv> 0"

definition ENOENT :: int where [errno_defs]: "ENOENT = 2"
definition EIO :: int where [errno_defs]: "EIO = 5"
definition EACCES :: int where [errno_defs]: "EACCES = 13"
definition EBUSY :: int where [errno_defs]: "EBUSY = 16"
definition ENOTDIR :: int where [errno_defs]: "ENOTDIR = 20"
definition EISDIR :: int where [errno_defs]: "EISDIR = 21"
definition EINVAL :: int where [errno_defs]: "EINVAL = 22"
definition EROFS :: int where [errno_defs]: "EROFS = 30"
definition ETIMEDOUT :: int where [errno_defs]: "ETIMEDOUT = 110"

lemma errno_nonzero [simp]:
  "ENOENT \<noteq> 0" "EIO \<noteq> 0" "EACCES \<noteq> 0" "EBUSY \<noteq> 0" "ENOTDIR \<noteq> 0" "EISDIR \<noteq> 0"
  "EINVAL \<noteq> 0" "EROFS \<noteq> 0" "ETIMEDOUT \<noteq> 0"
  by (simp_all add: errno_defs)

section \<open>Swapping two slots of an array\<close>

text \<open>The macro \<^verbatim>\<open>SWAP(x,y)\<close> of \<^verbatim>\<open>common.h\<close> on two slots of one array.\<close>

definition swap_slots :: "'a list \<Rightarrow> nat \<Rightarrow> nat \<Rightarrow> 'a list" where
  "swap_slots xs i j = xs[j := xs ! i, i := xs ! j]"

lemma length_swap_slots [simp]: "length (swap_slots xs i j) = length xs"
  by (simp add: swap_slots_def)

lemma nth_swap_slots:
  "i < length xs \<Longrightarrow> j < length xs \<Longrightarrow>
   swap_slots xs i j ! l = (if l = i then xs ! j else if l = j then xs ! i else xs ! l)"
  by (simp add: swap_slots_def nth_list_update)

lemma take_swap_slots:
  assumes "i < n" "j < n" "n \<le> length xs"
  shows "take n (swap_slots xs i j) = swap_slots (take n xs) i j"
  using assms by (simp add: swap_slots_def take_update_swap)

lemma mset_swap_slots:
  "i < length xs \<Longrightarrow> j < length xs \<Longrightarrow> mset (swap_slots xs i j) = mset xs"
  by (simp add: swap_slots_def mset_swap)

lemma drop_swap_slots:
  "i < n \<Longrightarrow> j < n \<Longrightarrow> drop n (swap_slots xs i j) = drop n xs"
  by (simp add: swap_slots_def)

section \<open>C strings\<close>

text \<open>
  A NUL-terminated string is the list of its characters without the terminator; \<open>nul_free\<close>
  says that a list can be one. \<open>c_block s\<close> is the memory block \<^verbatim>\<open>strdup\<close> allocates for it.
\<close>

abbreviation NUL :: char where "NUL \<equiv> CHR 0x00"

definition nul_free :: "string \<Rightarrow> bool" where
  "nul_free s \<longleftrightarrow> NUL \<notin> set s"

definition c_block :: "string \<Rightarrow> char list" where
  "c_block s = s @ [NUL]"

text \<open>The string a block holds: its characters up to the first NUL (\<^verbatim>\<open>strlen\<close>, \<^verbatim>\<open>strcpy\<close>).\<close>

definition c_str :: "char list \<Rightarrow> string" where
  "c_str m = takeWhile (\<lambda>c. c \<noteq> NUL) m"

lemma nul_free_simps [simp]:
  "nul_free []"
  "nul_free (c # s) \<longleftrightarrow> c \<noteq> NUL \<and> nul_free s"
  "nul_free (s @ t) \<longleftrightarrow> nul_free s \<and> nul_free t"
  by (auto simp: nul_free_def)

lemma c_str_append_NUL [simp]: "nul_free s \<Longrightarrow> c_str (s @ NUL # t) = s"
  unfolding c_str_def nul_free_def by (induction s) auto

lemma c_str_block [simp]: "nul_free s \<Longrightarrow> c_str (c_block s) = s"
  by (simp add: c_block_def)

lemma nul_free_c_str [simp]: "nul_free (c_str m)"
  by (auto simp: nul_free_def c_str_def dest: set_takeWhileD)

lemma c_str_nul_free: "nul_free s \<Longrightarrow> c_str s = s"
  by (auto simp: nul_free_def c_str_def takeWhile_eq_all_conv)

end
