(* ===== verification/Binary_Heap.thy ===== *)
theory Binary_Heap
  imports Prelude
begin

text \<open>
  The binary min-heap of \<^verbatim>\<open>src/src/binary_heap.c\<close> and the key-value pairs of
  \<^verbatim>\<open>src/src/kvp.c\<close>. The array of node pointers is a list of length \<open>allocated\<close>; a slot
  that \<^verbatim>\<open>realloc\<close> has not yet initialised is \<open>None\<close>. Every array access is checked, so that
  the theorems show that neither \<^verbatim>\<open>move_up\<close> nor \<^verbatim>\<open>move_down\<close> leaves the array or reads
  an uninitialised slot. The nodes are never modified after \<^verbatim>\<open>kvp_new\<close>, so a node pointer is
  represented by the node it points to. Keys are C \<^verbatim>\<open>int\<close>s and are only compared.

  The component implements a priority queue: the locale \<open>pri_queue\<close> states that contract, and
  its interpretation on the heap's operations is what the downloader relies on.
\<close>

section \<open>Key-value pairs (kvp.c)\<close>

record 'v kvp_t =
  kvp_key :: int
  kvp_value :: 'v

definition kvp_new :: "int \<Rightarrow> 'v \<Rightarrow> 'v kvp_t" where
  "kvp_new k v = \<lparr>kvp_key = k, kvp_value = v\<rparr>"

section \<open>The heap and its operations (binary\_heap.c)\<close>

record 'v binary_heap_t =
  allocated :: nat
  used :: nat
  array :: "'v kvp_t option list"

definition binary_heap_new :: "'v binary_heap_t" where
  "binary_heap_new = \<lparr>allocated = 0, used = 0, array = []\<rparr>"

text \<open>\<^verbatim>\<open>binary_heap_delete\<close> asserts that the heap is empty before it frees the array.\<close>

definition binary_heap_delete :: "'v binary_heap_t \<Rightarrow> unit res" where
  "binary_heap_delete heap = c_assert (used heap = 0)"

definition ensure_space :: "'v binary_heap_t \<Rightarrow> nat \<Rightarrow> 'v binary_heap_t" where
  "ensure_space heap space =
     (if allocated heap < space
      then let new_space = max (allocated heap * 2) space in
        heap\<lparr>array := array heap @ replicate (new_space - allocated heap) None,
             allocated := new_space\<rparr>
      else heap)"

definition parent :: "nat \<Rightarrow> nat" where
  "parent node = (node - 1) div 2"

definition left_child :: "nat \<Rightarrow> nat" where
  "left_child node = 2 * node + 1"

definition right_child :: "nat \<Rightarrow> nat" where
  "right_child node = 2 * node + 2"

text \<open>Reading \<^verbatim>\<open>heap->array[i]\<close>.\<close>

definition heap_slot :: "'v binary_heap_t \<Rightarrow> nat \<Rightarrow> 'v kvp_t res" where
  "heap_slot heap i =
     (if i < length (array heap)
      then (case array heap ! i of None \<Rightarrow> Inl Uninitialised | Some n \<Rightarrow> Inr n)
      else Inl OutOfBounds)"

text \<open>\<^verbatim>\<open>SWAP( heap->array[i], heap->array[j] )\<close>, after both slots have been read.\<close>

definition heap_swap :: "'v binary_heap_t \<Rightarrow> nat \<Rightarrow> nat \<Rightarrow> 'v binary_heap_t" where
  "heap_swap heap i j = heap\<lparr>array := swap_slots (array heap) i j\<rparr>"

function move_up :: "'v binary_heap_t \<Rightarrow> nat \<Rightarrow> 'v binary_heap_t res" where
  "move_up heap target_pos =
     (if target_pos > 0
      then
        bind_res (heap_slot heap target_pos) (\<lambda>target_node.
        let parent_pos = parent target_pos in
        bind_res (heap_slot heap parent_pos) (\<lambda>parent_node.
        if kvp_key target_node \<ge> kvp_key parent_node then Inr heap
        else move_up (heap_swap heap target_pos parent_pos) parent_pos))
      else Inr heap)"
  by pat_completeness auto
termination
  by (relation "measure snd") (auto simp: parent_def)

definition binary_heap_add :: "'v binary_heap_t \<Rightarrow> int \<Rightarrow> 'v \<Rightarrow> 'v binary_heap_t res" where
  "binary_heap_add heap k v =
     (let heap = ensure_space heap (used heap + 1) in
      if used heap < length (array heap)
      then bind_res
             (move_up (heap\<lparr>array := (array heap)[used heap := Some (kvp_new k v)]\<rparr>) (used heap))
             (\<lambda>heap. Inr (heap\<lparr>used := used heap + 1\<rparr>))
      else Inl OutOfBounds)"

function move_down :: "'v binary_heap_t \<Rightarrow> nat \<Rightarrow> 'v binary_heap_t res" where
  "move_down heap target_pos =
     (if target_pos < used heap div 2
      then
        bind_res (heap_slot heap target_pos) (\<lambda>target_node.
        let child_left_pos = left_child target_pos in
        bind_res (heap_slot heap child_left_pos) (\<lambda>child_left_node.
        let child_right_pos = right_child target_pos in
        bind_res (heap_slot heap child_right_pos) (\<lambda>child_right_node.
        let (child_pos, child_node) =
          (if child_left_pos > used heap - 1 \<or> kvp_key child_left_node > kvp_key child_right_node
           then (child_right_pos, child_right_node)
           else (child_left_pos, child_left_node)) in
        if kvp_key target_node \<le> kvp_key child_node then Inr heap
        else move_down (heap_swap heap target_pos child_pos) child_pos)))
      else Inr heap)"
  by pat_completeness auto
termination
  by (relation "measure (\<lambda>(heap, pos). used heap - pos)")
    (auto simp: left_child_def right_child_def heap_swap_def split: if_splits)

definition binary_heap_trypop ::
  "'v binary_heap_t \<Rightarrow> ((int \<times> 'v) option \<times> 'v binary_heap_t) res" where
  "binary_heap_trypop heap =
     (if used heap > 0
      then
        bind_res (heap_slot heap 0) (\<lambda>target_node.
        let result = Some (kvp_key target_node, kvp_value target_node);
            heap = heap\<lparr>used := used heap - 1\<rparr> in
        if used heap > 0
        then bind_res (heap_slot heap (used heap)) (\<lambda>last_node.
             bind_res (move_down (heap\<lparr>array := (array heap)[0 := Some last_node]\<rparr>) 0)
               (\<lambda>heap. Inr (result, heap)))
        else Inr (result, heap))
      else Inr (None, heap))"

declare move_up.simps [simp del] move_down.simps [simp del]

section \<open>The heap order, on key functions\<close>

text \<open>
  The order is stated on the key at each position, \<open>k :: nat \<Rightarrow> int\<close>, for the first \<open>n\<close>
  positions. \<open>heap_up\<close> and \<open>heap_down\<close> are the order except at the node that is being
  moved up or down.
\<close>

definition heap_order :: "(nat \<Rightarrow> int) \<Rightarrow> nat \<Rightarrow> bool" where
  "heap_order k n \<longleftrightarrow> (\<forall>j. 0 < j \<and> j < n \<longrightarrow> k (parent j) \<le> k j)"

definition heap_up :: "(nat \<Rightarrow> int) \<Rightarrow> nat \<Rightarrow> nat \<Rightarrow> bool" where
  "heap_up k n p \<longleftrightarrow>
     (\<forall>j. 0 < j \<and> j < n \<and> j \<noteq> p \<longrightarrow> k (parent j) \<le> k j) \<and>
     (\<forall>j. 0 < p \<and> 0 < j \<and> j < n \<and> parent j = p \<longrightarrow> k (parent p) \<le> k j)"

definition heap_down :: "(nat \<Rightarrow> int) \<Rightarrow> nat \<Rightarrow> nat \<Rightarrow> bool" where
  "heap_down k n p \<longleftrightarrow>
     (\<forall>j. 0 < j \<and> j < n \<and> parent j \<noteq> p \<longrightarrow> k (parent j) \<le> k j) \<and>
     (\<forall>j. 0 < p \<and> 0 < j \<and> j < n \<and> parent j = p \<longrightarrow> k (parent p) \<le> k j)"

definition swap_keys :: "(nat \<Rightarrow> int) \<Rightarrow> nat \<Rightarrow> nat \<Rightarrow> nat \<Rightarrow> int" where
  "swap_keys k i j = k(i := k j, j := k i)"

lemma parent_less: "0 < p \<Longrightarrow> parent p < p"
  by (auto simp: parent_def)

lemma parent_child:
  "parent j = p \<Longrightarrow> 0 < j \<Longrightarrow> j = left_child p \<or> j = right_child p"
  by (auto simp: parent_def left_child_def right_child_def)

lemma child_parent [simp]:
  "parent (left_child p) = p" "parent (right_child p) = p"
  by (simp_all add: parent_def left_child_def right_child_def)

lemma child_greater [simp]:
  "p < left_child p" "p < right_child p" "0 < left_child p" "0 < right_child p"
  "left_child p \<noteq> right_child p" "right_child p \<noteq> left_child p"
  by (simp_all add: left_child_def right_child_def)

lemma heap_up_root: "heap_up k n 0 \<Longrightarrow> heap_order k n"
  by (auto simp: heap_up_def heap_order_def)

lemma heap_up_done: "heap_up k n p \<Longrightarrow> k (parent p) \<le> k p \<Longrightarrow> heap_order k n"
  by (auto simp: heap_up_def heap_order_def)

lemma heap_up_step:
  assumes up: "heap_up k n p" and p: "0 < p" "p < n" and less: "k p < k (parent p)"
  shows "heap_up (swap_keys k p (parent p)) n (parent p)"
proof -
  let ?q = "parent p"
  have q: "?q < p" using p by (rule_tac parent_less)
  have A: "swap_keys k p ?q (parent j) \<le> swap_keys k p ?q j"
    if j: "0 < j" "j < n" "j \<noteq> ?q" for j
  proof (cases "j = p")
    case True
    then show ?thesis using q less by (simp add: swap_keys_def)
  next
    case False
    with j up have "k (parent j) \<le> k j" by (simp add: heap_up_def)
    moreover have "parent j = p \<Longrightarrow> k ?q \<le> k j" using j p up by (simp add: heap_up_def)
    ultimately show ?thesis using False j q less by (auto simp: swap_keys_def)
  qed
  have B: "swap_keys k p ?q (parent ?q) \<le> swap_keys k p ?q j"
    if j: "0 < ?q" "0 < j" "j < n" "parent j = ?q" for j
  proof -
    have qq: "parent ?q < ?q" using j(1) by (rule parent_less)
    have top: "k (parent ?q) \<le> k ?q" using up j(1) q p by (simp add: heap_up_def)
    show ?thesis
    proof (cases "j = p")
      case True
      then show ?thesis using q qq top by (simp add: swap_keys_def)
    next
      case False
      have "j \<noteq> ?q" using j parent_less [of j] by auto
      moreover have "k ?q \<le> k j" using False j up by (auto simp: heap_up_def)
      ultimately show ?thesis using False q qq top by (simp add: swap_keys_def)
    qed
  qed
  from A B show ?thesis unfolding heap_up_def by blast
qed

lemma heap_down_done:
  assumes "heap_down k n p"
    and "left_child p < n \<Longrightarrow> k p \<le> k (left_child p)"
    and "right_child p < n \<Longrightarrow> k p \<le> k (right_child p)"
  shows "heap_order k n"
  unfolding heap_order_def
proof (intro allI impI)
  fix j assume j: "0 < j \<and> j < n"
  show "k (parent j) \<le> k j"
  proof (cases "parent j = p")
    case True
    with j parent_child [of j p] assms(2,3) show ?thesis by auto
  next
    case False
    with j assms(1) show ?thesis by (auto simp: heap_down_def)
  qed
qed

lemma heap_down_step:
  assumes dn: "heap_down k n p" and c: "c = left_child p \<or> c = right_child p" "c < n"
    and less: "k c < k p"
    and least: "\<And>d. d < n \<Longrightarrow> d = left_child p \<or> d = right_child p \<Longrightarrow> k c \<le> k d"
  shows "heap_down (swap_keys k p c) n c"
proof -
  have pc: "parent c = p" "p < c" "0 < c" using c by auto
  have A: "swap_keys k p c (parent j) \<le> swap_keys k p c j"
    if j: "0 < j" "j < n" "parent j \<noteq> c" for j
  proof (cases "parent j = p")
    case True
    with j have d: "j = left_child p \<or> j = right_child p" using parent_child by auto
    show ?thesis using True j d pc less least [of j] by (auto simp: swap_keys_def)
  next
    case False
    with j dn have "k (parent j) \<le> k j" by (simp add: heap_down_def)
    moreover have "j \<noteq> c" using False pc by auto
    moreover have "j = p \<Longrightarrow> k (parent j) \<le> k c" using dn j pc c by (auto simp: heap_down_def)
    ultimately show ?thesis using False j by (auto simp: swap_keys_def)
  qed
  have B: "swap_keys k p c (parent c) \<le> swap_keys k p c j"
    if j: "0 < j" "j < n" "parent j = c" for j
  proof -
    have "k c \<le> k j" using dn j pc by (auto simp: heap_down_def)
    moreover have "j \<noteq> p" "j \<noteq> c" using j pc parent_less [of j] by auto
    ultimately show ?thesis using pc by (simp add: swap_keys_def)
  qed
  from A B show ?thesis unfolding heap_down_def by blast
qed

lemma heap_order_min: "heap_order k n \<Longrightarrow> j < n \<Longrightarrow> k 0 \<le> k j"
proof (induction j rule: less_induct)
  case (less j)
  show ?case
  proof (cases "j = 0")
    case False
    then have "parent j < j" by (simp add: parent_less)
    with less have "k 0 \<le> k (parent j)" by simp
    also have "\<dots> \<le> k j" using less.prems False by (auto simp: heap_order_def)
    finally show ?thesis .
  qed simp
qed

section \<open>The representation invariant\<close>

definition key_at :: "'v binary_heap_t \<Rightarrow> nat \<Rightarrow> int" where
  "key_at heap i = kvp_key (the (array heap ! i))"

text \<open>The first \<open>n\<close> slots exist and hold nodes.\<close>

definition slots_valid :: "'v binary_heap_t \<Rightarrow> nat \<Rightarrow> bool" where
  "slots_valid heap n \<longleftrightarrow> n \<le> length (array heap) \<and> (\<forall>i<n. array heap ! i \<noteq> None)"

definition heap_inv :: "'v binary_heap_t \<Rightarrow> bool" where
  "heap_inv heap \<longleftrightarrow>
     allocated heap = length (array heap) \<and> slots_valid heap (used heap) \<and>
     heap_order (key_at heap) (used heap)"

definition node_pair :: "'v kvp_t option \<Rightarrow> int \<times> 'v" where
  "node_pair n = (kvp_key (the n), kvp_value (the n))"

definition heap_contents :: "'v binary_heap_t \<Rightarrow> (int \<times> 'v) multiset" where
  "heap_contents heap = image_mset node_pair (mset (take (used heap) (array heap)))"

lemma heap_swap_simps [simp]:
  "used (heap_swap heap i j) = used heap" "allocated (heap_swap heap i j) = allocated heap"
  "length (array (heap_swap heap i j)) = length (array heap)"
  by (simp_all add: heap_swap_def)

lemma slot_valid [simp]:
  "slots_valid heap n \<Longrightarrow> i < n \<Longrightarrow> heap_slot heap i = Inr (the (array heap ! i))"
  by (auto simp: heap_slot_def slots_valid_def split: option.splits)

lemma slots_valid_swap:
  "slots_valid heap n \<Longrightarrow> i < n \<Longrightarrow> j < n \<Longrightarrow> slots_valid (heap_swap heap i j) n"
  by (auto simp: slots_valid_def heap_swap_def nth_swap_slots)

lemma key_at_swap:
  "slots_valid heap n \<Longrightarrow> i < n \<Longrightarrow> j < n \<Longrightarrow>
   key_at (heap_swap heap i j) = swap_keys (key_at heap) i j"
  by (auto simp: key_at_def heap_swap_def nth_swap_slots swap_keys_def slots_valid_def)

text \<open>
  What moving a node may do to the array: permute the first \<open>n\<close> slots and nothing else.
\<close>

definition same_nodes :: "nat \<Rightarrow> 'v binary_heap_t \<Rightarrow> 'v binary_heap_t \<Rightarrow> bool" where
  "same_nodes n heap heap' \<longleftrightarrow>
     used heap' = used heap \<and> allocated heap' = allocated heap \<and>
     length (array heap') = length (array heap) \<and>
     mset (take n (array heap')) = mset (take n (array heap)) \<and>
     drop n (array heap') = drop n (array heap)"

lemma same_nodes_refl [simp]: "same_nodes n heap heap"
  by (simp add: same_nodes_def)

lemma same_nodes_trans [trans]:
  "same_nodes n a b \<Longrightarrow> same_nodes n b c \<Longrightarrow> same_nodes n a c"
  by (simp add: same_nodes_def)

lemma same_nodes_swap:
  "slots_valid heap n \<Longrightarrow> i < n \<Longrightarrow> j < n \<Longrightarrow> same_nodes n heap (heap_swap heap i j)"
  by (simp add: same_nodes_def heap_swap_def slots_valid_def take_swap_slots mset_swap_slots
      drop_swap_slots)

lemma slots_valid_same:
  assumes "same_nodes n heap heap'" "slots_valid heap n"
  shows "slots_valid heap' n"
proof -
  have "set (take n (array heap')) = set (take n (array heap))"
    using assms(1) by (metis same_nodes_def set_mset_mset)
  moreover have "None \<notin> set (take n (array heap))"
    using assms(2) by (auto simp: slots_valid_def in_set_conv_nth)
  ultimately have "None \<notin> set (take n (array heap'))" by simp
  moreover have "n \<le> length (array heap')" using assms by (simp add: same_nodes_def slots_valid_def)
  ultimately show ?thesis
    by (metis length_take min.absorb2 nth_mem nth_take slots_valid_def)
qed

section \<open>move\_up and move\_down are total and restore the order\<close>

lemma move_up_correct:
  assumes "slots_valid heap n" "p < n" "heap_up (key_at heap) n p"
  shows "\<exists>heap'. move_up heap p = Inr heap' \<and> same_nodes n heap heap' \<and>
           heap_order (key_at heap') n"
  using assms
proof (induction heap p rule: move_up.induct)
  case (1 heap p)
  show ?case
  proof (cases "0 < p")
    case False
    then show ?thesis
      using "1.prems" heap_up_root [of "key_at heap" n] by (simp add: move_up.simps [of heap 0])
  next
    case True
    then have q: "parent p < p" "parent p < n" using "1.prems"(2) parent_less [of p] by auto
    show ?thesis
    proof (cases "key_at heap p \<ge> key_at heap (parent p)")
      case ge: True
      then show ?thesis
        using True "1.prems" q
        by (auto simp: move_up.simps [of heap p] key_at_def Let_def intro: heap_up_done)
    next
      case less: False
      let ?h = "heap_swap heap p (parent p)"
      have "move_up heap p = move_up ?h (parent p)"
        using True "1.prems" q less by (simp add: move_up.simps [of heap p] key_at_def Let_def)
      moreover have "\<exists>heap'. move_up ?h (parent p) = Inr heap' \<and> same_nodes n ?h heap' \<and>
             heap_order (key_at heap') n"
      proof (rule "1.IH" [OF True _ refl])
        show "heap_slot heap p = Inr (the (array heap ! p))"
          "heap_slot heap (parent p) = Inr (the (array heap ! parent p))"
          using "1.prems" q by simp_all
        show "\<not> kvp_key (the (array heap ! parent p)) \<le> kvp_key (the (array heap ! p))"
          using less by (simp add: key_at_def)
        show "slots_valid ?h n" using "1.prems" q by (simp add: slots_valid_swap)
        show "heap_up (key_at ?h) n (parent p)"
          using "1.prems" q less True by (simp add: key_at_swap heap_up_step)
      qed (rule q(2))
      ultimately show ?thesis
        using same_nodes_swap [OF "1.prems"(1) "1.prems"(2) q(2)] same_nodes_trans by metis
    qed
  qed
qed

text \<open>
  \<^verbatim>\<open>move_down\<close> reads the slot of the right child even when only the left child is inside the
  heap; that slot is then the one just behind the last used one. \<^verbatim>\<open>binary_heap_trypop\<close> leaves
  the node that is being moved down in exactly that slot, which is why the comparison with it
  never selects it: this is the third hypothesis below.
\<close>

lemma move_down_correct:
  assumes "slots_valid heap (Suc n)" "p < n" "key_at heap n = key_at heap p"
    "used heap = n" "heap_down (key_at heap) n p"
  shows "\<exists>heap'. move_down heap p = Inr heap' \<and> same_nodes n heap heap' \<and>
           heap_order (key_at heap') n"
  using assms
proof (induction heap p rule: move_down.induct)
  case (1 heap p)
  let ?l = "left_child p" and ?r = "right_child p" and ?k = "key_at heap"
  show ?case
  proof (cases "p < n div 2")
    case False
    then have "\<not> ?l < n" "\<not> ?r < n" by (auto simp: left_child_def right_child_def)
    then show ?thesis using False "1.prems" heap_down_done [of ?k n p]
      by (auto simp: move_down.simps [of heap p])
  next
    case True
    then have l: "?l < n" and r: "?r \<le> n" by (auto simp: left_child_def right_child_def)
    have valid: "slots_valid heap n" using "1.prems"(1) by (auto simp: slots_valid_def)
    define c where "c = (if ?k ?l > ?k ?r then ?r else ?l)"
    have slots: "heap_slot heap p = Inr (the (array heap ! p))"
        "heap_slot heap ?l = Inr (the (array heap ! ?l))"
        "heap_slot heap ?r = Inr (the (array heap ! ?r))"
      using slot_valid [OF "1.prems"(1)] "1.prems"(2) l r by (auto simp del: slot_valid)
    have step: "move_down heap p = (if ?k p \<le> ?k c then Inr heap else move_down (heap_swap heap p c) c)"
      using True l "1.prems"(4)
      by (auto simp: move_down.simps [of heap p] slots c_def key_at_def Let_def)
    show ?thesis
    proof (cases "?k p \<le> ?k c")
      case True
      then have "heap_order ?k n"
        using "1.prems"(5) by (intro heap_down_done [of ?k n p]) (auto simp: c_def split: if_splits)
      then show ?thesis using step True by auto
    next
      case False
      have "c \<noteq> n" using False l "1.prems"(3) by auto
      then have cn: "c < n" "c \<noteq> n" using l r by (auto simp: c_def)
      have cc: "c = ?l \<or> c = ?r" by (simp add: c_def)
      have least: "?k c \<le> ?k d" if "d < n" "d = ?l \<or> d = ?r" for d
        using that by (auto simp: c_def)
      let ?h = "heap_swap heap p c"
      have dn: "heap_down (swap_keys ?k p c) n c"
        using False by (intro heap_down_step [OF "1.prems"(5) cc cn(1) _ least]) auto
      have pos: "p < Suc n" "c < Suc n" "n < Suc n" using cn "1.prems"(2) by auto
      have keys: "key_at ?h = swap_keys ?k p c"
        by (rule key_at_swap [OF "1.prems"(1) pos(1,2)])
      have valid': "slots_valid ?h (Suc n)"
        by (rule slots_valid_swap [OF "1.prems"(1) pos(1,2)])
      have last: "key_at ?h n = key_at ?h c"
        using cn "1.prems"(2,3) by (auto simp: keys swap_keys_def)
      have "\<exists>heap'. move_down ?h c = Inr heap' \<and> same_nodes n ?h heap' \<and> heap_order (key_at heap') n"
      proof (rule "1.IH" [of "the (array heap ! p)" ?l "the (array heap ! ?l)" ?r
            "the (array heap ! ?r)" "(c, the (array heap ! c))" c "the (array heap ! c)"])
        show "(c, the (array heap ! c)) =
          (if used heap - 1 < ?l \<or> kvp_key (the (array heap ! ?r)) < kvp_key (the (array heap ! ?l))
           then (?r, the (array heap ! ?r)) else (?l, the (array heap ! ?l)))"
          using l "1.prems"(4) by (auto simp: c_def key_at_def)
        show "\<not> kvp_key (the (array heap ! p)) \<le> kvp_key (the (array heap ! c))"
          using False by (simp add: key_at_def)
      qed (use slots \<open>p < n div 2\<close> "1.prems"(4) cn valid' last dn keys in auto)
      then show ?thesis
        using step False same_nodes_trans [OF same_nodes_swap [OF valid "1.prems"(2) cn(1)]] by auto
    qed
  qed
qed

section \<open>Adding and popping\<close>

lemma ensure_space_simps [simp]:
  "used (ensure_space heap n) = used heap"
  by (simp add: ensure_space_def Let_def)

lemma ensure_space_length:
  "allocated heap = length (array heap) \<Longrightarrow>
   allocated (ensure_space heap n) = length (array (ensure_space heap n)) \<and>
   n \<le> length (array (ensure_space heap n))"
  by (auto simp: ensure_space_def Let_def)

lemma ensure_space_prefix:
  "m \<le> length (array heap) \<Longrightarrow> take m (array (ensure_space heap n)) = take m (array heap)"
  by (simp add: ensure_space_def Let_def)

lemma heap_order_cong:
  "(\<And>i. i < n \<Longrightarrow> k i = k' i) \<Longrightarrow> heap_order k n = heap_order k' n"
  by (auto simp: heap_order_def) (metis order_less_trans parent_less)+

lemma heap_up_last:
  "heap_order k n \<Longrightarrow> (\<And>i. i < n \<Longrightarrow> k' i = k i) \<Longrightarrow> heap_up k' (Suc n) n"
  unfolding heap_up_def heap_order_def
  by (metis less_SucE less_irrefl less_trans not_less_eq parent_less)

lemma heap_down_root:
  assumes "heap_order k (Suc n)" "\<And>i. 0 < i \<Longrightarrow> i < n \<Longrightarrow> k' i = k i"
  shows "heap_down k' n 0"
  unfolding heap_down_def
proof (intro conjI allI impI)
  fix j assume j: "0 < j \<and> j < n \<and> parent j \<noteq> 0"
  then have "parent j < n" using parent_less [of j] by simp
  with j assms show "k' (parent j) \<le> k' j" by (auto simp: heap_order_def)
qed auto

lemma binary_heap_add_correct:
  assumes "heap_inv heap"
  shows "\<exists>heap'. binary_heap_add heap k v = Inr heap' \<and> heap_inv heap' \<and>
           heap_contents heap' = add_mset (k, v) (heap_contents heap)"
proof -
  define n where "n = used heap"
  define h where "h = ensure_space heap (n + 1)"
  define h1 where "h1 = h\<lparr>array := (array h)[n := Some (kvp_new k v)]\<rparr>"
  have len: "allocated h = length (array h)" "n + 1 \<le> length (array h)"
    using assms ensure_space_length [of heap "n + 1"] by (auto simp: heap_inv_def h_def)
  have valid0: "slots_valid heap n" and order0: "heap_order (key_at heap) n"
    using assms by (auto simp: heap_inv_def n_def)
  have take_h: "take n (array h) = take n (array heap)"
    using valid0 by (simp add: h_def ensure_space_prefix slots_valid_def)
  have nth_h: "array h ! i = array heap ! i" if "i < n" for i
    using take_h that by (metis nth_take)
  have take_h1: "take (Suc n) (array h1) = take n (array heap) @ [Some (kvp_new k v)]"
    using len take_h by (simp add: h1_def take_Suc_conv_app_nth)
  have valid1: "slots_valid h1 (Suc n)"
    using valid0 len nth_h by (auto simp: slots_valid_def h1_def nth_list_update less_Suc_eq)
  have "heap_up (key_at h1) (Suc n) n"
    by (rule heap_up_last [OF order0]) (simp add: key_at_def h1_def nth_h)
  then obtain h2 where h2: "move_up h1 n = Inr h2" "same_nodes (Suc n) h1 h2"
      "heap_order (key_at h2) (Suc n)"
    using move_up_correct [OF valid1] by auto
  have add: "binary_heap_add heap k v = Inr (h2\<lparr>used := Suc n\<rparr>)"
    using h2(1,2) len
    by (simp add: binary_heap_add_def Let_def h_def h1_def n_def same_nodes_def)
  have sv2: "slots_valid h2 (Suc n)" by (rule slots_valid_same [OF h2(2) valid1])
  have inv: "heap_inv (h2\<lparr>used := Suc n\<rparr>)"
    using h2(2,3) sv2 len
    by (simp add: heap_inv_def same_nodes_def h1_def slots_valid_def key_at_def [abs_def])
  have "heap_contents (h2\<lparr>used := Suc n\<rparr>) = add_mset (k, v) (heap_contents heap)"
    using h2(2) take_h1
    by (simp add: heap_contents_def same_nodes_def n_def node_pair_def kvp_new_def)
  with add inv show ?thesis by blast
qed

lemma heap_contents_empty: "heap_inv heap \<Longrightarrow> heap_contents heap = {#} \<longleftrightarrow> used heap = 0"
  by (auto simp: heap_contents_def heap_inv_def slots_valid_def)

lemma heap_contents_min:
  assumes "heap_inv heap" "(k, v) \<in># heap_contents heap"
  shows "key_at heap 0 \<le> k"
proof -
  have n: "used heap \<le> length (array heap)" using assms(1) by (simp add: heap_inv_def slots_valid_def)
  from assms(2) obtain i where "i < used heap" "node_pair (array heap ! i) = (k, v)"
    by (auto simp: heap_contents_def in_set_conv_nth)
  then show ?thesis
    using assms(1) heap_order_min [of "key_at heap" "used heap" i]
    by (auto simp: heap_inv_def key_at_def node_pair_def)
qed

text \<open>Taking the root out and putting the last node in its place.\<close>

lemma mset_move_last:
  assumes "Suc n \<le> length xs" "0 < n"
  shows "mset (take (Suc n) xs) = add_mset (xs ! 0) (mset (take n (xs[0 := xs ! n])))"
proof -
  obtain x ys where xs: "xs = x # ys" using assms by (cases xs) auto
  obtain m where n: "n = Suc m" using assms by (cases n) auto
  show ?thesis using assms unfolding xs n by (simp add: take_Suc_conv_app_nth)
qed

lemma binary_heap_trypop_correct:
  assumes inv: "heap_inv heap" and ne: "used heap > 0"
  shows "\<exists>k v heap'. binary_heap_trypop heap = Inr (Some (k, v), heap') \<and> heap_inv heap' \<and>
           heap_contents heap = add_mset (k, v) (heap_contents heap') \<and>
           (\<forall>(k', v') \<in># heap_contents heap. k \<le> k')"
proof -
  define n where "n = used heap - 1"
  have n: "used heap = Suc n" using ne by (simp add: n_def)
  have valid: "slots_valid heap (Suc n)" and order: "heap_order (key_at heap) (Suc n)"
    using inv n by (auto simp: heap_inv_def)
  define r where "r = the (array heap ! 0)"
  have slot0: "heap_slot heap 0 = Inr r" using valid by (simp add: r_def)
  have least: "\<forall>(k', v') \<in># heap_contents heap. kvp_key r \<le> k'"
    using heap_contents_min [OF inv] by (auto simp: key_at_def r_def)
  have "\<exists>heap'. binary_heap_trypop heap = Inr (Some (kvp_key r, kvp_value r), heap') \<and>
      heap_inv heap' \<and>
      heap_contents heap = add_mset (kvp_key r, kvp_value r) (heap_contents heap')"
  proof (cases "n = 0")
    case True
    have "binary_heap_trypop heap = Inr (Some (kvp_key r, kvp_value r), heap\<lparr>used := 0\<rparr>)"
      using n True slot0 by (simp add: binary_heap_trypop_def Let_def)
    moreover have "heap_inv (heap\<lparr>used := 0\<rparr>)"
      using inv by (simp add: heap_inv_def slots_valid_def heap_order_def)
    moreover have "heap_contents heap = add_mset (kvp_key r, kvp_value r) (heap_contents (heap\<lparr>used := 0\<rparr>))"
      using valid n True
      by (cases "array heap") (auto simp: heap_contents_def slots_valid_def node_pair_def r_def)
    ultimately show ?thesis by blast
  next
    case False
    define h where "h = heap\<lparr>used := n, array := (array heap)[0 := array heap ! n]\<rparr>"
    have len: "Suc n \<le> length (array heap)" using valid by (simp add: slots_valid_def)
    have nonempty: "array heap \<noteq> []" using len by auto
    have last: "Some (the (array heap ! n)) = array heap ! n"
      using valid by (auto simp: slots_valid_def)
    have slotn: "heap_slot (heap\<lparr>used := n\<rparr>) n = Inr (the (array heap ! n))"
      using slot_valid [of "heap\<lparr>used := n\<rparr>" "Suc n" n] valid by (simp add: slots_valid_def)
    have hv: "slots_valid h (Suc n)"
      unfolding slots_valid_def
    proof (intro conjI allI impI)
      show "Suc n \<le> length (array h)" using len by (simp add: h_def)
      fix i assume "i < Suc n"
      with nonempty show "array h ! i \<noteq> None"
        using valid by (cases i) (auto simp: slots_valid_def h_def)
    qed
    have "heap_down (key_at h) n 0"
      by (rule heap_down_root [OF order]) (simp add: key_at_def h_def)
    moreover have "key_at h n = key_at h 0" using False nonempty by (simp add: key_at_def h_def)
    ultimately obtain h' where h': "move_down h 0 = Inr h'" "same_nodes n h h'"
        "heap_order (key_at h') n"
      using move_down_correct [OF hv] False by (auto simp: h_def)
    have used': "used h' = n" using h'(2) by (simp add: same_nodes_def h_def)
    have "binary_heap_trypop heap = Inr (Some (kvp_key r, kvp_value r), h')"
      using n False slot0 h'(1) last slotn
      by (simp add: binary_heap_trypop_def Let_def h_def)
    moreover have "heap_inv h'"
      using h' used' inv slots_valid_same [OF h'(2)] hv
      by (simp add: heap_inv_def same_nodes_def h_def slots_valid_def)
    moreover have "heap_contents heap = add_mset (kvp_key r, kvp_value r) (heap_contents h')"
      using h'(2) used' n mset_move_last [OF len] False
      by (simp add: heap_contents_def same_nodes_def h_def node_pair_def r_def)
    ultimately show ?thesis by blast
  qed
  with least show ?thesis by blast
qed

section \<open>The priority-queue interface\<close>

text \<open>
  Popping until the queue reports that it is empty, as \<^verbatim>\<open>chunks_empty\<close> of the downloader does:
  the popped elements in order and the queue that is left, or \<open>None\<close> when \<open>fuel\<close> pops were
  not enough.
\<close>

fun pop_all ::
  "('q \<Rightarrow> ((int \<times> 'v) option \<times> 'q) res) \<Rightarrow> nat \<Rightarrow> 'q \<Rightarrow> ((int \<times> 'v) list \<times> 'q) res option" where
  "pop_all pop 0 q = None"
| "pop_all pop (Suc fuel) q =
     (case pop q of
        Inl e \<Rightarrow> Some (Inl e)
      | Inr (None, q') \<Rightarrow> Some (Inr ([], q'))
      | Inr (Some x, q') \<Rightarrow>
          map_option (\<lambda>r. bind_res r (\<lambda>(xs, q''). Inr (x # xs, q''))) (pop_all pop fuel q'))"

text \<open>
  What a client of the queue may rely on: the queue is a multiset of key-value pairs, adding
  never fails, and popping takes out a pair with the least key.
\<close>

locale pri_queue =
  fixes new :: 'q
    and add :: "'q \<Rightarrow> int \<Rightarrow> 'v \<Rightarrow> 'q res"
    and trypop :: "'q \<Rightarrow> ((int \<times> 'v) option \<times> 'q) res"
    and invar :: "'q \<Rightarrow> bool"
    and contents :: "'q \<Rightarrow> (int \<times> 'v) multiset"
  assumes new_invar: "invar new"
    and new_contents: "contents new = {#}"
    and add_total: "invar q \<Longrightarrow>
      \<exists>q'. add q k v = Inr q' \<and> invar q' \<and> contents q' = add_mset (k, v) (contents q)"
    and trypop_empty: "invar q \<Longrightarrow> contents q = {#} \<Longrightarrow> trypop q = Inr (None, q)"
    and trypop_least: "invar q \<Longrightarrow> contents q \<noteq> {#} \<Longrightarrow>
      \<exists>k v q'. trypop q = Inr (Some (k, v), q') \<and> invar q' \<and>
        contents q = add_mset (k, v) (contents q') \<and> (\<forall>(k', v') \<in># contents q. k \<le> k')"
begin

lemma add_all_total:
  "invar q \<Longrightarrow>
   \<exists>q'. fold_res (\<lambda>(k, v) q. add q k v) kvs q = Inr q' \<and> invar q' \<and>
        contents q' = contents q + mset kvs"
proof (induction kvs arbitrary: q)
  case Nil
  then show ?case by simp
next
  case (Cons kv kvs)
  obtain k v where kv: "kv = (k, v)" by force
  from add_total [OF Cons.prems, of k v] obtain q1 where
    q1: "add q k v = Inr q1" "invar q1" "contents q1 = add_mset (k, v) (contents q)" by blast
  from Cons.IH [OF q1(2)] q1 kv show ?case by auto
qed

lemma pop_all_sorted:
  "invar q \<Longrightarrow> size (contents q) < fuel \<Longrightarrow>
   \<exists>xs q'. pop_all trypop fuel q = Some (Inr (xs, q')) \<and> mset xs = contents q \<and>
     sorted (map fst xs) \<and> invar q' \<and> contents q' = {#}"
proof (induction fuel arbitrary: q)
  case 0
  then show ?case by simp
next
  case (Suc fuel)
  show ?case
  proof (cases "contents q = {#}")
    case True
    with Suc.prems trypop_empty [of q] show ?thesis by simp
  next
    case False
    from trypop_least [OF Suc.prems(1) False] obtain k v q1 where
      q1: "trypop q = Inr (Some (k, v), q1)" "invar q1"
        "contents q = add_mset (k, v) (contents q1)" "\<forall>(k', v') \<in># contents q. k \<le> k'" by blast
    from Suc.IH [OF q1(2)] Suc.prems(2) q1(3) obtain xs q2 where
      q2: "pop_all trypop fuel q1 = Some (Inr (xs, q2))" "mset xs = contents q1"
        "sorted (map fst xs)" "invar q2" "contents q2 = {#}" by auto
    have "\<forall>x \<in> set xs. k \<le> fst x"
      using q1(3,4) q2(2) by (metis (mono_tags, lifting) case_prod_beta set_mset_mset union_iff
          add_mset_add_single)
    with q1 q2 show ?thesis by auto
  qed
qed

end

text \<open>The heap of \<^verbatim>\<open>binary_heap.c\<close> is such a queue.\<close>

interpretation heap_pq: pri_queue binary_heap_new binary_heap_add binary_heap_trypop heap_inv heap_contents
proof unfold_locales
  show "heap_inv binary_heap_new"
    by (simp add: heap_inv_def binary_heap_new_def slots_valid_def heap_order_def)
  show "heap_contents binary_heap_new = {#}"
    by (simp add: heap_contents_def binary_heap_new_def)
next
  fix q :: "'v binary_heap_t" and k v
  assume "heap_inv q"
  then show "\<exists>q'. binary_heap_add q k v = Inr q' \<and> heap_inv q' \<and>
      heap_contents q' = add_mset (k, v) (heap_contents q)"
    by (rule binary_heap_add_correct)
next
  fix q :: "'v binary_heap_t"
  assume "heap_inv q" "heap_contents q = {#}"
  then show "binary_heap_trypop q = Inr (None, q)"
    by (simp add: heap_contents_empty binary_heap_trypop_def)
next
  fix q :: "'v binary_heap_t"
  assume "heap_inv q" "heap_contents q \<noteq> {#}"
  then show "\<exists>k v q'. binary_heap_trypop q = Inr (Some (k, v), q') \<and> heap_inv q' \<and>
      heap_contents q = add_mset (k, v) (heap_contents q') \<and>
      (\<forall>(k', v') \<in># heap_contents q. k \<le> k')"
    by (intro binary_heap_trypop_correct) (simp_all add: heap_contents_empty)
qed

section \<open>Histories of the heap\<close>

text \<open>
  A client's calls, one after the other, with the pairs \<^verbatim>\<open>binary_heap_trypop\<close> returns, and the
  abstract queue they are compared with: \<open>pq_trace q ops outs q'\<close> says that the operations
  \<open>ops\<close> lead from the multiset \<open>q\<close> to \<open>q'\<close> and return \<open>outs\<close>, each pop taking out some pair
  with the least key.
\<close>

datatype 'v heap_op = Add int 'v | Pop

fun run_heap ::
  "'v heap_op list \<Rightarrow> 'v binary_heap_t \<Rightarrow> ((int \<times> 'v) option list \<times> 'v binary_heap_t) res" where
  "run_heap [] heap = Inr ([], heap)"
| "run_heap (Add k v # ops) heap = bind_res (binary_heap_add heap k v) (run_heap ops)"
| "run_heap (Pop # ops) heap =
     bind_res (binary_heap_trypop heap) (\<lambda>(out, heap).
     bind_res (run_heap ops heap) (\<lambda>(outs, heap). Inr (out # outs, heap)))"

inductive pq_trace ::
  "(int \<times> 'v) multiset \<Rightarrow> 'v heap_op list \<Rightarrow> (int \<times> 'v) option list \<Rightarrow> (int \<times> 'v) multiset \<Rightarrow> bool"
where
  idle: "pq_trace q [] [] q"
| add: "pq_trace (add_mset (k, v) q) ops outs q' \<Longrightarrow> pq_trace q (Add k v # ops) outs q'"
| pop_empty: "pq_trace {#} ops outs q' \<Longrightarrow> pq_trace {#} (Pop # ops) (None # outs) q'"
| pop_least: "\<forall>(k', v') \<in># add_mset (k, v) q. k \<le> k' \<Longrightarrow> pq_trace q ops outs q' \<Longrightarrow>
    pq_trace (add_mset (k, v) q) (Pop # ops) (Some (k, v) # outs) q'"

lemma run_heap_refines:
  "heap_inv heap \<Longrightarrow>
   \<exists>outs heap'. run_heap ops heap = Inr (outs, heap') \<and> heap_inv heap' \<and>
     pq_trace (heap_contents heap) ops outs (heap_contents heap')"
proof (induction ops arbitrary: heap)
  case Nil
  then show ?case by (auto intro: pq_trace.idle)
next
  case (Cons op ops)
  show ?case
  proof (cases op)
    case (Add k v)
    from heap_pq.add_total [OF Cons.prems, of k v] obtain h where
      h: "binary_heap_add heap k v = Inr h" "heap_inv h"
        "heap_contents h = add_mset (k, v) (heap_contents heap)" by blast
    from Cons.IH [OF h(2)] h Add show ?thesis by (auto intro: pq_trace.add)
  next
    case Pop
    show ?thesis
    proof (cases "heap_contents heap = {#}")
      case True
      from heap_pq.trypop_empty [OF Cons.prems True] Cons.IH [OF Cons.prems] Pop True
      show ?thesis by (auto intro: pq_trace.pop_empty)
    next
      case False
      from heap_pq.trypop_least [OF Cons.prems False] obtain k v h where
        h: "binary_heap_trypop heap = Inr (Some (k, v), h)" "heap_inv h"
          "heap_contents heap = add_mset (k, v) (heap_contents h)"
          "\<forall>(k', v') \<in># heap_contents heap. k \<le> k'" by blast
      from Cons.IH [OF h(2)] h Pop show ?thesis
        by (auto simp del: set_mset_add_mset_insert intro!: pq_trace.pop_least)
    qed
  qed
qed

text \<open>C5. The heap is a priority queue (binary\_heap.c): whatever calls of \<^verbatim>\<open>binary_heap_add\<close> and
  \<^verbatim>\<open>binary_heap_trypop\<close> a client makes on a new heap, in any order, none of them reads outside
  the array, reads an uninitialised slot or fails an assertion, and the pairs returned are those
  of the abstract queue: null when it is empty, otherwise a pair with the least key.\<close>
theorem binary_heap_refines_queue:
  "\<exists>outs heap. run_heap ops binary_heap_new = Inr (outs, heap) \<and> heap_inv heap \<and>
     pq_trace {#} ops outs (heap_contents heap)"
  using run_heap_refines [OF heap_pq.new_invar, of ops] by (simp add: heap_pq.new_contents)

text \<open>Heap sort: adding any pairs to a new heap and popping until it reports empty (as the
  downloader's \<^verbatim>\<open>chunks_empty\<close> does) ends after one pop more than there are pairs, gives exactly
  the pairs that were added, in ascending order of their keys, and leaves a heap that
  \<^verbatim>\<open>binary_heap_delete\<close> accepts.\<close>
theorem binary_heap_sorts:
  "\<exists>heap xs heap'. fold_res (\<lambda>(k, v) heap. binary_heap_add heap k v) kvs binary_heap_new = Inr heap \<and>
     pop_all binary_heap_trypop (length kvs + 1) heap = Some (Inr (xs, heap')) \<and>
     mset xs = mset kvs \<and> sorted (map fst xs) \<and> binary_heap_delete heap' = Inr ()"
proof -
  from heap_pq.add_all_total [OF heap_pq.new_invar, of kvs] obtain h where
    h: "fold_res (\<lambda>(k, v) heap. binary_heap_add heap k v) kvs binary_heap_new = Inr h" "heap_inv h"
      "heap_contents h = mset kvs" by (auto simp: heap_pq.new_contents)
  then have "size (heap_contents h) < length kvs + 1" by simp
  from heap_pq.pop_all_sorted [OF h(2) this] obtain xs h' where
    h': "pop_all binary_heap_trypop (length kvs + 1) h = Some (Inr (xs, h'))"
      "mset xs = mset kvs" "sorted (map fst xs)" "heap_inv h'" "heap_contents h' = {#}"
    using h(3) by auto
  then have "binary_heap_delete h' = Inr ()"
    by (simp add: binary_heap_delete_def heap_contents_empty)
  with h h' show ?thesis by blast
qed

end
