(* ===== verification/Ref_Count.thy ===== *)
theory Ref_Count
  imports Prelude
begin

text \<open>
  The reference counts of \<^verbatim>\<open>src/src/ref_count.c\<close> and the life cycle they give to the objects
  that hold one. The count is a C \<^verbatim>\<open>unsigned\<close> (\<open>32 word\<close>). Each operation runs under the
  counter's own mutex, so it is one atomic step.

  Listings, direntries and indexnodes are all copied and deleted in the same way: copying
  increments the count, deleting decrements it and frees the object when the count reaches
  zero. An \<open>'a rc_store\<close> is the heap of one such class, from addresses to the object's counter
  (\<open>None\<close> for a null counter pointer) and its contents; a freed object is no longer there.
  The locale \<open>counted\<close> is the contract of such a class, from which the lemmas on whole lists of
  references follow once; each class interprets it.
\<close>

section \<open>ref\_count.c\<close>

record ref_count_t =
  ref_count :: "32 word"

definition ref_count_new :: ref_count_t where
  "ref_count_new = \<lparr>ref_count = 1\<rparr>"

definition ref_count_inc :: "ref_count_t \<Rightarrow> (32 word \<times> ref_count_t) res" where
  "ref_count_inc refc =
     bind_res (c_assert (ref_count refc \<noteq> 0)) (\<lambda>_.
     let count = ref_count refc + 1 in Inr (count, refc\<lparr>ref_count := count\<rparr>))"

definition ref_count_dec :: "ref_count_t \<Rightarrow> (32 word \<times> ref_count_t) res" where
  "ref_count_dec refc =
     bind_res (c_assert (ref_count refc \<noteq> 0)) (\<lambda>_.
     let count = ref_count refc - 1 in Inr (count, refc\<lparr>ref_count := count\<rparr>))"

section \<open>Objects with a reference count\<close>

type_synonym addr = nat
type_synonym 'a rc_store = "addr \<rightharpoonup> ref_count_t option \<times> 'a"

definition obj_get :: "addr \<Rightarrow> 'a rc_store \<Rightarrow> 'a res" where
  "obj_get a st = (case st a of None \<Rightarrow> Inl UseAfterFree | Some (rc, x) \<Rightarrow> Inr x)"

definition obj_put :: "addr \<Rightarrow> 'a \<Rightarrow> 'a rc_store \<Rightarrow> 'a rc_store res" where
  "obj_put a x st =
     (case st a of None \<Rightarrow> Inl UseAfterFree | Some (rc, _) \<Rightarrow> Inr (st(a \<mapsto> (rc, x))))"

definition obj_copy :: "addr \<Rightarrow> 'a rc_store \<Rightarrow> 'a rc_store res" where
  "obj_copy a st =
     (case st a of
        None \<Rightarrow> Inl UseAfterFree
      | Some (None, x) \<Rightarrow> Inl NullDeref
      | Some (Some rc, x) \<Rightarrow>
          bind_res (ref_count_inc rc) (\<lambda>(count, rc'). Inr (st(a \<mapsto> (Some rc', x)))))"

definition obj_delete :: "addr \<Rightarrow> 'a rc_store \<Rightarrow> 'a rc_store res" where
  "obj_delete a st =
     (case st a of
        None \<Rightarrow> Inl UseAfterFree
      | Some (None, x) \<Rightarrow> Inl NullDeref
      | Some (Some rc, x) \<Rightarrow>
          bind_res (ref_count_dec rc) (\<lambda>(count, rc').
          Inr (if count = 0 then st(a := None) else st(a \<mapsto> (Some rc', x)))))"

text \<open>The number of references to the object at an address (0: no object there).\<close>

definition refs :: "'a rc_store \<Rightarrow> addr \<Rightarrow> nat" where
  "refs st a = (case st a of Some (Some rc, x) \<Rightarrow> unat (ref_count rc) | _ \<Rightarrow> 0)"

definition contents_at :: "'a rc_store \<Rightarrow> addr \<Rightarrow> 'a option" where
  "contents_at st a = map_option snd (st a)"

abbreviation max_refs :: nat where "max_refs \<equiv> 2 ^ 32 - 1"

lemma unat_inc: "unat (c :: 32 word) < max_refs \<Longrightarrow> unat (c + 1) = unat c + 1"
  by (simp add: unat_word_ariths)

lemma unat_dec: "0 < unat (c :: 32 word) \<Longrightarrow> unat (c - 1) = unat c - 1"
  by (rule unat_minus_one) auto

lemma refs_update [simp]:
  "refs (st(a \<mapsto> (Some rc, x))) = (refs st)(a := unat (ref_count rc))"
  "refs (st(a := None)) = (refs st)(a := 0)"
  by (auto simp: refs_def)

lemma contents_at_update [simp]:
  "contents_at (st(a \<mapsto> (rc, x))) = (contents_at st)(a \<mapsto> x)"
  "contents_at (st(a := None)) = (contents_at st)(a := None)"
  by (auto simp: contents_at_def)

lemma contents_at_Some [simp]: "st a = Some (rc, x) \<Longrightarrow> contents_at st a = Some x"
  by (simp add: contents_at_def)

lemma refs_pos:
  "0 < refs st a \<longleftrightarrow> (\<exists>rc x. st a = Some (Some rc, x) \<and> ref_count rc \<noteq> 0)"
  by (auto simp: refs_def unat_gt_0 split: option.splits)

lemma obj_copy_refs:
  assumes "0 < refs st a" "refs st a < max_refs"
  shows "\<exists>st'. obj_copy a st = Inr st' \<and> refs st' = (refs st)(a := refs st a + 1) \<and>
           contents_at st' = contents_at st"
proof -
  from assms(1) obtain rc x where st: "st a = Some (Some rc, x)" "ref_count rc \<noteq> 0"
    by (auto simp: refs_pos)
  have "unat (ref_count rc + 1) = unat (ref_count rc) + 1"
    using assms(2) st by (intro unat_inc) (simp add: refs_def)
  moreover have "obj_copy a st = Inr (st(a \<mapsto> (Some (rc\<lparr>ref_count := ref_count rc + 1\<rparr>), x)))"
    using st by (simp add: obj_copy_def ref_count_inc_def Let_def)
  moreover have "refs st a = unat (ref_count rc)" using st by (simp add: refs_def)
  ultimately show ?thesis using st by (auto intro: fun_upd_idem)
qed

lemma obj_delete_refs:
  assumes "0 < refs st a"
  shows "\<exists>st'. obj_delete a st = Inr st' \<and> refs st' = (refs st)(a := refs st a - 1) \<and>
           (\<forall>b. 0 < refs st' b \<longrightarrow> contents_at st' b = contents_at st b)"
proof -
  from assms obtain rc x where st: "st a = Some (Some rc, x)" "ref_count rc \<noteq> 0"
    by (auto simp: refs_pos)
  then have "unat (ref_count rc - 1) = unat (ref_count rc) - 1"
    by (intro unat_dec) (simp add: unat_gt_0)
  moreover have "ref_count rc - 1 = 0 \<longleftrightarrow> unat (ref_count rc) - 1 = 0"
    using calculation by (metis unat_eq_zero)
  moreover have "obj_delete a st =
      Inr (if ref_count rc - 1 = 0 then st(a := None)
           else st(a \<mapsto> (Some (rc\<lparr>ref_count := ref_count rc - 1\<rparr>), x)))"
    using st by (simp add: obj_delete_def ref_count_dec_def Let_def)
  moreover have "refs st a = unat (ref_count rc)" using st by (simp add: refs_def)
  ultimately show ?thesis using st by (auto intro: fun_upd_idem)
qed

lemma obj_delete_last:
  assumes "refs st a = 1"
  shows "\<exists>st'. obj_delete a st = Inr st' \<and> st' a = None"
proof -
  from assms have "0 < refs st a" by simp
  then obtain rc x where st: "st a = Some (Some rc, x)" "ref_count rc \<noteq> 0"
    by (auto simp: refs_pos)
  have "unat (ref_count rc) = 1" using assms st by (simp add: refs_def)
  then have "ref_count rc = 1" by (metis unat_1 word_unat_eq_iff)
  then show ?thesis using st by (simp add: obj_delete_def ref_count_dec_def Let_def)
qed

lemma obj_delete_keeps:
  assumes "obj_delete a st = Inr st'" "1 < refs st a"
  shows "contents_at st' = contents_at st"
proof -
  from assms(2) have "0 < refs st a" by simp
  then obtain rc x where st: "st a = Some (Some rc, x)" "ref_count rc \<noteq> 0"
    by (auto simp: refs_pos)
  have "unat (ref_count rc) > 1" using assms(2) st by (simp add: refs_def)
  then have "ref_count rc - 1 \<noteq> 0" by auto
  then have "st' = st(a \<mapsto> (Some (rc\<lparr>ref_count := ref_count rc - 1\<rparr>), x))"
    using st assms(1) by (simp add: obj_delete_def ref_count_dec_def Let_def)
  then show ?thesis using st by (auto intro: fun_upd_idem)
qed

section \<open>The contract of a reference-counted class\<close>

locale counted =
  fixes copy :: "addr \<Rightarrow> 's \<Rightarrow> 's res"
    and delete :: "addr \<Rightarrow> 's \<Rightarrow> 's res"
    and count :: "'s \<Rightarrow> addr \<Rightarrow> nat"
    and object :: "'s \<Rightarrow> addr \<Rightarrow> 'a option"
    and limit :: nat
  assumes copy_count: "0 < count s a \<Longrightarrow> count s a < limit \<Longrightarrow>
      \<exists>s'. copy a s = Inr s' \<and> count s' = (count s)(a := count s a + 1) \<and> object s' = object s"
    and delete_count: "0 < count s a \<Longrightarrow>
      \<exists>s'. delete a s = Inr s' \<and> count s' = (count s)(a := count s a - 1) \<and>
           (\<forall>b. 0 < count s' b \<longrightarrow> object s' b = object s b)"
begin

lemma copy_list:
  assumes "\<forall>a \<in> set xs. 0 < count s a \<and> count s a + count_list xs a \<le> limit"
  shows "\<exists>s'. fold_res copy xs s = Inr s' \<and> count s' = (\<lambda>a. count s a + count_list xs a) \<and>
           object s' = object s"
  using assms
proof (induction xs arbitrary: s)
  case Nil
  then show ?case by simp
next
  case (Cons x xs)
  then have "0 < count s x" "count s x < limit" by auto
  from copy_count [OF this] obtain s1 where
    s1: "copy x s = Inr s1" "count s1 = (count s)(x := count s x + 1)" "object s1 = object s" by blast
  have "\<forall>a \<in> set xs. 0 < count s1 a \<and> count s1 a + count_list xs a \<le> limit"
    using Cons.prems s1(2) by auto
  from Cons.IH [OF this] s1 show ?case by (auto simp: fun_eq_iff)
qed

lemma delete_list:
  assumes "\<forall>a. count_list xs a \<le> count s a"
  shows "\<exists>s'. fold_res delete xs s = Inr s' \<and> count s' = (\<lambda>a. count s a - count_list xs a) \<and>
           (\<forall>b. 0 < count s' b \<longrightarrow> object s' b = object s b)"
  using assms
proof (induction xs arbitrary: s)
  case Nil
  then show ?case by simp
next
  case (Cons x xs)
  then have "0 < count s x" by (metis count_list.simps(2) add_is_0 gr0I le_zero_eq one_neq_zero)
  from delete_count [OF this] obtain s1 where
    s1: "delete x s = Inr s1" "count s1 = (count s)(x := count s x - 1)"
      "\<forall>b. 0 < count s1 b \<longrightarrow> object s1 b = object s b" by blast
  have "\<forall>a. count_list xs a \<le> count s1 a"
  proof
    fix a show "count_list xs a \<le> count s1 a"
      using Cons.prems [rule_format, of a] s1(2) by (auto split: if_splits)
  qed
  from Cons.IH [OF this] obtain s2 where
    s2: "fold_res delete xs s1 = Inr s2" "count s2 = (\<lambda>a. count s1 a - count_list xs a)"
      "\<forall>b. 0 < count s2 b \<longrightarrow> object s2 b = object s1 b" by blast
  have "count s2 = (\<lambda>a. count s a - count_list (x # xs) a)"
    using s1(2) s2(2) by (auto simp: fun_eq_iff)
  moreover have "object s2 b = object s b" if "0 < count s2 b" for b
    using that s1(3) s2(2,3) by (metis diff_is_0_eq' less_numeral_extra(3) not_gr_zero zero_le diff_0_eq_0)
  ultimately show ?case using s1(1) s2(1) by auto
qed

text \<open>Taking a copy of every reference in a list and dropping the copies again.\<close>

lemma copy_then_delete:
  assumes "\<forall>a \<in> set xs. 0 < count s a \<and> count s a + count_list xs a \<le> limit"
  shows "\<exists>s'. bind_res (fold_res copy xs s) (fold_res delete xs) = Inr s' \<and> count s' = count s \<and>
           (\<forall>b. 0 < count s b \<longrightarrow> object s' b = object s b)"
proof -
  from copy_list [OF assms] obtain s1 where
    s1: "fold_res copy xs s = Inr s1" "count s1 = (\<lambda>a. count s a + count_list xs a)"
      "object s1 = object s" by blast
  then have "\<forall>a. count_list xs a \<le> count s1 a" by simp
  from delete_list [OF this] s1 show ?thesis by auto
qed

end

interpretation rc_obj: counted obj_copy obj_delete refs contents_at max_refs
  by unfold_locales (rule obj_copy_refs, assumption+, rule obj_delete_refs)

section \<open>Histories of one object\<close>

text \<open>The calls made on one object: \<open>True\<close> takes a copy, \<open>False\<close> deletes a reference.\<close>

fun run_refs :: "addr \<Rightarrow> bool list \<Rightarrow> 'a rc_store \<Rightarrow> 'a rc_store res" where
  "run_refs a [] st = Inr st"
| "run_refs a (c # cs) st = bind_res (if c then obj_copy a st else obj_delete a st) (run_refs a cs)"

text \<open>\<open>owned n cs\<close>: starting with \<open>n\<close> references, no call is made without holding one.\<close>

fun owned :: "nat \<Rightarrow> bool list \<Rightarrow> bool" where
  "owned n [] = True"
| "owned n (c # cs) = (0 < n \<and> owned (if c then n + 1 else n - 1) cs)"

definition balance :: "nat \<Rightarrow> bool list \<Rightarrow> nat" where
  "balance n cs = n + count_list cs True - count_list cs False"

lemma owned_balance: "owned n cs \<Longrightarrow> count_list cs False \<le> n + count_list cs True"
  by (induction cs arbitrary: n) (auto split: if_splits, fastforce+)

lemma owned_Cons_balance:
  "owned n (c # cs) \<Longrightarrow> balance (if c then n + 1 else n - 1) cs = balance n (c # cs)"
  using owned_balance [of "n - 1" cs] by (auto simp: balance_def)

lemma run_refs_balance:
  "owned (refs st a) cs \<Longrightarrow> refs st a + length cs \<le> max_refs \<Longrightarrow> 0 < refs st a \<Longrightarrow>
   \<exists>st'. run_refs a cs st = Inr st' \<and> refs st' a = balance (refs st a) cs \<and>
     (\<forall>b. b \<noteq> a \<longrightarrow> refs st' b = refs st b) \<and>
     (0 < refs st' a \<longrightarrow> contents_at st' a = contents_at st a)"
proof (induction cs arbitrary: st)
  case Nil
  then show ?case by (simp add: balance_def)
next
  case (Cons c cs)
  define n where "n = (if c then refs st a + 1 else refs st a - 1)"
  have pos: "0 < refs st a" and own: "owned n cs" using Cons.prems by (auto simp: n_def)
  have bal: "balance n cs = balance (refs st a) (c # cs)"
    using owned_Cons_balance [OF Cons.prems(1)] by (simp add: n_def)
  have "\<exists>s1. (if c then obj_copy a st else obj_delete a st) = Inr s1 \<and>
      refs s1 = (refs st)(a := n) \<and> (0 < refs s1 a \<longrightarrow> contents_at s1 a = contents_at st a)"
  proof (cases c)
    case True
    have "refs st a < max_refs" using Cons.prems(2) by simp
    from rc_obj.copy_count [OF pos this] True show ?thesis by (auto simp: n_def)
  next
    case False
    from rc_obj.delete_count [OF pos] False show ?thesis by (auto simp: n_def)
  qed
  then obtain s1 where s1: "run_refs a (c # cs) st = run_refs a cs s1"
      "refs s1 = (refs st)(a := n)" "0 < refs s1 a \<longrightarrow> contents_at s1 a = contents_at st a"
    by auto
  show ?case
  proof (cases "0 < n")
    case True
    have "n + length cs \<le> max_refs"
      using Cons.prems(2) by (cases c) (simp_all add: n_def, linarith?)
    then show ?thesis using Cons.IH [of s1] own True s1 bal by auto
  next
    case False
    with own have "cs = []" by (cases cs) auto
    then show ?thesis using s1 False bal by (simp add: balance_def)
  qed
qed

text \<open>Life of a reference-counted object (ref\_count.c with the copy/delete pair of its
  classes): in any history of copies and deletes in which every call is made by someone who holds
  a reference, no call fails, the count is always the number of references outstanding, and the
  object stays as it was while one is left; a delete beyond the last reference is a use after
  free, because the object is gone.\<close>
theorem run_refs_life:
  assumes "owned (refs st a) cs" "refs st a + length cs \<le> max_refs" "0 < refs st a"
  shows "\<exists>st'. run_refs a cs st = Inr st' \<and> refs st' a = balance (refs st a) cs \<and>
     (\<forall>b. b \<noteq> a \<longrightarrow> refs st' b = refs st b) \<and>
     (if balance (refs st a) cs = 0 then obj_delete a st' \<noteq> Inr st''
      else contents_at st' a = contents_at st a)"
proof -
  from run_refs_balance [OF assms] obtain st' where
    st': "run_refs a cs st = Inr st'" "refs st' a = balance (refs st a) cs"
      "\<forall>b. b \<noteq> a \<longrightarrow> refs st' b = refs st b"
      "0 < refs st' a \<longrightarrow> contents_at st' a = contents_at st a" by metis
  have "obj_delete a st' \<noteq> Inr st''" if "refs st' a = 0"
    using that by (auto simp: refs_def obj_delete_def ref_count_dec_def unat_eq_zero
        split: option.splits)
  with st' show ?thesis by auto
qed

theorem run_refs_life_witness:
  "\<exists>st'. run_refs 1 [True, False, False] [1 \<mapsto> (Some ref_count_new, ''x'')] = Inr st' \<and>
     refs st' 1 = 0 \<and> obj_delete 1 st' \<noteq> Inr Map.empty"
proof -
  have r: "refs [1 \<mapsto> (Some ref_count_new, ''x'')] 1 = 1" by (simp add: refs_def ref_count_new_def)
  show ?thesis
    using run_refs_life [of "[1 \<mapsto> (Some ref_count_new, ''x'')]" 1 "[True, False, False]" Map.empty]
    unfolding r by (auto simp: balance_def)
qed

end
