(* ===== verification/String_Buffer.thy ===== *)
theory String_Buffer
  imports Prelude
begin

text \<open>
  The string builder of \<^verbatim>\<open>src/src/string_buffer.c\<close>. The flexible array \<^verbatim>\<open>s[]\<close> is a list of
  memory cells; a cell that \<^verbatim>\<open>malloc\<close> or \<^verbatim>\<open>realloc\<close> left indeterminate is \<open>None\<close>. Every
  write is checked against the size of the block. The C functions take ownership of the string
  they are given and \<^verbatim>\<open>free()\<close> it, so their argument is a pointer that is either a heap block
  or a string literal, which must not be freed.

  The locale \<open>string_builder\<close> is the contract its clients use (a buffer holds a string, append
  extends it, printf replaces it, commit returns it); it is interpreted on the operations below.
\<close>

section \<open>Memory cells and string pointers\<close>

type_synonym cells = "char option list"

datatype char_ptr = HeapStr string | Literal string

fun deref :: "char_ptr \<Rightarrow> string" where
  "deref (HeapStr s) = s"
| "deref (Literal s) = s"

fun free_const :: "char_ptr \<Rightarrow> unit res" where
  "free_const (HeapStr s) = Inr ()"
| "free_const (Literal s) = Inl InvalidFree"

definition write_cells :: "cells \<Rightarrow> nat \<Rightarrow> char list \<Rightarrow> cells res" where
  "write_cells m off bs =
     (if off + length bs \<le> length m
      then Inr (take off m @ map Some bs @ drop (off + length bs) m)
      else Inl OutOfBounds)"

text \<open>Reading a NUL-terminated string.\<close>

fun read_cstr :: "cells \<Rightarrow> string res" where
  "read_cstr [] = Inl OutOfBounds"
| "read_cstr (None # m) = Inl Uninitialised"
| "read_cstr (Some c # m) =
     (if c = NUL then Inr [] else bind_res (read_cstr m) (\<lambda>s. Inr (c # s)))"

section \<open>string\_buffer.c\<close>

record string_buffer_t =
  capacity :: nat
  sb_length :: nat
  sb_s :: cells

definition string_buffer_from_chars :: "char_ptr \<Rightarrow> string_buffer_t res" where
  "string_buffer_from_chars str =
     (let len = length (deref str) in
      bind_res (write_cells (replicate (len + 1) None) 0 (c_block (deref str))) (\<lambda>m.
      bind_res (free_const str) (\<lambda>_.
      Inr \<lparr>capacity = len + 1, sb_length = len, sb_s = m\<rparr>)))"

definition string_buffer_new :: "string_buffer_t res" where
  "string_buffer_new = string_buffer_from_chars (HeapStr '''')"

definition string_buffer_ensure_capacity :: "string_buffer_t \<Rightarrow> nat \<Rightarrow> string_buffer_t" where
  "string_buffer_ensure_capacity sb cap =
     (let cap = cap + 1 in
      if capacity sb < cap
      then sb\<lparr>sb_s := sb_s sb @ replicate (cap - capacity sb) None, capacity := cap\<rparr>
      else sb)"

definition string_buffer_append :: "string_buffer_t \<Rightarrow> char_ptr \<Rightarrow> string_buffer_t res" where
  "string_buffer_append sb str =
     (let len = length (deref str);
          sb = string_buffer_ensure_capacity sb (sb_length sb + len) in
      bind_res (write_cells (sb_s sb) (sb_length sb) (c_block (deref str))) (\<lambda>m.
      bind_res (free_const str) (\<lambda>_.
      Inr (sb\<lparr>sb_s := m, sb_length := sb_length sb + len\<rparr>))))"

text \<open>
  \<^verbatim>\<open>vsnprintf(buf, size, ...)\<close> for the text \<open>out\<close> that the format produces: at most \<open>size - 1\<close>
  characters and the terminator are written, the full length is returned.
\<close>

definition vsnprintf :: "cells \<Rightarrow> nat \<Rightarrow> string \<Rightarrow> (nat \<times> cells) res" where
  "vsnprintf m sz out =
     bind_res (if sz = 0 then Inr m else write_cells m 0 (take (sz - 1) out @ [NUL]))
       (\<lambda>m. Inr (length out, m))"

definition string_buffer_printf :: "string_buffer_t \<Rightarrow> string \<Rightarrow> string_buffer_t res" where
  "string_buffer_printf sb out =
     bind_res (vsnprintf (sb_s sb) (capacity sb) out) (\<lambda>(output_size, m).
     let sb = sb\<lparr>sb_s := m\<rparr> in
     if output_size \<ge> capacity sb
     then let sb = string_buffer_ensure_capacity sb output_size in
          bind_res (vsnprintf (sb_s sb) (capacity sb) out) (\<lambda>(output_size, m).
          bind_res (c_assert (output_size < capacity sb)) (\<lambda>_.
          Inr (sb\<lparr>sb_s := m, sb_length := output_size\<rparr>)))
     else Inr (sb\<lparr>sb_length := output_size\<rparr>))"

definition string_buffer_peek :: "string_buffer_t \<Rightarrow> string res" where
  "string_buffer_peek sb = read_cstr (sb_s sb)"

text \<open>\<^verbatim>\<open>string_buffer_commit\<close> copies \<^verbatim>\<open>length + 1\<close> bytes out and deletes the buffer.\<close>

definition string_buffer_commit :: "string_buffer_t \<Rightarrow> string res" where
  "string_buffer_commit sb =
     (if sb_length sb + 1 \<le> length (sb_s sb) then read_cstr (take (sb_length sb + 1) (sb_s sb))
      else Inl OutOfBounds)"

section \<open>What a buffer holds\<close>

definition sb_holds :: "string_buffer_t \<Rightarrow> string \<Rightarrow> bool" where
  "sb_holds sb str \<longleftrightarrow>
     capacity sb = length (sb_s sb) \<and> sb_length sb = length str \<and> nul_free str \<and>
     (\<exists>rest. sb_s sb = map Some (c_block str) @ rest)"

lemma read_cstr_block [simp]:
  "nul_free str \<Longrightarrow> read_cstr (map Some (c_block str) @ rest) = Inr str"
  by (induction str) (auto simp: c_block_def)

lemma read_cstr_block' [simp]: "nul_free str \<Longrightarrow> read_cstr (map Some (c_block str)) = Inr str"
  using read_cstr_block [of str "[]"] by simp

lemma length_c_block [simp]: "length (c_block s) = length s + 1"
  by (simp add: c_block_def)

lemma ensure_capacity_simps [simp]:
  "sb_length (string_buffer_ensure_capacity sb n) = sb_length sb"
  "capacity (string_buffer_ensure_capacity sb n) = max (capacity sb) (n + 1)"
  by (auto simp: string_buffer_ensure_capacity_def Let_def)

lemma ensure_capacity_cells:
  assumes "capacity sb = length (sb_s sb)"
  shows "\<exists>pad. sb_s (string_buffer_ensure_capacity sb n) = sb_s sb @ pad \<and>
           length (sb_s sb @ pad) = max (capacity sb) (n + 1)"
  using assms
  by (intro exI [of _ "replicate (n + 1 - capacity sb) None"])
    (auto simp: string_buffer_ensure_capacity_def Let_def)

lemma sb_holds_length: "sb_holds sb str \<Longrightarrow> length str < capacity sb"
  by (auto simp: sb_holds_def)

lemma sb_from_chars_holds:
  "nul_free str \<Longrightarrow>
   \<exists>sb. string_buffer_from_chars (HeapStr str) = Inr sb \<and> sb_holds sb str"
  by (simp add: string_buffer_from_chars_def write_cells_def Let_def sb_holds_def)

lemma sb_append_holds:
  assumes "sb_holds sb str" "nul_free t"
  shows "\<exists>sb'. string_buffer_append sb (HeapStr t) = Inr sb' \<and> sb_holds sb' (str @ t)"
proof -
  define sb1 where "sb1 = string_buffer_ensure_capacity sb (sb_length sb + length t)"
  from assms(1) obtain rest where
    rest: "sb_s sb = map Some (c_block str) @ rest" "capacity sb = length (sb_s sb)"
      "sb_length sb = length str" "nul_free str" by (auto simp: sb_holds_def)
  obtain pad where pad: "sb_s sb1 = sb_s sb @ pad"
      "length (sb_s sb1) = max (capacity sb) (length str + length t + 1)"
    using ensure_capacity_cells [OF rest(2), of "sb_length sb + length t"] rest(3)
    unfolding sb1_def by auto
  have room: "length str + length (c_block t) \<le> length (sb_s sb1)" using pad by simp
  have pre: "take (length str) (sb_s sb1) = map Some str" using pad rest by (simp add: c_block_def)
  have cap: "capacity sb1 = length (sb_s sb1)" using pad rest unfolding sb1_def by simp
  define m where "m = map Some (str @ c_block t) @ drop (length str + length (c_block t)) (sb_s sb1)"
  have w: "write_cells (sb_s sb1) (length str) (c_block t) = Inr m"
    using room pre by (simp add: write_cells_def m_def)
  have "string_buffer_append sb (HeapStr t) =
      Inr (sb1\<lparr>sb_s := m, sb_length := length str + length t\<rparr>)"
    using w rest(3) by (simp add: string_buffer_append_def Let_def flip: sb1_def) (simp add: sb1_def)
  moreover have "sb_holds (sb1\<lparr>sb_s := m, sb_length := length str + length t\<rparr>) (str @ t)"
    using assms(2) rest(4) cap room by (auto simp: sb_holds_def m_def c_block_def)
  ultimately show ?thesis by blast
qed

lemma vsnprintf_fits:
  assumes "length out < sz" "sz = length m"
  shows "vsnprintf m sz out = Inr (length out, map Some (c_block out) @ drop (length out + 1) m)"
  using assms by (auto simp: vsnprintf_def write_cells_def c_block_def)

lemma vsnprintf_truncates:
  assumes "sz \<le> length out" "sz = length m"
  shows "\<exists>m'. vsnprintf m sz out = Inr (length out, m') \<and> length m' = length m"
  using assms by (auto simp: vsnprintf_def write_cells_def)

lemma sb_printf_holds:
  assumes "sb_holds sb str" "nul_free out"
  shows "\<exists>sb'. string_buffer_printf sb out = Inr sb' \<and> sb_holds sb' out"
proof (cases "length out < capacity sb")
  case True
  have cap: "capacity sb = length (sb_s sb)" using assms(1) by (simp add: sb_holds_def)
  show ?thesis
    using True cap vsnprintf_fits [OF True cap] assms(2)
    by (auto simp: string_buffer_printf_def Let_def sb_holds_def)
next
  case False
  have cap: "capacity sb = length (sb_s sb)" using assms(1) by (simp add: sb_holds_def)
  obtain m where m: "vsnprintf (sb_s sb) (capacity sb) out = Inr (length out, m)"
      "length m = capacity sb"
    using vsnprintf_truncates [of "capacity sb" out "sb_s sb"] False cap by auto
  define sb1 where "sb1 = string_buffer_ensure_capacity (sb\<lparr>sb_s := m\<rparr>) (length out)"
  obtain pad where pad: "sb_s sb1 = m @ pad" "length (m @ pad) = length out + 1"
    using ensure_capacity_cells [of "sb\<lparr>sb_s := m\<rparr>" "length out"] m False unfolding sb1_def by auto
  have cap1: "capacity sb1 = length (sb_s sb1)" "length out < capacity sb1"
    using pad False unfolding sb1_def by auto
  have len1: "length (sb_s sb1) = Suc (length out)" using pad by simp
  show ?thesis
    using False m vsnprintf_fits [OF cap1(2,1)] cap1 len1 assms(2)
    by (auto simp: string_buffer_printf_def Let_def sb_holds_def simp flip: sb1_def)
qed

lemma sb_peek_holds: "sb_holds sb str \<Longrightarrow> string_buffer_peek sb = Inr str"
  by (auto simp: sb_holds_def string_buffer_peek_def)

lemma sb_commit_holds:
  assumes "sb_holds sb str"
  shows "string_buffer_commit sb = Inr str"
proof -
  from assms obtain rest where "sb_s sb = map Some (c_block str) @ rest" "sb_length sb = length str"
    "nul_free str" by (auto simp: sb_holds_def)
  moreover have "take (length str + 1) (map Some (c_block str) @ rest) = map Some (c_block str)"
    by (simp add: c_block_def)
  ultimately show ?thesis
    by (simp add: string_buffer_commit_def del: take_append)
qed

section \<open>The string-builder interface\<close>

locale string_builder =
  fixes new :: "'b res"
    and append :: "'b \<Rightarrow> char_ptr \<Rightarrow> 'b res"
    and printf :: "'b \<Rightarrow> string \<Rightarrow> 'b res"
    and peek :: "'b \<Rightarrow> string res"
    and commit :: "'b \<Rightarrow> string res"
    and holds :: "'b \<Rightarrow> string \<Rightarrow> bool"
  assumes new_holds: "\<exists>b. new = Inr b \<and> holds b ''''"
    and append_holds: "holds b s \<Longrightarrow> nul_free t \<Longrightarrow>
      \<exists>b'. append b (HeapStr t) = Inr b' \<and> holds b' (s @ t)"
    and printf_holds: "holds b s \<Longrightarrow> nul_free out \<Longrightarrow> \<exists>b'. printf b out = Inr b' \<and> holds b' out"
    and peek_holds: "holds b s \<Longrightarrow> peek b = Inr s"
    and commit_holds: "holds b s \<Longrightarrow> commit b = Inr s"
begin

text \<open>Appending owned strings one after the other and committing gives their concatenation.\<close>

lemma append_all_holds:
  "holds b s \<Longrightarrow> \<forall>t \<in> set ts. nul_free t \<Longrightarrow>
   \<exists>b'. fold_res (\<lambda>t b. append b (HeapStr t)) ts b = Inr b' \<and> holds b' (s @ concat ts)"
proof (induction ts arbitrary: b s)
  case Nil
  then show ?case by auto
next
  case (Cons t ts)
  from Cons.prems(2) have t: "nul_free t" "\<forall>t \<in> set ts. nul_free t" by auto
  from append_holds [OF Cons.prems(1) t(1)] obtain b1 where
    b1: "append b (HeapStr t) = Inr b1" "holds b1 (s @ t)" by blast
  from Cons.IH [OF b1(2) t(2)] b1(1) show ?case by auto
qed

lemma build_concat:
  assumes "\<forall>t \<in> set ts. nul_free t"
  shows "bind_res new (\<lambda>b. bind_res (fold_res (\<lambda>t b. append b (HeapStr t)) ts b) commit) =
    Inr (concat ts)"
proof -
  from new_holds obtain b where b: "new = Inr b" "holds b ''''" by blast
  from append_all_holds [OF b(2) assms] b(1) show ?thesis by (auto simp: commit_holds)
qed

text \<open>Formatting into a new buffer and committing.\<close>

lemma build_printf:
  assumes "nul_free out"
  shows "bind_res new (\<lambda>b. bind_res (printf b out) commit) = Inr out"
proof -
  from new_holds obtain b where b: "new = Inr b" "holds b ''''" by blast
  from printf_holds [OF b(2) assms] b(1) show ?thesis by (auto simp: commit_holds)
qed

end

lemma sb_new_holds: "\<exists>sb. string_buffer_new = Inr sb \<and> sb_holds sb ''''"
  unfolding string_buffer_new_def by (rule sb_from_chars_holds) simp

interpretation sb: string_builder string_buffer_new string_buffer_append string_buffer_printf
    string_buffer_peek string_buffer_commit sb_holds
  by unfold_locales (fact sb_new_holds sb_append_holds sb_printf_holds sb_peek_holds sb_commit_holds)+

section \<open>Properties\<close>

text \<open>Building a string (string\_buffer.c): appending any sequence of heap-allocated strings to
  a new buffer and committing it gives exactly their concatenation; no append writes outside the
  buffer, whatever the lengths.\<close>
theorem string_buffer_builds_concat:
  assumes "\<forall>t \<in> set ts. nul_free t"
  shows "bind_res string_buffer_new
      (\<lambda>b. bind_res (fold_res (\<lambda>t b. string_buffer_append b (HeapStr t)) ts b) string_buffer_commit) =
    Inr (concat ts)"
  using assms by (rule sb.build_concat)

theorem string_buffer_builds_concat_witness:
  "bind_res string_buffer_new
      (\<lambda>b. bind_res (fold_res (\<lambda>t b. string_buffer_append b (HeapStr t)) [''ab'', '''', ''cde''] b)
        string_buffer_commit) = Inr ''abcde''"
  using string_buffer_builds_concat [of "[''ab'', '''', ''cde'']"] by simp

text \<open>Formatting (string\_buffer.c): \<^verbatim>\<open>string_buffer_printf\<close> replaces the contents of a buffer by
  the formatted text, however small the buffer was: when \<^verbatim>\<open>vsnprintf\<close> reports that the text did not
  fit, the buffer is grown and the second attempt fits, so that peek and commit both return all of
  the text.\<close>
theorem string_buffer_printf_complete:
  assumes "sb_holds sb str" "nul_free out"
  shows "\<exists>sb'. string_buffer_printf sb out = Inr sb' \<and> sb_holds sb' out \<and>
    string_buffer_peek sb' = Inr out \<and> string_buffer_commit sb' = Inr out"
proof -
  from sb.printf_holds [OF assms] obtain sb' where
    sb': "string_buffer_printf sb out = Inr sb'" "sb_holds sb' out" by blast
  then show ?thesis by (simp add: sb.peek_holds sb.commit_holds)
qed

theorem string_buffer_printf_complete_witness:
  "\<exists>sb'. bind_res string_buffer_new (\<lambda>sb. string_buffer_printf sb ''http'') = Inr sb' \<and>
    sb_holds sb' ''http'' \<and> string_buffer_peek sb' = Inr ''http'' \<and>
    string_buffer_commit sb' = Inr ''http''"
proof -
  from sb_new_holds obtain sb where sb: "string_buffer_new = Inr sb" "sb_holds sb ''''" by blast
  from string_buffer_printf_complete [OF sb(2), of "''http''"] sb(1) show ?thesis by auto
qed

end
