(* ===== verification/Utils.thy ===== *)
theory Utils
  imports Prelude
begin

text \<open>
  The path, version and thread-index helpers of \<^verbatim>\<open>src/src/utils.c\<close>. Paths are C strings;
  \<^verbatim>\<open>fsfuse_basename\<close> also takes the memory block its argument lies in, because it copies
  more bytes than the string has. \<^verbatim>\<open>strtol\<close> is modelled for base 0 (decimal, \<^verbatim>\<open>0\<close> octal,
  \<^verbatim>\<open>0x\<close> hexadecimal), with its saturation to \<^verbatim>\<open>long\<close> and the truncation to \<^verbatim>\<open>int\<close> that
  \<^verbatim>\<open>compare_dotted_version\<close> applies to it.
\<close>

section \<open>Paths\<close>

text \<open>The index of the last occurrence of a character (\<^verbatim>\<open>strrchr\<close>, \<^verbatim>\<open>memrchr\<close>).\<close>

fun rindex :: "char \<Rightarrow> string \<Rightarrow> nat option" where
  "rindex c [] = None"
| "rindex c (x # xs) =
     (case rindex c xs of Some i \<Rightarrow> Some (Suc i) | None \<Rightarrow> if x = c then Some 0 else None)"

definition fsfuse_dirname :: "string \<Rightarrow> string" where
  "fsfuse_dirname path =
     (case rindex (CHR ''/'') path of
        None \<Rightarrow> ''''
      | Some dir_len \<Rightarrow> if dir_len = 0 then ''/'' else take dir_len path)"

text \<open>
  \<^verbatim>\<open>base_len = path_len - (loc - path) + 1\<close> bytes are copied from \<^verbatim>\<open>loc + 1\<close>: \<open>mem\<close> is the
  block that starts at \<^verbatim>\<open>path\<close>.
\<close>

definition fsfuse_basename :: "char list \<Rightarrow> string res" where
  "fsfuse_basename mem =
     (let path = c_str mem; path_len = length path in
      case rindex (CHR ''/'') path of
        None \<Rightarrow> Inr path
      | Some loc \<Rightarrow>
          (let base_len = path_len - loc + 1 in
           if base_len = 0 then Inr ''''
           else if loc + 1 + base_len \<le> length mem
           then Inr (c_str (take base_len (drop (loc + 1) mem) @ [NUL]))
           else Inl OutOfBounds))"

definition path_combine :: "string \<Rightarrow> string \<Rightarrow> string res" where
  "path_combine a b =
     (if a = [] then Inl OutOfBounds \<comment> \<open>\<^verbatim>\<open>a[a_len - 1]\<close>\<close>
      else let add_delimiter = (last a \<noteq> CHR ''/'') in
        bind_res (c_assert (b = [] \<or> hd b \<noteq> CHR ''/'')) (\<lambda>_.
        Inr (a @ (if add_delimiter then ''/'' else '''') @ b)))"

section \<open>strtol with base 0\<close>

definition is_space :: "char \<Rightarrow> bool" where
  "is_space c \<longleftrightarrow> c \<in> {CHR '' '', CHR 0x09, CHR 0x0A, CHR 0x0B, CHR 0x0C, CHR 0x0D}"

text \<open>The value of a digit character in any base up to 36.\<close>

definition digit_val :: "char \<Rightarrow> nat option" where
  "digit_val c =
     (let n = of_char c :: nat in
      if 48 \<le> n \<and> n \<le> 57 then Some (n - 48)
      else if 97 \<le> n \<and> n \<le> 122 then Some (n - 87)
      else if 65 \<le> n \<and> n \<le> 90 then Some (n - 55)
      else None)"

definition is_digit :: "nat \<Rightarrow> char \<Rightarrow> bool" where
  "is_digit b c = (case digit_val c of None \<Rightarrow> False | Some d \<Rightarrow> d < b)"

fun num_of :: "nat \<Rightarrow> nat \<Rightarrow> string \<Rightarrow> nat" where
  "num_of b acc [] = acc"
| "num_of b acc (c # cs) = num_of b (acc * b + the (digit_val c)) cs"

definition LONG_MAX :: int where "LONG_MAX = 2 ^ 63 - 1"
definition LONG_MIN :: int where "LONG_MIN = - (2 ^ 63)"

definition saturate :: "int \<Rightarrow> int" where
  "saturate n = (if n > LONG_MAX then LONG_MAX else if n < LONG_MIN then LONG_MIN else n)"

text \<open>The digits of \<open>s\<close> in base \<open>b\<close>: their value and what follows, or nothing converted.\<close>

definition convert :: "nat \<Rightarrow> string \<Rightarrow> (nat \<times> string) option" where
  "convert b s =
     (let ds = takeWhile (is_digit b) s in
      if ds = [] then None else Some (num_of b 0 ds, dropWhile (is_digit b) s))"

definition strtol_body :: "nat \<Rightarrow> string \<Rightarrow> (nat \<times> string) option" where
  "strtol_body base s =
     (case s of
        z # x # c # r \<Rightarrow>
          if base = 0 \<and> z = CHR ''0'' \<and> (x = CHR ''x'' \<or> x = CHR ''X'') \<and> is_digit 16 c
          then convert 16 (c # r)
          else if base = 0 \<and> z = CHR ''0'' then convert 8 s
          else convert (if base = 0 then 10 else base) s
      | z # r \<Rightarrow>
          if base = 0 \<and> z = CHR ''0'' then convert 8 s
          else convert (if base = 0 then 10 else base) s
      | [] \<Rightarrow> None)"

text \<open>\<^verbatim>\<open>strtol(s, &end, base)\<close> for base 0 or 10: the value and the string at \<^verbatim>\<open>end\<close>.\<close>

definition strtol :: "nat \<Rightarrow> string \<Rightarrow> int \<times> string" where
  "strtol base s =
     (let t = dropWhile is_space s;
          neg = (t \<noteq> [] \<and> hd t = CHR ''-'');
          u = (if t \<noteq> [] \<and> (hd t = CHR ''-'' \<or> hd t = CHR ''+'') then tl t else t) in
      case strtol_body base u of
        None \<Rightarrow> (0, s)
      | Some (n, r) \<Rightarrow> (saturate (if neg then - int n else int n), r))"

text \<open>Assigning a \<^verbatim>\<open>long\<close> to an \<^verbatim>\<open>int\<close>.\<close>

definition to_int :: "int \<Rightarrow> int" where
  "to_int n = sint (word_of_int n :: 32 word)"

lemma convert_length: "convert b s = Some (n, r) \<Longrightarrow> length r \<le> length s"
  by (auto simp: convert_def Let_def length_dropWhile_le split: if_splits)

lemma strtol_body_length: "strtol_body b s = Some (n, r) \<Longrightarrow> length r \<le> length s"
  by (auto simp: strtol_body_def split: list.splits if_splits dest!: convert_length)

lemma strtol_length: "length (snd (strtol b s)) \<le> length s"
proof -
  define t where "t = dropWhile is_space s"
  define u where "u = (if t \<noteq> [] \<and> (hd t = CHR ''-'' \<or> hd t = CHR ''+'') then tl t else t)"
  have "length u \<le> length s"
    unfolding u_def t_def by (auto simp: length_dropWhile_le intro: le_trans [OF diff_le_self])
  then show ?thesis
    unfolding strtol_def Let_def
    by (fold t_def, fold u_def)
      (auto split: option.splits dest!: strtol_body_length)
qed

section \<open>Dotted versions\<close>

function compare_dotted_version :: "string \<Rightarrow> string \<Rightarrow> int" where
  "compare_dotted_version ver cmp =
     (let n1 = to_int (fst (strtol 0 ver)); ver' = snd (strtol 0 ver);
          n2 = to_int (fst (strtol 0 cmp)); cmp' = snd (strtol 0 cmp) in
      if n1 < n2 then -1
      else if n1 > n2 then 1
      else if ver' = [] \<and> cmp' = [] then 0
      else compare_dotted_version
             (if ver' \<noteq> [] then tl ver' else ver') (if cmp' \<noteq> [] then tl cmp' else cmp'))"
  by pat_completeness auto
termination
proof (relation "measure (\<lambda>(v, c). length v + length c)", goal_cases)
  case 1
  then show ?case by simp
next
  case (2 ver cmp n1 ver' n2 cmp')
  have "length ver' \<le> length ver" "length cmp' \<le> length cmp"
    using strtol_length [of 0 ver] strtol_length [of 0 cmp] 2 by simp_all
  with 2(7) show ?case by (cases ver'; cases cmp') auto
qed

declare compare_dotted_version.simps [simp del]

definition hash_equal :: "string \<Rightarrow> string \<Rightarrow> bool" where
  "hash_equal h1 h2 = (h1 = h2)"

section \<open>Thread indices\<close>

text \<open>
  The thread-specific slot of each thread (\<^verbatim>\<open>pthread_getspecific\<close>) and the global counter.
\<close>

record thread_indices =
  next_thread_index :: "32 word"
  specific :: "nat \<rightharpoonup> 32 word"

definition utils_init :: thread_indices where
  "utils_init = \<lparr>next_thread_index = 1, specific = Map.empty\<rparr>"

definition fsfuse_get_thread_index :: "nat \<Rightarrow> thread_indices \<Rightarrow> 32 word \<times> thread_indices" where
  "fsfuse_get_thread_index self st =
     (case specific st self of
        Some i \<Rightarrow> (i, st)
      | None \<Rightarrow> (next_thread_index st,
                st\<lparr>next_thread_index := next_thread_index st + 1,
                   specific := (specific st)(self \<mapsto> next_thread_index st)\<rparr>))"

text \<open>
  The block of a thread's index is freed. At the end only the calling thread's block is, and the key
  is deleted, with the result of \<^verbatim>\<open>pthread_key_delete\<close>; the blocks of other threads are lost.
\<close>

definition thread_index_destroy :: "nat \<Rightarrow> thread_indices \<Rightarrow> thread_indices" where
  "thread_index_destroy self st = st\<lparr>specific := (specific st)(self := None)\<rparr>"

definition utils_finalise :: "nat \<Rightarrow> int \<Rightarrow> thread_indices \<Rightarrow> thread_indices res" where
  "utils_finalise self key_delete_rc st =
     (let st = thread_index_destroy self st in
      bind_res (c_assert (key_delete_rc = 0)) (\<lambda>_. Inr st))"

section \<open>Lemmas on paths\<close>

lemma rindex_None [simp]: "rindex c xs = None \<longleftrightarrow> c \<notin> set xs"
  by (induction xs) (auto split: option.splits)

lemma rindex_last: "c \<notin> set ys \<Longrightarrow> rindex c (xs @ c # ys) = Some (length xs)"
  by (induction xs) (auto split: option.splits)

lemma slash_split: "CHR ''/'' \<in> set p \<Longrightarrow> \<exists>d b. p = d @ ''/'' @ b \<and> CHR ''/'' \<notin> set b"
  by (metis append_Cons append_Nil split_list_last)

text \<open>\<^verbatim>\<open>fsfuse_basename\<close> on a block with at least one byte behind the terminator.\<close>

lemma basename_split:
  assumes "CHR ''/'' \<notin> set b" "nul_free (d @ b)"
  shows "fsfuse_basename (d @ ''/'' @ b @ NUL # x # rest) = Inr b"
proof -
  have "c_str (d @ ''/'' @ b @ NUL # x # rest) = d @ ''/'' @ b"
    using assms(2) c_str_append_NUL [of "d @ ''/'' @ b" "x # rest"] by simp
  then show ?thesis
    using assms by (simp add: fsfuse_basename_def Let_def rindex_last)
qed

lemma basename_overread:
  assumes "CHR ''/'' \<in> set p" "nul_free p"
  shows "fsfuse_basename (c_block p) = Inl OutOfBounds"
proof -
  from slash_split [OF assms(1)] obtain d b where
    p: "p = d @ ''/'' @ b" "CHR ''/'' \<notin> set b" by blast
  have "c_str (c_block p) = p" using assms(2) by simp
  moreover have "length (c_block p) = length d + length b + 2" using p by (simp add: c_block_def)
  ultimately show ?thesis using p by (simp add: fsfuse_basename_def Let_def rindex_last)
qed

section \<open>Decimal numbers and dotted versions\<close>

fun dec :: "nat \<Rightarrow> string" where
  "dec n = (if n < 10 then [char_of (48 + n)] else dec (n div 10) @ [char_of (48 + n mod 10)])"

declare dec.simps [simp del]

fun dotted :: "nat list \<Rightarrow> string" where
  "dotted [] = ''''"
| "dotted [n] = dec n"
| "dotted (n # m # ns) = dec n @ ''.'' @ dotted (m # ns)"

text \<open>The order of version numbers: component by component, missing components are 0.\<close>

fun version_order :: "nat list \<Rightarrow> nat list \<Rightarrow> int" where
  "version_order [] [] = 0"
| "version_order (n # ns) [] = (if n > 0 then 1 else version_order ns [])"
| "version_order [] (m # ms) = (if m > 0 then -1 else version_order [] ms)"
| "version_order (n # ns) (m # ms) =
     (if n < m then -1 else if n > m then 1 else version_order ns ms)"

lemma of_char_digit [simp]: "n < 10 \<Longrightarrow> of_char (char_of (48 + n :: nat)) = (48 + n :: nat)"
  by simp

lemma digit_val_digit [simp]: "n < 10 \<Longrightarrow> digit_val (char_of (48 + n :: nat)) = Some n"
  by (simp add: digit_val_def)

lemma digit_neq:
  fixes n :: nat
  assumes "n < 10"
  shows "char_of (48 + n) \<noteq> CHR ''.''" "char_of (48 + n) \<noteq> CHR ''-''"
    "char_of (48 + n) \<noteq> CHR ''+''" "\<not> is_space (char_of (48 + n))"
proof -
  have *: "char_of (48 + n) \<noteq> c" if "(of_char c :: nat) < 48" for c :: char
    using that of_char_digit [OF assms] by (metis not_add_less1)
  show "char_of (48 + n) \<noteq> CHR ''.''" "char_of (48 + n) \<noteq> CHR ''-''"
    "char_of (48 + n) \<noteq> CHR ''+''" by (rule *, simp)+
  show "\<not> is_space (char_of (48 + n))"
    unfolding is_space_def using * [of "CHR '' ''"] * [of "CHR 0x09"] * [of "CHR 0x0A"]
      * [of "CHR 0x0B"] * [of "CHR 0x0C"] * [of "CHR 0x0D"] by simp
qed

lemma dec_digits: "c \<in> set (dec n) \<Longrightarrow> \<exists>d<10. c = char_of (48 + d :: nat)"
proof (induction n rule: dec.induct)
  case (1 n)
  then show ?case
    by (cases "n < 10") (auto simp: dec.simps [of n] intro: exI [of _ n] exI [of _ "n mod 10"])
qed

lemma num_of_snoc: "num_of b acc (cs @ [c]) = num_of b acc cs * b + the (digit_val c)"
  by (induction cs arbitrary: acc) auto

lemma num_of_dec: "num_of 10 0 (dec n) = n"
proof (induction n rule: dec.induct)
  case (1 n)
  then show ?case
    by (cases "n < 10") (simp_all add: dec.simps [of n] num_of_snoc)
qed

lemma dec_Cons: "\<exists>c cs. dec n = c # cs"
  by (subst dec.simps) (cases "dec (n div 10)"; auto)

lemma dec_leading: "0 < n \<Longrightarrow> dec n = c # cs \<Longrightarrow> c \<noteq> CHR ''0''"
proof (induction n arbitrary: cs rule: dec.induct)
  case (1 n)
  show ?case
  proof (cases "n < 10")
    case True
    then have "c = char_of (48 + n)" using "1.prems" by (simp add: dec.simps [of n])
    then have "of_char c = (48 + n :: nat)" using True by simp
    then show ?thesis using "1.prems"(1) by auto
  next
    case False
    obtain d ds where d: "dec (n div 10) = d # ds" using dec_Cons by blast
    then have "c = d" using False "1.prems" by (simp add: dec.simps [of n])
    then show ?thesis using "1.IH" [of ds] d False by simp
  qed
qed

definition ends_number :: "string \<Rightarrow> bool" where
  "ends_number r \<longleftrightarrow> r = [] \<or> hd r = CHR ''.''"

lemma convert_digits:
  assumes "\<And>c. c \<in> set ds \<Longrightarrow> is_digit b c" "ds \<noteq> []" "ends_number r" "\<not> is_digit b (CHR ''.'')"
  shows "convert b (ds @ r) = Some (num_of b 0 ds, r)"
proof -
  have "takeWhile (is_digit b) (ds @ r) = ds" "dropWhile (is_digit b) (ds @ r) = r"
    using assms(1,3,4) by (cases r; auto simp: ends_number_def takeWhile_append dropWhile_append)+
  then show ?thesis using assms(2) by (simp add: convert_def)
qed

lemma is_digit_dot [simp]: "\<not> is_digit b (CHR ''.'')"
  by (simp add: is_digit_def digit_val_def)

lemma strtol_body_dec: "ends_number r \<Longrightarrow> strtol_body 0 (dec n @ r) = Some (n, r)"
proof (cases "n = 0")
  case True
  assume r: "ends_number r"
  have "char_of (48 :: nat) = CHR ''0''" by code_simp
  then have d: "dec 0 = ''0''" by (subst dec.simps) simp
  have "convert 8 (''0'' @ r) = Some (0, r)"
    using convert_digits [of "''0''" 8 r] r by (simp add: is_digit_def digit_val_def)
  then show ?thesis
    using True r d by (cases r rule: list.exhaust; cases "tl r")
      (auto simp: strtol_body_def ends_number_def)
next
  case False
  assume r: "ends_number r"
  obtain c cs where c: "dec n = c # cs" using dec_Cons by blast
  have z: "c \<noteq> CHR ''0''" using False c dec_leading by blast
  have "is_digit 10 x" if "x \<in> set (dec n)" for x
    using dec_digits [OF that] by (auto simp: is_digit_def)
  then have "convert 10 (dec n @ r) = Some (n, r)"
    using convert_digits [of "dec n" 10 r, OF _ _ r] c num_of_dec [of n] by (metis is_digit_dot list.distinct(1))
  then show ?thesis using z unfolding c by (cases cs; cases r; cases "tl cs")
      (auto simp: strtol_body_def split: list.splits)
qed

lemma strtol_dec:
  assumes "ends_number r" "int n \<le> LONG_MAX"
  shows "strtol 0 (dec n @ r) = (int n, r)"
proof -
  obtain c cs where c: "dec n = c # cs" using dec_Cons by blast
  then obtain d :: nat where d: "d < 10" "c = char_of (48 + d)" using dec_digits [of c n] by auto
  have "dropWhile is_space (dec n @ r) = dec n @ r" using c d digit_neq by simp
  then show ?thesis
    using assms strtol_body_dec [OF assms(1), of n] c d digit_neq
    by (simp add: strtol_def Let_def saturate_def LONG_MIN_def)
qed

lemma to_int_small: "n < 2 ^ 31 \<Longrightarrow> to_int (int n) = int n"
  using sint_sbintrunc' [of "int n", where 'a = 32]
  by (simp add: to_int_def signed_take_bit_int_eq_self del: of_int_of_nat_eq)

abbreviation hd0 :: "nat list \<Rightarrow> nat" where
  "hd0 ns \<equiv> (case ns of [] \<Rightarrow> 0 | n # _ \<Rightarrow> n)"

lemma strtol_dotted:
  assumes "\<forall>n \<in> set ns. n < 2 ^ 31"
  shows "to_int (fst (strtol 0 (dotted ns))) = int (hd0 ns) \<and>
    (case snd (strtol 0 (dotted ns)) of [] \<Rightarrow> tl ns = [] | c # r \<Rightarrow> tl ns \<noteq> [] \<and> r = dotted (tl ns))"
proof (cases ns rule: dotted.cases)
  case 1
  then show ?thesis by (simp add: strtol_def strtol_body_def to_int_def)
next
  case (2 n)
  then have "strtol 0 (dec n) = (int n, '''')"
    using assms strtol_dec [of "''''" n] by (simp add: ends_number_def LONG_MAX_def)
  then show ?thesis using 2 assms by (simp add: to_int_small)
next
  case (3 n m ms)
  then have "strtol 0 (dec n @ ''.'' @ dotted (m # ms)) = (int n, ''.'' @ dotted (m # ms))"
    using assms strtol_dec [of "''.'' @ dotted (m # ms)" n] by (simp add: ends_number_def LONG_MAX_def)
  then show ?thesis using 3 assms by (simp add: to_int_small)
qed

lemma compare_dotted_step:
  assumes "\<forall>n \<in> set ns. n < 2 ^ 31" "\<forall>m \<in> set ms. m < 2 ^ 31"
  shows "compare_dotted_version (dotted ns) (dotted ms) =
    (if hd0 ns < hd0 ms then -1 else if hd0 ns > hd0 ms then 1
     else if tl ns = [] \<and> tl ms = [] then 0
     else compare_dotted_version (dotted (tl ns)) (dotted (tl ms)))"
  using strtol_dotted [OF assms(1)] strtol_dotted [OF assms(2)]
  by (subst compare_dotted_version.simps) (auto simp: Let_def split: list.splits)

lemma compare_dotted_order:
  "\<forall>n \<in> set ns. n < 2 ^ 31 \<Longrightarrow> \<forall>m \<in> set ms. m < 2 ^ 31 \<Longrightarrow>
   compare_dotted_version (dotted ns) (dotted ms) = version_order ns ms"
proof (induction ns ms rule: version_order.induct)
  case 1
  show ?case by (subst compare_dotted_step) auto
next
  case (2 n ns)
  then show ?case using compare_dotted_step [of "n # ns" "[]"] by (cases ns) auto
next
  case (3 m ms)
  then show ?case using compare_dotted_step [of "[]" "m # ms"] by (cases ms) auto
next
  case (4 n ns m ms)
  then show ?case using compare_dotted_step [of "n # ns" "m # ms"] by (cases ns; cases ms) auto
qed

section \<open>Properties\<close>

text \<open>On dotted versions without leading zeros, whose components fit an \<^verbatim>\<open>int\<close>,
  \<^verbatim>\<open>compare_dotted_version\<close> returns, and its result is the component-wise order in which a
  missing component counts as 0 (so \<open>0.10 > 0.1\<close> and \<open>0.2 = 0.2.0\<close>).\<close>

theorem compare_dotted_version_order:
  assumes "\<forall>n \<in> set ns. n < 2 ^ 31" and "\<forall>m \<in> set ms. m < 2 ^ 31"
  shows "compare_dotted_version (dotted ns) (dotted ms) = version_order ns ms"
  using assms by (rule compare_dotted_order)

theorem compare_dotted_version_order_witness:
  "compare_dotted_version (dotted [0, 10]) (dotted [0, 1, 9]) = 1 \<and>
   compare_dotted_version (dotted [0, 2]) (dotted [0, 2, 0]) = 0"
  using compare_dotted_version_order [of "[0, 10]" "[0, 1, 9]"]
    compare_dotted_version_order [of "[0, 2]" "[0, 2, 0]"] by simp

text \<open>For a normalised path \<open>d/b\<close> the two path functions split it at the last slash and
  \<^verbatim>\<open>path_combine\<close> puts it together again, provided that at least one readable byte follows
  the path's terminator.\<close>

theorem path_split_combine:
  assumes "CHR ''/'' \<notin> set b" and "nul_free (d @ b)" and "d = [] \<or> last d \<noteq> CHR ''/''"
  shows "fsfuse_basename ((d @ ''/'' @ b) @ NUL # x # rest) = Inr b \<and>
    path_combine (fsfuse_dirname (d @ ''/'' @ b)) b = Inr (d @ ''/'' @ b)"
proof -
  have "b = [] \<or> hd b \<noteq> CHR ''/''" using assms(1) by (cases b) auto
  then show ?thesis
    using basename_split [OF assms(1,2), of x rest] assms
    by (auto simp: fsfuse_dirname_def path_combine_def rindex_last Let_def)
qed

theorem path_split_combine_witness:
  "fsfuse_basename ((''/foo/bar'' @ ''/'' @ ''baz'') @ NUL # CHR ''?'' # []) = Inr ''baz'' \<and>
   path_combine (fsfuse_dirname (''/foo/bar'' @ ''/'' @ ''baz'')) ''baz'' =
     Inr (''/foo/bar'' @ ''/'' @ ''baz'')"
  by (rule path_split_combine) simp_all

text \<open>\<^verbatim>\<open>fsfuse_basename\<close> copies one byte too many: on a path that contains a slash and lies in
  a block of exactly its size, as \<^verbatim>\<open>strdup\<close> allocates it, it reads past the end of the block.\<close>

theorem fsfuse_basename_overread:
  assumes "CHR ''/'' \<in> set p" and "nul_free p"
  shows "fsfuse_basename (c_block p) = Inl OutOfBounds"
  using assms by (rule basename_overread)

theorem fsfuse_basename_overread_witness:
  "fsfuse_basename (c_block ''/foo'') = Inl OutOfBounds"
  by (rule fsfuse_basename_overread) simp_all

end
