(* ===== verification/Listing.thy ===== *)
theory Listing
  imports Ref_Count Utils
begin

text \<open>
  Listings (\<^verbatim>\<open>src/src/nativefs/listing.c\<close>) and lists of listings
  (\<^verbatim>\<open>src/src/nativefs/listing_list.c\<close>). A listing is the description of one directory entry; it
  lives in a reference-counted store of its own class. String attributes are C pointers that
  may be null (\<open>None\<close>): the page parser leaves an attribute that a page never mentions null.
  \<^verbatim>\<open>malloc\<close> is represented by the address argument of \<open>listing_new\<close>, which is to be fresh.
\<close>

unbundle bit_operations_syntax

section \<open>listing.c\<close>

datatype listing_type_t = listing_type_FILE | listing_type_DIRECTORY

record listing_t =
  li_in :: "addr option"
  li_name :: "string option"
  li_hash :: "string option"
  li_type :: listing_type_t
  li_size :: int
  li_link_count :: nat
  li_href :: "string option"
  li_client :: "string option"

definition listing_type_from_string :: "string option \<Rightarrow> listing_type_t res" where
  "listing_type_from_string s =
     (case s of
        None \<Rightarrow> Inl NullDeref
      | Some t \<Rightarrow>
          if t = ''file'' then Inr listing_type_FILE
          else if t = ''directory'' then Inr listing_type_DIRECTORY
          else Inl AssertFail)"

definition listing_new ::
  "addr \<Rightarrow> addr option \<Rightarrow> string option \<Rightarrow> string option \<Rightarrow> string option \<Rightarrow> int \<Rightarrow> nat \<Rightarrow>
   string option \<Rightarrow> string option \<Rightarrow> listing_t rc_store \<Rightarrow> listing_t rc_store res" where
  "listing_new a ind hash name type sz link_count href client st =
     bind_res (listing_type_from_string type) (\<lambda>t.
     Inr (st(a \<mapsto> (Some ref_count_new,
       \<lparr>li_in = ind, li_name = name, li_hash = hash, li_type = t, li_size = sz,
        li_link_count = link_count, li_href = href, li_client = client\<rparr>))))"

definition listing_copy :: "addr \<Rightarrow> listing_t rc_store \<Rightarrow> listing_t rc_store res" where
  "listing_copy li st = obj_copy li st"

text \<open>
  \<^verbatim>\<open>listing_delete\<close> frees the listing and the strings it owns (\<^verbatim>\<open>listing_teardown\<close>) with the
  last reference.
\<close>

definition listing_delete :: "addr \<Rightarrow> listing_t rc_store \<Rightarrow> listing_t rc_store res" where
  "listing_delete li st = obj_delete li st"

text \<open>The getters return copies; \<^verbatim>\<open>strdup\<close> of a null pointer is a crash.\<close>

definition strdup :: "string option \<Rightarrow> string res" where
  "strdup s = (case s of None \<Rightarrow> Inl NullDeref | Some t \<Rightarrow> Inr t)"

definition listing_get_name :: "listing_t \<Rightarrow> string res" where
  "listing_get_name li = strdup (li_name li)"

definition listing_get_hash :: "listing_t \<Rightarrow> string res" where
  "listing_get_hash li = strdup (li_hash li)"

definition listing_get_href :: "listing_t \<Rightarrow> string res" where
  "listing_get_href li = strdup (li_href li)"

definition listing_get_client :: "listing_t \<Rightarrow> string res" where
  "listing_get_client li = strdup (li_client li)"

definition listing_get_type :: "listing_t \<Rightarrow> listing_type_t" where "listing_get_type li = li_type li"

definition listing_get_size :: "listing_t \<Rightarrow> int" where "listing_get_size li = li_size li"

definition listing_get_link_count :: "listing_t \<Rightarrow> nat" where "listing_get_link_count li = li_link_count li"

definition listing_equal :: "listing_t \<Rightarrow> listing_t \<Rightarrow> bool res" where
  "listing_equal li other =
     bind_res (strdup (li_hash li)) (\<lambda>h1.
     bind_res (strdup (li_hash other)) (\<lambda>h2. Inr (hash_equal h1 h2)))"

record stat =
  st_ino :: nat
  st_nlink :: nat
  st_uid :: "32 word"
  st_gid :: "32 word"
  st_mode :: "32 word"
  st_size :: int
  st_blksize :: nat
  st_blocks :: int

text \<open>The attribute settings \<^verbatim>\<open>listing_li2stat\<close> reads, and the ids of the process.\<close>

record attr_config =
  config_attr_id_uid :: int
  config_attr_id_gid :: int
  config_attr_mode_file :: "32 word"
  config_attr_mode_dir :: "32 word"
  process_uid :: "32 word"
  process_gid :: "32 word"

definition S_IFREG :: "32 word" where "S_IFREG = 0x8000"
definition S_IFDIR :: "32 word" where "S_IFDIR = 0x4000"
definition S_IFMT :: "32 word" where "S_IFMT = 0xF000"
definition FSFUSE_BLKSIZE :: nat where "FSFUSE_BLKSIZE = 512"

text \<open>C's division truncates towards zero.\<close>

definition c_div :: "int \<Rightarrow> int \<Rightarrow> int" where
  "c_div a b = sgn a * sgn b * (\<bar>a\<bar> div \<bar>b\<bar>)"

definition listing_li2stat :: "attr_config \<Rightarrow> listing_t \<Rightarrow> stat" where
  "listing_li2stat config li =
     (let uid = config_attr_id_uid config; gid = config_attr_id_gid config;
          st = \<lparr>st_ino = 0, st_nlink = li_link_count li,
                st_uid = (if uid = -1 then process_uid config else word_of_int uid),
                st_gid = (if gid = -1 then process_gid config else word_of_int gid),
                st_mode = 0, st_size = 0, st_blksize = 0, st_blocks = 0\<rparr> in
      case li_type li of
        listing_type_FILE \<Rightarrow>
          st\<lparr>st_mode := S_IFREG OR config_attr_mode_file config,
             st_size := li_size li, st_blksize := FSFUSE_BLKSIZE,
             st_blocks := c_div (li_size li) 512 + 1\<rparr>
      | listing_type_DIRECTORY \<Rightarrow>
          st\<lparr>st_mode := S_IFDIR OR config_attr_mode_dir config, st_size := 0\<rparr>)"

section \<open>listing\_list.c\<close>

record listing_list_t =
  lis_items :: "addr option list"

definition listing_list_new :: "nat \<Rightarrow> listing_list_t" where
  "listing_list_new n = \<lparr>lis_items = replicate n None\<rparr>"

definition listing_list_resize :: "listing_list_t \<Rightarrow> nat \<Rightarrow> listing_list_t" where
  "listing_list_resize lis new_count =
     lis\<lparr>lis_items := take new_count (lis_items lis) @
                      replicate (new_count - length (lis_items lis)) None\<rparr>"

definition listing_list_delete ::
  "listing_list_t \<Rightarrow> listing_t rc_store \<Rightarrow> listing_t rc_store res" where
  "listing_list_delete lis st =
     fold_res (\<lambda>item st. case item of None \<Rightarrow> Inl NullDeref | Some li \<Rightarrow> listing_delete li st)
       (lis_items lis) st"

definition listing_list_get_count :: "listing_list_t \<Rightarrow> nat" where
  "listing_list_get_count lis = length (lis_items lis)"

definition listing_list_set_item ::
  "listing_list_t \<Rightarrow> nat \<Rightarrow> addr \<Rightarrow> listing_t rc_store \<Rightarrow>
   (listing_list_t \<times> listing_t rc_store) res" where
  "listing_list_set_item lis item li st =
     bind_res (listing_copy li st) (\<lambda>st.
     if item < length (lis_items lis)
     then Inr (lis\<lparr>lis_items := (lis_items lis)[item := Some li]\<rparr>, st)
     else Inl OutOfBounds)"

definition listing_list_get_item ::
  "listing_list_t \<Rightarrow> nat \<Rightarrow> listing_t rc_store \<Rightarrow> (addr \<times> listing_t rc_store) res" where
  "listing_list_get_item lis item st =
     (if item < length (lis_items lis)
      then (case lis_items lis ! item of
              None \<Rightarrow> Inl NullDeref
            | Some li \<Rightarrow> bind_res (listing_copy li st) (\<lambda>st. Inr (li, st)))
      else Inl OutOfBounds)"

text \<open>
  The callback that collects the entries of a page (\<^verbatim>\<open>entry_found\<close>, the same function in
  \<^verbatim>\<open>listing.c\<close> and \<^verbatim>\<open>direntry.c\<close>). The context holds the indexnode, the list and the number of
  entries so far; the reference that \<^verbatim>\<open>listing_new\<close> returned is never given up.
\<close>

record entry_found_ctxt_t =
  ctxt_in :: addr
  ctxt_lis :: listing_list_t
  ctxt_i :: nat

definition entry_found ::
  "addr \<Rightarrow> string option \<Rightarrow> string option \<Rightarrow> string option \<Rightarrow> int \<Rightarrow> nat \<Rightarrow> string option \<Rightarrow>
   string option \<Rightarrow> entry_found_ctxt_t \<times> 'i rc_store \<times> listing_t rc_store \<Rightarrow>
   (entry_found_ctxt_t \<times> 'i rc_store \<times> listing_t rc_store) res" where
  "entry_found a hash name type sz link_count href client s =
     (case s of (ctxt, ins, lis) \<Rightarrow>
      bind_res (obj_copy (ctxt_in ctxt) ins) (\<lambda>ins.
      bind_res (listing_new a (Some (ctxt_in ctxt)) hash name type sz link_count href client lis)
        (\<lambda>lis.
      bind_res (listing_list_set_item (listing_list_resize (ctxt_lis ctxt) (ctxt_i ctxt + 1))
                  (ctxt_i ctxt) a lis) (\<lambda>(l, lis).
      Inr (ctxt\<lparr>ctxt_lis := l, ctxt_i := ctxt_i ctxt + 1\<rparr>, ins, lis)))))"

section \<open>Lemmas\<close>

lemma strdup_simps [simp]: "strdup (Some s) = Inr s" "strdup None = Inl NullDeref"
  by (simp_all add: strdup_def)

text \<open>Listings satisfy the contract of a reference-counted class.\<close>

interpretation listing_rc: counted listing_copy listing_delete refs contents_at max_refs
  unfolding listing_copy_def [abs_def] listing_delete_def [abs_def] by (rule rc_obj.counted_axioms)

text \<open>A list that owns one reference per item.\<close>

definition lis_of :: "addr list \<Rightarrow> listing_list_t" where
  "lis_of as = \<lparr>lis_items = map Some as\<rparr>"

lemma lis_of_simps [simp]:
  "lis_items (lis_of as) = map Some as" "listing_list_get_count (lis_of as) = length as"
  by (simp_all add: lis_of_def listing_list_get_count_def)

lemma listing_list_delete_lis_of:
  "listing_list_delete (lis_of as) st = fold_res listing_delete as st"
proof (induction as arbitrary: st)
  case Nil
  then show ?case by (simp add: listing_list_delete_def)
next
  case (Cons a as)
  then show ?case by (cases "listing_delete a st") (simp_all add: listing_list_delete_def)
qed

lemma listing_list_delete_refs:
  assumes "\<forall>a. count_list as a \<le> refs st a"
  shows "\<exists>st'. listing_list_delete (lis_of as) st = Inr st' \<and>
           refs st' = (\<lambda>a. refs st a - count_list as a) \<and>
           (\<forall>b. 0 < refs st' b \<longrightarrow> contents_at st' b = contents_at st b)"
  unfolding listing_list_delete_lis_of using listing_rc.delete_list [OF assms] .

lemma listing_list_get_item_refs:
  assumes "i < length as" "0 < refs st (as ! i)" "refs st (as ! i) < max_refs"
  shows "\<exists>st'. listing_list_get_item (lis_of as) i st = Inr (as ! i, st') \<and>
           refs st' = (refs st)(as ! i := refs st (as ! i) + 1) \<and> contents_at st' = contents_at st"
  using assms listing_rc.copy_count [of st "as ! i"] by (auto simp: listing_list_get_item_def)

lemma listing_list_set_item_refs:
  assumes "i < length (lis_items lis)" "0 < refs st a" "refs st a < max_refs"
  shows "\<exists>st'. listing_list_set_item lis i a st =
             Inr (lis\<lparr>lis_items := (lis_items lis)[i := Some a]\<rparr>, st') \<and>
           refs st' = (refs st)(a := refs st a + 1) \<and> contents_at st' = contents_at st"
  using assms listing_rc.copy_count [of st a] by (auto simp: listing_list_set_item_def)

lemma obj_get_contents: "0 < refs st a \<Longrightarrow> contents_at st a = Some x \<Longrightarrow> obj_get a st = Inr x"
  by (auto simp: obj_get_def contents_at_def split: option.splits)

end
