(* ===== verification/Peerstats.thy ===== *)
theory Peerstats
  imports Listing
begin

text \<open>
  Choosing the peer to download from (\<^verbatim>\<open>src/src/peerstats.c\<close>): the alternatives for a file are
  split into favourites, blocked peers and the rest, and one of the favourites, else one of the
  rest, is picked at random. The favourites and blocked peers come from the configuration and
  may be null arrays (\<open>None\<close>); the value of \<^verbatim>\<open>random()\<close> is an argument.
\<close>

section \<open>split\_list and peerstats\_chose\_alternative\<close>

text \<open>\<^verbatim>\<open>while (favs[j]) if (!strcmp(listing_get_client(li), favs[j])) ...\<close>\<close>

fun client_in :: "string list \<Rightarrow> listing_t \<Rightarrow> bool res" where
  "client_in [] li = Inr False"
| "client_in (f # fs) li =
     bind_res (listing_get_client li) (\<lambda>c. if c = f then Inr True else client_in fs li)"

definition client_in_opt :: "string list option \<Rightarrow> listing_t \<Rightarrow> bool res" where
  "client_in_opt names li = (case names of None \<Rightarrow> Inr False | Some fs \<Rightarrow> client_in fs li)"

record split_state =
  fav_list :: listing_list_t
  block_list :: listing_list_t
  normal_list :: listing_list_t
  fav_count :: nat
  block_count :: nat
  normal_count :: nat
  sp_store :: "listing_t rc_store"

definition split_step ::
  "listing_list_t \<Rightarrow> string list option \<Rightarrow> string list option \<Rightarrow> nat \<Rightarrow> split_state \<Rightarrow>
   split_state res" where
  "split_step alts favs blocks i s =
     bind_res (listing_list_get_item alts i (sp_store s)) (\<lambda>(li, st).
     bind_res (obj_get li st) (\<lambda>l.
     bind_res (client_in_opt favs l) (\<lambda>is_fav.
     bind_res
       (if is_fav
        then bind_res (listing_list_set_item (fav_list s) (fav_count s) li st) (\<lambda>(lis, st).
             Inr (s\<lparr>fav_list := lis, fav_count := fav_count s + 1, sp_store := st\<rparr>))
        else
          bind_res (client_in_opt blocks l) (\<lambda>is_blocked.
          if is_blocked
          then bind_res (listing_list_set_item (block_list s) (block_count s) li st) (\<lambda>(lis, st).
               Inr (s\<lparr>block_list := lis, block_count := block_count s + 1, sp_store := st\<rparr>))
          else bind_res (listing_list_set_item (normal_list s) (normal_count s) li st) (\<lambda>(lis, st).
               Inr (s\<lparr>normal_list := lis, normal_count := normal_count s + 1, sp_store := st\<rparr>))))
       (\<lambda>s. bind_res (listing_delete li (sp_store s)) (\<lambda>st. Inr (s\<lparr>sp_store := st\<rparr>))))))"

definition split_list ::
  "listing_list_t \<Rightarrow> string list option \<Rightarrow> string list option \<Rightarrow> listing_t rc_store \<Rightarrow>
   (listing_list_t \<times> listing_list_t \<times> listing_list_t \<times> listing_t rc_store) res" where
  "split_list alts favs blocks st =
     (let n = listing_list_get_count alts;
          s0 = \<lparr>fav_list = listing_list_new n, block_list = listing_list_new n,
                normal_list = listing_list_new n,
                fav_count = 0, block_count = 0, normal_count = 0, sp_store = st\<rparr> in
      bind_res (fold_res (split_step alts favs blocks) [0..<n] s0) (\<lambda>s.
      bind_res (c_assert (fav_count s + block_count s + normal_count s = n)) (\<lambda>_.
      Inr (listing_list_resize (fav_list s) (fav_count s),
           listing_list_resize (normal_list s) (normal_count s),
           listing_list_resize (block_list s) (block_count s), sp_store s))))"

text \<open>The middle part of \<^verbatim>\<open>peerstats_chose_alternative\<close>: the pick from the split lists.\<close>

definition chose_from ::
  "nat \<Rightarrow> listing_list_t \<Rightarrow> listing_list_t \<Rightarrow> listing_t rc_store \<Rightarrow>
   (addr option \<times> listing_t rc_store) res" where
  "chose_from random favs normals st =
     (if listing_list_get_count favs > 0
      then bind_res
             (listing_list_get_item favs (random mod listing_list_get_count favs) st)
             (\<lambda>(li, st). Inr (Some li, st))
      else if listing_list_get_count normals > 0
      then bind_res
             (listing_list_get_item normals (random mod listing_list_get_count normals) st)
             (\<lambda>(li, st). Inr (Some li, st))
      else Inr (None, st))"

definition peerstats_chose_alternative ::
  "string list option \<Rightarrow> string list option \<Rightarrow> nat \<Rightarrow> listing_list_t \<Rightarrow> listing_t rc_store \<Rightarrow>
   (addr option \<times> listing_t rc_store) res" where
  "peerstats_chose_alternative favourites blocked random alts st =
     bind_res (split_list alts favourites blocked st) (\<lambda>(fav_list, normal_list, block_list, st).
     bind_res (chose_from random fav_list normal_list st) (\<lambda>(ret, st).
     bind_res (listing_list_delete fav_list st) (\<lambda>st.
     bind_res (listing_list_delete normal_list st) (\<lambda>st.
     bind_res (listing_list_delete block_list st) (\<lambda>st.
     Inr (ret, st))))))"

section \<open>The lists while they are being filled\<close>

text \<open>A list of capacity \<open>n\<close> of which the first slots have been set to \<open>xs\<close>.\<close>

definition filled :: "nat \<Rightarrow> addr list \<Rightarrow> listing_list_t" where
  "filled n xs = \<lparr>lis_items = map Some xs @ replicate (n - length xs) None\<rparr>"

lemma filled_new: "listing_list_new n = filled n []"
  by (simp add: filled_def listing_list_new_def)

lemma filled_set:
  assumes "length xs < n"
  shows "(filled n xs)\<lparr>lis_items := (lis_items (filled n xs))[length xs := Some a]\<rparr> =
    filled n (xs @ [a])"
proof -
  obtain m where "n - length xs = Suc m" using assms by (metis Suc_diff_Suc)
  moreover then have "n - Suc (length xs) = m" by simp
  ultimately show ?thesis by (simp add: filled_def list_update_append)
qed

lemma filled_resize: "length xs \<le> n \<Longrightarrow> listing_list_resize (filled n xs) (length xs) = lis_of xs"
  by (simp add: filled_def listing_list_resize_def lis_of_def)

lemma length_filled: "length xs \<le> n \<Longrightarrow> length (lis_items (filled n xs)) = n"
  by (simp add: filled_def)

section \<open>Classification of the alternatives\<close>

definition names_of :: "string list option \<Rightarrow> string set" where
  "names_of names = (case names of None \<Rightarrow> {} | Some fs \<Rightarrow> set fs)"

text \<open>Every alternative is a live listing with a client, \<open>cl a\<close>.\<close>

definition clients :: "listing_t rc_store \<Rightarrow> addr list \<Rightarrow> (addr \<Rightarrow> string) \<Rightarrow> bool" where
  "clients st as cl \<longleftrightarrow>
     (\<forall>a \<in> set as. \<exists>l. contents_at st a = Some l \<and> li_client l = Some (cl a))"

definition favs_of :: "string list option \<Rightarrow> (addr \<Rightarrow> string) \<Rightarrow> addr list \<Rightarrow> addr list" where
  "favs_of favs cl as = filter (\<lambda>a. cl a \<in> names_of favs) as"

definition blocks_of ::
  "string list option \<Rightarrow> string list option \<Rightarrow> (addr \<Rightarrow> string) \<Rightarrow> addr list \<Rightarrow> addr list" where
  "blocks_of favs blocks cl as =
     filter (\<lambda>a. cl a \<notin> names_of favs \<and> cl a \<in> names_of blocks) as"

definition normals_of ::
  "string list option \<Rightarrow> string list option \<Rightarrow> (addr \<Rightarrow> string) \<Rightarrow> addr list \<Rightarrow> addr list" where
  "normals_of favs blocks cl as =
     filter (\<lambda>a. cl a \<notin> names_of favs \<and> cl a \<notin> names_of blocks) as"

lemmas split_defs = favs_of_def blocks_of_def normals_of_def

lemma client_in_correct: "li_client l = Some c \<Longrightarrow> client_in fs l = Inr (c \<in> set fs)"
  by (induction fs) (auto simp: listing_get_client_def)

lemma client_in_opt_correct: "li_client l = Some c \<Longrightarrow> client_in_opt fs l = Inr (c \<in> names_of fs)"
  by (simp add: client_in_opt_def names_of_def client_in_correct split: option.splits)

lemma split_lengths:
  "length (favs_of favs cl as) + length (blocks_of favs blocks cl as) +
   length (normals_of favs blocks cl as) = length as"
  by (induction as) (auto simp: split_defs)

lemma split_count_list:
  "count_list (favs_of favs cl as) a + count_list (blocks_of favs blocks cl as) a +
   count_list (normals_of favs blocks cl as) a = count_list as a"
  by (induction as) (auto simp: split_defs)

section \<open>split\_list is a partition\<close>

definition split_inv ::
  "nat \<Rightarrow> string list option \<Rightarrow> string list option \<Rightarrow> (addr \<Rightarrow> string) \<Rightarrow> listing_t rc_store \<Rightarrow>
   addr list \<Rightarrow> split_state \<Rightarrow> bool" where
  "split_inv n favs blocks cl st as s \<longleftrightarrow>
     fav_list s = filled n (favs_of favs cl as) \<and>
     fav_count s = length (favs_of favs cl as) \<and>
     block_list s = filled n (blocks_of favs blocks cl as) \<and>
     block_count s = length (blocks_of favs blocks cl as) \<and>
     normal_list s = filled n (normals_of favs blocks cl as) \<and>
     normal_count s = length (normals_of favs blocks cl as) \<and>
     refs (sp_store s) = (\<lambda>a. refs st a + count_list as a) \<and>
     contents_at (sp_store s) = contents_at st"

text \<open>Setting an item and then dropping the reference that \<^verbatim>\<open>get_item\<close> gave.\<close>

lemma set_then_delete:
  assumes "length xs < n" "1 < refs st a" "refs st a < max_refs"
  shows "\<exists>st1 st2. listing_list_set_item (filled n xs) (length xs) a st = Inr (filled n (xs @ [a]), st1) \<and>
    listing_delete a st1 = Inr st2 \<and> refs st2 = refs st \<and> contents_at st2 = contents_at st"
proof -
  obtain st1 where st1: "listing_list_set_item (filled n xs) (length xs) a st = Inr (filled n (xs @ [a]), st1)"
      "refs st1 = (refs st)(a := refs st a + 1)" "contents_at st1 = contents_at st"
    using listing_list_set_item_refs [of "length xs" "filled n xs" st a] assms
    by (auto simp: length_filled filled_set)
  then have "0 < refs st1 a" by simp
  from listing_rc.delete_count [OF this] obtain st2 where
    st2: "listing_delete a st1 = Inr st2" "refs st2 = (refs st1)(a := refs st1 a - 1)"
      "\<forall>b. 0 < refs st2 b \<longrightarrow> contents_at st2 b = contents_at st1 b" by blast
  have "refs st2 = refs st" using st1(2) st2(2) by simp
  moreover have "contents_at st2 = contents_at st"
    using obj_delete_keeps [of a st1 st2] st1 st2 assms(2) by (auto simp: listing_delete_def)
  ultimately show ?thesis using st1(1) st2(1) by blast
qed

lemma split_step_inv:
  assumes inv: "split_inv n favs blocks cl st (take i as) s" and i: "i < length as" "length as = n"
    and live: "\<forall>a \<in> set as. 0 < refs st a \<and> refs st a + count_list as a + 1 < max_refs"
    and cl: "clients st as cl"
  shows "\<exists>s'. split_step (lis_of as) favs blocks i s = Inr s' \<and>
           split_inv n favs blocks cl st (take (Suc i) as) s'"
proof -
  define a where "a = as ! i"
  have a: "a \<in> set as" using i by (simp add: a_def)
  have take: "take (Suc i) as = take i as @ [a]" using i by (simp add: a_def take_Suc_conv_app_nth)
  have cnt: "count_list (take i as) a + 1 \<le> count_list as a"
  proof -
    have "count_list as a = count_list (take (Suc i) as @ drop (Suc i) as) a" by simp
    then show ?thesis unfolding count_list_append take by simp
  qed
  have store: "refs (sp_store s) = (\<lambda>a. refs st a + count_list (take i as) a)"
      "contents_at (sp_store s) = contents_at st" using inv by (auto simp: split_inv_def)
  have r: "0 < refs (sp_store s) a" "refs (sp_store s) a + 1 < max_refs"
    using live a store cnt by force+
  obtain st1 where st1: "listing_list_get_item (lis_of as) i (sp_store s) = Inr (a, st1)"
      "refs st1 = (refs (sp_store s))(a := refs (sp_store s) a + 1)" "contents_at st1 = contents_at st"
    using listing_list_get_item_refs [of i as "sp_store s"] i r store unfolding a_def by auto
  obtain l where l: "contents_at st1 a = Some l" "li_client l = Some (cl a)"
    using cl a st1(3) by (auto simp: clients_def)
  have get: "obj_get a st1 = Inr l" using l(1) st1(2) by (intro obj_get_contents) auto
  have refs1: "refs st1 = (\<lambda>b. refs st b + count_list (take (Suc i) as) b)"
    using st1(2) store(1) take by (auto simp: fun_eq_iff)
  have bounds: "length (favs_of favs cl (take i as)) < n" "length (blocks_of favs blocks cl (take i as)) < n"
      "length (normals_of favs blocks cl (take i as)) < n"
    using split_lengths [of favs cl "take i as" blocks] i by auto
  have r1: "1 < refs st1 a" "refs st1 a < max_refs" using r st1(2) by auto
  have fields: "fav_list s = filled n (favs_of favs cl (take i as))"
      "fav_count s = length (favs_of favs cl (take i as))"
      "block_list s = filled n (blocks_of favs blocks cl (take i as))"
      "block_count s = length (blocks_of favs blocks cl (take i as))"
      "normal_list s = filled n (normals_of favs blocks cl (take i as))"
      "normal_count s = length (normals_of favs blocks cl (take i as))"
    using inv by (simp_all add: split_inv_def)
  note step = split_step_def st1(1) get client_in_opt_correct [OF l(2)] fields
  note res = split_inv_def fields refs1 st1(3)
  consider (fav) "cl a \<in> names_of favs" | (block) "cl a \<notin> names_of favs" "cl a \<in> names_of blocks"
    | (normal) "cl a \<notin> names_of favs" "cl a \<notin> names_of blocks" by blast
  then show ?thesis
  proof cases
    case fav
    obtain st2 st3 where "listing_list_set_item (fav_list s) (fav_count s) a st1 =
        Inr (filled n (favs_of favs cl (take i as) @ [a]), st2)"
      "listing_delete a st2 = Inr st3" "refs st3 = refs st1" "contents_at st3 = contents_at st1"
      using set_then_delete [OF bounds(1) r1] fields by auto
    then show ?thesis using fav by (simp add: step res, simp add: take split_defs)
  next
    case block
    obtain st2 st3 where "listing_list_set_item (block_list s) (block_count s) a st1 =
        Inr (filled n (blocks_of favs blocks cl (take i as) @ [a]), st2)"
      "listing_delete a st2 = Inr st3" "refs st3 = refs st1" "contents_at st3 = contents_at st1"
      using set_then_delete [OF bounds(2) r1] fields by auto
    then show ?thesis using block by (simp add: step res, simp add: take split_defs)
  next
    case normal
    obtain st2 st3 where "listing_list_set_item (normal_list s) (normal_count s) a st1 =
        Inr (filled n (normals_of favs blocks cl (take i as) @ [a]), st2)"
      "listing_delete a st2 = Inr st3" "refs st3 = refs st1" "contents_at st3 = contents_at st1"
      using set_then_delete [OF bounds(3) r1] fields by auto
    then show ?thesis using normal by (simp add: step res, simp add: take split_defs)
  qed
qed

lemma split_list_correct:
  assumes live: "\<forall>a \<in> set as. 0 < refs st a \<and> refs st a + count_list as a + 1 < max_refs"
    and cl: "clients st as cl"
  shows "\<exists>st'. split_list (lis_of as) favs blocks st =
      Inr (lis_of (favs_of favs cl as), lis_of (normals_of favs blocks cl as),
           lis_of (blocks_of favs blocks cl as), st') \<and>
    refs st' = (\<lambda>a. refs st a + count_list as a) \<and> contents_at st' = contents_at st"
proof -
  define n where "n = length as"
  define s0 where "s0 = \<lparr>fav_list = listing_list_new n, block_list = listing_list_new n,
    normal_list = listing_list_new n, fav_count = 0, block_count = 0, normal_count = 0, sp_store = st\<rparr>"
  have "\<exists>s. fold_res (split_step (lis_of as) favs blocks) [0..<i] s0 = Inr s \<and>
      split_inv n favs blocks cl st (take i as) s" if "i \<le> n" for i
    using that
  proof (induction i)
    case 0
    then show ?case by (simp add: s0_def split_inv_def filled_new split_defs)
  next
    case (Suc i)
    then obtain s where s: "fold_res (split_step (lis_of as) favs blocks) [0..<i] s0 = Inr s"
      "split_inv n favs blocks cl st (take i as) s" by auto
    have "i < length as" using Suc.prems by (simp add: n_def)
    from split_step_inv [OF s(2) this n_def [symmetric] live cl] s(1)
    show ?case by (auto simp: fold_res_append)
  qed
  from this [of n] obtain s where
    s: "fold_res (split_step (lis_of as) favs blocks) [0..<n] s0 = Inr s"
      "split_inv n favs blocks cl st as s" by (auto simp: n_def)
  have le: "length (favs_of favs cl as) \<le> n" "length (blocks_of favs blocks cl as) \<le> n"
      "length (normals_of favs blocks cl as) \<le> n"
    using split_lengths [of favs cl as blocks] by (simp_all add: n_def)
  have total: "fav_count s + block_count s + normal_count s = n"
    using s(2) split_lengths [of favs cl as blocks] by (simp add: split_inv_def n_def)
  have "split_list (lis_of as) favs blocks st =
      Inr (listing_list_resize (fav_list s) (fav_count s),
           listing_list_resize (normal_list s) (normal_count s),
           listing_list_resize (block_list s) (block_count s), sp_store s)"
    using s(1) total by (simp add: split_list_def Let_def s0_def n_def)
  then show ?thesis using s(2) le by (simp add: split_inv_def filled_resize)
qed

section \<open>The peer that is chosen\<close>

text \<open>What the caller may expect: a favourite if there is one, else a peer that is not blocked.\<close>

definition candidates ::
  "string list option \<Rightarrow> string list option \<Rightarrow> (addr \<Rightarrow> string) \<Rightarrow> addr list \<Rightarrow> addr list" where
  "candidates favs blocks cl as =
     (if favs_of favs cl as \<noteq> [] then favs_of favs cl as else normals_of favs blocks cl as)"

lemma candidates_subset: "set (candidates favs blocks cl as) \<subseteq> set as"
  by (auto simp: candidates_def split_defs)

lemma delete_split_lists:
  assumes "\<forall>a. count_list xs a + count_list ys a + count_list zs a \<le> refs st a"
  shows "\<exists>st1 st2 st3. listing_list_delete (lis_of xs) st = Inr st1 \<and>
    listing_list_delete (lis_of ys) st1 = Inr st2 \<and> listing_list_delete (lis_of zs) st2 = Inr st3 \<and>
    refs st3 = (\<lambda>a. refs st a - (count_list xs a + count_list ys a + count_list zs a)) \<and>
    (\<forall>b. 0 < refs st3 b \<longrightarrow> contents_at st3 b = contents_at st b)"
proof -
  have "\<forall>a. count_list xs a \<le> refs st a" using assms by (meson add_leD1)
  from listing_list_delete_refs [OF this] obtain st1 where
    1: "listing_list_delete (lis_of xs) st = Inr st1" "refs st1 = (\<lambda>a. refs st a - count_list xs a)"
      "\<forall>b. 0 < refs st1 b \<longrightarrow> contents_at st1 b = contents_at st b" by blast
  have "\<forall>a. count_list ys a \<le> refs st1 a" unfolding 1(2)
  proof
    fix a show "count_list ys a \<le> refs st a - count_list xs a" using assms [rule_format, of a] by simp
  qed
  from listing_list_delete_refs [OF this] obtain st2 where
    2: "listing_list_delete (lis_of ys) st1 = Inr st2" "refs st2 = (\<lambda>a. refs st1 a - count_list ys a)"
      "\<forall>b. 0 < refs st2 b \<longrightarrow> contents_at st2 b = contents_at st1 b" by blast
  have "\<forall>a. count_list zs a \<le> refs st2 a" unfolding 1(2) 2(2)
  proof
    fix a show "count_list zs a \<le> refs st a - count_list xs a - count_list ys a"
      using assms [rule_format, of a] by simp
  qed
  from listing_list_delete_refs [OF this] obtain st3 where
    3: "listing_list_delete (lis_of zs) st2 = Inr st3" "refs st3 = (\<lambda>a. refs st2 a - count_list zs a)"
      "\<forall>b. 0 < refs st3 b \<longrightarrow> contents_at st3 b = contents_at st2 b" by blast
  have "contents_at st3 b = contents_at st b" if "0 < refs st3 b" for b
  proof -
    have "0 < refs st2 b" "0 < refs st1 b" using that unfolding 3(2) 2(2) by simp_all
    then show ?thesis using that 1(3) 2(3) 3(3) by metis
  qed
  moreover have "refs st3 = (\<lambda>a. refs st a - (count_list xs a + count_list ys a + count_list zs a))"
    unfolding 3(2) 2(2) 1(2) by simp
  ultimately show ?thesis using 1(1) 2(1) 3(1) by blast
qed

text \<open>Taking one more reference to a member of a list, as the choice does.\<close>

lemma take_choice:
  assumes "xs \<noteq> []" "\<forall>a \<in> set xs. 0 < refs st a \<and> refs st a < max_refs"
  shows "\<exists>st'. listing_list_get_item (lis_of xs) (r mod length xs) st =
             Inr (xs ! (r mod length xs), st') \<and>
           refs st' = (refs st)(xs ! (r mod length xs) := refs st (xs ! (r mod length xs)) + 1) \<and>
           contents_at st' = contents_at st"
proof (rule listing_list_get_item_refs)
  show "r mod length xs < length xs" using assms(1) by simp
  then have "xs ! (r mod length xs) \<in> set xs" by simp
  then show "0 < refs st (xs ! (r mod length xs))" "refs st (xs ! (r mod length xs)) < max_refs"
    using assms(2) by blast+
qed

definition chosen ::
  "string list option \<Rightarrow> string list option \<Rightarrow> (addr \<Rightarrow> string) \<Rightarrow> nat \<Rightarrow> addr list \<Rightarrow> addr option" where
  "chosen favs blocks cl r as =
     (let cs = candidates favs blocks cl as in
      if cs = [] then None else Some (cs ! (r mod length cs)))"

lemma split_count_list':
  "count_list (favs_of favs cl as) a + count_list (normals_of favs blocks cl as) a +
   count_list (blocks_of favs blocks cl as) a = count_list as a"
  using split_count_list [of favs cl as a blocks] by simp

lemma choice_correct:
  assumes "\<forall>a \<in> set as. 0 < refs st a \<and> refs st a < max_refs"
  shows "\<exists>st'. chose_from r (lis_of (favs_of favs cl as)) (lis_of (normals_of favs blocks cl as)) st =
      Inr (chosen favs blocks cl r as, st') \<and>
    refs st' = (\<lambda>a. refs st a + (if chosen favs blocks cl r as = Some a then 1 else 0)) \<and>
    contents_at st' = contents_at st"
proof -
  consider (fav) "favs_of favs cl as \<noteq> []"
    | (normal) "favs_of favs cl as = []" "normals_of favs blocks cl as \<noteq> []"
    | (none) "favs_of favs cl as = []" "normals_of favs blocks cl as = []" by blast
  then show ?thesis
  proof cases
    case fav
    have "\<forall>a \<in> set (favs_of favs cl as). 0 < refs st a \<and> refs st a < max_refs"
      using assms by (simp add: split_defs)
    from take_choice [OF fav this, of r] fav show ?thesis
      by (auto simp: chose_from_def chosen_def candidates_def Let_def fun_eq_iff)
  next
    case normal
    have "\<forall>a \<in> set (normals_of favs blocks cl as). 0 < refs st a \<and> refs st a < max_refs"
      using assms by (simp add: split_defs)
    from take_choice [OF normal(2) this, of r] normal show ?thesis
      by (auto simp: chose_from_def chosen_def candidates_def Let_def fun_eq_iff)
  next
    case none
    then show ?thesis by (simp add: chose_from_def chosen_def candidates_def Let_def)
  qed
qed

text \<open>C12. Choosing a peer (peerstats.c): for any list of live alternatives that all name their
  client, \<^verbatim>\<open>peerstats_chose_alternative\<close> runs without error and returns a favourite if one of
  the alternatives is served by a favourite, otherwise one that is not blocked, and null exactly
  when all of them are blocked; the choice is the one \<^verbatim>\<open>random()\<close> selects. The caller gets one
  reference to the chosen listing and every other reference count and live listing is as before.\<close>
theorem peerstats_chose_alternative_correct:
  assumes live: "\<forall>a \<in> set as. 0 < refs st a \<and> refs st a + count_list as a + 1 < max_refs"
    and cl: "clients st as cl"
  shows "\<exists>st'. peerstats_chose_alternative favs blocks r (lis_of as) st =
      Inr (chosen favs blocks cl r as, st') \<and>
    (\<forall>a. refs st' a = refs st a + (if chosen favs blocks cl r as = Some a then 1 else 0)) \<and>
    (\<forall>a. 0 < refs st' a \<longrightarrow> contents_at st' a = contents_at st a)"
proof -
  obtain st1 where 1: "split_list (lis_of as) favs blocks st =
      Inr (lis_of (favs_of favs cl as), lis_of (normals_of favs blocks cl as),
           lis_of (blocks_of favs blocks cl as), st1)"
    "refs st1 = (\<lambda>a. refs st a + count_list as a)" "contents_at st1 = contents_at st"
    using split_list_correct [OF live cl] by blast
  have "\<forall>a \<in> set as. 0 < refs st1 a \<and> refs st1 a < max_refs"
  proof
    fix a assume "a \<in> set as"
    from live [rule_format, OF this] show "0 < refs st1 a \<and> refs st1 a < max_refs"
      unfolding 1(2) by linarith
  qed
  from choice_correct [OF this] obtain st2 where
    2: "chose_from r (lis_of (favs_of favs cl as)) (lis_of (normals_of favs blocks cl as)) st1 =
      Inr (chosen favs blocks cl r as, st2)"
    and st2: "refs st2 = (\<lambda>a. refs st1 a + (if chosen favs blocks cl r as = Some a then 1 else 0))"
      "contents_at st2 = contents_at st1" by blast
  have "\<forall>a. count_list (favs_of favs cl as) a + count_list (normals_of favs blocks cl as) a +
      count_list (blocks_of favs blocks cl as) a \<le> refs st2 a"
    unfolding split_count_list' st2 1(2) by simp
  from delete_split_lists [OF this] obtain st3 st4 st5 where
    3: "listing_list_delete (lis_of (favs_of favs cl as)) st2 = Inr st3"
      "listing_list_delete (lis_of (normals_of favs blocks cl as)) st3 = Inr st4"
      "listing_list_delete (lis_of (blocks_of favs blocks cl as)) st4 = Inr st5"
      "refs st5 = (\<lambda>a. refs st2 a - count_list as a)"
      "\<forall>b. 0 < refs st5 b \<longrightarrow> contents_at st5 b = contents_at st2 b"
    unfolding split_count_list' by blast
  have "refs st5 = (\<lambda>a. refs st a + (if chosen favs blocks cl r as = Some a then 1 else 0))"
    unfolding 3(4) st2(1) 1(2) by auto
  then show ?thesis
    using 1 3 st2(2) by (simp add: peerstats_chose_alternative_def 2)
qed

text \<open>A store with three alternatives, one of them from the favourite peer \<^verbatim>\<open>bob\<close>.\<close>

definition example_listing :: "string \<Rightarrow> listing_t" where
  "example_listing c = \<lparr>li_in = None, li_name = Some ''f'', li_hash = Some ''h'',
     li_type = listing_type_FILE, li_size = 1, li_link_count = 1, li_href = Some ''/f'',
     li_client = Some c\<rparr>"

definition example_alternatives :: "listing_t rc_store" where
  "example_alternatives = [1 \<mapsto> (Some ref_count_new, example_listing ''alice''),
     2 \<mapsto> (Some ref_count_new, example_listing ''bob''),
     3 \<mapsto> (Some ref_count_new, example_listing ''eve'')]"

definition example_client :: "addr \<Rightarrow> string" where
  "example_client a = (if a = 1 then ''alice'' else if a = 2 then ''bob'' else ''eve'')"

theorem peerstats_chose_alternative_correct_witness:
  "\<exists>st'. peerstats_chose_alternative (Some [''bob'']) (Some [''eve'']) 7 (lis_of [1, 2, 3])
      example_alternatives = Inr (Some 2, st') \<and>
    (\<forall>a. refs st' a = refs example_alternatives a + (if Some 2 = Some a then 1 else 0)) \<and>
    (\<forall>a. 0 < refs st' a \<longrightarrow> contents_at st' a = contents_at example_alternatives a)"
proof -
  have "\<forall>a \<in> set [1, 2, 3]. 0 < refs example_alternatives a \<and>
      refs example_alternatives a + count_list [1, 2, 3] a + 1 < max_refs"
    by (simp add: example_alternatives_def refs_def ref_count_new_def)
  moreover have "clients example_alternatives [1, 2, 3] example_client"
    by (simp add: clients_def example_alternatives_def example_client_def example_listing_def)
  moreover have "chosen (Some [''bob'']) (Some [''eve'']) example_client 7 [1, 2, 3] = Some 2"
    by (simp add: chosen_def candidates_def split_defs names_of_def example_client_def Let_def)
  ultimately show ?thesis
    using peerstats_chose_alternative_correct [of "[1, 2, 3]" example_alternatives example_client
      "Some [''bob'']" "Some [''eve'']" 7] by simp
qed

end
