(* ===== verification/Parser.thy ===== *)
theory Parser
  imports Utils
begin

text \<open>
  The page parsers: \<^verbatim>\<open>src/src/parser/parser_xml.c\<close>, which turns the callbacks of the SAX library
  into a stream of tag, attribute and text events, and the two state machines that consume it,
  \<^verbatim>\<open>parser_filelist.c\<close> for directory listings and \<^verbatim>\<open>parser_stats.c\<close> for the statistics page.

  libxml is not part of the program: \<^verbatim>\<open>xmlParseChunk\<close> is the parameter \<open>xml_parse_chunk\<close>, which
  takes the library's state, a block of data and the terminate flag to a new state, the SAX
  callbacks it makes in order, and its return code. The listing and statistics callbacks are
  parameters as well; they get and return a context and may fail.
\<close>

section \<open>fs2\_constants.c\<close>

definition fs2_alternativescount_attribute_key :: string where
  "fs2_alternativescount_attribute_key = ''fs2-alternativescount''"
definition fs2_clientalias_attribute_key :: string where
  "fs2_clientalias_attribute_key = ''fs2-clientalias''"
definition fs2_hash_attribute_key :: string where "fs2_hash_attribute_key = ''fs2-hash''"
definition fs2_href_attribute_key :: string where "fs2_href_attribute_key = ''href''"
definition fs2_linkcount_attribute_key :: string where
  "fs2_linkcount_attribute_key = ''fs2-linkcount''"
definition fs2_name_attribute_key :: string where "fs2_name_attribute_key = ''fs2-name''"
definition fs2_path_attribute_key :: string where "fs2_path_attribute_key = ''fs2-path''"
definition fs2_size_attribute_key :: string where "fs2_size_attribute_key = ''fs2-size''"
definition fs2_type_attribute_key :: string where "fs2_type_attribute_key = ''fs2-type''"
definition fs2_alias_header_key :: string where "fs2_alias_header_key = ''fs2-alias: ''"
definition fs2_indexnode_uid_header_key :: string where
  "fs2_indexnode_uid_header_key = ''fs2-indexnode-uid: ''"
definition fs2_version_header_key :: string where "fs2_version_header_key = ''fs2-version: ''"
definition fs2_filelist_node_id :: string where "fs2_filelist_node_id = ''fs2-filelist''"

lemmas attribute_key_defs = fs2_alternativescount_attribute_key_def
  fs2_clientalias_attribute_key_def fs2_hash_attribute_key_def fs2_href_attribute_key_def
  fs2_linkcount_attribute_key_def fs2_name_attribute_key_def fs2_path_attribute_key_def
  fs2_size_attribute_key_def fs2_type_attribute_key_def

section \<open>parser\_xml.c\<close>

datatype parser_xml_event_t =
    parser_xml_event_TAG_START
  | parser_xml_event_TEXT
  | parser_xml_event_TAG_END
  | parser_xml_event_ATTRIBUTE

text \<open>
  The callbacks libxml makes. An attribute is its local name and the characters between its
  value's start and end pointers. A run of characters is the memory at \<^verbatim>\<open>ch\<close> and its length:
  libxml does not terminate the run, so the memory goes on behind it.
\<close>

datatype sax_event =
    StartElementNs string "(string \<times> string) list"
  | EndElementNs string
  | CharacterRun string nat

type_synonym 's xml_cb = "parser_xml_event_t \<Rightarrow> string \<Rightarrow> string option \<Rightarrow> 's \<Rightarrow> 's res"

text \<open>The search for the id attribute; a later one replaces an earlier one.\<close>

fun find_id :: "string option \<Rightarrow> (string \<times> string) list \<Rightarrow> string option" where
  "find_id i [] = i"
| "find_id i ((localname, v) # atts) =
     (if localname = ''id'' then find_id (Some v) atts else find_id i atts)"

definition on_start_element_ns ::
  "'s xml_cb \<Rightarrow> string \<Rightarrow> (string \<times> string) list \<Rightarrow> 's \<Rightarrow> 's res" where
  "on_start_element_ns cb localname atts ctxt =
     bind_res (cb parser_xml_event_TAG_START localname (find_id None atts) ctxt)
       (fold_res (\<lambda>(localname, v) ctxt.
          if localname \<noteq> ''id'' then cb parser_xml_event_ATTRIBUTE localname (Some v) ctxt
          else Inr ctxt) atts)"

definition on_end_element_ns :: "'s xml_cb \<Rightarrow> string \<Rightarrow> 's \<Rightarrow> 's res" where
  "on_end_element_ns cb localname ctxt = cb parser_xml_event_TAG_END localname None ctxt"

definition on_characters :: "'s xml_cb \<Rightarrow> string \<Rightarrow> nat \<Rightarrow> 's \<Rightarrow> 's res" where
  "on_characters cb ch len ctxt =
     (if length (takeWhile (\<lambda>c. c \<in> {CHR '' '', CHR 0x09, CHR 0x0A, CHR 0x0D}) ch) \<noteq> len
      then cb parser_xml_event_TEXT (c_str (take len ch)) None ctxt
      else Inr ctxt)"

fun sax_dispatch :: "'s xml_cb \<Rightarrow> sax_event \<Rightarrow> 's \<Rightarrow> 's res" where
  "sax_dispatch cb (StartElementNs localname atts) = on_start_element_ns cb localname atts"
| "sax_dispatch cb (EndElementNs localname) = on_end_element_ns cb localname"
| "sax_dispatch cb (CharacterRun ch len) = on_characters cb ch len"

type_synonym 'x xml_parse_chunk = "'x \<Rightarrow> string \<Rightarrow> bool \<Rightarrow> 'x \<times> sax_event list \<times> int"

definition parser_xml_consume ::
  "'x xml_parse_chunk \<Rightarrow> 's xml_cb \<Rightarrow> string \<Rightarrow> 'x \<times> 's \<Rightarrow> (int \<times> 'x \<times> 's) res" where
  "parser_xml_consume xml_parse_chunk cb dat = (\<lambda>(x, ctxt).
     let (x', events, rc) = xml_parse_chunk x dat False in
     bind_res (fold_res (sax_dispatch cb) events ctxt) (\<lambda>ctxt. Inr (rc, x', ctxt)))"

text \<open>Deleting the parser ends the document; the library may still make callbacks then.\<close>

definition parser_xml_delete ::
  "'x xml_parse_chunk \<Rightarrow> 's xml_cb \<Rightarrow> 'x \<times> 's \<Rightarrow> 's res" where
  "parser_xml_delete xml_parse_chunk cb = (\<lambda>(x, ctxt).
     let (x', events, rc) = xml_parse_chunk x [] True in fold_res (sax_dispatch cb) events ctxt)"

section \<open>parser\_filelist.c\<close>

definition atoll :: "string \<Rightarrow> int" where
  "atoll s = fst (strtol 10 s)"

text \<open>A \<^verbatim>\<open>long\<close> assigned to an \<^verbatim>\<open>unsigned long\<close>.\<close>

definition to_ulong :: "int \<Rightarrow> nat" where
  "to_ulong n = nat (n mod 2 ^ 64)"

text \<open>The arguments of the entry-found callback.\<close>

record found_entry =
  fe_hash :: "string option"
  fe_name :: "string option"
  fe_type :: "string option"
  fe_size :: int
  fe_link_count :: nat
  fe_href :: "string option"
  fe_client :: "string option"

type_synonym 'c entry_found_cb = "found_entry \<Rightarrow> 'c \<Rightarrow> 'c res"

datatype filelist_state =
  state_WAITING_FOR_DIV_FILELIST | state_WAITING_FOR_A | state_CONSUMING_A

record parser_filelist_t =
  pf_state :: filelist_state
  pf_entry :: found_entry

definition parser_filelist_new :: parser_filelist_t where
  "parser_filelist_new = \<lparr>pf_state = state_WAITING_FOR_DIV_FILELIST,
     pf_entry = \<lparr>fe_hash = None, fe_name = None, fe_type = None, fe_size = 0, fe_link_count = 0,
       fe_href = None, fe_client = None\<rparr>\<rparr>"

text \<open>The chain of comparisons of \<^verbatim>\<open>filelist_xml_cb\<close> for an attribute of the \<^verbatim>\<open>a\<close> element.\<close>

definition filelist_attribute :: "string \<Rightarrow> string \<Rightarrow> found_entry \<Rightarrow> found_entry" where
  "filelist_attribute name value e =
     (if name = fs2_name_attribute_key then e\<lparr>fe_name := Some value\<rparr>
      else if name = fs2_hash_attribute_key then e\<lparr>fe_hash := Some value\<rparr>
      else if name = fs2_type_attribute_key then e\<lparr>fe_type := Some value\<rparr>
      else if name = fs2_size_attribute_key then e\<lparr>fe_size := atoll value\<rparr>
      else if name = fs2_linkcount_attribute_key \<or> name = fs2_alternativescount_attribute_key
      then e\<lparr>fe_link_count := to_ulong (atoll value)\<rparr>
      else if name = fs2_href_attribute_key then e\<lparr>fe_href := Some value\<rparr>
      else if name = fs2_clientalias_attribute_key then e\<lparr>fe_client := Some value\<rparr>
      else e)"

text \<open>\<^verbatim>\<open>filelist_xml_cb\<close>: the parser and the context of its callback.\<close>

definition filelist_xml_cb :: "'c entry_found_cb \<Rightarrow> (parser_filelist_t \<times> 'c) xml_cb" where
  "filelist_xml_cb cb event name value = (\<lambda>(p, ctxt).
     (case pf_state p of
        state_WAITING_FOR_DIV_FILELIST \<Rightarrow>
          if event = parser_xml_event_TAG_START \<and> name = ''div'' \<and> value = Some fs2_filelist_node_id
          then Inr (p\<lparr>pf_state := state_WAITING_FOR_A\<rparr>, ctxt)
          else Inr (p, ctxt)
      | state_WAITING_FOR_A \<Rightarrow>
          if event = parser_xml_event_TAG_START \<and> name = ''a''
          then Inr (p\<lparr>pf_state := state_CONSUMING_A\<rparr>, ctxt)
          else Inr (p, ctxt)
      | state_CONSUMING_A \<Rightarrow>
          bind_res
            (if event = parser_xml_event_ATTRIBUTE
             then (case value of
                     None \<Rightarrow> if name \<in> {fs2_name_attribute_key, fs2_hash_attribute_key,
                                fs2_type_attribute_key, fs2_size_attribute_key,
                                fs2_linkcount_attribute_key, fs2_alternativescount_attribute_key,
                                fs2_href_attribute_key, fs2_clientalias_attribute_key}
                             then Inl NullDeref else Inr p
                   | Some v \<Rightarrow> Inr (p\<lparr>pf_entry := filelist_attribute name v (pf_entry p)\<rparr>))
             else Inr p) (\<lambda>p.
          if event = parser_xml_event_TAG_END \<and> name = ''a''
          then bind_res (cb (pf_entry p) ctxt) (\<lambda>ctxt.
               Inr (p\<lparr>pf_state := state_WAITING_FOR_A\<rparr>, ctxt))
          else Inr (p, ctxt))))"

definition parser_filelist_consume ::
  "'x xml_parse_chunk \<Rightarrow> 'c entry_found_cb \<Rightarrow> string \<Rightarrow> 'x \<times> parser_filelist_t \<times> 'c \<Rightarrow>
   (int \<times> 'x \<times> parser_filelist_t \<times> 'c) res" where
  "parser_filelist_consume xml_parse_chunk cb =
     parser_xml_consume xml_parse_chunk (filelist_xml_cb cb)"

definition parser_filelist_delete ::
  "'x xml_parse_chunk \<Rightarrow> 'c entry_found_cb \<Rightarrow> 'x \<times> parser_filelist_t \<times> 'c \<Rightarrow>
   (parser_filelist_t \<times> 'c) res" where
  "parser_filelist_delete xml_parse_chunk cb =
     parser_xml_delete xml_parse_chunk (filelist_xml_cb cb)"

section \<open>parser\_stats.c\<close>

datatype stats_state =
    state_WAITING_FOR_DIV_GENERAL
  | state_WAITING_FOR_SPAN_WITH_ID
  | state_CONSUMING_FILE_COUNT
  | state_CONSUMING_TOTAL_SIZE

record parser_stats_t =
  ps_state :: stats_state
  ps_files :: nat
  ps_bytes :: nat

type_synonym 'c stats_cb = "nat \<Rightarrow> nat \<Rightarrow> 'c \<Rightarrow> 'c res"

definition parser_stats_new :: parser_stats_t where
  "parser_stats_new = \<lparr>ps_state = state_WAITING_FOR_DIV_GENERAL, ps_files = 0, ps_bytes = 0\<rparr>"

definition raise_cb_if_done :: "'c stats_cb \<Rightarrow> parser_stats_t \<times> 'c \<Rightarrow> (parser_stats_t \<times> 'c) res" where
  "raise_cb_if_done cb = (\<lambda>(p, ctxt).
     if ps_bytes p \<noteq> 0 \<and> ps_files p \<noteq> 0
     then bind_res (cb (ps_files p) (ps_bytes p) ctxt) (\<lambda>ctxt. Inr (p, ctxt))
     else Inr (p, ctxt))"

text \<open>\<^verbatim>\<open>atoll\<close> and \<^verbatim>\<open>strcmp\<close> of the null pointer are crashes.\<close>

definition stats_xml_cb :: "'c stats_cb \<Rightarrow> (parser_stats_t \<times> 'c) xml_cb" where
  "stats_xml_cb cb event name value = (\<lambda>(p, ctxt).
     (case ps_state p of
        state_WAITING_FOR_DIV_GENERAL \<Rightarrow>
          if event = parser_xml_event_TAG_START \<and> name = ''div''
          then (case value of
                  None \<Rightarrow> Inl NullDeref
                | Some v \<Rightarrow>
                    if v = ''general''
                    then Inr (p\<lparr>ps_state := state_WAITING_FOR_SPAN_WITH_ID\<rparr>, ctxt)
                    else Inr (p, ctxt))
          else Inr (p, ctxt)
      | state_WAITING_FOR_SPAN_WITH_ID \<Rightarrow>
          if event = parser_xml_event_TAG_START \<and> name = ''span'' \<and> value \<noteq> None
          then if value = Some ''file-count''
               then Inr (p\<lparr>ps_state := state_CONSUMING_FILE_COUNT\<rparr>, ctxt)
               else if value = Some ''total-size''
               then Inr (p\<lparr>ps_state := state_CONSUMING_TOTAL_SIZE\<rparr>, ctxt)
               else Inr (p, ctxt)
          else Inr (p, ctxt)
      | state_CONSUMING_FILE_COUNT \<Rightarrow>
          bind_res
            (if event = parser_xml_event_ATTRIBUTE \<and> name = ''value''
             then (case value of
                     None \<Rightarrow> Inl NullDeref
                   | Some v \<Rightarrow>
                       raise_cb_if_done cb (p\<lparr>ps_files := to_ulong (atoll v)\<rparr>, ctxt))
             else Inr (p, ctxt)) (\<lambda>(p, ctxt).
          Inr (p\<lparr>ps_state := state_WAITING_FOR_SPAN_WITH_ID\<rparr>, ctxt))
      | state_CONSUMING_TOTAL_SIZE \<Rightarrow>
          bind_res
            (if event = parser_xml_event_ATTRIBUTE \<and> name = ''value''
             then (case value of
                     None \<Rightarrow> Inl NullDeref
                   | Some v \<Rightarrow>
                       raise_cb_if_done cb (p\<lparr>ps_bytes := to_ulong (atoll v)\<rparr>, ctxt))
             else Inr (p, ctxt)) (\<lambda>(p, ctxt).
          Inr (p\<lparr>ps_state := state_WAITING_FOR_SPAN_WITH_ID\<rparr>, ctxt))))"

definition parser_stats_consume ::
  "'x xml_parse_chunk \<Rightarrow> 'c stats_cb \<Rightarrow> string \<Rightarrow> 'x \<times> parser_stats_t \<times> 'c \<Rightarrow>
   (int \<times> 'x \<times> parser_stats_t \<times> 'c) res" where
  "parser_stats_consume xml_parse_chunk cb = parser_xml_consume xml_parse_chunk (stats_xml_cb cb)"

definition parser_stats_delete ::
  "'x xml_parse_chunk \<Rightarrow> 'c stats_cb \<Rightarrow> 'x \<times> parser_stats_t \<times> 'c \<Rightarrow>
   (parser_stats_t \<times> 'c) res" where
  "parser_stats_delete xml_parse_chunk cb = parser_xml_delete xml_parse_chunk (stats_xml_cb cb)"

section \<open>A document in chunks\<close>

text \<open>
  A page arrives in chunks; \<open>sax_events\<close> is what the SAX library makes of all of them, the final
  call included, and \<open>run_parser\<close> is the sequence of calls the program makes for a page.
\<close>

fun sax_events :: "'x xml_parse_chunk \<Rightarrow> string list \<Rightarrow> 'x \<Rightarrow> sax_event list" where
  "sax_events xml_parse_chunk [] x = fst (snd (xml_parse_chunk x [] True))"
| "sax_events xml_parse_chunk (dat # chunks) x =
     fst (snd (xml_parse_chunk x dat False)) @
     sax_events xml_parse_chunk chunks (fst (xml_parse_chunk x dat False))"

fun run_parser ::
  "(string \<Rightarrow> 's \<Rightarrow> (int \<times> 's) res) \<Rightarrow> ('s \<Rightarrow> 'r res) \<Rightarrow> string list \<Rightarrow> 's \<Rightarrow> 'r res" where
  "run_parser consume delete [] s = delete s"
| "run_parser consume delete (dat # chunks) s =
     bind_res (consume dat s) (\<lambda>(rc, s). run_parser consume delete chunks s)"

text \<open>How the page is cut into chunks does not matter beyond the events the library makes.\<close>

lemma run_parser_events:
  "run_parser (parser_xml_consume xml_parse_chunk cb) (parser_xml_delete xml_parse_chunk cb)
     chunks (x, s) =
   fold_res (sax_dispatch cb) (sax_events xml_parse_chunk chunks x) s"
proof (induction chunks arbitrary: x s)
  case Nil
  then show ?case by (simp add: parser_xml_delete_def case_prod_beta Let_def)
next
  case (Cons dat chunks)
  obtain x' evs rc where p: "xml_parse_chunk x dat False = (x', evs, rc)" by (metis prod_cases3)
  then have "parser_xml_consume xml_parse_chunk cb dat (x, s) =
      bind_res (fold_res (sax_dispatch cb) evs s) (\<lambda>ctxt. Inr (rc, x', ctxt))"
    by (simp add: parser_xml_consume_def)
  then show ?case
    by (cases "fold_res (sax_dispatch cb) evs s") (simp_all add: Cons p fold_res_append)
qed

lemmas page_parsers = parser_filelist_consume_def parser_filelist_delete_def
  parser_stats_consume_def parser_stats_delete_def

section \<open>What the listing parser reports\<close>

text \<open>The last value given to one of some attributes in a list of attributes.\<close>

definition last_attr :: "string set \<Rightarrow> (string \<times> string) list \<Rightarrow> string option" where
  "last_attr keys atts = map_option snd (find (\<lambda>(k, v). k \<in> keys) (rev atts))"

definition entry_of :: "(string \<times> string) list \<Rightarrow> found_entry" where
  "entry_of atts =
     \<lparr>fe_hash = last_attr {fs2_hash_attribute_key} atts,
      fe_name = last_attr {fs2_name_attribute_key} atts,
      fe_type = last_attr {fs2_type_attribute_key} atts,
      fe_size = (case last_attr {fs2_size_attribute_key} atts of None \<Rightarrow> 0 | Some v \<Rightarrow> atoll v),
      fe_link_count =
        (case last_attr {fs2_linkcount_attribute_key, fs2_alternativescount_attribute_key} atts of
           None \<Rightarrow> 0 | Some v \<Rightarrow> to_ulong (atoll v)),
      fe_href = last_attr {fs2_href_attribute_key} atts,
      fe_client = last_attr {fs2_clientalias_attribute_key} atts\<rparr>"

lemma last_attr_simps [simp]:
  "last_attr keys [] = None"
  "last_attr keys (atts @ [(k, v)]) = (if k \<in> keys then Some v else last_attr keys atts)"
  by (simp_all add: last_attr_def)

lemma entry_of_Nil: "entry_of [] = pf_entry parser_filelist_new"
  by (simp add: entry_of_def parser_filelist_new_def)

lemma entry_of_snoc: "entry_of (atts @ [(k, v)]) = filelist_attribute k v (entry_of atts)"
  by (simp add: entry_of_def filelist_attribute_def attribute_key_defs)

lemma last_attr_append:
  "last_attr keys (as @ bs) =
   (case last_attr keys bs of None \<Rightarrow> last_attr keys as | Some v \<Rightarrow> Some v)"
proof (induction bs rule: rev_induct)
  case Nil
  then show ?case by simp
next
  case (snoc b bs)
  obtain k v where "b = (k, v)" by force
  then show ?case using snoc last_attr_simps(2) [of keys "as @ bs" k v] by simp
qed

text \<open>The pages: an \<open>a\<close> element with its attributes, text inside it and markup before it.\<close>

record page_link =
  pl_before :: "sax_event list"
  pl_attrs :: "(string \<times> string) list"
  pl_inner :: "sax_event list"

fun starts_link :: "sax_event \<Rightarrow> bool" where
  "starts_link (StartElementNs name atts) = (name = ''a'')"
| "starts_link _ = False"

fun starts_filelist :: "sax_event \<Rightarrow> bool" where
  "starts_filelist (StartElementNs name atts) =
     (name = ''div'' \<and> find_id None atts = Some fs2_filelist_node_id)"
| "starts_filelist _ = False"

fun is_text :: "sax_event \<Rightarrow> bool" where
  "is_text (CharacterRun ch len) = True"
| "is_text _ = False"

definition link_ok :: "page_link \<Rightarrow> bool" where
  "link_ok l \<longleftrightarrow> (\<forall>e \<in> set (pl_before l). \<not> starts_link e) \<and> (\<forall>e \<in> set (pl_inner l). is_text e)"

definition link_events :: "page_link \<Rightarrow> sax_event list" where
  "link_events l = pl_before l @ StartElementNs ''a'' (pl_attrs l) # pl_inner l @ [EndElementNs ''a'']"

definition filelist_page ::
  "sax_event list \<Rightarrow> (string \<times> string) list \<Rightarrow> page_link list \<Rightarrow> sax_event list \<Rightarrow> sax_event list" where
  "filelist_page header div_attrs links footer =
     header @ StartElementNs ''div'' div_attrs # concat (map link_events links) @ footer"

definition page_ok ::
  "sax_event list \<Rightarrow> (string \<times> string) list \<Rightarrow> page_link list \<Rightarrow> sax_event list \<Rightarrow> bool" where
  "page_ok header div_attrs links footer \<longleftrightarrow>
     (\<forall>e \<in> set header. \<not> starts_filelist e) \<and>
     find_id None div_attrs = Some fs2_filelist_node_id \<and>
     (\<forall>l \<in> set links. link_ok l) \<and> (\<forall>e \<in> set footer. \<not> starts_link e)"

text \<open>The attributes seen up to and including each link, and the entries they make.\<close>

fun reported :: "(string \<times> string) list \<Rightarrow> page_link list \<Rightarrow> found_entry list" where
  "reported seen [] = []"
| "reported seen (l # ls) = entry_of (seen @ pl_attrs l) # reported (seen @ pl_attrs l) ls"

text \<open>Events that do not move the state machine.\<close>

lemma attrs_idle:
  "pf_state p \<noteq> state_CONSUMING_A \<Longrightarrow>
   fold_res (\<lambda>(k, v) ctxt. if k \<noteq> ''id''
       then filelist_xml_cb cb parser_xml_event_ATTRIBUTE k (Some v) ctxt else Inr ctxt)
     atts (p, ctxt) = Inr (p, ctxt)"
  by (induction atts) (auto simp: filelist_xml_cb_def split: filelist_state.splits)

lemma idle_waiting_div:
  "pf_state p = state_WAITING_FOR_DIV_FILELIST \<Longrightarrow> \<not> starts_filelist e \<Longrightarrow>
   sax_dispatch (filelist_xml_cb cb) e (p, ctxt) = Inr (p, ctxt)"
  by (cases e) (auto simp: on_start_element_ns_def on_end_element_ns_def on_characters_def
      filelist_xml_cb_def attrs_idle)

lemma idle_waiting_a:
  "pf_state p = state_WAITING_FOR_A \<Longrightarrow> \<not> starts_link e \<Longrightarrow>
   sax_dispatch (filelist_xml_cb cb) e (p, ctxt) = Inr (p, ctxt)"
  by (cases e) (auto simp: on_start_element_ns_def on_end_element_ns_def on_characters_def
      filelist_xml_cb_def attrs_idle)

lemma idle_text:
  "pf_state p = state_CONSUMING_A \<Longrightarrow> is_text e \<Longrightarrow>
   sax_dispatch (filelist_xml_cb cb) e (p, ctxt) = Inr (p, ctxt)"
  by (cases e) (auto simp: on_characters_def filelist_xml_cb_def)

lemma fold_res_idle:
  "(\<And>e. e \<in> set es \<Longrightarrow> f e s = Inr s) \<Longrightarrow> fold_res f es s = Inr s"
  by (induction es) auto

lemma attrs_consumed:
  "fold_res (\<lambda>(k, v) ctxt. if k \<noteq> ''id''
       then filelist_xml_cb cb parser_xml_event_ATTRIBUTE k (Some v) ctxt else Inr ctxt)
     atts (\<lparr>pf_state = state_CONSUMING_A, pf_entry = entry_of seen\<rparr>, ctxt) =
   Inr (\<lparr>pf_state = state_CONSUMING_A, pf_entry = entry_of (seen @ atts)\<rparr>, ctxt)"
proof (induction atts arbitrary: seen)
  case Nil
  then show ?case by simp
next
  case (Cons a atts)
  obtain k v where a: "a = (k, v)" by force
  have "filelist_attribute ''id'' v (entry_of seen) = entry_of seen"
    by (simp add: filelist_attribute_def attribute_key_defs)
  then show ?case
    using Cons [of "seen @ [a]"] by (auto simp: a entry_of_snoc filelist_xml_cb_def)
qed

lemma link_reports:
  assumes "link_ok l"
  shows "fold_res (sax_dispatch (filelist_xml_cb cb)) (link_events l)
      (\<lparr>pf_state = state_WAITING_FOR_A, pf_entry = entry_of seen\<rparr>, ctxt) =
    bind_res (cb (entry_of (seen @ pl_attrs l)) ctxt) (\<lambda>ctxt.
      Inr (\<lparr>pf_state = state_WAITING_FOR_A, pf_entry = entry_of (seen @ pl_attrs l)\<rparr>, ctxt))"
proof -
  let ?run = "fold_res (sax_dispatch (filelist_xml_cb cb))"
  have before: "?run (pl_before l) (\<lparr>pf_state = state_WAITING_FOR_A, pf_entry = entry_of seen\<rparr>, ctxt) =
      Inr (\<lparr>pf_state = state_WAITING_FOR_A, pf_entry = entry_of seen\<rparr>, ctxt)"
    using assms by (intro fold_res_idle idle_waiting_a) (auto simp: link_ok_def)
  have inner: "?run (pl_inner l) (\<lparr>pf_state = state_CONSUMING_A, pf_entry = e\<rparr>, ctxt) =
      Inr (\<lparr>pf_state = state_CONSUMING_A, pf_entry = e\<rparr>, ctxt)" for e
    using assms by (intro fold_res_idle idle_text) (auto simp: link_ok_def)
  have start: "sax_dispatch (filelist_xml_cb cb) (StartElementNs ''a'' (pl_attrs l))
      (\<lparr>pf_state = state_WAITING_FOR_A, pf_entry = entry_of seen\<rparr>, ctxt) =
      Inr (\<lparr>pf_state = state_CONSUMING_A, pf_entry = entry_of (seen @ pl_attrs l)\<rparr>, ctxt)"
    using attrs_consumed [of cb "pl_attrs l" seen ctxt]
    by (simp add: on_start_element_ns_def) (simp add: filelist_xml_cb_def)
  have "?run [EndElementNs ''a''] (\<lparr>pf_state = state_CONSUMING_A, pf_entry = e\<rparr>, ctxt) =
      bind_res (cb e ctxt) (\<lambda>ctxt. Inr (\<lparr>pf_state = state_WAITING_FOR_A, pf_entry = e\<rparr>, ctxt))" for e
    by (cases "cb e ctxt") (simp_all add: on_end_element_ns_def filelist_xml_cb_def)
  with before inner start show ?thesis by (simp add: link_events_def fold_res_append)
qed

lemma links_report:
  "\<forall>l \<in> set links. link_ok l \<Longrightarrow>
   map_sum id snd (fold_res (sax_dispatch (filelist_xml_cb cb)) (concat (map link_events links) @ footer)
     (\<lparr>pf_state = state_WAITING_FOR_A, pf_entry = entry_of seen\<rparr>, ctxt)) =
   fold_res cb (reported seen links) ctxt"
  if footer: "\<forall>e \<in> set footer. \<not> starts_link e"
proof (induction links arbitrary: seen ctxt)
  case Nil
  have "fold_res (sax_dispatch (filelist_xml_cb cb)) footer
      (\<lparr>pf_state = state_WAITING_FOR_A, pf_entry = entry_of seen\<rparr>, ctxt) =
      Inr (\<lparr>pf_state = state_WAITING_FOR_A, pf_entry = entry_of seen\<rparr>, ctxt)"
    using footer by (intro fold_res_idle idle_waiting_a) auto
  then show ?case by simp
next
  case (Cons l links)
  have "link_ok l" using Cons.prems by simp
  from link_reports [OF this, of cb seen ctxt] Cons show ?case
    by (cases "cb (entry_of (seen @ pl_attrs l)) ctxt") (simp_all add: fold_res_append)
qed

lemma filelist_page_run:
  assumes "sax_events xml_parse_chunk chunks x = filelist_page header div_attrs links footer"
    and "page_ok header div_attrs links footer"
  shows "map_sum id snd (run_parser (parser_filelist_consume xml_parse_chunk cb)
      (parser_filelist_delete xml_parse_chunk cb) chunks (x, parser_filelist_new, ctxt)) =
    fold_res cb (reported [] links) ctxt"
proof -
  let ?run = "fold_res (sax_dispatch (filelist_xml_cb cb))"
  have head: "?run header (parser_filelist_new, ctxt) = Inr (parser_filelist_new, ctxt)"
    using assms(2)
    by (intro fold_res_idle idle_waiting_div) (auto simp: page_ok_def parser_filelist_new_def)
  have "sax_dispatch (filelist_xml_cb cb) (StartElementNs ''div'' div_attrs) (parser_filelist_new, ctxt) =
      Inr (\<lparr>pf_state = state_WAITING_FOR_A, pf_entry = entry_of []\<rparr>, ctxt)"
    using assms(2) unfolding entry_of_Nil
    by (simp add: on_start_element_ns_def page_ok_def)
      (simp add: filelist_xml_cb_def [of _ parser_xml_event_TAG_START] parser_filelist_new_def attrs_idle)
  with head show ?thesis
    using assms links_report [of footer links cb "[]" ctxt]
    by (simp add: page_parsers run_parser_events filelist_page_def fold_res_append page_ok_def)
qed

text \<open>A link that sets every attribute the parser looks at.\<close>

definition complete_attrs :: "(string \<times> string) list \<Rightarrow> bool" where
  "complete_attrs atts \<longleftrightarrow>
     (\<forall>keys \<in> {{fs2_hash_attribute_key}, {fs2_name_attribute_key}, {fs2_type_attribute_key},
        {fs2_size_attribute_key}, {fs2_linkcount_attribute_key, fs2_alternativescount_attribute_key},
        {fs2_href_attribute_key}, {fs2_clientalias_attribute_key}}. last_attr keys atts \<noteq> None)"

lemma entry_of_complete: "complete_attrs atts \<Longrightarrow> entry_of (seen @ atts) = entry_of atts"
  by (auto simp: complete_attrs_def entry_of_def last_attr_append)

lemma reported_complete:
  "\<forall>l \<in> set links. complete_attrs (pl_attrs l) \<Longrightarrow>
   reported seen links = map (\<lambda>l. entry_of (pl_attrs l)) links"
  by (induction links arbitrary: seen) (simp_all add: entry_of_complete)

section \<open>Properties of the listing parser\<close>

text \<open>C6. Parsing a listing page (parser\_filelist.c over parser\_xml.c): however the page is cut
  into chunks, if the SAX library finds in it a \<^verbatim>\<open>fs2-filelist\<close> div with any number of links,
  other markup before and between them and text inside them, and every link has all its
  attributes, then the entry callback is called once per link, in the order of the page, with
  that link's own attributes, and an error of the callback stops the parse.\<close>
theorem filelist_page_complete:
  assumes "sax_events xml_parse_chunk chunks x = filelist_page header div_attrs links footer"
    and "page_ok header div_attrs links footer"
    and "\<forall>l \<in> set links. complete_attrs (pl_attrs l)"
  shows "map_sum id snd (run_parser (parser_filelist_consume xml_parse_chunk cb)
      (parser_filelist_delete xml_parse_chunk cb) chunks (x, parser_filelist_new, ctxt)) =
    fold_res cb (map (\<lambda>l. entry_of (pl_attrs l)) links) ctxt"
  using filelist_page_run [OF assms(1,2)] reported_complete [OF assms(3)] by simp

text \<open>Stale attributes (parser\_filelist.c): the parser does not reset its fields between links,
  so in general the callback gets, for each link, the last values given on the page so far: an
  attribute that a link leaves out is reported with the value of an earlier link.\<close>
theorem filelist_page_stale:
  assumes "sax_events xml_parse_chunk chunks x = filelist_page header div_attrs links footer"
    and "page_ok header div_attrs links footer"
  shows "map_sum id snd (run_parser (parser_filelist_consume xml_parse_chunk cb)
      (parser_filelist_delete xml_parse_chunk cb) chunks (x, parser_filelist_new, ctxt)) =
    fold_res cb (reported [] links) ctxt"
  using assms by (rule filelist_page_run)

text \<open>
  Example pages. The library's state is the list of callbacks it has yet to make; it makes one
  per chunk and the rest at the end.
\<close>

fun example_sax :: "sax_event list xml_parse_chunk" where
  "example_sax evs dat True = ([], evs, 0)"
| "example_sax [] dat False = ([], [], 0)"
| "example_sax (e # evs) dat False = (evs, [e], 0)"

definition example_attrs :: "(string \<times> string) list" where
  "example_attrs = [(''fs2-name'', ''f''), (''fs2-hash'', ''ab''), (''fs2-type'', ''file''),
     (''fs2-size'', ''12''), (''fs2-linkcount'', ''1''), (''href'', ''/x''),
     (''fs2-clientalias'', ''bob'')]"

definition example_links :: "page_link list" where
  "example_links = [\<lparr>pl_before = [], pl_attrs = example_attrs, pl_inner = []\<rparr>,
     \<lparr>pl_before = [EndElementNs ''br''], pl_attrs = [(''fs2-name'', ''g'')], pl_inner = []\<rparr>]"

lemma example_page_ok:
  "page_ok [] [(''id'', ''fs2-filelist'')] (take n example_links) []"
  by (rule page_ok_def [THEN iffD2])
    (auto simp: fs2_filelist_node_id_def example_links_def link_ok_def dest!: in_set_takeD)

lemma example_sax_events: "sax_events example_sax [''p'', ''q''] evs = evs"
  by (cases evs; cases "tl evs") auto

theorem filelist_page_complete_witness:
  "map_sum id snd (run_parser (parser_filelist_consume example_sax (\<lambda>e es. Inr (es @ [e])))
      (parser_filelist_delete example_sax (\<lambda>e es. Inr (es @ [e]))) [''p'', ''q'']
      (filelist_page [] [(''id'', ''fs2-filelist'')] (take 1 example_links) [],
       parser_filelist_new, [])) = Inr [entry_of example_attrs]"
proof -
  have "\<forall>l \<in> set (take 1 example_links). complete_attrs (pl_attrs l)"
    by (simp add: example_links_def complete_attrs_def example_attrs_def last_attr_def
        attribute_key_defs)
  from filelist_page_complete [OF example_sax_events example_page_ok [of 1] this,
      of "\<lambda>e es. Inr (es @ [e])" "[]"]
  show ?thesis by (simp add: example_links_def)
qed

theorem filelist_page_stale_witness:
  "map_sum id snd (run_parser (parser_filelist_consume example_sax (\<lambda>e es. Inr (es @ [e])))
      (parser_filelist_delete example_sax (\<lambda>e es. Inr (es @ [e]))) [''p'', ''q'']
      (filelist_page [] [(''id'', ''fs2-filelist'')] (take 2 example_links) [],
       parser_filelist_new, [])) =
   Inr [entry_of example_attrs, (entry_of example_attrs)\<lparr>fe_name := Some ''g''\<rparr>]"
proof -
  have "entry_of (example_attrs @ [(''fs2-name'', ''g'')]) =
      (entry_of example_attrs)\<lparr>fe_name := Some ''g''\<rparr>"
    unfolding entry_of_snoc by (simp add: filelist_attribute_def attribute_key_defs)
  with filelist_page_stale [OF example_sax_events example_page_ok [of 2],
      of "\<lambda>e es. Inr (es @ [e])" "[]"]
  show ?thesis by (simp add: example_links_def)
qed

section \<open>What the statistics parser reports\<close>

fun starts_div :: "sax_event \<Rightarrow> bool" where
  "starts_div (StartElementNs name atts) = (name = ''div'')"
| "starts_div _ = False"

fun starts_count :: "sax_event \<Rightarrow> bool" where
  "starts_count (StartElementNs name atts) =
     (name = ''span'' \<and> find_id None atts \<in> {Some ''file-count'', Some ''total-size''})"
| "starts_count _ = False"

definition stats_page ::
  "sax_event list \<Rightarrow> sax_event list \<Rightarrow> string \<Rightarrow> sax_event list \<Rightarrow> string \<Rightarrow> sax_event list \<Rightarrow>
   sax_event list" where
  "stats_page header n1 files n2 bytes n3 =
     header @ StartElementNs ''div'' [(''id'', ''general'')] #
     n1 @ StartElementNs ''span'' [(''id'', ''file-count''), (''value'', files)] #
     n2 @ StartElementNs ''span'' [(''id'', ''total-size''), (''value'', bytes)] # n3"

definition stats_page_ok ::
  "sax_event list \<Rightarrow> sax_event list \<Rightarrow> sax_event list \<Rightarrow> sax_event list \<Rightarrow> bool" where
  "stats_page_ok header n1 n2 n3 \<longleftrightarrow>
     (\<forall>e \<in> set header. \<not> starts_div e) \<and> (\<forall>e \<in> set (n1 @ n2 @ n3). \<not> starts_count e)"

lemma stats_attrs_idle:
  "ps_state p \<in> {state_WAITING_FOR_DIV_GENERAL, state_WAITING_FOR_SPAN_WITH_ID} \<Longrightarrow>
   fold_res (\<lambda>(k, v) ctxt. if k \<noteq> ''id''
       then stats_xml_cb cb parser_xml_event_ATTRIBUTE k (Some v) ctxt else Inr ctxt)
     atts (p, ctxt) = Inr (p, ctxt)"
  by (induction atts) (auto simp: stats_xml_cb_def split: stats_state.splits)

lemma stats_idle_div:
  "ps_state p = state_WAITING_FOR_DIV_GENERAL \<Longrightarrow> \<not> starts_div e \<Longrightarrow>
   sax_dispatch (stats_xml_cb cb) e (p, ctxt) = Inr (p, ctxt)"
  by (cases e) (auto simp: on_start_element_ns_def on_end_element_ns_def on_characters_def
      stats_xml_cb_def stats_attrs_idle)

lemma stats_idle_span:
  assumes "ps_state p = state_WAITING_FOR_SPAN_WITH_ID" "\<not> starts_count e"
  shows "sax_dispatch (stats_xml_cb cb) e (p, ctxt) = Inr (p, ctxt)"
proof (cases e)
  case (StartElementNs name atts)
  have "stats_xml_cb cb parser_xml_event_TAG_START name (find_id None atts) (p, ctxt) = Inr (p, ctxt)"
    using assms StartElementNs by (auto simp: stats_xml_cb_def)
  then show ?thesis
    using assms(1) StartElementNs by (simp add: on_start_element_ns_def stats_attrs_idle)
qed (use assms in \<open>auto simp: on_end_element_ns_def on_characters_def stats_xml_cb_def\<close>)

lemma stats_counts:
  "sax_dispatch (stats_xml_cb cb) (StartElementNs ''span'' [(''id'', ''file-count''), (''value'', v)])
     (\<lparr>ps_state = state_WAITING_FOR_SPAN_WITH_ID, ps_files = f, ps_bytes = b\<rparr>, ctxt) =
   raise_cb_if_done cb
     (\<lparr>ps_state = state_WAITING_FOR_SPAN_WITH_ID, ps_files = to_ulong (atoll v), ps_bytes = b\<rparr>, ctxt)"
  "sax_dispatch (stats_xml_cb cb) (StartElementNs ''span'' [(''id'', ''total-size''), (''value'', v)])
     (\<lparr>ps_state = state_WAITING_FOR_SPAN_WITH_ID, ps_files = f, ps_bytes = b\<rparr>, ctxt) =
   raise_cb_if_done cb
     (\<lparr>ps_state = state_WAITING_FOR_SPAN_WITH_ID, ps_files = f, ps_bytes = to_ulong (atoll v)\<rparr>, ctxt)"
  by (auto simp: on_start_element_ns_def stats_xml_cb_def raise_cb_if_done_def bind_res_def
      split: sum.split)

text \<open>Parsing the statistics page (parser\_stats.c over parser\_xml.c): however the page is cut
  into chunks, a page with a \<^verbatim>\<open>general\<close> div that gives the file count and then the total size makes
  the parser raise its callback exactly once, with both numbers, provided that neither is zero; if
  one of them is zero the callback is never raised.\<close>
theorem stats_page_reports:
  assumes "sax_events xml_parse_chunk chunks x = stats_page header n1 files n2 bytes n3"
    and "stats_page_ok header n1 n2 n3"
  shows "map_sum id snd (run_parser (parser_stats_consume xml_parse_chunk cb)
      (parser_stats_delete xml_parse_chunk cb) chunks (x, parser_stats_new, ctxt)) =
    (let f = to_ulong (atoll files); b = to_ulong (atoll bytes) in
     if f \<noteq> 0 \<and> b \<noteq> 0 then cb f b ctxt else Inr ctxt)"
proof -
  let ?run = "fold_res (sax_dispatch (stats_xml_cb cb))"
  let ?f = "to_ulong (atoll files)" let ?b = "to_ulong (atoll bytes)"
  let ?s = "\<lambda>f b. \<lparr>ps_state = state_WAITING_FOR_SPAN_WITH_ID, ps_files = f, ps_bytes = b\<rparr>"
  have head: "?run header (parser_stats_new, ctxt) = Inr (parser_stats_new, ctxt)"
    using assms(2) by (intro fold_res_idle stats_idle_div) (auto simp: stats_page_ok_def parser_stats_new_def)
  have div: "sax_dispatch (stats_xml_cb cb) (StartElementNs ''div'' [(''id'', ''general'')])
      (parser_stats_new, ctxt) = Inr (?s 0 0, ctxt)"
    by (simp add: on_start_element_ns_def stats_xml_cb_def parser_stats_new_def)
  have noise: "?run n (?s f b, c) = Inr (?s f b, c)" if "n \<in> {n1, n2, n3}" for n f b c
    using assms(2) that by (intro fold_res_idle stats_idle_span) (auto simp: stats_page_ok_def)
  have files: "raise_cb_if_done cb (?s ?f 0, ctxt) = Inr (?s ?f 0, ctxt)"
    by (simp add: raise_cb_if_done_def)
  have "map_sum id snd (bind_res (raise_cb_if_done cb (?s ?f ?b, ctxt)) (?run n3)) =
      (if ?f \<noteq> 0 \<and> ?b \<noteq> 0 then cb ?f ?b ctxt else Inr ctxt)"
    by (cases "cb ?f ?b ctxt") (simp_all add: raise_cb_if_done_def noise)
  then show ?thesis
    using assms(1) head div files
    by (simp add: page_parsers run_parser_events stats_page_def fold_res_append noise stats_counts Let_def
        del: sax_dispatch.simps)
qed

theorem stats_page_reports_witness:
  "map_sum id snd (run_parser (parser_stats_consume example_sax (\<lambda>f b c. Inr (c @ [(f, b)])))
      (parser_stats_delete example_sax (\<lambda>f b c. Inr (c @ [(f, b)]))) [''p'', ''q'']
      (stats_page [] [] ''3'' [EndElementNs ''span''] ''70'' [], parser_stats_new, [])) = Inr [(3, 70)]"
proof -
  have n: "to_ulong (atoll ''3'') = 3" "to_ulong (atoll ''70'') = 70" by code_simp+
  show ?thesis
    using stats_page_reports [OF example_sax_events, of "[]" "[]" "[EndElementNs ''span'']" "[]"
        "\<lambda>f b c. Inr (c @ [(f, b)])" "''3''" "''70''" "[]"]
    by (simp add: n stats_page_ok_def Let_def)
qed

end
