(* ===== verification/Fetcher.thy ===== *)
theory Fetcher
  imports String_Buffer
begin

text \<open>
  HTTP transfers (\<^verbatim>\<open>src/src/fetcher.c\<close>). libcurl is not part of the program: \<^verbatim>\<open>curl_easy_perform\<close>
  is the parameter \<open>perform\<close>, which takes the options set on the handle, the two callbacks and
  the state the callbacks work on, and returns curl's result code, the HTTP response code and the
  new state. \<open>curl_delivers\<close> is the documented behaviour the program relies on: the header lines
  and then blocks of the body are passed to the callbacks in order, and a callback that does not
  report its whole block as consumed ends the transfer with \<^verbatim>\<open>CURLE_WRITE_ERROR\<close>.
  \<^verbatim>\<open>curl_easy_escape\<close> is the parameter \<open>escape\<close>.

  The callbacks given to curl find the caller's callback through the \<^verbatim>\<open>void *\<close> that curl passes on
  to them. \<open>cb_data\<close> says which struct that pointer refers to: the wrapper's own context, or the
  caller's context, in which there is no callback of the expected type to be read.
\<close>

section \<open>Result codes\<close>

definition CURLE_OK :: nat where "CURLE_OK = 0"
definition CURLE_COULDNT_CONNECT :: nat where "CURLE_COULDNT_CONNECT = 7"
definition CURLE_PARTIAL_FILE :: nat where "CURLE_PARTIAL_FILE = 18"
definition CURLE_HTTP_RETURNED_ERROR :: nat where "CURLE_HTTP_RETURNED_ERROR = 22"
definition CURLE_WRITE_ERROR :: nat where "CURLE_WRITE_ERROR = 23"

lemmas curl_code_defs = CURLE_OK_def CURLE_COULDNT_CONNECT_def CURLE_PARTIAL_FILE_def
  CURLE_HTTP_RETURNED_ERROR_def CURLE_WRITE_ERROR_def

text \<open>The switch of \<^verbatim>\<open>http2errno\<close>: the codes that leave the preset \<^verbatim>\<open>EIO\<close> fall to the last case.\<close>

definition http2errno :: "int \<Rightarrow> int" where
  "http2errno http_code =
     (if http_code = 200 then 0
      else if http_code = 206 then 0
      else if http_code = 404 then ENOENT
      else if http_code = 500 then EIO
      else if http_code = 503 then EBUSY
      else EIO)"

definition process_curl_response :: "nat \<Rightarrow> int \<Rightarrow> int" where
  "process_curl_response curl_rc http_code =
     (if curl_rc = CURLE_OK \<or> curl_rc = CURLE_HTTP_RETURNED_ERROR then http2errno http_code
      else if curl_rc = CURLE_WRITE_ERROR then 0
      else if curl_rc = CURLE_PARTIAL_FILE then 0
      else if curl_rc = CURLE_COULDNT_CONNECT then ENOENT
      else EIO)"

section \<open>The handle\<close>

record fetcher_t =
  f_url :: string
  f_slist :: "string list"

definition fetcher_new :: "string \<Rightarrow> string \<Rightarrow> char_ptr \<Rightarrow> fetcher_t res" where
  "fetcher_new alias_key url config_alias =
     bind_res string_buffer_new (\<lambda>alias.
     bind_res (string_buffer_append alias (HeapStr alias_key)) (\<lambda>alias.
     bind_res (string_buffer_append alias config_alias) (\<lambda>alias.
     bind_res (string_buffer_peek alias) (\<lambda>header.
     Inr \<lparr>f_url = url, f_slist = [header]\<rparr>))))"

text \<open>The options of a transfer that the program varies.\<close>

record curl_request =
  rq_url :: string
  rq_headers :: "string list"
  rq_nobody :: bool
  rq_range :: "string option"

type_synonym 's curl_cb = "char list \<Rightarrow> 's \<Rightarrow> (nat \<times> 's) res"
type_synonym 's curl_perform =
  "curl_request \<Rightarrow> 's curl_cb option \<Rightarrow> 's curl_cb option \<Rightarrow> 's \<Rightarrow> (nat \<times> int \<times> 's) res"

section \<open>Callbacks\<close>

datatype cb_data = WrapperCtxt | CallerCtxt

type_synonym 's fetcher_header_cb_t = "string \<Rightarrow> string \<Rightarrow> 's \<Rightarrow> (int \<times> 's) res"
type_synonym 's fetcher_body_cb_t = "char list \<Rightarrow> 's \<Rightarrow> (int \<times> 's) res"

text \<open>
  The value is copied from the colon on, \<^verbatim>\<open>len - key_len - 2\<close> bytes; with fewer than two bytes
  from the colon on, that \<^verbatim>\<open>size_t\<close> wraps around and the copy leaves the block.
\<close>

definition header_cb_wrapper :: "'s fetcher_header_cb_t \<Rightarrow> cb_data \<Rightarrow> 's curl_cb" where
  "header_cb_wrapper cb ctxt header s =
     (let len = length header; key_len = length (takeWhile (\<lambda>c. c \<noteq> CHR '':'') header) in
      if key_len < len
      then let key = c_str (take key_len header) in
        if len < key_len + 2 then Inl OutOfBounds
        else let value_len = len - key_len - 2;
                 value = c_str (take value_len (drop key_len header)) in
          (case ctxt of
             CallerCtxt \<Rightarrow> Inl BadCall
           | WrapperCtxt \<Rightarrow>
               bind_res (cb key value s) (\<lambda>(rc, s). Inr (if rc \<noteq> 0 then 0 else len, s)))
      else Inr (len, s))"

definition body_cb_wrapper :: "'s fetcher_body_cb_t \<Rightarrow> cb_data \<Rightarrow> 's curl_cb" where
  "body_cb_wrapper cb ctxt dat s =
     (case ctxt of
        CallerCtxt \<Rightarrow> Inl BadCall
      | WrapperCtxt \<Rightarrow>
          bind_res (cb dat s) (\<lambda>(rc, s). Inr (if rc \<noteq> 0 then 0 else length dat, s)))"

text \<open>\<^verbatim>\<open>CURLOPT_HEADERDATA\<close> and \<^verbatim>\<open>CURLOPT_WRITEDATA\<close> are set to the caller's context.\<close>

definition fetcher_fetch_headers ::
  "'s curl_perform \<Rightarrow> fetcher_t \<Rightarrow> 's fetcher_header_cb_t \<Rightarrow> 's \<Rightarrow> (int \<times> 's) res" where
  "fetcher_fetch_headers perform fetcher header_cb s =
     bind_res
       (perform \<lparr>rq_url = f_url fetcher, rq_headers = f_slist fetcher, rq_nobody = True,
                 rq_range = None\<rparr>
          (Some (header_cb_wrapper header_cb CallerCtxt)) None s)
       (\<lambda>(curl_rc, http_code, s). Inr (process_curl_response curl_rc http_code, s))"

definition fetcher_fetch_body ::
  "'s curl_perform \<Rightarrow> fetcher_t \<Rightarrow> 's fetcher_body_cb_t \<Rightarrow> string option \<Rightarrow> 's \<Rightarrow> (int \<times> 's) res" where
  "fetcher_fetch_body perform fetcher body_cb rng s =
     bind_res
       (perform \<lparr>rq_url = f_url fetcher, rq_headers = f_slist fetcher, rq_nobody = False,
                 rq_range = rng\<rparr>
          None (Some (body_cb_wrapper body_cb CallerCtxt)) s)
       (\<lambda>(curl_rc, http_code, s). Inr (process_curl_response curl_rc http_code, s))"

section \<open>URLs\<close>

text \<open>\<^verbatim>\<open>strspn(s, set) == strlen(s)\<close>\<close>

definition is_ip4_address :: "string \<Rightarrow> bool" where
  "is_ip4_address s = (length (takeWhile (\<lambda>c. c \<in> set ''0123456789.'') s) = length s)"

definition is_ip6_address :: "string \<Rightarrow> bool" where
  "is_ip6_address s = (length (takeWhile (\<lambda>c. c \<in> set ''0123456789abcdefABCDEF:'') s) = length s)"

definition fetcher_make_http_url :: "string \<Rightarrow> string \<Rightarrow> string \<Rightarrow> string res" where
  "fetcher_make_http_url host port path =
     bind_res string_buffer_new (\<lambda>sb.
     bind_res (c_assert (host \<noteq> [])) (\<lambda>_.
     bind_res (c_assert (port \<noteq> [])) (\<lambda>_.
     let out = (if is_ip4_address host \<or> is_ip6_address host
                then ''http://['' @ host @ '']:'' @ port @ ''/'' @ path
                else ''http://'' @ host @ '':'' @ port @ ''/'' @ path) in
     bind_res (string_buffer_printf sb out) string_buffer_commit)))"

definition fetcher_escape_for_http :: "(string \<Rightarrow> string) \<Rightarrow> char_ptr \<Rightarrow> string res" where
  "fetcher_escape_for_http escape str =
     bind_res (free_const str) (\<lambda>_. Inr (escape (deref str)))"

section \<open>What curl promises\<close>

text \<open>Passing blocks to a callback: whether all were taken, and the final state.\<close>

fun deliver :: "'s curl_cb \<Rightarrow> char list list \<Rightarrow> 's \<Rightarrow> (bool \<times> 's) res" where
  "deliver cb [] s = Inr (True, s)"
| "deliver cb (b # bs) s =
     bind_res (cb b s) (\<lambda>(n, s). if n = length b then deliver cb bs s else Inr (False, s))"

text \<open>
  What the server sends in answer to a request: header lines, body blocks, curl's result for a
  transfer that is not cut short, and the HTTP code.
\<close>

record response =
  rs_headers :: "char list list"
  rs_body :: "char list list"
  rs_curl :: nat
  rs_code :: int

definition deliver_opt :: "'s curl_cb option \<Rightarrow> char list list \<Rightarrow> 's \<Rightarrow> (bool \<times> 's) res" where
  "deliver_opt cb bs s = (case cb of None \<Rightarrow> Inr (True, s) | Some f \<Rightarrow> deliver f bs s)"

definition curl_delivers :: "'s curl_perform \<Rightarrow> (curl_request \<Rightarrow> response) \<Rightarrow> bool" where
  "curl_delivers perform server \<longleftrightarrow>
     (\<forall>rq hcb bcb s. perform rq hcb bcb s =
        bind_res (deliver_opt hcb (rs_headers (server rq)) s) (\<lambda>(ok, s).
        if \<not> ok then Inr (CURLE_WRITE_ERROR, rs_code (server rq), s)
        else bind_res (if rq_nobody rq then Inr (True, s)
                       else deliver_opt bcb (rs_body (server rq)) s) (\<lambda>(ok, s).
             Inr (if ok then rs_curl (server rq) else CURLE_WRITE_ERROR, rs_code (server rq), s))))"

text \<open>A curl that keeps the promise, for a given server.\<close>

definition curl_for :: "(curl_request \<Rightarrow> response) \<Rightarrow> 's curl_perform" where
  "curl_for server rq hcb bcb s =
        bind_res (deliver_opt hcb (rs_headers (server rq)) s) (\<lambda>(ok, s).
        if \<not> ok then Inr (CURLE_WRITE_ERROR, rs_code (server rq), s)
        else bind_res (if rq_nobody rq then Inr (True, s)
                       else deliver_opt bcb (rs_body (server rq)) s) (\<lambda>(ok, s).
             Inr (if ok then rs_curl (server rq) else CURLE_WRITE_ERROR, rs_code (server rq), s)))"

lemma curl_for_delivers: "curl_delivers (curl_for server) server"
  by (simp add: curl_delivers_def curl_for_def)

section \<open>Properties\<close>

lemma deliver_bad:
  "bs \<noteq> [] \<Longrightarrow> deliver (body_cb_wrapper cb CallerCtxt) bs s = Inl BadCall"
  by (cases bs) (simp_all add: body_cb_wrapper_def)

text \<open>The request that \<^verbatim>\<open>fetcher_fetch_body\<close> makes.\<close>

abbreviation body_request :: "fetcher_t \<Rightarrow> string option \<Rightarrow> curl_request" where
  "body_request fetcher rng \<equiv>
     \<lparr>rq_url = f_url fetcher, rq_headers = f_slist fetcher, rq_nobody = False, rq_range = rng\<rparr>"

lemma fetch_body_cases:
  assumes "curl_delivers perform server"
  shows "fetcher_fetch_body perform fetcher cb rng s =
    (let r = server (body_request fetcher rng) in
     if rs_body r = [] then Inr (process_curl_response (rs_curl r) (rs_code r), s) else Inl BadCall)"
  using assms
  by (auto simp: fetcher_fetch_body_def curl_delivers_def deliver_opt_def deliver_bad Let_def)

text \<open>Fetching a body (fetcher.c): \<^verbatim>\<open>fetcher_fetch_body\<close> hands curl the caller's context where its
  body wrapper expects its own, so that the first block of any response body makes the wrapper
  call through whatever the caller's context starts with; only a response without a body is
  handled, and its codes are mapped as \<^verbatim>\<open>process_curl_response\<close> says.\<close>
theorem fetcher_fetch_body_bad_call:
  assumes "curl_delivers perform server"
  shows "fetcher_fetch_body perform fetcher cb rng s =
    (let r = server (body_request fetcher rng) in
     if rs_body r = [] then Inr (process_curl_response (rs_curl r) (rs_code r), s) else Inl BadCall)"
  using assms by (rule fetch_body_cases)

definition example_server :: "curl_request \<Rightarrow> response" where
  "example_server rq = \<lparr>rs_headers = [''Content-Type: text/html''],
     rs_body = (if rq_range rq = None then [''<html>''] else []), rs_curl = 0, rs_code = 404\<rparr>"

theorem fetcher_fetch_body_bad_call_witness:
  "fetcher_fetch_body (curl_for example_server) \<lparr>f_url = ''u'', f_slist = []\<rparr>
     (\<lambda>d s. Inr (0, s)) None (0 :: nat) = Inl BadCall \<and>
   fetcher_fetch_body (curl_for example_server) \<lparr>f_url = ''u'', f_slist = []\<rparr>
     (\<lambda>d s. Inr (0, s)) (Some ''0-1'') (0 :: nat) = Inr (ENOENT, 0)"
  using fetcher_fetch_body_bad_call [OF curl_for_delivers, of example_server
      "\<lparr>f_url = ''u'', f_slist = []\<rparr>" "\<lambda>d s. Inr (0, s)" None "0 :: nat"]
    fetcher_fetch_body_bad_call [OF curl_for_delivers, of example_server
      "\<lparr>f_url = ''u'', f_slist = []\<rparr>" "\<lambda>d s. Inr (0, s)" "Some ''0-1''" "0 :: nat"]
  by (simp add: example_server_def process_curl_response_def curl_code_defs http2errno_def Let_def)

text \<open>Errors of a transfer (fetcher.c): a response counts as success exactly when its HTTP code is
  200 or 206, or curl reports that the transfer was cut short (by the program itself or by the
  server); every other outcome is one of \<^verbatim>\<open>ENOENT\<close> (404, or the peer is gone), \<^verbatim>\<open>EBUSY\<close> (503)
  and \<^verbatim>\<open>EIO\<close>.\<close>
theorem process_curl_response_total:
  "(process_curl_response rc code = 0 \<longleftrightarrow>
      (rc \<in> {CURLE_OK, CURLE_HTTP_RETURNED_ERROR} \<and> code \<in> {200, 206}) \<or>
      rc \<in> {CURLE_WRITE_ERROR, CURLE_PARTIAL_FILE}) \<and>
   process_curl_response rc code \<in> {0, ENOENT, EBUSY, EIO} \<and>
   (process_curl_response rc code = ENOENT \<longleftrightarrow>
      (rc \<in> {CURLE_OK, CURLE_HTTP_RETURNED_ERROR} \<and> code = 404) \<or> rc = CURLE_COULDNT_CONNECT) \<and>
   (process_curl_response rc code = EBUSY \<longleftrightarrow>
      rc \<in> {CURLE_OK, CURLE_HTTP_RETURNED_ERROR} \<and> code = 503)"
  by (simp add: process_curl_response_def http2errno_def curl_code_defs errno_defs)

lemma takeWhile_all_length: "length (takeWhile P xs) = length xs \<longleftrightarrow> (\<forall>x \<in> set xs. P x)"
  by (metis set_takeWhileD takeWhile_eq_all_conv takeWhile_eq_take take_all order_refl)

lemma make_http_url_eq:
  assumes "host \<noteq> []" "port \<noteq> []" "nul_free host" "nul_free port" "nul_free path"
  shows "fetcher_make_http_url host port path =
    Inr (if (\<forall>c \<in> set host. c \<in> set ''0123456789.'') \<or>
            (\<forall>c \<in> set host. c \<in> set ''0123456789abcdefABCDEF:'')
         then ''http://['' @ host @ '']:'' @ port @ ''/'' @ path
         else ''http://'' @ host @ '':'' @ port @ ''/'' @ path)"
proof -
  obtain b where b: "string_buffer_new = Inr b" using sb.new_holds by blast
  have "bind_res (string_buffer_printf b out) string_buffer_commit = Inr out" if "nul_free out" for out
    using sb.build_printf [OF that] unfolding b by (simp del: bind_res_eq_Inr)
  then show ?thesis
    unfolding fetcher_make_http_url_def b using assms
    by (simp add: is_ip4_address_def is_ip6_address_def takeWhile_all_length Let_def
        del: bind_res_eq_Inr list.set)
qed

text \<open>URLs (fetcher.c): for a non-empty host and port, \<^verbatim>\<open>fetcher_make_http_url\<close> returns the URL of
  the path on that host; the host is put in brackets when all its characters may occur in an IPv6
  address, which includes every IPv4 address and names such as \<^verbatim>\<open>cafe\<close>.\<close>
theorem fetcher_make_http_url_format:
  assumes "host \<noteq> []" "port \<noteq> []" "nul_free host" "nul_free port" "nul_free path"
  shows "fetcher_make_http_url host port path =
    Inr (if (\<forall>c \<in> set host. c \<in> set ''0123456789.'') \<or>
            (\<forall>c \<in> set host. c \<in> set ''0123456789abcdefABCDEF:'')
         then ''http://['' @ host @ '']:'' @ port @ ''/'' @ path
         else ''http://'' @ host @ '':'' @ port @ ''/'' @ path)"
  using assms by (rule make_http_url_eq)

theorem fetcher_make_http_url_format_witness:
  "fetcher_make_http_url ''peer'' ''80'' ''x'' = Inr ''http://peer:80/x'' \<and>
   fetcher_make_http_url ''10.0.0.1'' ''80'' ''x'' = Inr ''http://[10.0.0.1]:80/x''"
  using fetcher_make_http_url_format [of "''peer''" "''80''" "''x''"]
    fetcher_make_http_url_format [of "''10.0.0.1''" "''80''" "''x''"] by simp

end
