(* ===== verification/Indexnode.thy ===== *)
theory Indexnode
  imports Ref_Count Fetcher Parser
begin

text \<open>
  Indexnodes: \<^verbatim>\<open>src/src/indexnodes/proto_indexnode.c\<close> (host and port, URLs, the HEAD request that
  asks for protocol and id) and \<^verbatim>\<open>indexnode.c\<close> (the reference-counted indexnode with its version
  check, its expiry and its three kinds of request). \<^verbatim>\<open>time()\<close> and the configured timeout are
  arguments, as are curl (\<open>perform\<close>, \<open>escape\<close>), the SAX library and the configured alias.
\<close>

section \<open>proto\_indexnode.c\<close>

record proto_indexnode_t =
  pin_host :: string
  pin_port :: string

definition proto_indexnode_init :: "string option \<Rightarrow> string option \<Rightarrow> proto_indexnode_t res" where
  "proto_indexnode_init host port =
     (case (host, port) of
        (Some h, Some p) \<Rightarrow>
          bind_res (c_assert (h \<noteq> [])) (\<lambda>_. bind_res (c_assert (p \<noteq> [])) (\<lambda>_.
          Inr \<lparr>pin_host = h, pin_port = p\<rparr>))
      | _ \<Rightarrow> Inl AssertFail)"

definition proto_indexnode_new :: "string option \<Rightarrow> string option \<Rightarrow> proto_indexnode_t res" where
  "proto_indexnode_new host port = proto_indexnode_init host port"

definition proto_indexnode_host :: "proto_indexnode_t \<Rightarrow> string" where
  "proto_indexnode_host pin = pin_host pin"

definition proto_indexnode_port :: "proto_indexnode_t \<Rightarrow> string" where
  "proto_indexnode_port pin = pin_port pin"

text \<open>The info struct comes from \<^verbatim>\<open>malloc\<close>: a field that was never set is \<open>None\<close>.\<close>

record indexnode_info_t =
  info_protocol :: "string option"
  info_id :: "string option"

definition to_lower :: "char \<Rightarrow> char" where
  "to_lower c = (let n = of_char c :: nat in if 65 \<le> n \<and> n \<le> 90 then char_of (n + 32) else c)"

definition strcaseeq :: "string \<Rightarrow> string \<Rightarrow> bool" where
  "strcaseeq a b = (map to_lower a = map to_lower b)"

definition header_cb :: "indexnode_info_t fetcher_header_cb_t" where
  "header_cb key value info =
     Inr (0, if strcaseeq key fs2_version_header_key then info\<lparr>info_protocol := Some value\<rparr>
             else if strcaseeq key fs2_indexnode_uid_header_key then info\<lparr>info_id := Some value\<rparr>
             else info)"

definition make_path :: "(string \<Rightarrow> string) \<Rightarrow> string \<Rightarrow> char_ptr \<Rightarrow> string res" where
  "make_path escape path_prefix resource =
     bind_res string_buffer_new (\<lambda>sb.
     bind_res (c_assert (path_prefix \<noteq> [])) (\<lambda>_.
     bind_res (fetcher_escape_for_http escape resource) (\<lambda>esc.
     bind_res (string_buffer_printf sb (path_prefix @ ''/'' @ esc)) string_buffer_commit)))"

definition proto_indexnode_make_url ::
  "(string \<Rightarrow> string) \<Rightarrow> proto_indexnode_t \<Rightarrow> string \<Rightarrow> char_ptr \<Rightarrow> string res" where
  "proto_indexnode_make_url escape pin path_prefix resource =
     bind_res (make_path escape path_prefix resource) (\<lambda>path.
     fetcher_make_http_url (proto_indexnode_host pin) (proto_indexnode_port pin) path)"

text \<open>
  \<open>Some (protocol, id)\<close> when the C function returns true, \<open>None\<close> when it returns false. The two
  pointers are only looked at when the transfer succeeded.
\<close>

definition proto_indexnode_get_info ::
  "indexnode_info_t curl_perform \<Rightarrow> (string \<Rightarrow> string) \<Rightarrow> char_ptr \<Rightarrow> proto_indexnode_t \<Rightarrow>
   (string \<times> string) option res" where
  "proto_indexnode_get_info perform escape config_alias pin =
     bind_res (proto_indexnode_make_url escape pin ''browse'' (HeapStr '''')) (\<lambda>url.
     bind_res (fetcher_new fs2_alias_header_key url config_alias) (\<lambda>fetcher.
     bind_res (fetcher_fetch_headers perform fetcher header_cb
                 \<lparr>info_protocol = None, info_id = None\<rparr>) (\<lambda>(rc, info).
     if rc \<noteq> 0 then Inr None
     else (case info_protocol info of
             None \<Rightarrow> Inl Uninitialised
           | Some protocol \<Rightarrow>
               if protocol = [] then Inr None
               else (case info_id info of
                       None \<Rightarrow> Inl Uninitialised
                     | Some i \<Rightarrow> if i = [] then Inr None else Inr (Some (protocol, i)))))))"

section \<open>indexnode.c\<close>

record indexnode_t =
  in_pin :: proto_indexnode_t
  in_version :: string
  in_id :: string
  in_last_seen :: int

definition PROTO_MINIMUM :: string where "PROTO_MINIMUM = ''0.5''"
definition PROTO_MAXIMUM :: string where "PROTO_MAXIMUM = ''0.13''"

definition check_version :: "string \<Rightarrow> bool" where
  "check_version version =
     (compare_dotted_version PROTO_MINIMUM version < 0 \<or>
      compare_dotted_version version PROTO_MAXIMUM < 0)"

definition indexnode_seen :: "int \<Rightarrow> indexnode_t \<Rightarrow> indexnode_t" where
  "indexnode_seen now ind = ind\<lparr>in_last_seen := now\<rparr>"

text \<open>The new indexnode at address \<open>a\<close>, or null for a version that is not supported.\<close>

definition indexnode_new ::
  "addr \<Rightarrow> int \<Rightarrow> string \<Rightarrow> string \<Rightarrow> string \<Rightarrow> string \<Rightarrow> indexnode_t rc_store \<Rightarrow>
   (addr option \<times> indexnode_t rc_store) res" where
  "indexnode_new a now host port version uid st =
     bind_res (c_assert (version \<noteq> [])) (\<lambda>_.
     bind_res (c_assert (uid \<noteq> [])) (\<lambda>_.
     if check_version version
     then bind_res (proto_indexnode_init (Some host) (Some port)) (\<lambda>pin.
          Inr (Some a, st(a \<mapsto> (Some ref_count_new,
            indexnode_seen now \<lparr>in_pin = pin, in_version = version, in_id = uid, in_last_seen = 0\<rparr>))))
     else Inr (None, st)))"

definition indexnode_copy :: "addr \<Rightarrow> indexnode_t rc_store \<Rightarrow> indexnode_t rc_store res" where
  "indexnode_copy ind st = obj_copy ind st"

definition indexnode_delete :: "addr \<Rightarrow> indexnode_t rc_store \<Rightarrow> indexnode_t rc_store res" where
  "indexnode_delete ind st = obj_delete ind st"

definition indexnode_equals :: "indexnode_t \<Rightarrow> string \<Rightarrow> bool" where
  "indexnode_equals ind uid = (in_id ind = uid)"

definition indexnode_tostring :: "(addr \<Rightarrow> string) \<Rightarrow> addr \<Rightarrow> indexnode_t \<Rightarrow> string res" where
  "indexnode_tostring show_ptr a ind =
     bind_res string_buffer_new (\<lambda>sb.
     bind_res (string_buffer_printf sb
       (''[indexnode '' @ show_ptr a @ ''] '' @ in_id ind @ '' @ '' @ pin_host (in_pin ind) @ '':'' @
        pin_port (in_pin ind) @ '' (version '' @ in_version ind @ '')'')) string_buffer_commit)"

definition indexnode_still_valid :: "int \<Rightarrow> int \<Rightarrow> indexnode_t \<Rightarrow> bool" where
  "indexnode_still_valid now config_indexnode_timeout ind =
     (now - in_last_seen ind < config_indexnode_timeout)"

text \<open>
  The requests. The state of the transfer is the SAX library's state, the parser and the
  context of the caller's callback.
\<close>

definition tryget_entries ::
  "('x \<times> parser_filelist_t \<times> 'c) curl_perform \<Rightarrow> (string \<Rightarrow> string) \<Rightarrow> char_ptr \<Rightarrow>
   'x xml_parse_chunk \<Rightarrow> 'x \<Rightarrow> string \<Rightarrow> indexnode_t \<Rightarrow> char_ptr \<Rightarrow> 'c entry_found_cb \<Rightarrow> 'c \<Rightarrow>
   (int \<times> 'c) res" where
  "tryget_entries perform escape config_alias xml_parse_chunk x prefix ind path entry_cb entry_ctxt =
     bind_res (proto_indexnode_make_url escape (in_pin ind) prefix path) (\<lambda>url.
     bind_res (fetcher_new fs2_alias_header_key url config_alias) (\<lambda>fetcher.
     bind_res (fetcher_fetch_body perform fetcher (parser_filelist_consume xml_parse_chunk entry_cb)
                 None (x, parser_filelist_new, entry_ctxt)) (\<lambda>(rc, s).
     bind_res (parser_filelist_delete xml_parse_chunk entry_cb s) (\<lambda>(parser, entry_ctxt).
     Inr (rc, entry_ctxt)))))"

definition indexnode_tryget_listing ::
  "('x \<times> parser_filelist_t \<times> 'c) curl_perform \<Rightarrow> (string \<Rightarrow> string) \<Rightarrow> char_ptr \<Rightarrow>
   'x xml_parse_chunk \<Rightarrow> 'x \<Rightarrow> indexnode_t \<Rightarrow> char_ptr \<Rightarrow> 'c entry_found_cb \<Rightarrow> 'c \<Rightarrow> (int \<times> 'c) res" where
  "indexnode_tryget_listing perform escape config_alias xml_parse_chunk x =
     tryget_entries perform escape config_alias xml_parse_chunk x ''browse''"

definition indexnode_tryget_alternatives ::
  "('x \<times> parser_filelist_t \<times> 'c) curl_perform \<Rightarrow> (string \<Rightarrow> string) \<Rightarrow> char_ptr \<Rightarrow>
   'x xml_parse_chunk \<Rightarrow> 'x \<Rightarrow> indexnode_t \<Rightarrow> char_ptr \<Rightarrow> 'c entry_found_cb \<Rightarrow> 'c \<Rightarrow> (int \<times> 'c) res" where
  "indexnode_tryget_alternatives perform escape config_alias xml_parse_chunk x =
     tryget_entries perform escape config_alias xml_parse_chunk x ''alternatives''"

definition indexnode_tryget_stats ::
  "('x \<times> parser_stats_t \<times> 'c) curl_perform \<Rightarrow> (string \<Rightarrow> string) \<Rightarrow> char_ptr \<Rightarrow>
   'x xml_parse_chunk \<Rightarrow> 'x \<Rightarrow> indexnode_t \<Rightarrow> 'c stats_cb \<Rightarrow> 'c \<Rightarrow> (int \<times> 'c) res" where
  "indexnode_tryget_stats perform escape config_alias xml_parse_chunk x ind stats_cb stats_ctxt =
     bind_res (proto_indexnode_make_url escape (in_pin ind) ''stats'' (HeapStr '''')) (\<lambda>url.
     bind_res (fetcher_new fs2_alias_header_key url config_alias) (\<lambda>fetcher.
     bind_res (fetcher_fetch_body perform fetcher (parser_stats_consume xml_parse_chunk stats_cb)
                 None (x, parser_stats_new, stats_ctxt)) (\<lambda>(rc, s).
     bind_res (parser_stats_delete xml_parse_chunk stats_cb s) (\<lambda>(parser, stats_ctxt).
     Inr (rc, stats_ctxt)))))"

interpretation indexnode_rc: counted indexnode_copy indexnode_delete refs contents_at max_refs
  unfolding indexnode_copy_def indexnode_delete_def
  by (rule rc_obj.counted_axioms)

section \<open>The version check\<close>

lemma strtol_bounds:
  "strtol 0 ''0.5'' = (0, ''.5'')" "strtol 0 ''5'' = (5, [])"
  "strtol 0 ''0.13'' = (0, ''.13'')" "strtol 0 ''13'' = (13, [])"
  "to_int 0 = 0" "to_int 5 = 5" "to_int 13 = 13"
  by code_simp+

lemma check_version_always: "check_version v"
proof -
  define n where "n = to_int (fst (strtol 0 v))"
  define r where "r = snd (strtol 0 v)"
  define t where "t = (if r \<noteq> [] then tl r else r)"
  define m where "m = to_int (fst (strtol 0 t))"
  have lo: "compare_dotted_version ''5'' t = -1" if "5 < m"
    using that by (simp add: compare_dotted_version.simps [of "''5''" t] strtol_bounds m_def Let_def)
  have hi: "compare_dotted_version t ''13'' = -1" if "m < 13"
    using that by (simp add: compare_dotted_version.simps [of t "''13''"] strtol_bounds m_def Let_def)
  have "compare_dotted_version ''0.5'' v = (if 0 < n then -1 else if n < 0 then 1
      else compare_dotted_version ''5'' t)"
    by (simp add: compare_dotted_version.simps [of "''0.5''" v] strtol_bounds n_def r_def t_def Let_def)
  moreover have "compare_dotted_version v ''0.13'' = (if n < 0 then -1 else if 0 < n then 1
      else compare_dotted_version t ''13'')"
    by (simp add: compare_dotted_version.simps [of v "''0.13''"] strtol_bounds n_def r_def t_def Let_def)
  moreover have "5 < m \<or> m < 13" by linarith
  ultimately show ?thesis
    using lo hi by (auto simp: check_version_def PROTO_MINIMUM_def PROTO_MAXIMUM_def split: if_splits)
qed

text \<open>Supported versions (indexnode.c): the bounds of \<^verbatim>\<open>check_version\<close> are joined by \<^verbatim>\<open>||\<close>, so the
  check accepts every version string whatsoever, and \<^verbatim>\<open>indexnode_new\<close> never refuses an indexnode
  for its version: its message that only versions from 0.5 to 0.13 are supported is never
  printed.\<close>
theorem check_version_accepts_all: "check_version v"
  by (rule check_version_always)

section \<open>Asking an indexnode for its protocol and id\<close>

lemma header_caller_ctxt:
  "deliver (header_cb_wrapper cb CallerCtxt) hs s = Inr (ok, s') \<Longrightarrow> s' = s"
  by (induction hs) (auto simp: header_cb_wrapper_def Let_def split: if_splits)

lemma fetch_headers_caller_ctxt:
  assumes "curl_delivers perform server"
    and "fetcher_fetch_headers perform fetcher cb s = Inr (rc, s')"
  shows "s' = s"
  using assms
  by (auto simp: fetcher_fetch_headers_def curl_delivers_def deliver_opt_def
      dest!: header_caller_ctxt split: if_splits)

lemma get_info_no_answer:
  assumes "curl_delivers perform server"
  shows "proto_indexnode_get_info perform escape config_alias pin \<noteq> Inr (Some answer)"
proof
  assume *: "proto_indexnode_get_info perform escape config_alias pin = Inr (Some answer)"
  obtain fetcher rc info where
    "fetcher_fetch_headers perform fetcher header_cb \<lparr>info_protocol = None, info_id = None\<rparr> = Inr (rc, info)"
    and "rc = 0" "info_protocol info \<noteq> None"
    using * by (auto simp: proto_indexnode_get_info_def split: if_splits option.splits)
  with fetch_headers_caller_ctxt [OF assms] show False by fastforce
qed

text \<open>Pinging a statically configured indexnode (proto\_indexnode.c): whatever the server answers,
  \<^verbatim>\<open>proto_indexnode_get_info\<close> never reports a protocol and an id. Because the header wrapper does not
  get its own context, no header is ever stored: a failed request returns false, and a successful
  one ends in a call through a wild pointer or in reading the uninitialised result struct.\<close>
theorem proto_indexnode_get_info_fails:
  assumes "curl_delivers perform server"
  shows "proto_indexnode_get_info perform escape config_alias pin \<noteq> Inr (Some (protocol, i))"
  by (rule get_info_no_answer [OF assms])

theorem proto_indexnode_get_info_fails_witness:
  "proto_indexnode_get_info (curl_for example_server) id (HeapStr ''me'')
     \<lparr>pin_host = ''peer'', pin_port = ''80''\<rparr> \<noteq> Inr (Some (''fs2protocol-0.13'', ''x''))"
  by (rule proto_indexnode_get_info_fails [OF curl_for_delivers])

section \<open>The interface to an indexnode's listings\<close>

text \<open>
  What the native file system relies on when it asks an indexnode for entries: an answer is
  either a run-time error, or the callback was called on some entries, one after the other, and
  the context is what those calls made of it.
\<close>

locale entry_source =
  fixes tryget :: "'k \<Rightarrow> 'c entry_found_cb \<Rightarrow> 'c \<Rightarrow> (int \<times> 'c) res"
  assumes tryget_calls: "tryget k cb c = Inr (rc, c') \<Longrightarrow> \<exists>es. fold_res cb es c = Inr c'"
begin

lemma tryget_invariant:
  assumes "tryget k cb c = Inr (rc, c')" and "P c"
    and "\<And>e c c'. P c \<Longrightarrow> cb e c = Inr c' \<Longrightarrow> P c'"
  shows "P c'"
proof -
  from tryget_calls [OF assms(1)] obtain es where "fold_res cb es c = Inr c'" by blast
  then show ?thesis using assms(2,3) fold_res_invariant [of es P cb c c'] by blast
qed

end

text \<open>The SAX events of a page only reach the context through the callback.\<close>

definition calls :: "('e \<Rightarrow> 'c \<Rightarrow> 'c res) \<Rightarrow> 'c \<Rightarrow> 'c \<Rightarrow> bool" where
  "calls cb c c' \<longleftrightarrow> (\<exists>es. fold_res cb es c = Inr c')"

lemma calls_refl: "calls cb c c"
  unfolding calls_def by (rule exI [of _ "[]"]) simp

lemma calls_one: "cb e c = Inr c' \<Longrightarrow> calls cb c c'"
  unfolding calls_def by (rule exI [of _ "[e]"]) simp

lemma calls_trans: "calls cb c c' \<Longrightarrow> calls cb c' c'' \<Longrightarrow> calls cb c c''"
  unfolding calls_def by (metis fold_res_append bind_res_simps(2))

lemma fold_res_calls:
  assumes "\<And>x p c p' c'. f x (p, c) = Inr (p', c') \<Longrightarrow> calls cb c c'"
  shows "fold_res f xs (p, c) = Inr (p', c') \<Longrightarrow> calls cb c c'"
proof (induction xs arbitrary: p c)
  case Nil
  then show ?case by (simp add: calls_refl)
next
  case (Cons x xs)
  then obtain p1 c1 where "f x (p, c) = Inr (p1, c1)" "fold_res f xs (p1, c1) = Inr (p', c')" by auto
  with assms Cons.IH show ?case by (blast intro: calls_trans)
qed

lemma filelist_cb_calls:
  "filelist_xml_cb cb ev name value (p, c) = Inr (p', c') \<Longrightarrow> calls cb c c'"
  by (auto simp: filelist_xml_cb_def calls_refl calls_one
      split: filelist_state.splits if_splits option.splits)

lemma sax_dispatch_calls:
  "sax_dispatch (filelist_xml_cb cb) ev (p, c) = Inr (p', c') \<Longrightarrow> calls cb c c'"
proof (cases ev)
  case (StartElementNs name atts)
  assume "sax_dispatch (filelist_xml_cb cb) ev (p, c) = Inr (p', c')"
  with StartElementNs obtain p1 c1 where
    1: "filelist_xml_cb cb parser_xml_event_TAG_START name (find_id None atts) (p, c) = Inr (p1, c1)"
    and 2: "fold_res (\<lambda>(k, v) ctxt. if k \<noteq> ''id''
       then filelist_xml_cb cb parser_xml_event_ATTRIBUTE k (Some v) ctxt else Inr ctxt)
       atts (p1, c1) = Inr (p', c')"
    by (auto simp: on_start_element_ns_def)
  have "calls cb c1 c'"
    by (rule fold_res_calls [OF _ 2]) (auto simp: calls_refl split: if_splits dest: filelist_cb_calls)
  with filelist_cb_calls [OF 1] show ?thesis by (rule calls_trans)
qed (auto simp: on_end_element_ns_def on_characters_def calls_refl split: if_splits dest: filelist_cb_calls)

lemma filelist_delete_calls:
  "parser_filelist_delete xml_parse_chunk cb (x, p, c) = Inr (p', c') \<Longrightarrow> calls cb c c'"
  unfolding parser_filelist_delete_def parser_xml_delete_def
  by (simp add: case_prod_beta Let_def) (rule fold_res_calls [OF sax_dispatch_calls])

lemma tryget_entries_calls:
  assumes "curl_delivers perform server"
    and "tryget_entries perform escape alias xml_parse_chunk x prefix ind path cb c = Inr (rc, c')"
  shows "calls cb c c'"
proof -
  from assms(2) obtain fetcher p' c1 x1 p1 where
    1: "fetcher_fetch_body perform fetcher (parser_filelist_consume xml_parse_chunk cb) None
        (x, parser_filelist_new, c) = Inr (rc, x1, p1, c1)"
    and 2: "parser_filelist_delete xml_parse_chunk cb (x1, p1, c1) = Inr (p', c')"
    by (auto simp: tryget_entries_def)
  have "c1 = c" using 1 fetch_body_cases [OF assms(1)] by (auto simp: Let_def split: if_splits)
  with filelist_delete_calls [OF 2] show ?thesis by simp
qed

text \<open>Both kinds of listing request provide the interface, for any server and any pages.\<close>

interpretation listing_source: entry_source
  "\<lambda>(ind, path). indexnode_tryget_listing (curl_for server) escape nick xml_parse_chunk x ind path"
  for server and escape and nick and xml_parse_chunk and x
  by unfold_locales
    (auto simp: indexnode_tryget_listing_def calls_def [symmetric]
      dest: tryget_entries_calls [OF curl_for_delivers])

interpretation alternatives_source: entry_source
  "\<lambda>(ind, hash). indexnode_tryget_alternatives (curl_for server) escape nick xml_parse_chunk x ind hash"
  for server and escape and nick and xml_parse_chunk and x
  by unfold_locales
    (auto simp: indexnode_tryget_alternatives_def calls_def [symmetric]
      dest: tryget_entries_calls [OF curl_for_delivers])

end
