(* ===== verification/Indexnodes.thy ===== *)
theory Indexnodes
  imports Indexnode
begin

text \<open>
  The collection of known indexnodes: \<^verbatim>\<open>src/src/indexnodes/indexnodes_list.c\<close>,
  \<^verbatim>\<open>indexnodes_iterator.c\<close> and \<^verbatim>\<open>indexnodes.c\<close>. A list is the sequence of the pointers in
  its tail queue, head first; the indexnodes live in the reference-counted store. An operation of \<^verbatim>\<open>indexnodes.c\<close> is one step here, so that
  the runs below are those in which one operation ends before the next one begins. The code does not
  make sure of that: the lookup for an advert holds no lock, and \<^verbatim>\<open>indexnodes_get\<close> replaces the list while
  it holds the lock for reading only. \<open>Indexnodes_Race\<close> cuts the operations into the steps between which other
  threads can run, and shows what goes wrong then. \<^verbatim>\<open>malloc\<close> is the address argument of
  \<open>new_indexnode_event\<close>; \<^verbatim>\<open>time()\<close>, which an operation calls for each entry, is its one argument \<open>now\<close>.

  The collection implements a map from indexnode ids to what is known of them (\<open>known\<close>): an
  advert inserts or refreshes one id, asking for the list drops the ids that were not seen within
  the timeout.
\<close>

section \<open>indexnodes\_list.c\<close>

record indexnodes_list_t =
  ins_items :: "addr list"

definition indexnodes_list_new :: indexnodes_list_t where
  "indexnodes_list_new = \<lparr>ins_items = []\<rparr>"

definition indexnodes_list_add :: "indexnodes_list_t \<Rightarrow> addr \<Rightarrow> indexnodes_list_t" where
  "indexnodes_list_add ins ind = ins\<lparr>ins_items := ind # ins_items ins\<rparr>"

fun find_item :: "string \<Rightarrow> addr list \<Rightarrow> indexnode_t rc_store \<Rightarrow>
  (addr option \<times> indexnode_t rc_store) res" where
  "find_item uid [] st = Inr (None, st)"
| "find_item uid (item # items) st =
     bind_res (obj_get item st) (\<lambda>ind.
     if indexnode_equals ind uid
     then bind_res (indexnode_copy item st) (\<lambda>st. Inr (Some item, st))
     else find_item uid items st)"

definition indexnodes_list_find ::
  "indexnodes_list_t \<Rightarrow> string \<Rightarrow> indexnode_t rc_store \<Rightarrow> (addr option \<times> indexnode_t rc_store) res" where
  "indexnodes_list_find ins uid st = find_item uid (ins_items ins) st"

definition indexnodes_list_copy ::
  "indexnodes_list_t \<Rightarrow> indexnode_t rc_store \<Rightarrow> (indexnodes_list_t \<times> indexnode_t rc_store) res" where
  "indexnodes_list_copy orig st =
     fold_res (\<lambda>item (ret, st).
        bind_res (indexnode_copy item st) (\<lambda>st. Inr (indexnodes_list_add ret item, st)))
       (ins_items orig) (indexnodes_list_new, st)"

definition indexnodes_list_delete ::
  "indexnodes_list_t \<Rightarrow> indexnode_t rc_store \<Rightarrow> indexnode_t rc_store res" where
  "indexnodes_list_delete ins st = fold_res indexnode_delete (ins_items ins) st"

definition indexnodes_list_remove_expired ::
  "int \<Rightarrow> int \<Rightarrow> indexnodes_list_t \<Rightarrow> indexnode_t rc_store \<Rightarrow>
   (indexnodes_list_t \<times> indexnode_t rc_store) res" where
  "indexnodes_list_remove_expired now timeout orig st =
     bind_res
       (fold_res (\<lambda>item (ret, st).
          bind_res (obj_get item st) (\<lambda>ind.
          if indexnode_still_valid now timeout ind
          then bind_res (indexnode_copy item st) (\<lambda>st. Inr (indexnodes_list_add ret item, st))
          else Inr (ret, st)))
         (ins_items orig) (indexnodes_list_new, st)) (\<lambda>(ret, st).
     bind_res (indexnodes_list_delete orig st) (\<lambda>st. Inr (ret, st)))"

section \<open>indexnodes\_iterator.c\<close>

text \<open>An iterator is the rest of the queue from its current item on.\<close>

record indexnodes_iterator_t =
  iter_current :: "addr list"

definition indexnodes_iterator_begin :: "indexnodes_list_t \<Rightarrow> indexnodes_iterator_t" where
  "indexnodes_iterator_begin ins = \<lparr>iter_current = ins_items ins\<rparr>"

definition indexnodes_iterator_current ::
  "indexnodes_iterator_t \<Rightarrow> indexnode_t rc_store \<Rightarrow> (addr \<times> indexnode_t rc_store) res" where
  "indexnodes_iterator_current iter st =
     (case iter_current iter of
        [] \<Rightarrow> Inl NullDeref
      | item # rest \<Rightarrow> bind_res (indexnode_copy item st) (\<lambda>st. Inr (item, st)))"

definition indexnodes_iterator_next :: "indexnodes_iterator_t \<Rightarrow> indexnodes_iterator_t res" where
  "indexnodes_iterator_next iter_old =
     (case iter_current iter_old of
        [] \<Rightarrow> Inl NullDeref
      | item # rest \<Rightarrow> Inr \<lparr>iter_current = rest\<rparr>)"

definition indexnodes_iterator_end :: "indexnodes_iterator_t \<Rightarrow> bool" where
  "indexnodes_iterator_end iter = (iter_current iter = [])"

section \<open>indexnodes.c\<close>

record indexnodes_t =
  ins_list :: indexnodes_list_t
  ins_store :: "indexnode_t rc_store"

definition indexnodes_new :: "indexnode_t rc_store \<Rightarrow> indexnodes_t" where
  "indexnodes_new st = \<lparr>ins_list = indexnodes_list_new, ins_store = st\<rparr>"

definition indexnodes_delete :: "indexnodes_t \<Rightarrow> indexnode_t rc_store res" where
  "indexnodes_delete ins = indexnodes_list_delete (ins_list ins) (ins_store ins)"

definition indexnodes_get ::
  "int \<Rightarrow> int \<Rightarrow> indexnodes_t \<Rightarrow> (indexnodes_list_t \<times> indexnodes_t) res" where
  "indexnodes_get now timeout ins =
     bind_res (indexnodes_list_remove_expired now timeout (ins_list ins) (ins_store ins)) (\<lambda>(lis, st).
     bind_res (indexnodes_list_copy lis st) (\<lambda>(copy, st).
     Inr (copy, \<lparr>ins_list = lis, ins_store = st\<rparr>)))"

text \<open>
  \<^verbatim>\<open>sscanf(s, "fs2protocol-%s", v)\<close> behind the prefix: the next word. The result is the return
  code and the version; the string itself has been freed in either case.
\<close>

definition scan_word :: "string \<Rightarrow> string" where
  "scan_word s = takeWhile (\<lambda>c. \<not> is_space c) (dropWhile is_space s)"

definition parse_fs2protocol :: "string \<Rightarrow> (int \<times> string) res" where
  "parse_fs2protocol fs2protocol =
     (let prefix = ''fs2protocol-''; prefix_len = length prefix in
      if take prefix_len fs2protocol = prefix
      then let v = scan_word (drop prefix_len fs2protocol) in
        bind_res (c_assert (v \<noteq> [])) (\<lambda>_. Inr (0, v))
      else Inr (1, ''''))"

text \<open>When the string has no protocol, it is freed a second time.\<close>

definition new_indexnode_event ::
  "addr \<Rightarrow> int \<Rightarrow> string \<Rightarrow> string \<Rightarrow> string \<Rightarrow> string \<Rightarrow> indexnodes_t \<Rightarrow> indexnodes_t res" where
  "new_indexnode_event a now host port fs2protocol uid ins =
     bind_res (parse_fs2protocol fs2protocol) (\<lambda>(rc, version).
     if rc = 0
     then bind_res (indexnodes_list_find (ins_list ins) uid (ins_store ins)) (\<lambda>(found_in, st).
          case found_in of
            Some ind \<Rightarrow>
              bind_res (obj_get ind st) (\<lambda>node.
              bind_res (obj_put ind (indexnode_seen now node) st) (\<lambda>st.
              bind_res (indexnode_delete ind st) (\<lambda>st.
              Inr (ins\<lparr>ins_store := st\<rparr>))))
          | None \<Rightarrow>
              bind_res (indexnode_new a now host port version uid st) (\<lambda>(new_in, st).
              case new_in of
                Some ind \<Rightarrow> Inr (ins\<lparr>ins_list := indexnodes_list_add (ins_list ins) ind, ins_store := st\<rparr>)
              | None \<Rightarrow> Inr (ins\<lparr>ins_store := st\<rparr>)))
     else Inl InvalidFree)"

section \<open>What is known of the indexnodes\<close>

definition node_at :: "indexnode_t rc_store \<Rightarrow> addr \<Rightarrow> indexnode_t" where
  "node_at st a = the (contents_at st a)"

definition known :: "indexnodes_t \<Rightarrow> string \<rightharpoonup> indexnode_t" where
  "known ins = map_of (map (\<lambda>a. (in_id (node_at (ins_store ins) a), node_at (ins_store ins) a))
     (ins_items (ins_list ins)))"

text \<open>Every item is live and no two have the same id.\<close>

definition ins_inv :: "indexnodes_t \<Rightarrow> bool" where
  "ins_inv ins \<longleftrightarrow>
     (\<forall>a \<in> set (ins_items (ins_list ins)). 0 < refs (ins_store ins) a) \<and>
     distinct (map (\<lambda>a. in_id (node_at (ins_store ins) a)) (ins_items (ins_list ins)))"

definition refs_bounded :: "nat \<Rightarrow> indexnode_t rc_store \<Rightarrow> bool" where
  "refs_bounded n st \<longleftrightarrow> (\<forall>a. refs st a + n \<le> max_refs)"

lemma refs_contents: "0 < refs st a \<Longrightarrow> contents_at st a \<noteq> None"
  by (auto simp: refs_pos contents_at_def)

lemma obj_get_node: "0 < refs st a \<Longrightarrow> obj_get a st = Inr (node_at st a)"
  by (auto simp: refs_pos obj_get_def node_at_def contents_at_def)

lemma obj_put_node:
  assumes "0 < refs st a"
  shows "\<exists>st'. obj_put a x st = Inr st' \<and> refs st' = refs st \<and>
    contents_at st' = (contents_at st)(a \<mapsto> x)"
proof -
  from assms obtain rc y where st: "st a = Some (Some rc, y)" by (auto simp: refs_pos)
  then have "refs (st(a \<mapsto> (Some rc, x))) = refs st" by (auto simp: refs_def fun_eq_iff)
  with st show ?thesis by (simp add: obj_put_def)
qed

lemma node_at_contents: "contents_at st' = contents_at st \<Longrightarrow> node_at st' = node_at st"
  by (auto simp: node_at_def)

text \<open>All references are accounted for: one per entry of the list and those of the clients.\<close>

definition accounted :: "indexnodes_t \<Rightarrow> addr multiset \<Rightarrow> bool" where
  "accounted ins outs \<longleftrightarrow>
     (\<forall>a. refs (ins_store ins) a = count_list (ins_items (ins_list ins)) a + count outs a)"

lemma count_list_mset: "count_list xs a = count (mset xs) a"
  by (induction xs) auto

section \<open>Adverts\<close>

lemma find_item_find:
  "\<forall>a \<in> set items. 0 < refs st a \<Longrightarrow>
   find_item uid items st =
     (case find (\<lambda>a. in_id (node_at st a) = uid) items of
        None \<Rightarrow> Inr (None, st)
      | Some a \<Rightarrow> bind_res (indexnode_copy a st) (\<lambda>st. Inr (Some a, st)))"
  by (induction items) (auto simp: obj_get_node indexnode_equals_def)

lemma map_of_find: "map_of (map (\<lambda>a. (f a, g a)) xs) k = map_option g (find (\<lambda>a. f a = k) xs)"
  by (induction xs) auto

lemma known_find:
  "known ins uid = map_option (node_at (ins_store ins))
     (find (\<lambda>a. in_id (node_at (ins_store ins) a) = uid) (ins_items (ins_list ins)))"
  by (simp add: known_def map_of_find)

lemma find_self: "a \<in> set xs \<Longrightarrow> find (\<lambda>b. b = a) xs = Some a"
  by (induction xs) auto

text \<open>Replacing the node behind one id.\<close>

lemma known_update:
  assumes inv: "ins_inv ins" and a: "a \<in> set (ins_items (ins_list ins))"
    and id: "in_id x = in_id (node_at (ins_store ins) a)"
    and r: "refs st' = refs (ins_store ins)" and c: "contents_at st' = (contents_at (ins_store ins))(a \<mapsto> x)"
  shows "ins_inv (ins\<lparr>ins_store := st'\<rparr>) \<and>
    known (ins\<lparr>ins_store := st'\<rparr>) = (known ins)(in_id x \<mapsto> x)"
proof -
  let ?st = "ins_store ins" let ?items = "ins_items (ins_list ins)"
  have node: "node_at st' b = (if b = a then x else node_at ?st b)" for b
    using c by (simp add: node_at_def)
  then have ids: "in_id (node_at st' b) = in_id (node_at ?st b)" for b using id by simp
  have inj: "in_id (node_at ?st b) = in_id x \<longleftrightarrow> b = a" if "b \<in> set ?items" for b
  proof -
    have "inj_on (\<lambda>a. in_id (node_at ?st a)) (set ?items)"
      using inv by (simp add: ins_inv_def distinct_map)
    from inj_on_eq_iff [OF this that a] show ?thesis by (simp add: id)
  qed
  have "find (\<lambda>b. in_id (node_at ?st b) = in_id x) ?items = Some a"
    using find_cong [of ?items ?items, OF refl inj] find_self [OF a] by simp
  then have "known (ins\<lparr>ins_store := st'\<rparr>) uid = ((known ins)(in_id x \<mapsto> x)) uid" for uid
  proof (cases "uid = in_id x")
    case False
    have "node_at st' b = node_at ?st b"
      if "find (\<lambda>b. in_id (node_at ?st b) = uid) ?items = Some b" for b
      using that False id by (auto simp: node find_Some_iff)
    then show ?thesis using False
      by (cases "find (\<lambda>b. in_id (node_at ?st b) = uid) ?items") (simp_all add: known_find ids)
  qed (simp add: known_find ids, simp add: node)
  moreover have "ins_inv (ins\<lparr>ins_store := st'\<rparr>)" using inv r by (simp add: ins_inv_def ids)
  ultimately show ?thesis by blast
qed

text \<open>What an advert makes of the map.\<close>

definition advertised :: "int \<Rightarrow> string \<Rightarrow> string \<Rightarrow> string \<Rightarrow> string \<Rightarrow> (string \<rightharpoonup> indexnode_t) \<Rightarrow>
  (string \<rightharpoonup> indexnode_t)" where
  "advertised now host port version uid m =
     m(uid \<mapsto> (case m uid of
        Some ind \<Rightarrow> ind\<lparr>in_last_seen := now\<rparr>
      | None \<Rightarrow> \<lparr>in_pin = \<lparr>pin_host = host, pin_port = port\<rparr>, in_version = version, in_id = uid,
                 in_last_seen = now\<rparr>))"

lemma event_known_id:
  assumes inv: "ins_inv ins" and bound: "refs_bounded 1 (ins_store ins)"
    and found: "find (\<lambda>b. in_id (node_at (ins_store ins) b) = uid) (ins_items (ins_list ins)) = Some a"
    and parse: "parse_fs2protocol fs2protocol = Inr (0, version)"
  shows "\<exists>ins'. new_indexnode_event f now host port fs2protocol uid ins = Inr ins' \<and> ins_inv ins' \<and>
    known ins' = (known ins)(uid \<mapsto> (node_at (ins_store ins) a)\<lparr>in_last_seen := now\<rparr>) \<and>
    refs (ins_store ins') = refs (ins_store ins) \<and> ins_list ins' = ins_list ins"
proof -
  let ?st = "ins_store ins"
  define x where "x = (node_at ?st a)\<lparr>in_last_seen := now\<rparr>"
  have a: "a \<in> set (ins_items (ins_list ins))" "in_id (node_at ?st a) = uid"
    using found by (auto simp: find_Some_iff)
  have pos: "0 < refs ?st a" and less: "refs ?st a < max_refs"
    using inv a bound by (auto simp: ins_inv_def refs_bounded_def Suc_le_eq)
  obtain st1 where 1: "indexnode_copy a ?st = Inr st1" "refs st1 = (refs ?st)(a := refs ?st a + 1)"
      "contents_at st1 = contents_at ?st"
    using indexnode_rc.copy_count [OF pos less] by blast
  have get: "obj_get a st1 = Inr (node_at ?st a)"
    using 1(2) by (simp add: obj_get_node node_at_contents [OF 1(3)])
  have "0 < refs st1 a" using 1(2) by simp
  from obj_put_node [OF this, of x] obtain st2 where
    2: "obj_put a x st1 = Inr st2" "refs st2 = refs st1" "contents_at st2 = (contents_at st1)(a \<mapsto> x)"
    by blast
  have "0 < refs st2 a" using 1(2) 2(2) by simp
  from indexnode_rc.delete_count [OF this] obtain st3 where
    3: "indexnode_delete a st2 = Inr st3" "refs st3 = (refs st2)(a := refs st2 a - 1)" by blast
  have c3: "contents_at st3 = (contents_at ?st)(a \<mapsto> x)"
    using obj_delete_keeps [of a st2 st3] 1 2 3(1) pos by (simp add: indexnode_delete_def)
  have r3: "refs st3 = refs ?st" using 1(2) 2(2) 3(2) by simp
  have ev: "new_indexnode_event f now host port fs2protocol uid ins = Inr (ins\<lparr>ins_store := st3\<rparr>)"
    using parse inv 1(1) 2(1) 3(1) get found
    by (simp add: new_indexnode_event_def indexnodes_list_find_def find_item_find ins_inv_def
        indexnode_seen_def x_def)
  have "in_id x = uid" using a by (simp add: x_def)
  with known_update [OF inv a(1) _ r3 c3] a(2) ev r3 show ?thesis by (simp add: x_def)
qed

lemma event_new_id:
  assumes inv: "ins_inv ins" and fresh: "ins_store ins f = None"
    and absent: "find (\<lambda>b. in_id (node_at (ins_store ins) b) = uid) (ins_items (ins_list ins)) = None"
    and parse: "parse_fs2protocol fs2protocol = Inr (0, version)"
    and args: "host \<noteq> []" "port \<noteq> []" "uid \<noteq> []" "version \<noteq> []"
  shows "\<exists>ins'. new_indexnode_event f now host port fs2protocol uid ins = Inr ins' \<and> ins_inv ins' \<and>
    known ins' = (known ins)(uid \<mapsto> \<lparr>in_pin = \<lparr>pin_host = host, pin_port = port\<rparr>,
      in_version = version, in_id = uid, in_last_seen = now\<rparr>) \<and>
    refs (ins_store ins') = (refs (ins_store ins))(f := 1) \<and>
    ins_items (ins_list ins') = f # ins_items (ins_list ins)"
proof -
  let ?st = "ins_store ins" let ?items = "ins_items (ins_list ins)"
  define x where "x = \<lparr>in_pin = \<lparr>pin_host = host, pin_port = port\<rparr>, in_version = version,
    in_id = uid, in_last_seen = now\<rparr>"
  define st' where "st' = ?st(f \<mapsto> (Some ref_count_new, x))"
  have "refs ?st f = 0" using fresh by (simp add: refs_def)
  with inv have f: "f \<notin> set ?items" by (auto simp: ins_inv_def)
  have node: "node_at st' b = (if b = f then x else node_at ?st b)" for b
    by (simp add: st'_def node_at_def)
  have ev: "new_indexnode_event f now host port fs2protocol uid ins =
      Inr \<lparr>ins_list = \<lparr>ins_items = f # ?items\<rparr>, ins_store = st'\<rparr>"
    using parse inv absent args
    by (simp add: new_indexnode_event_def indexnodes_list_find_def find_item_find ins_inv_def
        indexnode_new_def check_version_always proto_indexnode_init_def indexnode_seen_def
        indexnodes_list_add_def
        st'_def x_def)
  have map: "map (\<lambda>b. (in_id (node_at st' b), node_at st' b)) ?items =
      map (\<lambda>b. (in_id (node_at ?st b), node_at ?st b)) ?items"
    using f by (auto simp: node)
  have ids: "map (\<lambda>b. in_id (node_at st' b)) ?items = map (\<lambda>b. in_id (node_at ?st b)) ?items"
    using f by (auto simp: node)
  have "uid \<notin> set (map (\<lambda>b. in_id (node_at ?st b)) ?items)"
    using absent by (auto simp: find_None_iff)
  then have "distinct (map (\<lambda>b. in_id (node_at st' b)) (f # ?items))"
    using inv by (simp add: ids ins_inv_def) (simp add: node x_def)
  then have "ins_inv \<lparr>ins_list = \<lparr>ins_items = f # ?items\<rparr>, ins_store = st'\<rparr>"
    using inv by (auto simp: ins_inv_def st'_def ref_count_new_def)
  moreover have "known \<lparr>ins_list = \<lparr>ins_items = f # ?items\<rparr>, ins_store = st'\<rparr> = (known ins)(uid \<mapsto> x)"
    by (simp add: known_def map) (simp add: node x_def)
  moreover have "refs st' = (refs ?st)(f := 1)" by (simp add: st'_def ref_count_new_def)
  ultimately show ?thesis using ev by (simp add: x_def)
qed

lemma event_correct:
  assumes inv: "ins_inv ins" and bound: "refs_bounded 1 (ins_store ins)" and fresh: "ins_store ins f = None"
    and version: "scan_word v \<noteq> []" and args: "host \<noteq> []" "port \<noteq> []" "uid \<noteq> []"
  shows "\<exists>ins'. new_indexnode_event f now host port (''fs2protocol-'' @ v) uid ins = Inr ins' \<and>
    ins_inv ins' \<and> known ins' = advertised now host port (scan_word v) uid (known ins) \<and>
    (\<forall>outs. accounted ins outs \<longrightarrow> accounted ins' outs)"
proof -
  have parse: "parse_fs2protocol (''fs2protocol-'' @ v) = Inr (0, scan_word v)"
    using version by (simp add: parse_fs2protocol_def Let_def)
  have f0: "refs (ins_store ins) f = 0" using fresh by (simp add: refs_def)
  show ?thesis
  proof (cases "find (\<lambda>b. in_id (node_at (ins_store ins) b) = uid) (ins_items (ins_list ins))")
    case None
    then have "known ins uid = None" by (simp add: known_find)
    with event_new_id [OF inv fresh None parse args version, of now] f0 show ?thesis
      by (auto simp: advertised_def accounted_def)
  next
    case (Some a)
    then have "known ins uid = Some (node_at (ins_store ins) a)" by (simp add: known_find)
    with event_known_id [OF inv bound Some parse, of f now host port] show ?thesis
      by (auto simp: advertised_def accounted_def)
  qed
qed

section \<open>Asking for the list\<close>

abbreviation valid_at :: "int \<Rightarrow> int \<Rightarrow> indexnode_t rc_store \<Rightarrow> addr \<Rightarrow> bool" where
  "valid_at now timeout st a \<equiv> indexnode_still_valid now timeout (node_at st a)"

lemma collect_copies:
  assumes "\<forall>a \<in> set items. 0 < refs st a \<and> refs st a + count_list items a \<le> max_refs"
  shows "\<exists>st'. fold_res (\<lambda>item (ret, st).
          bind_res (obj_get item st) (\<lambda>ind.
          if P ind
          then bind_res (indexnode_copy item st) (\<lambda>st. Inr (indexnodes_list_add ret item, st))
          else Inr (ret, st))) items (ret, st) =
      Inr (ret\<lparr>ins_items := rev (filter (\<lambda>a. P (node_at st a)) items) @ ins_items ret\<rparr>, st') \<and>
    refs st' = (\<lambda>a. refs st a + count_list (filter (\<lambda>a. P (node_at st a)) items) a) \<and>
    contents_at st' = contents_at st"
  using assms
proof (induction items arbitrary: ret st)
  case Nil
  then show ?case by simp
next
  case (Cons a items)
  have pos: "0 < refs st a" and less: "refs st a < max_refs" using Cons.prems by auto
  show ?case
  proof (cases "P (node_at st a)")
    case False
    have "\<forall>b \<in> set items. 0 < refs st b \<and> refs st b + count_list items b \<le> max_refs"
    proof
      fix b assume "b \<in> set items"
      then show "0 < refs st b \<and> refs st b + count_list items b \<le> max_refs"
        using Cons.prems [rule_format, of b] by (simp split: if_splits)
    qed
    from Cons.IH [OF this, of ret] False pos show ?thesis by (simp add: obj_get_node)
  next
    case True
    from indexnode_rc.copy_count [OF pos less] obtain st1 where
      1: "indexnode_copy a st = Inr st1" "refs st1 = (refs st)(a := refs st a + 1)"
        "contents_at st1 = contents_at st" by blast
    have "\<forall>b \<in> set items. 0 < refs st1 b \<and> refs st1 b + count_list items b \<le> max_refs"
    proof
      fix b assume "b \<in> set items"
      then show "0 < refs st1 b \<and> refs st1 b + count_list items b \<le> max_refs"
        using Cons.prems [rule_format, of b] unfolding 1(2) by (simp split: if_splits)
    qed
    from Cons.IH [OF this, of "indexnodes_list_add ret a"] obtain st2 where
      2: "fold_res (\<lambda>item (ret, st). bind_res (obj_get item st) (\<lambda>ind.
            if P ind then bind_res (indexnode_copy item st) (\<lambda>st. Inr (indexnodes_list_add ret item, st))
            else Inr (ret, st))) items (indexnodes_list_add ret a, st1) =
          Inr ((indexnodes_list_add ret a)\<lparr>ins_items := rev (filter (\<lambda>a. P (node_at st a)) items) @
            ins_items (indexnodes_list_add ret a)\<rparr>, st2)"
        "refs st2 = (\<lambda>b. refs st1 b + count_list (filter (\<lambda>a. P (node_at st a)) items) b)"
        "contents_at st2 = contents_at st1"
      unfolding node_at_contents [OF 1(3)] by blast
    have "refs st2 = (\<lambda>b. refs st b + count_list (filter (\<lambda>a. P (node_at st a)) (a # items)) b)"
      unfolding 2(2) 1(2) using True by (auto simp: fun_eq_iff)
    moreover have "contents_at st2 = contents_at st" using 2(3) 1(3) by simp
    ultimately show ?thesis
      using True pos 1(1) 2(1) by (simp add: obj_get_node indexnodes_list_add_def del: filter.simps) simp
  qed
qed

lemma get_before_copy:
  "bind_res (obj_get a st) (\<lambda>ind. bind_res (indexnode_copy a st) g) = bind_res (indexnode_copy a st) g"
  by (auto simp: obj_get_def indexnode_copy_def obj_copy_def split: option.splits)

lemma list_copy_correct:
  assumes "\<forall>a \<in> set items. 0 < refs st a \<and> refs st a + count_list items a \<le> max_refs"
  shows "\<exists>st'. indexnodes_list_copy \<lparr>ins_items = items\<rparr> st = Inr (\<lparr>ins_items = rev items\<rparr>, st') \<and>
    refs st' = (\<lambda>a. refs st a + count_list items a) \<and> contents_at st' = contents_at st"
  using collect_copies [OF assms, of "\<lambda>_. True" indexnodes_list_new]
  by (simp add: indexnodes_list_copy_def get_before_copy indexnodes_list_new_def)

lemma count_list_distinct: "distinct xs \<Longrightarrow> count_list xs a = (if a \<in> set xs then 1 else 0)"
  by (induction xs) auto

lemma remove_expired_correct:
  assumes live: "\<forall>a \<in> set items. 0 < refs st a" and bound: "refs_bounded 1 st" and dist: "distinct items"
  shows "\<exists>st'. indexnodes_list_remove_expired now timeout \<lparr>ins_items = items\<rparr> st =
      Inr (\<lparr>ins_items = rev (filter (valid_at now timeout st) items)\<rparr>, st') \<and>
    (\<forall>a. refs st' a = (if a \<in> set items \<and> \<not> valid_at now timeout st a then refs st a - 1 else refs st a)) \<and>
    (\<forall>b. 0 < refs st' b \<longrightarrow> contents_at st' b = contents_at st b)"
proof -
  let ?vs = "filter (valid_at now timeout st) items"
  have "\<forall>a \<in> set items. 0 < refs st a \<and> refs st a + count_list items a \<le> max_refs"
    using live bound dist by (simp add: refs_bounded_def count_list_distinct)
  from collect_copies [OF this, of "indexnode_still_valid now timeout" indexnodes_list_new]
  obtain st1 where 1: "fold_res (\<lambda>item (ret, st). bind_res (obj_get item st) (\<lambda>ind.
        if indexnode_still_valid now timeout ind
        then bind_res (indexnode_copy item st) (\<lambda>st. Inr (indexnodes_list_add ret item, st))
        else Inr (ret, st))) items (indexnodes_list_new, st) = Inr (\<lparr>ins_items = rev ?vs\<rparr>, st1)"
      "refs st1 = (\<lambda>a. refs st a + count_list ?vs a)" "contents_at st1 = contents_at st"
    by (auto simp: indexnodes_list_new_def)
  have "\<forall>a. count_list items a \<le> refs st1 a"
  proof
    fix a show "count_list items a \<le> refs st1 a"
      using live dist unfolding 1(2) by (auto simp: count_list_distinct Suc_le_eq)
  qed
  from indexnode_rc.delete_list [OF this] obtain st2 where
    2: "fold_res indexnode_delete items st1 = Inr st2"
      "refs st2 = (\<lambda>a. refs st1 a - count_list items a)"
      "\<forall>b. 0 < refs st2 b \<longrightarrow> contents_at st2 b = contents_at st1 b" by blast
  have "refs st2 a = (if a \<in> set items \<and> \<not> valid_at now timeout st a then refs st a - 1 else refs st a)" for a
    unfolding 2(2) 1(2) using dist by (simp add: count_list_distinct)
  then show ?thesis
    using 1(1,3) 2(1,3)
    by (simp add: indexnodes_list_remove_expired_def indexnodes_list_delete_def)
qed

lemma get_correct:
  assumes inv: "ins_inv ins" and bound: "refs_bounded 1 (ins_store ins)"
  shows "\<exists>ins'. indexnodes_get now timeout ins =
      Inr (\<lparr>ins_items = filter (valid_at now timeout (ins_store ins)) (ins_items (ins_list ins))\<rparr>, ins') \<and>
    ins_items (ins_list ins') = rev (filter (valid_at now timeout (ins_store ins)) (ins_items (ins_list ins))) \<and>
    (\<forall>a. refs (ins_store ins') a = (if a \<in> set (ins_items (ins_list ins))
       then if valid_at now timeout (ins_store ins) a then refs (ins_store ins) a + 1
            else refs (ins_store ins) a - 1
       else refs (ins_store ins) a)) \<and>
    (\<forall>b. 0 < refs (ins_store ins') b \<longrightarrow> contents_at (ins_store ins') b = contents_at (ins_store ins) b)"
proof -
  let ?st = "ins_store ins" let ?items = "ins_items (ins_list ins)"
  let ?vs = "filter (valid_at now timeout ?st) ?items"
  have live: "\<forall>a \<in> set ?items. 0 < refs ?st a" and dist: "distinct ?items"
    using inv by (auto simp: ins_inv_def distinct_map)
  have list: "ins_list ins = \<lparr>ins_items = ?items\<rparr>" by simp
  obtain st1 where 1: "indexnodes_list_remove_expired now timeout (ins_list ins) ?st =
        Inr (\<lparr>ins_items = rev ?vs\<rparr>, st1)"
      "\<forall>a. refs st1 a = (if a \<in> set ?items \<and> \<not> valid_at now timeout ?st a then refs ?st a - 1 else refs ?st a)"
      "\<forall>b. 0 < refs st1 b \<longrightarrow> contents_at st1 b = contents_at ?st b"
    using remove_expired_correct [OF live bound dist, of now timeout, folded list] by blast
  have "\<forall>a \<in> set (rev ?vs). 0 < refs st1 a \<and> refs st1 a + count_list (rev ?vs) a \<le> max_refs"
    using live bound dist 1(2) by (simp add: refs_bounded_def count_list_distinct)
  from list_copy_correct [OF this] obtain st2 where
    2: "indexnodes_list_copy \<lparr>ins_items = rev ?vs\<rparr> st1 = Inr (\<lparr>ins_items = ?vs\<rparr>, st2)"
      "refs st2 = (\<lambda>a. refs st1 a + count_list (rev ?vs) a)" "contents_at st2 = contents_at st1" by auto
  have r: "refs st2 a = (if a \<in> set ?items then if valid_at now timeout ?st a then refs ?st a + 1
      else refs ?st a - 1 else refs ?st a)" for a
    unfolding 2(2) using 1(2) dist by (simp add: count_list_distinct)
  have c: "contents_at st2 b = contents_at ?st b" if "0 < refs st2 b" for b
  proof -
    have "0 < refs st1 b" using that live 1(2) r [of b] by (auto split: if_splits)
    then show ?thesis using 1(3) 2(3) by simp
  qed
  show ?thesis using 1(1) 2(1) r c by (simp add: indexnodes_get_def)
qed

section \<open>Every run of the collection\<close>

text \<open>
  The collection together with the references its clients hold through the lists they were given
  (\<open>outs\<close>). A step is an advert, a request for the list, or a client that deletes a list it
  holds. The guard on the reference counts says that there are not yet \<open>2\<^sup>3\<^sup>2 - 1\<close> references to
  one indexnode.
\<close>

inductive ins_reach :: "indexnodes_t \<Rightarrow> addr multiset \<Rightarrow> bool" where
  start: "ins_reach (indexnodes_new Map.empty) {#}"
| advert: "ins_reach ins outs \<Longrightarrow> refs_bounded 1 (ins_store ins) \<Longrightarrow> ins_store ins f = None \<Longrightarrow>
    scan_word v \<noteq> [] \<Longrightarrow> host \<noteq> [] \<Longrightarrow> port \<noteq> [] \<Longrightarrow> uid \<noteq> [] \<Longrightarrow>
    new_indexnode_event f now host port (''fs2protocol-'' @ v) uid ins = Inr ins' \<Longrightarrow>
    ins_reach ins' outs"
| request: "ins_reach ins outs \<Longrightarrow> refs_bounded 1 (ins_store ins) \<Longrightarrow>
    indexnodes_get now timeout ins = Inr (lis, ins') \<Longrightarrow> ins_reach ins' (mset (ins_items lis) + outs)"
| drop: "ins_reach ins (mset (ins_items lis) + outs) \<Longrightarrow>
    indexnodes_list_delete lis (ins_store ins) = Inr st' \<Longrightarrow>
    ins_reach (ins\<lparr>ins_store := st'\<rparr>) outs"

lemma ins_inv_distinct: "ins_inv ins \<Longrightarrow> distinct (ins_items (ins_list ins))"
  by (simp add: ins_inv_def distinct_map)

text \<open>The list only depends on the live nodes.\<close>

lemma ins_inv_keep:
  assumes "ins_inv ins" "set items \<subseteq> set (ins_items (ins_list ins))" "distinct items"
    and "\<forall>a \<in> set items. 0 < refs st' a"
    and "\<forall>b. 0 < refs st' b \<longrightarrow> contents_at st' b = contents_at (ins_store ins) b"
  shows "ins_inv \<lparr>ins_list = \<lparr>ins_items = items\<rparr>, ins_store = st'\<rparr>"
proof -
  have "in_id (node_at st' a) = in_id (node_at (ins_store ins) a)" if "a \<in> set items" for a
    using assms(4,5) that by (simp add: node_at_def)
  moreover have "inj_on (\<lambda>a. in_id (node_at (ins_store ins) a)) (set items)"
    using assms(1,2) by (auto simp: ins_inv_def distinct_map intro: inj_on_subset)
  ultimately have "inj_on (\<lambda>a. in_id (node_at st' a)) (set items)"
    by (simp add: inj_on_def)
  then show ?thesis using assms(3,4) by (simp add: ins_inv_def distinct_map)
qed

lemma get_keeps_inv:
  assumes "ins_inv ins" "refs_bounded 1 (ins_store ins)"
    and "indexnodes_get now timeout ins = Inr (lis, ins')"
  shows "ins_inv ins'"
proof -
  let ?vs = "filter (valid_at now timeout (ins_store ins)) (ins_items (ins_list ins))"
  from get_correct [OF assms(1,2), of now timeout] assms(3) have
    items: "ins_items (ins_list ins') = rev ?vs" and
    r: "\<forall>a. refs (ins_store ins') a = (if a \<in> set (ins_items (ins_list ins))
       then if valid_at now timeout (ins_store ins) a then refs (ins_store ins) a + 1
            else refs (ins_store ins) a - 1 else refs (ins_store ins) a)" and
    c: "\<forall>b. 0 < refs (ins_store ins') b \<longrightarrow> contents_at (ins_store ins') b = contents_at (ins_store ins) b"
    by auto
  have "ins_inv \<lparr>ins_list = \<lparr>ins_items = rev ?vs\<rparr>, ins_store = ins_store ins'\<rparr>"
    by (rule ins_inv_keep [OF assms(1)]) (use ins_inv_distinct [OF assms(1)] r c in auto)
  then show ?thesis by (simp add: ins_inv_def items)
qed

lemma drop_correct:
  assumes "ins_inv ins" "accounted ins (mset (ins_items lis) + outs)"
  shows "\<exists>st'. indexnodes_list_delete lis (ins_store ins) = Inr st' \<and>
    ins_inv (ins\<lparr>ins_store := st'\<rparr>) \<and> accounted (ins\<lparr>ins_store := st'\<rparr>) outs \<and>
    known (ins\<lparr>ins_store := st'\<rparr>) = known ins"
proof -
  let ?st = "ins_store ins" let ?items = "ins_items (ins_list ins)"
  have "\<forall>a. count_list (ins_items lis) a \<le> refs ?st a"
    using assms(2) by (simp add: accounted_def count_list_mset)
  from indexnode_rc.delete_list [OF this] obtain st' where
    st': "fold_res indexnode_delete (ins_items lis) ?st = Inr st'"
      "refs st' = (\<lambda>a. refs ?st a - count_list (ins_items lis) a)"
      "\<forall>b. 0 < refs st' b \<longrightarrow> contents_at st' b = contents_at ?st b" by blast
  have acc: "accounted (ins\<lparr>ins_store := st'\<rparr>) outs"
    using assms(2) unfolding accounted_def by (simp add: st'(2) count_list_mset)
  have live: "\<forall>a \<in> set ?items. 0 < refs st' a"
    using acc by (auto simp: accounted_def count_list_mset)
  then have "\<forall>a \<in> set ?items. node_at st' a = node_at ?st a" using st'(3) by (simp add: node_at_def)
  then have "known (ins\<lparr>ins_store := st'\<rparr>) = known ins" by (simp add: known_def cong: map_cong)
  moreover from live have "ins_inv \<lparr>ins_list = \<lparr>ins_items = ?items\<rparr>, ins_store = st'\<rparr>"
    using ins_inv_keep [OF assms(1) subset_refl ins_inv_distinct [OF assms(1)] _ st'(3)] by blast
  ultimately show ?thesis using acc st'(1) by (simp add: indexnodes_list_delete_def ins_inv_def)
qed

lemma get_accounted:
  assumes "ins_inv ins" "refs_bounded 1 (ins_store ins)" "accounted ins outs"
    and "indexnodes_get now timeout ins = Inr (lis, ins')"
  shows "accounted ins' (mset (ins_items lis) + outs)"
  unfolding accounted_def
proof
  fix a
  let ?vs = "filter (valid_at now timeout (ins_store ins)) (ins_items (ins_list ins))"
  from get_correct [OF assms(1,2), of now timeout] assms(4) have
    items: "ins_items (ins_list ins') = rev ?vs" "ins_items lis = ?vs" and
    r: "refs (ins_store ins') a = (if a \<in> set (ins_items (ins_list ins))
       then if valid_at now timeout (ins_store ins) a then refs (ins_store ins) a + 1
            else refs (ins_store ins) a - 1 else refs (ins_store ins) a)"
    by auto
  have d: "distinct (ins_items (ins_list ins))" by (rule ins_inv_distinct [OF assms(1)])
  have "refs (ins_store ins) a = count_list (ins_items (ins_list ins)) a + count outs a"
    using assms(3) by (simp add: accounted_def)
  then show "refs (ins_store ins') a = count_list (ins_items (ins_list ins')) a +
      count (mset (ins_items lis) + outs) a"
    using r d by (simp add: items count_list_distinct flip: count_list_mset)
qed

lemma accounted_bounded:
  assumes "ins_inv ins" "accounted ins outs" "size outs + 2 \<le> max_refs"
  shows "refs_bounded 1 (ins_store ins)"
  unfolding refs_bounded_def
proof
  fix a
  have "refs (ins_store ins) a \<le> 1 + count outs a"
    using assms(1,2) by (simp add: accounted_def count_list_distinct ins_inv_distinct)
  also have "count outs a \<le> size outs" by (rule count_le_size)
  finally show "refs (ins_store ins) a + 1 \<le> max_refs" using assms(3) by simp
qed

lemma reach_invariant: "ins_reach ins outs \<Longrightarrow> ins_inv ins \<and> accounted ins outs"
proof (induction rule: ins_reach.induct)
  case start
  then show ?case
    by (simp add: indexnodes_new_def indexnodes_list_new_def ins_inv_def accounted_def refs_def)
next
  case (advert ins outs f v host port uid now ins')
  with event_correct [of ins f v host port uid now] show ?case by auto
next
  case (request ins outs now timeout lis ins')
  then show ?case using get_keeps_inv get_accounted by blast
next
  case (drop ins lis outs st')
  then show ?case using drop_correct [of ins lis outs] by auto
qed

lemma map_of_rev_distinct: "distinct (map fst xs) \<Longrightarrow> map_of (rev xs) = map_of xs"
  by (subst map_of_inject_set) (simp_all flip: rev_map)

lemma map_of_filter_distinct:
  "distinct (map fst xs) \<Longrightarrow>
   map_of (filter (\<lambda>(k, v). P v) xs) x =
     (case map_of xs x of None \<Rightarrow> None | Some v \<Rightarrow> if P v then Some v else None)"
  by (induction xs) (auto simp: map_of_eq_None_iff split: option.splits)

section \<open>Properties\<close>

text \<open>C9. Adverts (indexnodes.c, \<^verbatim>\<open>new_indexnode_event\<close>): in a collection of live indexnodes with
  distinct ids, an advert with a well-formed protocol, id, host and port is processed without
  error; afterwards the advertised id is known with the time of the advert, with the host, port
  and version it was first advertised with, nothing else has changed, and the ids are still
  distinct.\<close>
theorem new_indexnode_event_refines:
  assumes "ins_inv ins" "refs_bounded 1 (ins_store ins)" "ins_store ins f = None"
    and "scan_word v \<noteq> []" "host \<noteq> []" "port \<noteq> []" "uid \<noteq> []"
  shows "\<exists>ins'. new_indexnode_event f now host port (''fs2protocol-'' @ v) uid ins = Inr ins' \<and>
    ins_inv ins' \<and> known ins' = advertised now host port (scan_word v) uid (known ins)"
  using event_correct [OF assms] by blast

lemma refs_bounded_empty [simp]: "refs_bounded n Map.empty \<longleftrightarrow> n \<le> max_refs"
  by (simp add: refs_bounded_def refs_def)

lemma ins_inv_new [simp]: "ins_inv (indexnodes_new Map.empty)"
  by (simp add: ins_inv_def indexnodes_new_def indexnodes_list_new_def)

lemma known_new [simp]: "known (indexnodes_new Map.empty) = Map.empty"
  by (simp add: known_def indexnodes_new_def indexnodes_list_new_def)

lemma ins_store_new [simp]: "ins_store (indexnodes_new st) = st"
  by (simp add: indexnodes_new_def)

theorem new_indexnode_event_refines_witness:
  "\<exists>ins'. new_indexnode_event 5 100 ''10.0.0.1'' ''6343'' ''fs2protocol-0.13'' ''uid1''
      (indexnodes_new Map.empty) = Inr ins' \<and> ins_inv ins' \<and>
    known ins' = [''uid1'' \<mapsto> \<lparr>in_pin = \<lparr>pin_host = ''10.0.0.1'', pin_port = ''6343''\<rparr>,
      in_version = ''0.13'', in_id = ''uid1'', in_last_seen = 100\<rparr>]"
proof -
  have w: "scan_word ''0.13'' = ''0.13''" by code_simp
  show ?thesis
    using new_indexnode_event_refines [of "indexnodes_new Map.empty" 5 "''0.13''" "''10.0.0.1''"
        "''6343''" "''uid1''" 100]
    by (simp add: w advertised_def)
qed

lemma get_known:
  assumes "ins_inv ins" "refs_bounded 1 (ins_store ins)" "indexnodes_get now timeout ins = Inr (lis, ins')"
  shows "known ins' uid = (case known ins uid of
    None \<Rightarrow> None | Some ind \<Rightarrow> if now - in_last_seen ind < timeout then Some ind else None)"
proof -
  let ?st = "ins_store ins" let ?items = "ins_items (ins_list ins)"
  let ?vs = "filter (valid_at now timeout ?st) ?items"
  from get_correct [OF assms(1,2), of now timeout] assms(3) have
    items: "ins_items (ins_list ins') = rev ?vs" and
    r: "\<forall>a. refs (ins_store ins') a = (if a \<in> set ?items
       then if valid_at now timeout ?st a then refs ?st a + 1 else refs ?st a - 1 else refs ?st a)" and
    c: "\<forall>b. 0 < refs (ins_store ins') b \<longrightarrow> contents_at (ins_store ins') b = contents_at ?st b"
    by auto
  have node: "node_at (ins_store ins') a = node_at ?st a" if "a \<in> set ?vs" for a
    using that r c by (simp add: node_at_def)
  let ?kvs = "map (\<lambda>a. (in_id (node_at ?st a), node_at ?st a)) ?items"
  let ?kvs' = "filter (\<lambda>(k, ind). indexnode_still_valid now timeout ind) ?kvs"
  have dist: "distinct (map fst ?kvs)" using assms(1) by (simp add: ins_inv_def comp_def)
  have "map (\<lambda>a. (in_id (node_at (ins_store ins') a), node_at (ins_store ins') a)) (rev ?vs) =
      rev ?kvs'"
    using node by (simp add: filter_map comp_def rev_map)
  then have "known ins' = map_of (rev ?kvs')" by (simp only: known_def items)
  also have "\<dots> = map_of ?kvs'" by (rule map_of_rev_distinct) (rule distinct_map_filter [OF dist])
  finally show ?thesis
    by (simp add: known_def map_of_filter_distinct [OF dist] indexnode_still_valid_def)
qed

text \<open>C10. Asking for the indexnodes (indexnodes.c, \<^verbatim>\<open>indexnodes_get\<close>): the call returns exactly the
  indexnodes that were seen within the timeout, in the order of the list, and gives the caller one
  reference to each; the collection forgets exactly the others and gives up its reference to them,
  and still has live entries with distinct ids only.\<close>
theorem indexnodes_get_refines:
  assumes "ins_inv ins" "refs_bounded 1 (ins_store ins)"
  shows "\<exists>lis ins'. indexnodes_get now timeout ins = Inr (lis, ins') \<and> ins_inv ins' \<and>
    ins_items lis = filter (\<lambda>a. indexnode_still_valid now timeout (node_at (ins_store ins) a))
      (ins_items (ins_list ins)) \<and>
    (\<forall>uid. known ins' uid = (case known ins uid of
       None \<Rightarrow> None | Some ind \<Rightarrow> if now - in_last_seen ind < timeout then Some ind else None)) \<and>
    (\<forall>outs. accounted ins outs \<longrightarrow> accounted ins' (mset (ins_items lis) + outs))"
proof -
  let ?vs = "filter (valid_at now timeout (ins_store ins)) (ins_items (ins_list ins))"
  from get_correct [OF assms, of now timeout] obtain ins' where
    g: "indexnodes_get now timeout ins = Inr (\<lparr>ins_items = ?vs\<rparr>, ins')" by blast
  then show ?thesis
    using get_keeps_inv [OF assms g] get_known [OF assms g] get_accounted [OF assms _ g] by auto
qed

text \<open>One indexnode, seen at time 100.\<close>

lemma example_indexnodes:
  "\<exists>ins. new_indexnode_event 5 100 ''h'' ''80'' (''fs2protocol-'' @ ''0.13'') ''u''
      (indexnodes_new Map.empty) = Inr ins \<and> ins_reach ins {#} \<and> ins_inv ins \<and>
    refs_bounded 1 (ins_store ins) \<and>
    known ins = [''u'' \<mapsto> \<lparr>in_pin = \<lparr>pin_host = ''h'', pin_port = ''80''\<rparr>,
      in_version = ''0.13'', in_id = ''u'', in_last_seen = 100\<rparr>]"
proof -
  have w: "scan_word ''0.13'' = ''0.13''" by code_simp
  have v: "scan_word ''0.13'' \<noteq> []" unfolding w by simp
  obtain ins where
    ins: "new_indexnode_event 5 100 ''h'' ''80'' (''fs2protocol-'' @ ''0.13'') ''u''
      (indexnodes_new Map.empty) = Inr ins"
      "known ins = advertised 100 ''h'' ''80'' (scan_word ''0.13'') ''u'' (known (indexnodes_new Map.empty))"
    using event_correct [of "indexnodes_new Map.empty" 5 "''0.13''" "''h''" "''80''" "''u''" 100] v
    by auto
  have reach: "ins_reach ins {#}"
    by (rule ins_reach.advert [OF ins_reach.start _ _ v _ _ _ ins(1)]) simp_all
  from reach_invariant [OF this] have "ins_inv ins" "accounted ins {#}" by auto
  moreover from this have "refs_bounded 1 (ins_store ins)"
    by (simp add: accounted_def refs_bounded_def count_list_distinct ins_inv_distinct)
  ultimately show ?thesis using ins reach by (auto simp: advertised_def w)
qed

theorem indexnodes_get_refines_witness:
  "\<exists>ins lis ins'. ins_reach ins {#} \<and> known ins ''u'' \<noteq> None \<and>
    indexnodes_get 200 60 ins = Inr (lis, ins') \<and> known ins' ''u'' = None"
proof -
  obtain ins where ins: "ins_inv ins" "refs_bounded 1 (ins_store ins)" "ins_reach ins {#}"
      "known ins = [''u'' \<mapsto> \<lparr>in_pin = \<lparr>pin_host = ''h'', pin_port = ''80''\<rparr>,
        in_version = ''0.13'', in_id = ''u'', in_last_seen = 100\<rparr>]"
    using example_indexnodes by blast
  from indexnodes_get_refines [OF ins(1,2), of 200 60] obtain lis ins' where
    "indexnodes_get 200 60 ins = Inr (lis, ins')"
    "known ins' ''u'' = (case known ins ''u'' of
       None \<Rightarrow> None | Some ind \<Rightarrow> if 200 - in_last_seen ind < 60 then Some ind else None)"
    by blast
  with ins(3,4) show ?thesis by auto
qed



text \<open>Adverts of another protocol (indexnodes.c): \<^verbatim>\<open>parse_fs2protocol\<close> frees the protocol string
  and \<^verbatim>\<open>new_indexnode_event\<close> frees it again when it has no version, so that any packet whose first
  field does not start with \<^verbatim>\<open>fs2protocol-\<close> is a double free, whatever the state.\<close>
theorem new_indexnode_event_double_free:
  assumes "take 12 fs2protocol \<noteq> ''fs2protocol-''"
  shows "new_indexnode_event f now host port fs2protocol uid ins = Inl InvalidFree"
proof -
  have "length ''fs2protocol-'' = 12" by simp
  with assms have "parse_fs2protocol fs2protocol = Inr (1, '''')"
    unfolding parse_fs2protocol_def Let_def by metis
  then show ?thesis by (simp add: new_indexnode_event_def)
qed

theorem new_indexnode_event_double_free_witness:
  "new_indexnode_event 5 100 ''h'' ''80'' ''http'' ''u'' (indexnodes_new Map.empty) = Inl InvalidFree"
  by (rule new_indexnode_event_double_free) simp

end
