(* ===== verification/Listener.thy ===== *)
theory Listener
  imports Indexnodes Utils
begin

text \<open>
  Receiving indexnode adverts: the packets and the event loop of
  \<^verbatim>\<open>src/src/indexnodes/indexnodes_listener_thread.c\<close>. The sockets are the environment: what \<^verbatim>\<open>select\<close> reports in each
  round and what \<^verbatim>\<open>recvfrom\<close> returns are data. The
  parser of a packet works on the memory cells of the string buffer the packet was copied to, so
  that reading behind its end shows.
\<close>

section \<open>Parsing a packet\<close>

text \<open>
  The characters up to the next colon or the terminator, and the memory behind that character:
  after the last field, that is the memory behind the string.
\<close>

fun get_next_field :: "cells \<Rightarrow> (string \<times> cells) res" where
  "get_next_field [] = Inl OutOfBounds"
| "get_next_field (None # m) = Inl Uninitialised"
| "get_next_field (Some c # m) =
     (if c = CHR '':'' \<or> c = NUL then Inr ([], m)
      else bind_res (get_next_field m) (\<lambda>(s, rest). Inr (c # s, rest)))"

record advert_t =
  ad_port :: string
  ad_fs2protocol :: string
  ad_id :: string

text \<open>\<open>Some\<close> of the three fields when the C function returns 0, \<open>None\<close> when it returns 1.\<close>

definition parse_advert_packet :: "cells \<Rightarrow> advert_t option res" where
  "parse_advert_packet buf =
     bind_res (get_next_field buf) (\<lambda>(fs2protocol_field, buf).
     bind_res (get_next_field buf) (\<lambda>(port_or_auto_field, buf).
     if port_or_auto_field = ''autoindexnode'' then Inr None
     else bind_res (get_next_field buf) (\<lambda>(id_field, buf).
          Inr (Some \<lparr>ad_port = port_or_auto_field, ad_fs2protocol = fs2protocol_field,
                     ad_id = id_field\<rparr>))))"

section \<open>Receiving\<close>

text \<open>
  A call of \<^verbatim>\<open>recvfrom\<close>: its return code, the bytes in the buffer, the number \<^verbatim>\<open>socklen\<close> happens to hold
  before the call, which nobody sets, and the source address as the bytes of its structure. \<^verbatim>\<open>recvfrom\<close>
  writes no more of the address than \<^verbatim>\<open>socklen\<close> allows and sets \<^verbatim>\<open>socklen\<close> to the length it has.
\<close>

record recv_t =
  recv_rc :: int
  recv_buf :: "char list"
  recv_garbage :: nat
  recv_sockaddr :: "8 word list"

text \<open>
  The two ways \<^verbatim>\<open>receive_advert\<close> is called: the length of the structure, where the address is in it,
  and the length of the buffer for the host (\<^verbatim>\<open>INET_ADDRSTRLEN\<close>, \<^verbatim>\<open>INET6_ADDRSTRLEN\<close>).
\<close>

record sock_kind =
  sk_socklen_in :: nat
  sk_addr_src :: nat
  sk_host_len :: nat

definition sockaddr_in_size :: nat where "sockaddr_in_size = 16"
definition sockaddr_in6_size :: nat where "sockaddr_in6_size = 28"

definition kind_in :: sock_kind where
  "kind_in = \<lparr>sk_socklen_in = sockaddr_in_size, sk_addr_src = 4, sk_host_len = 16\<rparr>"

definition kind_in6 :: sock_kind where
  "kind_in6 = \<lparr>sk_socklen_in = sockaddr_in6_size, sk_addr_src = 8, sk_host_len = 46\<rparr>"

definition recv_address :: "sock_kind \<Rightarrow> recv_t \<Rightarrow> 8 word option list" where
  "recv_address k r = drop (sk_addr_src k) (map Some (take (recv_garbage r) (recv_sockaddr r)) @
     replicate (sk_socklen_in k - recv_garbage r) None)"

text \<open>\<^verbatim>\<open>inet_ntop\<close> for \<^verbatim>\<open>AF_INET\<close>: the first four bytes, if their text and its terminator fit.\<close>

definition inet_ntop :: "8 word option list \<Rightarrow> nat \<Rightarrow> string option res" where
  "inet_ntop src n =
     (if length src < 4 then Inl OutOfBounds
      else if None \<in> set (take 4 src) then Inl Uninitialised
      else let s = dotted (map (unat \<circ> the) (take 4 src)) in Inr (if length s < n then Some s else None))"

type_synonym 's advert_cb = "string \<Rightarrow> string \<Rightarrow> string \<Rightarrow> string \<Rightarrow> 's \<Rightarrow> 's res"

definition receive_advert :: "'s advert_cb \<Rightarrow> sock_kind \<Rightarrow> recv_t \<Rightarrow> 's \<Rightarrow> 's res" where
  "receive_advert packet_received_cb k r s =
     bind_res string_buffer_new (\<lambda>buffer.
     bind_res (c_assert (recv_rc r \<le> 1023)) (\<lambda>_.
     if recv_rc r \<ge> 0
     then bind_res (c_assert (length (recv_sockaddr r) = sk_socklen_in k)) (\<lambda>_.
          bind_res (string_buffer_append buffer
                      (HeapStr (c_str (take (nat (recv_rc r)) (recv_buf r) @ [NUL])))) (\<lambda>buffer.
          bind_res (parse_advert_packet (sb_s buffer)) (\<lambda>advert.
          case advert of
            None \<Rightarrow> Inr s
          | Some ad \<Rightarrow>
              bind_res (inet_ntop (recv_address k r) (sk_host_len k - 1)) (\<lambda>host.
              case host of
                None \<Rightarrow> Inr s
              | Some host \<Rightarrow> packet_received_cb host (ad_port ad) (ad_fs2protocol ad) (ad_id ad) s))))
     else Inr s))"

section \<open>The event loop\<close>

datatype listener_control_codes_t = listener_control_codes_NOT_USED | listener_control_codes_STOP

text \<open>One return of \<^verbatim>\<open>select\<close>: the sockets that are ready, with what is read from them.\<close>

datatype select_t =
    SelectError
  | SelectTimeout
  | SelectReady "recv_t option" "recv_t option" "listener_control_codes_t option"

text \<open>A socket that could not be opened (\<open>False\<close>) is never looked at.\<close>

definition receive_if :: "'s advert_cb \<Rightarrow> bool \<Rightarrow> sock_kind \<Rightarrow> recv_t option \<Rightarrow> 's \<Rightarrow> 's res" where
  "receive_if cb opened k r s =
     (if opened then case r of None \<Rightarrow> Inr s | Some r \<Rightarrow> receive_advert cb k r s else Inr s)"

text \<open>
  The loop on a sequence of \<^verbatim>\<open>select\<close> results: whether it has ended by then, and the state of the
  callback.
\<close>

fun listener_thread_event_loop ::
  "'s advert_cb \<Rightarrow> bool \<Rightarrow> bool \<Rightarrow> select_t list \<Rightarrow> 's \<Rightarrow> (bool \<times> 's) res" where
  "listener_thread_event_loop cb s4 s6 [] s = Inr (False, s)"
| "listener_thread_event_loop cb s4 s6 (SelectError # evs) s =
     listener_thread_event_loop cb s4 s6 evs s"
| "listener_thread_event_loop cb s4 s6 (SelectTimeout # evs) s = Inl AssertFail"
| "listener_thread_event_loop cb s4 s6 (SelectReady r4 r6 ctl # evs) s =
     bind_res (receive_if cb s4 kind_in r4 s) (\<lambda>s.
     bind_res (receive_if cb s6 kind_in6 r6 s) (\<lambda>s.
     case ctl of
       None \<Rightarrow> listener_thread_event_loop cb s4 s6 evs s
     | Some msg \<Rightarrow>
         bind_res (c_assert (msg = listener_control_codes_STOP)) (\<lambda>_. Inr (True, s))))"

section \<open>Packets\<close>

lemma get_next_field_sep:
  assumes "CHR '':'' \<notin> set f" "nul_free f" "c = CHR '':'' \<or> c = NUL"
  shows "get_next_field (map Some (f @ c # m)) = Inr (f, map Some m)"
  using assms by (induction f) auto

lemma get_next_field_end:
  "CHR '':'' \<notin> set f \<Longrightarrow> nul_free f \<Longrightarrow> get_next_field (map Some (c_block f)) = Inr (f, [])"
  using get_next_field_sep [of f NUL "[]"] by (simp add: c_block_def)

text \<open>The buffer of \<^verbatim>\<open>receive_advert\<close> is exactly as long as the packet needs.\<close>

lemma new_append_cells:
  "\<exists>sb sb'. string_buffer_new = Inr sb \<and> string_buffer_append sb (HeapStr t) = Inr sb' \<and>
    sb_s sb' = map Some (c_block t)"
  by (auto simp: string_buffer_new_def string_buffer_from_chars_def string_buffer_append_def
      string_buffer_ensure_capacity_def write_cells_def c_block_def Let_def max_def)

lemma parse_three:
  assumes "CHR '':'' \<notin> set proto" "nul_free proto" "CHR '':'' \<notin> set port" "nul_free port"
    "CHR '':'' \<notin> set i" "nul_free i" "c = CHR '':'' \<or> c = NUL" "port \<noteq> ''autoindexnode''"
  shows "parse_advert_packet (map Some (proto @ '':'' @ port @ '':'' @ i @ c # rest)) =
    Inr (Some \<lparr>ad_port = port, ad_fs2protocol = proto, ad_id = i\<rparr>)"
  using assms get_next_field_sep [of proto "CHR '':''" "port @ '':'' @ i @ c # rest"]
    get_next_field_sep [of port "CHR '':''" "i @ c # rest"] get_next_field_sep [of i c rest]
  by (simp add: parse_advert_packet_def)

text \<open>A packet as \<^verbatim>\<open>recvfrom\<close> returns it, and the host that is made of its source address.\<close>

definition packet :: "string \<Rightarrow> nat \<Rightarrow> 8 word list \<Rightarrow> recv_t" where
  "packet dat garbage sa =
     \<lparr>recv_rc = int (length dat), recv_buf = dat, recv_garbage = garbage, recv_sockaddr = sa\<rparr>"

definition host_text :: "sock_kind \<Rightarrow> 8 word list \<Rightarrow> string" where
  "host_text k sa = dotted (map unat (take 4 (drop (sk_addr_src k) sa)))"

text \<open>An address that is long enough and of which enough is written.\<close>

definition address_given :: "sock_kind \<Rightarrow> nat \<Rightarrow> 8 word list \<Rightarrow> bool" where
  "address_given k garbage sa \<longleftrightarrow>
     length sa = sk_socklen_in k \<and> sk_addr_src k + 4 \<le> garbage \<and> sk_addr_src k + 4 \<le> length sa"

definition field :: "string \<Rightarrow> bool" where
  "field f \<longleftrightarrow> CHR '':'' \<notin> set f \<and> nul_free f"

lemma inet_ntop_given:
  assumes "address_given k garbage sa"
  shows "inet_ntop (recv_address k (packet dat garbage sa)) n =
    Inr (if length (host_text k sa) < n then Some (host_text k sa) else None)"
proof -
  note a = assms [unfolded address_given_def]
  then have le: "4 \<le> garbage - sk_addr_src k" "4 \<le> length sa - sk_addr_src k" by linarith+
  let ?src = "recv_address k (packet dat garbage sa)" and ?a = "take 4 (drop (sk_addr_src k) sa)"
  have "take 4 ?src = take 4 (drop (sk_addr_src k) (map Some (take garbage sa)))"
    using a le by (simp add: recv_address_def packet_def)
  also have "\<dots> = map Some ?a"
    using le by (simp add: drop_map take_map drop_take)
  finally have four: "take 4 ?src = map Some ?a" .
  have "length ?src = sk_socklen_in k - sk_addr_src k"
    using assms by (simp add: recv_address_def packet_def address_given_def)
  then have "\<not> length ?src < 4" using le a by simp
  then show ?thesis unfolding inet_ntop_def four by (auto simp: host_text_def comp_def)
qed

lemma receive_parses:
  assumes "nul_free dat" "length dat \<le> 1023" "length sa = sk_socklen_in k"
  shows "receive_advert cb k (packet dat garbage sa) s =
    bind_res (parse_advert_packet (map Some (c_block dat))) (\<lambda>advert.
      case advert of
        None \<Rightarrow> Inr s
      | Some ad \<Rightarrow>
          bind_res (inet_ntop (recv_address k (packet dat garbage sa)) (sk_host_len k - 1)) (\<lambda>host.
          case host of None \<Rightarrow> Inr s | Some h \<Rightarrow> cb h (ad_port ad) (ad_fs2protocol ad) (ad_id ad) s))"
proof -
  obtain sb sb' where sb: "string_buffer_new = Inr sb" "string_buffer_append sb (HeapStr dat) = Inr sb'"
    "sb_s sb' = map Some (c_block dat)" using new_append_cells by blast
  have "c_str (dat @ [NUL]) = dat" using assms(1) by simp
  then have "c_str (take (nat (recv_rc (packet dat garbage sa))) (recv_buf (packet dat garbage sa)) @ [NUL]) = dat"
    "recv_rc (packet dat garbage sa) \<le> 1023" "0 \<le> recv_rc (packet dat garbage sa)"
    "length (recv_sockaddr (packet dat garbage sa)) = sk_socklen_in k"
    using assms(2,3) by (simp_all add: packet_def)
  then show ?thesis
    unfolding receive_advert_def sb(1) by (simp add: sb(2,3) cong: option.case_cong)
qed

lemma receive_three:
  assumes "field proto" "field port" "field i" "port \<noteq> ''autoindexnode''"
    and "tail = [] \<or> (hd tail = CHR '':'' \<and> nul_free tail)"
    and "length (proto @ '':'' @ port @ '':'' @ i @ tail) \<le> 1023" "address_given k garbage sa"
  shows "receive_advert cb k (packet (proto @ '':'' @ port @ '':'' @ i @ tail) garbage sa) s =
    (if length (host_text k sa) + 1 < sk_host_len k then cb (host_text k sa) port proto i s else Inr s)"
proof -
  let ?dat = "proto @ '':'' @ port @ '':'' @ i @ tail"
  obtain c rest where c: "tail @ [NUL] = c # rest" "c = CHR '':'' \<or> c = NUL"
    using assms(5) by (cases tail) auto
  then have "c_block ?dat = proto @ '':'' @ port @ '':'' @ i @ c # rest" by (simp add: c_block_def)
  then have "parse_advert_packet (map Some (c_block ?dat)) =
      Inr (Some \<lparr>ad_port = port, ad_fs2protocol = proto, ad_id = i\<rparr>)"
    using parse_three [of proto port i c rest] assms(1-4) c(2) by (simp add: field_def)
  moreover have "nul_free ?dat" using assms(1-3,5) by (auto simp: field_def)
  moreover have "length sa = sk_socklen_in k" using assms(7) by (simp add: address_given_def)
  ultimately show ?thesis
    using receive_parses [OF _ assms(6), of sa k cb garbage s] inet_ntop_given [OF assms(7)] by auto
qed

text \<open>Only an IPv4 address can have a text that is too long, and only one of fifteen characters.\<close>

lemma length_dec: "n < 10 ^ m \<Longrightarrow> 0 < m \<Longrightarrow> length (dec n) \<le> m"
proof (induction n arbitrary: m rule: dec.induct)
  case (1 n)
  show ?case
  proof (cases "n < 10")
    case True
    then show ?thesis using "1.prems"(2) by (simp add: dec.simps [of n])
  next
    case False
    obtain k where k: "m = Suc k" using "1.prems"(2) by (cases m) auto
    then have "k \<noteq> 0" using False "1.prems"(1) by (cases k) auto
    moreover have "n div 10 < 10 ^ k" using "1.prems"(1) k by (simp add: less_mult_imp_div_less)
    ultimately have "length (dec (n div 10)) \<le> k" using "1.IH" [OF False] by blast
    then show ?thesis using False k by (simp add: dec.simps [of n])
  qed
qed

lemma four_elements: "length xs = 4 \<Longrightarrow> \<exists>a b c d. xs = [a, b, c, d]"
  by (auto simp: length_Suc_conv numeral_eq_Suc)

lemma length_host_text: "address_given k garbage sa \<Longrightarrow> length (host_text k sa) \<le> 15"
proof -
  assume a: "address_given k garbage sa"
  then have "4 \<le> length sa - sk_addr_src k" unfolding address_given_def by linarith
  then have "length (take 4 (drop (sk_addr_src k) sa)) = 4" by simp
  then obtain b1 b2 b3 b4 where b: "take 4 (drop (sk_addr_src k) sa) = [b1, b2, b3, b4]"
    using four_elements by blast
  have "length (dec (unat b)) \<le> 3" for b :: "8 word"
    using unsigned_less [of b, where ?'a = nat] by (intro length_dec) simp_all
  from this [of b1] this [of b2] this [of b3] this [of b4] show ?thesis
    unfolding host_text_def b by simp
qed

section \<open>Properties\<close>

text \<open>C0. Advert packets (indexnodes\_listener\_thread.c, \<^verbatim>\<open>receive_advert\<close>): of a packet of at most 1023
  bytes that consists of protocol, port and id separated by colons, possibly followed by more fields,
  and whose sender's address is written out, exactly these fields are passed to the
  callback, with the first four bytes of the sender's address as its IPv4 host, whatever the address is:
  on the IPv6 socket that is always the wrong host, and on the IPv4 socket, where the length
  given to \<^verbatim>\<open>inet_ntop\<close> is one too small, a packet whose host has fifteen characters is thrown away. A
  client that merely offers to become an indexnode (\<^verbatim>\<open>autoindexnode\<close>) is ignored; and when \<^verbatim>\<open>socklen\<close>,
  which is never set, happens to be too small for the address, uninitialised bytes are read.\<close>
theorem receive_advert_fields:
  assumes "field proto" "field port" "field i"
    and "tail = [] \<or> (hd tail = CHR '':'' \<and> nul_free tail)"
    and "length (proto @ '':'' @ port @ '':'' @ i @ tail) \<le> 1023"
    and "k = kind_in \<or> k = kind_in6" "length sa = sk_socklen_in k"
  shows "receive_advert cb k (packet (proto @ '':'' @ port @ '':'' @ i @ tail) garbage sa) s =
    (if port = ''autoindexnode'' then Inr s
     else if garbage < sk_addr_src k + 4 then Inl Uninitialised
     else if k = kind_in \<and> 15 \<le> length (dotted (map unat (take 4 (drop 4 sa)))) then Inr s
     else cb (dotted (map unat (take 4 (drop (sk_addr_src k) sa)))) port proto i s)"
proof -
  let ?dat = "proto @ '':'' @ port @ '':'' @ i @ tail"
  have nf: "nul_free ?dat" using assms(1-4) by (auto simp: field_def)
  note parses = receive_parses [OF nf assms(5,7), of cb garbage s]
  have fit: "sk_addr_src k + 4 \<le> length sa"
    using assms(6,7) by (auto simp: kind_in_def kind_in6_def sockaddr_in_size_def sockaddr_in6_size_def)
  consider (auto) "port = ''autoindexnode''" | (garbage) "port \<noteq> ''autoindexnode''" "garbage < sk_addr_src k + 4"
    | (given) "port \<noteq> ''autoindexnode''" "address_given k garbage sa"
    using fit assms(7) unfolding address_given_def by linarith
  then show ?thesis
  proof cases
    case auto
    have "parse_advert_packet (map Some (c_block ?dat)) = Inr None"
      using assms get_next_field_sep [of proto "CHR '':''" "port @ '':'' @ i @ tail @ [NUL]"]
        get_next_field_sep [of port "CHR '':''" "i @ tail @ [NUL]"] auto
      by (simp add: parse_advert_packet_def c_block_def field_def)
    then show ?thesis using parses auto by simp
  next
    case garbage
    obtain c rest where c: "tail @ [NUL] = c # rest" "c = CHR '':'' \<or> c = NUL"
      using assms(4) by (cases tail) auto
    then have "c_block ?dat = proto @ '':'' @ port @ '':'' @ i @ c # rest" by (simp add: c_block_def)
    then have ad: "parse_advert_packet (map Some (c_block ?dat)) =
        Inr (Some \<lparr>ad_port = port, ad_fs2protocol = proto, ad_id = i\<rparr>)"
      using parse_three [of proto port i c rest] assms(1-3) garbage(1) c(2) by (simp add: field_def)
    let ?src = "recv_address k (packet ?dat garbage sa)"
    have "length ?src = sk_socklen_in k - sk_addr_src k"
      using fit garbage(2) assms(7) by (simp add: recv_address_def packet_def)
    then have len: "\<not> length ?src < 4" using fit assms(7) by simp
    then have "?src ! 3 \<in> set (take 4 ?src)" using nth_mem [of 3 "take 4 ?src"] by simp
    moreover have "?src ! 3 = None"
    proof -
      let ?all = "map Some (take garbage sa) @ replicate (sk_socklen_in k - garbage) None"
      have "?src ! 3 = ?all ! (sk_addr_src k + 3)"
        unfolding recv_address_def packet_def recv_t.simps using fit assms(7) by (intro nth_drop) simp
      also have "\<dots> = None" using garbage(2) fit assms(7) by (simp add: nth_append)
      finally show ?thesis .
    qed
    ultimately have "inet_ntop ?src n = Inl Uninitialised" for n using len by (simp add: inet_ntop_def)
    then show ?thesis using parses ad garbage by simp
  next
    case given
    have "length (host_text k sa) + 1 < sk_host_len k \<longleftrightarrow> \<not> (k = kind_in \<and> 15 \<le> length (dotted (map unat (take 4 (drop 4 sa)))))"
      using assms(6) length_host_text [OF given(2)] by (auto simp: host_text_def kind_in_def kind_in6_def)
    then show ?thesis using receive_three [OF assms(1-3) given(1) assms(4,5) given(2), of cb s] given
      by (auto simp: host_text_def address_given_def)
  qed
qed

definition example_sa :: "8 word list \<Rightarrow> 8 word list" where
  "example_sa host = [2, 0, 24, 199] @ host @ replicate 8 0"

theorem receive_advert_fields_witness:
  "receive_advert (\<lambda>h p v i s. Inr ((h, p, v, i) # s)) kind_in
     (packet (''fs2protocol-0.13'' @ '':'' @ ''6343'' @ '':'' @ ''u1'' @ '':x'') 16 (example_sa [10, 0, 0, 1])) [] =
   Inr [(''10.0.0.1'', ''6343'', ''fs2protocol-0.13'', ''u1'')] \<and>
   receive_advert (\<lambda>h p v i s. Inr ((h, p, v, i) # s)) kind_in
     (packet (''fs2protocol-0.13'' @ '':'' @ ''6343'' @ '':'' @ ''u1'' @ '':x'') 16 (example_sa [192, 168, 100, 100])) [] = Inr []"
proof -
  have "dotted (map unat (take 4 (drop 4 (example_sa [10, 0, 0, 1])))) = ''10.0.0.1''"
    "dotted (map unat (take 4 (drop 4 (example_sa [192, 168, 100, 100])))) = ''192.168.100.100''" by code_simp+
  then have t: "dotted (map unat (take 4 (drop (sk_addr_src kind_in) (example_sa [10, 0, 0, 1])))) = ''10.0.0.1''"
    "15 \<le> length (dotted (map unat (take 4 (drop 4 (example_sa [192, 168, 100, 100])))))"
    "\<not> 15 \<le> length (dotted (map unat (take 4 (drop 4 (example_sa [10, 0, 0, 1])))))"
    by (simp_all add: kind_in_def)
  have l: "length (example_sa [10, 0, 0, 1]) = sk_socklen_in kind_in"
    "length (example_sa [192, 168, 100, 100]) = sk_socklen_in kind_in" "\<not> 16 < sk_addr_src kind_in + 4"
    by (simp_all add: example_sa_def kind_in_def sockaddr_in_size_def)
  have f: "field ''fs2protocol-0.13''" "field ''6343''" "field ''u1''" "hd '':x'' = CHR '':'' \<and> nul_free '':x''"
    by (simp_all add: field_def)
  show ?thesis
    using receive_advert_fields [OF f(1-3) disjI2 [OF f(4)] _ disjI1 [OF refl] l(1),
        of "\<lambda>h p v i s. Inr ((h, p, v, i) # s)" 16 "[]"]
      receive_advert_fields [OF f(1-3) disjI2 [OF f(4)] _ disjI1 [OF refl] l(2),
        of "\<lambda>h p v i s. Inr ((h, p, v, i) # s)" 16 "[]"] t l(3) by simp
qed

text \<open>Short packets (indexnodes\_listener\_thread.c): \<^verbatim>\<open>get_next_field\<close> steps over the terminator of
  the last field, so that a packet with fewer than three fields, from anyone on the network,
  makes the thread read behind the end of its buffer.\<close>
theorem receive_advert_overread:
  assumes "field proto" "field port" "port \<noteq> ''autoindexnode''"
    and "dat = proto \<or> dat = proto @ '':'' @ port" "length dat \<le> 1023" "length sa = sk_socklen_in k"
  shows "receive_advert cb k (packet dat garbage sa) s = Inl OutOfBounds"
proof -
  have "parse_advert_packet (map Some (c_block dat)) = Inl OutOfBounds"
    using assms get_next_field_end [of proto] get_next_field_end [of port]
      get_next_field_sep [of proto "CHR '':''" "port @ [NUL]"]
    by (auto simp: parse_advert_packet_def field_def c_block_def)
  moreover have "nul_free dat" using assms by (auto simp: field_def)
  ultimately show ?thesis using receive_parses [OF _ assms(5,6)] by simp
qed

theorem receive_advert_overread_witness:
  "receive_advert (\<lambda>h p v i (s :: nat). Inr s) kind_in (packet ''hello'' 16 (example_sa [10, 0, 0, 1])) 0 = Inl OutOfBounds"
  by (rule receive_advert_overread [of "''hello''" "''''"])
    (simp_all add: field_def example_sa_def kind_in_def sockaddr_in_size_def)

text \<open>
  What a round of the loop should deliver, when its packets are well formed and their addresses given
  and short enough.
\<close>

record advert_packet =
  ap_sockaddr :: "8 word list"
  ap_garbage :: nat
  ap_port :: string
  ap_protocol :: string
  ap_id :: string

abbreviation ap_host :: "sock_kind \<Rightarrow> advert_packet \<Rightarrow> string" where
  "ap_host k p \<equiv> host_text k (ap_sockaddr p)"

definition advert_ok :: "sock_kind \<times> advert_packet \<Rightarrow> bool" where
  "advert_ok = (\<lambda>(k, p). field (ap_protocol p) \<and> field (ap_port p) \<and> field (ap_id p) \<and>
     ap_port p \<noteq> ''autoindexnode'' \<and>
     length (ap_protocol p) + length (ap_port p) + length (ap_id p) \<le> 1021 \<and>
     address_given k (ap_garbage p) (ap_sockaddr p) \<and> length (ap_host k p) + 1 < sk_host_len k)"

definition advert_recv :: "advert_packet \<Rightarrow> recv_t" where
  "advert_recv p =
     packet (ap_protocol p @ '':'' @ ap_port p @ '':'' @ ap_id p @ []) (ap_garbage p) (ap_sockaddr p)"

definition advert_call :: "'s advert_cb \<Rightarrow> sock_kind \<times> advert_packet \<Rightarrow> 's \<Rightarrow> 's res" where
  "advert_call cb = (\<lambda>(k, p) s. cb (ap_host k p) (ap_port p) (ap_protocol p) (ap_id p) s)"

text \<open>A round: at most one packet on each socket; only open sockets are looked at.\<close>

definition round_event ::
  "listener_control_codes_t option \<Rightarrow> advert_packet option \<times> advert_packet option \<Rightarrow> select_t" where
  "round_event ctl = (\<lambda>(p4, p6). SelectReady (map_option advert_recv p4) (map_option advert_recv p6) ctl)"

definition round_adverts ::
  "bool \<Rightarrow> bool \<Rightarrow> advert_packet option \<times> advert_packet option \<Rightarrow> (sock_kind \<times> advert_packet) list" where
  "round_adverts s4 s6 = (\<lambda>(p4, p6).
     (case p4 of Some p \<Rightarrow> if s4 then [(kind_in, p)] else [] | None \<Rightarrow> []) @
     (case p6 of Some p \<Rightarrow> if s6 then [(kind_in6, p)] else [] | None \<Rightarrow> []))"

lemma receive_advert_ok:
  "advert_ok (k, p) \<Longrightarrow> receive_advert cb k (advert_recv p) s = advert_call cb (k, p) s"
  unfolding advert_recv_def advert_call_def
  by (subst receive_three) (simp_all add: advert_ok_def)

lemma round_delivers:
  assumes "\<forall>p \<in> set (round_adverts s4 s6 r). advert_ok p"
  shows "listener_thread_event_loop cb s4 s6 (round_event ctl r # evs) s =
    bind_res (fold_res (advert_call cb) (round_adverts s4 s6 r) s) (\<lambda>s.
      case ctl of
        None \<Rightarrow> listener_thread_event_loop cb s4 s6 evs s
      | Some msg \<Rightarrow> bind_res (c_assert (msg = listener_control_codes_STOP)) (\<lambda>_. Inr (True, s)))"
proof (cases r)
  case (Pair p4 p6)
  then show ?thesis
    using assms
    by (cases p4; cases p6)
      (auto simp: round_event_def round_adverts_def receive_if_def receive_advert_ok bind_res_def
        split: sum.splits if_splits)
qed

text \<open>The returns of \<^verbatim>\<open>select\<close> before the end: errors (\<open>None\<close>) and rounds, in any order.\<close>

definition loop_event :: "(advert_packet option \<times> advert_packet option) option \<Rightarrow> select_t" where
  "loop_event x = (case x of None \<Rightarrow> SelectError | Some r \<Rightarrow> round_event None r)"

definition loop_adverts ::
  "bool \<Rightarrow> bool \<Rightarrow> (advert_packet option \<times> advert_packet option) option \<Rightarrow> (sock_kind \<times> advert_packet) list" where
  "loop_adverts s4 s6 x = (case x of None \<Rightarrow> [] | Some r \<Rightarrow> round_adverts s4 s6 r)"

text \<open>The listener's loop (indexnodes\_listener\_thread.c): while well-formed adverts arrive on
  either socket, with errors of \<^verbatim>\<open>select\<close> in between, each is passed to the callback once, in the
  order of arrival, the IPv4 packet of a round before the IPv6 packet; and when the control pipe
  becomes readable with the message \<^verbatim>\<open>indexnodes_listener_delete\<close> writes, the loop ends after
  delivering that round's packets.\<close>
lemma listener_loop_delivers:
  assumes "\<forall>x \<in> set (xs @ [Some r]). \<forall>p \<in> set (loop_adverts s4 s6 x). advert_ok p"
  shows "listener_thread_event_loop cb s4 s6
      (map loop_event xs @ round_event (Some listener_control_codes_STOP) r # evs) s =
    bind_res (fold_res (advert_call cb) (concat (map (loop_adverts s4 s6) (xs @ [Some r]))) s) (\<lambda>s. Inr (True, s))"
  using assms
proof (induction xs arbitrary: s)
  case Nil
  then show ?case
    using round_delivers [of s4 s6 r cb "Some listener_control_codes_STOP" evs s] by (simp add: loop_adverts_def)
next
  case (Cons x xs)
  show ?case
  proof (cases x)
    case None
    then show ?thesis using Cons by (simp add: loop_event_def loop_adverts_def)
  next
    case (Some q)
    have "\<forall>p \<in> set (loop_adverts s4 s6 x). advert_ok p" using Cons.prems by auto
    then have "\<forall>p \<in> set (round_adverts s4 s6 q). advert_ok p" unfolding Some loop_adverts_def option.case .
    note q = round_delivers [OF this]
    show ?thesis
      using Cons Some by (cases "fold_res (advert_call cb) (round_adverts s4 s6 q) s")
        (simp_all add: q fold_res_append loop_event_def, simp_all add: loop_adverts_def fold_res_append)
  qed
qed

end
