(* ===== verification/Trace.thy ===== *)
theory Trace
  imports Utils String_Buffer
begin

text \<open>
  The debug output (\<^verbatim>\<open>src/src/trace.c\<close> and the macros of \<^verbatim>\<open>trace.h\<close> in a debug build) and the messages
  of the program. Every area of the program has a switch; the lines of the active areas go to the
  active emitter, behind as many blanks as the nesting is deep and the number of the thread. A format
  with its arguments is the text it produces; \<^verbatim>\<open>fopen\<close> enters with its result. The state is what the
  functions share: the depth, the switches, the streams and the thread indices. The code under the
  mutex is one step.
\<close>

unbundle bit_operations_syntax

section \<open>trace.c\<close>

definition emitter_flag_NO_PREFIX :: "32 word" where "emitter_flag_NO_PREFIX = 1"

record trace_t =
  trace_dent :: "32 word"
  trace_active :: "string \<Rightarrow> bool"
  tr_stdout :: string
  tr_stderr :: string
  log_file :: "string option"
  tr_indices :: thread_indices

definition TAB_MAX :: nat where "TAB_MAX = 1024"

text \<open>The loop of \<^verbatim>\<open>trace_get_tabs\<close> with \<open>n\<close> rounds to go: \<^verbatim>\<open>sprintf\<close> writes the blank and a terminator.\<close>

fun tabs_loop :: "nat \<Rightarrow> nat \<Rightarrow> cells \<Rightarrow> cells res" where
  "tabs_loop 0 c tabs = Inr tabs"
| "tabs_loop (Suc n) c tabs = bind_res (write_cells tabs c (c_block '' '')) (tabs_loop n (c + 1))"

definition trace_get_tabs :: "trace_t \<Rightarrow> (cells \<times> trace_t) res" where
  "trace_get_tabs st =
     (let st = st\<lparr>trace_dent := min (trace_dent st) (of_nat TAB_MAX)\<rparr> in
      bind_res (write_cells (replicate TAB_MAX None) 0 [NUL]) (\<lambda>tabs.
      bind_res (tabs_loop (unat (trace_dent st)) 0 tabs) (\<lambda>tabs. Inr (tabs, st))))"

text \<open>The prefix of a line, which both emitters print.\<close>

definition line_prefix :: "nat \<Rightarrow> 32 word \<Rightarrow> trace_t \<Rightarrow> (string \<times> trace_t) res" where
  "line_prefix self flags st =
     bind_res (trace_get_tabs st) (\<lambda>(tabs, st).
     if flags AND emitter_flag_NO_PREFIX = 0
     then let (i, indices) = fsfuse_get_thread_index self (tr_indices st) in
       bind_res (read_cstr tabs) (\<lambda>tabs.
       Inr (tabs @ ''['' @ dec (unat i) @ ''] '', st\<lparr>tr_indices := indices\<rparr>))
     else Inr ('''', st))"

definition emitter_printf_init :: "bool \<Rightarrow> trace_t \<Rightarrow> int \<times> trace_t" where
  "emitter_printf_init fopen_ok st = (0, st)"

definition emitter_printf_finalise :: "trace_t \<Rightarrow> trace_t res" where
  "emitter_printf_finalise st = Inr st"

definition emitter_printf_emitter :: "nat \<Rightarrow> 32 word \<Rightarrow> string \<Rightarrow> string \<Rightarrow> trace_t \<Rightarrow> trace_t res" where
  "emitter_printf_emitter self flags area text st =
     bind_res (line_prefix self flags st) (\<lambda>(line, st).
     Inr (st\<lparr>tr_stdout := tr_stdout st @ line @ text\<rparr>))"

definition emitter_logfile_init :: "bool \<Rightarrow> trace_t \<Rightarrow> int \<times> trace_t" where
  "emitter_logfile_init fopen_ok st =
     (let st = st\<lparr>log_file := if fopen_ok then Some '''' else None\<rparr> in
      (if log_file st = None then 1 else 0, st))"

definition emitter_logfile_finalise :: "trace_t \<Rightarrow> trace_t res" where
  "emitter_logfile_finalise st =
     (case log_file st of None \<Rightarrow> Inl NullDeref | Some log \<Rightarrow> Inr (st\<lparr>log_file := None\<rparr>))"

definition emitter_logfile_emitter :: "nat \<Rightarrow> 32 word \<Rightarrow> string \<Rightarrow> string \<Rightarrow> trace_t \<Rightarrow> trace_t res" where
  "emitter_logfile_emitter self flags area text st =
     bind_res (line_prefix self flags st) (\<lambda>(line, st).
     case log_file st of
       None \<Rightarrow> Inl NullDeref
     | Some log \<Rightarrow> Inr (st\<lparr>log_file := Some (log @ line @ text)\<rparr>))"

text \<open>An emitter is a table of three functions; the log file is the active one.\<close>

record emitter_t =
  emitter_init :: "bool \<Rightarrow> trace_t \<Rightarrow> int \<times> trace_t"
  emitter_finalise :: "trace_t \<Rightarrow> trace_t res"
  emitter :: "nat \<Rightarrow> 32 word \<Rightarrow> string \<Rightarrow> string \<Rightarrow> trace_t \<Rightarrow> trace_t res"

definition emitter_printf :: emitter_t where
  "emitter_printf = \<lparr>emitter_init = emitter_printf_init, emitter_finalise = emitter_printf_finalise,
     emitter = emitter_printf_emitter\<rparr>"

definition emitter_logfile :: emitter_t where
  "emitter_logfile = \<lparr>emitter_init = emitter_logfile_init, emitter_finalise = emitter_logfile_finalise,
     emitter = emitter_logfile_emitter\<rparr>"

definition active_emitter :: emitter_t where "active_emitter = emitter_logfile"

definition trace_init :: "bool \<Rightarrow> trace_t \<Rightarrow> int \<times> trace_t" where
  "trace_init fopen_ok st = emitter_init active_emitter fopen_ok st"

definition trace_finalise :: "trace_t \<Rightarrow> trace_t res" where
  "trace_finalise st = emitter_finalise active_emitter st"

text \<open>The messages; \<^verbatim>\<open>trace_error\<close> also ends the process and gives its exit code.\<close>

definition trace_print :: "string \<Rightarrow> string \<Rightarrow> trace_t \<Rightarrow> trace_t" where
  "trace_print pre text st = st\<lparr>tr_stderr := tr_stderr st @ pre @ '' | '' @ text\<rparr>"

definition trace_error :: "string \<Rightarrow> trace_t \<Rightarrow> int \<times> trace_t" where
  "trace_error text st = (1, trace_print ''ERROR'' text st)"

definition trace_warn :: "string \<Rightarrow> trace_t \<Rightarrow> trace_t" where
  "trace_warn text st = trace_print ''WARN'' text st"

definition trace_info :: "string \<Rightarrow> trace_t \<Rightarrow> trace_t" where
  "trace_info text st = trace_print ''INFO'' text st"

section \<open>The functions of an area (trace.h, \<open>TRACE_DEFINE\<close>)\<close>

definition real_trace :: "nat \<Rightarrow> string \<Rightarrow> string \<Rightarrow> trace_t \<Rightarrow> trace_t res" where
  "real_trace self area text st =
     (if trace_active st area then emitter active_emitter self 0 area text st else Inr st)"

definition real_trace_np :: "nat \<Rightarrow> string \<Rightarrow> string \<Rightarrow> trace_t \<Rightarrow> trace_t res" where
  "real_trace_np self area text st =
     (if trace_active st area then emitter active_emitter self emitter_flag_NO_PREFIX area text st else Inr st)"

definition trace_on :: "string \<Rightarrow> trace_t \<Rightarrow> trace_t" where
  "trace_on area st = st\<lparr>trace_active := (trace_active st)(area := True)\<rparr>"

definition trace_off :: "string \<Rightarrow> trace_t \<Rightarrow> trace_t" where
  "trace_off area st = st\<lparr>trace_active := (trace_active st)(area := False)\<rparr>"

definition real_trace_indent :: "string \<Rightarrow> trace_t \<Rightarrow> trace_t" where
  "real_trace_indent area st =
     (if trace_active st area then st\<lparr>trace_dent := trace_dent st + 2\<rparr> else st)"

definition real_trace_dedent :: "string \<Rightarrow> trace_t \<Rightarrow> trace_t" where
  "real_trace_dedent area st =
     (if trace_active st area
      then if trace_dent st \<noteq> 0 then st\<lparr>trace_dent := trace_dent st - 2\<rparr> else st
      else st)"

section \<open>The indentation\<close>

lemma tabs_loop_blanks:
  assumes "length m = TAB_MAX" "k + n < TAB_MAX"
    "take (k + 1) m = map Some (c_block (replicate k CHR '' ''))"
  shows "\<exists>m'. tabs_loop n k m = Inr m' \<and> length m' = TAB_MAX \<and>
    take (k + n + 1) m' = map Some (c_block (replicate (k + n) CHR '' ''))"
  using assms
proof (induction n arbitrary: k m)
  case (Suc n)
  define m1 where "m1 = take k m @ map Some (c_block '' '') @ drop (k + 2) m"
  have w: "write_cells m k (c_block '' '') = Inr m1"
    using Suc.prems by (simp add: write_cells_def m1_def c_block_def)
  have t: "take k m = replicate k (Some CHR '' '')"
    using arg_cong [OF Suc.prems(3), of "take k"] by (simp add: c_block_def min_def map_replicate)
  have "length m1 = TAB_MAX" using Suc.prems by (simp add: m1_def)
  moreover have "take (k + 1 + 1) m1 = map Some (c_block (replicate (k + 1) CHR '' ''))"
    using Suc.prems(1,2) t
    by (simp add: m1_def c_block_def map_replicate replicate_append_same)
  ultimately show ?case using Suc.IH [of m1 "k + 1"] Suc.prems(2) w by simp
qed simp

lemma tabs_loop_overflow:
  assumes "length m = TAB_MAX" "k < TAB_MAX" "TAB_MAX \<le> k + n"
  shows "tabs_loop n k m = Inl OutOfBounds"
  using assms
proof (induction n arbitrary: k m)
  case (Suc n)
  then show ?case
    by (cases "k + 1 = TAB_MAX") (auto simp: write_cells_def c_block_def)
qed simp

lemma trace_get_tabs_blanks:
  assumes "unat (trace_dent st) < TAB_MAX"
  obtains tabs where "trace_get_tabs st = Inr (tabs, st)"
    "read_cstr tabs = Inr (replicate (unat (trace_dent st)) CHR '' '')"
proof -
  let ?n = "unat (trace_dent st)"
  define m where "m = Some NUL # replicate 1023 (None :: char option)"
  have "min (trace_dent st) (of_nat TAB_MAX) = trace_dent st"
    using assms by (simp add: TAB_MAX_def min_def word_le_nat_alt)
  moreover have "write_cells (replicate TAB_MAX None) 0 [NUL] = Inr m"
    by (simp add: write_cells_def TAB_MAX_def m_def)
  moreover have "length m = TAB_MAX" "take (0 + 1) m = map Some (c_block (replicate 0 CHR '' ''))"
    by (simp_all add: m_def TAB_MAX_def c_block_def)
  from tabs_loop_blanks [OF this(1) _ this(2), of ?n] assms obtain m' where
    m': "tabs_loop ?n 0 m = Inr m'" "take (?n + 1) m' = map Some (c_block (replicate ?n CHR '' ''))" by auto
  ultimately have "trace_get_tabs st = Inr (m', st)" by (simp add: trace_get_tabs_def Let_def)
  moreover have "nul_free (replicate ?n CHR '' '')" by (simp add: nul_free_def)
  then have "read_cstr m' = Inr (replicate ?n CHR '' '')"
    using read_cstr_block [of "replicate ?n CHR '' ''" "drop (?n + 1) m'"]
    by (metis append_take_drop_id m'(2))
  ultimately show thesis by (rule that)
qed

lemma trace_get_tabs_overflow:
  assumes "TAB_MAX \<le> unat (trace_dent st)"
  shows "trace_get_tabs st = Inl OutOfBounds"
proof -
  have "unat (min (trace_dent st) (of_nat TAB_MAX)) = TAB_MAX"
    using assms by (simp add: TAB_MAX_def min_def word_le_nat_alt)
  then show ?thesis
    using tabs_loop_overflow [of "Some NUL # replicate 1023 None" 0 TAB_MAX]
    by (simp add: trace_get_tabs_def Let_def write_cells_def TAB_MAX_def)
qed

lemma trace_indents:
  assumes "trace_active st area"
  shows "(real_trace_indent area ^^ n) st = st\<lparr>trace_dent := trace_dent st + 2 * of_nat n\<rparr>"
  using assms by (induction n) (simp_all add: real_trace_indent_def algebra_simps)

lemma trace_dedents:
  assumes "trace_active st area" "trace_dent st = 2 * of_nat n" "n < 2 ^ 31"
  shows "(real_trace_dedent area ^^ n) st = st\<lparr>trace_dent := 0\<rparr>"
  using assms
proof (induction n arbitrary: st)
  case (Suc n)
  have "unat (2 * of_nat (Suc n) :: 32 word) = 2 * Suc n"
    using Suc.prems(3) by (simp add: unat_word_ariths unat_of_nat take_bit_nat_eq_self)
  then have "trace_dent st \<noteq> 0" using Suc.prems(2) by auto
  moreover have "trace_dent st - 2 = 2 * of_nat n" using Suc.prems(2) by (simp add: algebra_simps)
  ultimately have step: "real_trace_dedent area st = st\<lparr>trace_dent := 2 * of_nat n\<rparr>"
    using Suc.prems(1) by (simp add: real_trace_dedent_def)
  show ?case
    using Suc.IH [of "st\<lparr>trace_dent := 2 * of_nat n\<rparr>"] Suc.prems(1,3)
    by (simp add: funpow_Suc_right step del: funpow.simps)
qed simp

text \<open>Indented traces (trace.c, trace.h): after \<open>n\<close> indentations of an active area, a traced line is
  appended to the log behind \<open>2n\<close> blanks and the number of the thread, and as many dedentations bring
  the depth back to zero; an area that is not active leaves everything as it is. From 512
  indentations on, the depth is cut to the size of the buffer for the blanks, which leaves no room
  for the terminator: the line is written behind the end of the buffer.\<close>
theorem trace_indentation:
  assumes "trace_active st area" "\<not> trace_active st quiet" "trace_dent st = 0" "log_file st = Some log" "n < 2 ^ 31"
  shows "(n < 512 \<longrightarrow> (\<exists>st'. real_trace self area text ((real_trace_indent area ^^ n) st) = Inr st' \<and>
      log_file st' = Some (log @ replicate (2 * n) CHR '' '' @
        ''['' @ dec (unat (fst (fsfuse_get_thread_index self (tr_indices st)))) @ ''] '' @ text) \<and>
      trace_dent ((real_trace_dedent area ^^ n) st') = 0)) \<and>
    (512 \<le> n \<longrightarrow> real_trace self area text ((real_trace_indent area ^^ n) st) = Inl OutOfBounds) \<and>
    real_trace self quiet text st = Inr st \<and> real_trace_indent quiet st = st \<and> real_trace_dedent quiet st = st"
proof -
  define s where "s = (real_trace_indent area ^^ n) st"
  have s: "s = st\<lparr>trace_dent := 2 * of_nat n\<rparr>"
    unfolding s_def using trace_indents [OF assms(1)] assms(3) by simp
  have dent: "unat (trace_dent s) = 2 * n"
    using assms(5) by (simp add: s unat_word_ariths unat_of_nat take_bit_nat_eq_self)
  have "\<exists>st'. real_trace self area text s = Inr st' \<and>
      log_file st' = Some (log @ replicate (2 * n) CHR '' '' @
        ''['' @ dec (unat (fst (fsfuse_get_thread_index self (tr_indices st)))) @ ''] '' @ text) \<and>
      trace_dent ((real_trace_dedent area ^^ n) st') = 0" if "n < 512"
  proof -
    have "unat (trace_dent s) < TAB_MAX" using dent that by (simp add: TAB_MAX_def)
    then obtain tabs where tabs: "trace_get_tabs s = Inr (tabs, s)"
        "read_cstr tabs = Inr (replicate (2 * n) CHR '' '')"
      by (rule trace_get_tabs_blanks) (simp add: dent)
    obtain i indices where i: "fsfuse_get_thread_index self (tr_indices st) = (i, indices)" by force
    define st' where "st' = s\<lparr>tr_indices := indices,
      log_file := Some (log @ (replicate (2 * n) CHR '' '' @ ''['' @ dec (unat i) @ ''] '') @ text)\<rparr>"
    have "real_trace self area text s = Inr st'"
      using tabs i assms(1,4)
      by (simp add: real_trace_def active_emitter_def emitter_logfile_def emitter_logfile_emitter_def
          line_prefix_def s st'_def)
    moreover have "(real_trace_dedent area ^^ n) st' = st'\<lparr>trace_dent := 0\<rparr>"
      using assms(1,5) by (intro trace_dedents) (simp_all add: st'_def s)
    ultimately show ?thesis by (simp add: st'_def i)
  qed
  moreover have "real_trace self area text s = Inl OutOfBounds" if "512 \<le> n"
    using trace_get_tabs_overflow [of s] dent that assms(1)
    by (simp add: TAB_MAX_def real_trace_def active_emitter_def emitter_logfile_def
        emitter_logfile_emitter_def line_prefix_def s)
  ultimately show ?thesis
    using assms(2) by (simp add: s_def real_trace_def real_trace_indent_def real_trace_dedent_def)
qed

definition example_trace :: trace_t where
  "example_trace = \<lparr>trace_dent = 0, trace_active = (\<lambda>area. area = ''read''), tr_stdout = '''', tr_stderr = '''',
     log_file = Some '''', tr_indices = utils_init\<rparr>"

theorem trace_indentation_witness:
  "(\<exists>st'. real_trace 7 ''read'' ''x'' ((real_trace_indent ''read'' ^^ 2) example_trace) = Inr st' \<and>
     log_file st' = Some ''    [1] x'') \<and>
   real_trace 7 ''read'' ''x'' ((real_trace_indent ''read'' ^^ 512) example_trace) = Inl OutOfBounds"
proof -
  have *: "trace_active example_trace ''read''" "\<not> trace_active example_trace ''fetcher''"
    "trace_dent example_trace = 0" "log_file example_trace = Some ''''"
    by (simp_all add: example_trace_def)
  have i: "fst (fsfuse_get_thread_index 7 (tr_indices example_trace)) = 1"
    by (simp add: example_trace_def fsfuse_get_thread_index_def utils_init_def)
  have "replicate (2 * 2) CHR '' '' @ ''['' @ dec (unat (1 :: 32 word)) @ ''] '' @ ''x'' = ''    [1] x''"
    by code_simp
  moreover have "(2 :: nat) < 2 ^ 31" "(512 :: nat) < 2 ^ 31" "(2 :: nat) < 512" by simp_all
  moreover note trace_indentation [OF * this(1), of 7 "''x''"] trace_indentation [OF * this(2), of 7 "''x''"]
  ultimately show ?thesis unfolding i append_Nil by (metis order_refl)
qed

end
