(* ===== verification/Listener_Thread.thy ===== *)
theory Listener_Thread
  imports Listener Trace
begin

text \<open>
  The thread around the listener's event loop: the network interfaces it prints, its two sockets
  (\<^verbatim>\<open>src/src/indexnodes/indexnodes_listener_thread.c\<close>), and its creation and deletion
  (\<^verbatim>\<open>indexnodes_listener.c\<close>). What \<^verbatim>\<open>getifaddrs\<close>, \<^verbatim>\<open>getnameinfo\<close>, \<^verbatim>\<open>socket\<close> and \<^verbatim>\<open>bind\<close> return are data;
  messages go to the streams of \<open>Trace\<close>.
\<close>

section \<open>Interfaces\<close>

definition AF_INET :: int where "AF_INET = 2"
definition AF_INET6 :: int where "AF_INET6 = 10"

abbreviation newline :: string where "newline \<equiv> [CHR 0x0A]"

text \<open>
  An interface has a null pointer for an address when it has none (\<^verbatim>\<open>getifaddrs(3)\<close>); of an address
  there is the family and what \<^verbatim>\<open>getnameinfo\<close> makes of it, when it succeeds.
\<close>

record ifaddrs_t =
  ifa_name :: string
  ifa_addr :: "(int \<times> string option) option"

fun print_interfaces :: "ifaddrs_t list \<Rightarrow> trace_t \<Rightarrow> trace_t res" where
  "print_interfaces [] st = Inr st"
| "print_interfaces (ifa # ifas) st =
     (case ifa_addr ifa of
        None \<Rightarrow> Inl NullDeref
      | Some (family, host) \<Rightarrow>
          if family = AF_INET \<or> family = AF_INET6
          then (case host of
                  None \<Rightarrow> Inl Uninitialised
                | Some host \<Rightarrow> print_interfaces ifas (trace_info (CHR 0x09 # host @ '' ('' @ ifa_name ifa @ '', '' @
                    (if family = AF_INET then ''AF_INET'' else ''AF_INET6'') @ '')'' @ newline) st))
          else print_interfaces ifas st)"

text \<open>When \<^verbatim>\<open>getifaddrs\<close> fails (\<open>None\<close>), the list is not set and is walked all the same.\<close>

definition print_network_interfaces :: "ifaddrs_t list option \<Rightarrow> trace_t \<Rightarrow> trace_t res" where
  "print_network_interfaces ifaddr st =
     (let st = trace_info (''Listening on all addresses:'' @ newline) st in
      case ifaddr of
        None \<Rightarrow> Inl Uninitialised
      | Some ifas \<Rightarrow> bind_res (print_interfaces ifas st) (\<lambda>st. Inr (trace_info newline st)))"

section \<open>Sockets\<close>

text \<open>A socket address of any host: its family and its port, which is a 16-bit number.\<close>

record sockaddr_t =
  sa_family :: int
  sa_port :: "16 word"

record sock_env =
  se_socket :: "int \<Rightarrow> int"
  se_bind :: "int \<Rightarrow> sockaddr_t \<Rightarrow> nat \<Rightarrow> int"
  se_strerror :: string

definition get_socket :: "sock_env \<Rightarrow> sockaddr_t \<Rightarrow> nat \<Rightarrow> int \<Rightarrow> trace_t \<Rightarrow> int \<times> trace_t" where
  "get_socket env sa socklen_in domain st =
     (let s = se_socket env domain in
      if s \<noteq> -1
      then let bind_rc = se_bind env s sa socklen_in in
        if bind_rc = 0 then (s, st)
        else (-1, trace_warn (''Cannot bind to indexnode listener socket: '' @ se_strerror env @ newline) st)
      else (-1, trace_warn (''Cannot create indexnode listener socket: '' @ se_strerror env @ newline) st))"

definition listening :: "string \<Rightarrow> sockaddr_t \<Rightarrow> int \<times> trace_t \<Rightarrow> int \<times> trace_t" where
  "listening kind sa = (\<lambda>(s, st).
     (s, if s \<noteq> -1
         then trace_info (''Listening for index node on '' @ kind @ '' port '' @ dec (unat (sa_port sa)) @ ''...'' @ newline) st
         else st))"

definition get_ipv4_socket :: "sock_env \<Rightarrow> int \<Rightarrow> trace_t \<Rightarrow> int \<times> trace_t" where
  "get_ipv4_socket env port st =
     (let sa = \<lparr>sa_family = AF_INET, sa_port = word_of_int port\<rparr> in
      listening ''udp4'' sa (get_socket env sa sockaddr_in_size AF_INET st))"

definition get_ipv6_socket :: "sock_env \<Rightarrow> int \<Rightarrow> trace_t \<Rightarrow> int \<times> trace_t" where
  "get_ipv6_socket env port st =
     (let sa = \<lparr>sa_family = AF_INET6, sa_port = word_of_int port\<rparr> in
      listening ''udp6'' sa (get_socket env sa sockaddr_in6_size AF_INET6 st))"

section \<open>The thread\<close>

text \<open>It opens both sockets, the IPv6 one first, and runs the loop.\<close>

definition indexnodes_listen_main ::
  "'s advert_cb \<Rightarrow> ifaddrs_t list option \<Rightarrow> sock_env \<Rightarrow> int \<Rightarrow> select_t list \<Rightarrow> trace_t \<times> 's \<Rightarrow>
   (bool \<times> trace_t \<times> 's) res" where
  "indexnodes_listen_main cb ifaddr env config_indexnode_advert_port evs = (\<lambda>(st, s).
     bind_res (print_network_interfaces ifaddr st) (\<lambda>st.
     let (s6, st) = get_ipv6_socket env config_indexnode_advert_port st;
         (s4, st) = get_ipv4_socket env config_indexnode_advert_port st in
     bind_res (listener_thread_event_loop cb (s4 \<noteq> -1) (s6 \<noteq> -1) evs s) (\<lambda>(exiting, s).
     Inr (exiting, st, s))))"

text \<open>
  The listener is the messages in its control pipe. Deleting it writes the message and waits for
  the thread: the result of the thread's run is an argument, and the deletion does not return
  (\<open>None\<close>) while the thread has not ended.
\<close>

record indexnodes_listener_t =
  control_pipe :: "listener_control_codes_t list"

definition indexnodes_listener_new :: "int \<Rightarrow> int \<Rightarrow> indexnodes_listener_t res" where
  "indexnodes_listener_new pipe_rc create_rc =
     bind_res (c_assert (pipe_rc = 0)) (\<lambda>_.
     bind_res (c_assert (create_rc = 0)) (\<lambda>_. Inr \<lparr>control_pipe = []\<rparr>))"

definition indexnodes_listener_send :: "bool \<Rightarrow> indexnodes_listener_t \<Rightarrow> indexnodes_listener_t res" where
  "indexnodes_listener_send written listener =
     bind_res (c_assert written) (\<lambda>_.
     Inr (listener\<lparr>control_pipe := control_pipe listener @ [listener_control_codes_STOP]\<rparr>))"

definition indexnodes_listener_delete ::
  "bool \<Rightarrow> (indexnodes_listener_t \<Rightarrow> (bool \<times> 'r) res) \<Rightarrow> indexnodes_listener_t \<Rightarrow> 'r res option" where
  "indexnodes_listener_delete written thread listener =
     (case bind_res (indexnodes_listener_send written listener) thread of
        Inl e \<Rightarrow> Some (Inl e)
      | Inr (exiting, r) \<Rightarrow> if exiting then Some (Inr r) else None)"

section \<open>Properties\<close>

definition has_host :: "ifaddrs_t \<Rightarrow> bool" where
  "has_host ifa \<longleftrightarrow> (\<exists>family host. ifa_addr ifa = Some (family, host) \<and>
     (family = AF_INET \<or> family = AF_INET6 \<longrightarrow> host \<noteq> None))"

lemma print_interfaces_ok: "\<forall>ifa \<in> set ifas. has_host ifa \<Longrightarrow> \<exists>st'. print_interfaces ifas st = Inr st'"
  by (induction ifas arbitrary: st) (auto simp: has_host_def)

lemma print_interfaces_fails:
  "\<forall>ifa \<in> set ifas. has_host ifa \<Longrightarrow> \<not> has_host ifa \<Longrightarrow>
   print_interfaces (ifas @ ifa # rest) st = Inl (if ifa_addr ifa = None then NullDeref else Uninitialised)"
  by (induction ifas arbitrary: st) (auto simp: has_host_def split: option.splits)

text \<open>Whether a socket can be opened and bound to the port, taken as a 16-bit number.\<close>

definition opened :: "sock_env \<Rightarrow> int \<Rightarrow> nat \<Rightarrow> int \<Rightarrow> bool" where
  "opened env domain len port \<longleftrightarrow> se_socket env domain \<noteq> -1 \<and>
     se_bind env (se_socket env domain) \<lparr>sa_family = domain, sa_port = word_of_int (port mod 65536)\<rparr> len = 0"

lemma port_16: "(word_of_int port :: 16 word) = word_of_int (port mod 65536)"
  by (simp add: word_of_int_eq_iff take_bit_eq_mod)

lemma get_sockets_opened:
  "fst (get_ipv4_socket env port st) \<noteq> -1 \<longleftrightarrow> opened env AF_INET sockaddr_in_size port"
  "fst (get_ipv6_socket env port st) \<noteq> -1 \<longleftrightarrow> opened env AF_INET6 sockaddr_in6_size port"
  by (auto simp: get_ipv4_socket_def get_ipv6_socket_def get_socket_def listening_def opened_def
      port_16 [of port] Let_def)

lemma listen_main_loop:
  assumes "\<forall>ifa \<in> set ifas. has_host ifa"
  obtains st' where "\<And>evs s. indexnodes_listen_main cb (Some ifas) env port evs (st, s) =
    bind_res (listener_thread_event_loop cb (opened env AF_INET sockaddr_in_size port)
      (opened env AF_INET6 sockaddr_in6_size port) evs s) (\<lambda>(exiting, s). Inr (exiting, st', s))"
proof -
  from print_interfaces_ok [OF assms(1)] obtain st1 where
    st1: "print_network_interfaces (Some ifas) st = Inr st1" by (fastforce simp: print_network_interfaces_def Let_def)
  obtain s6 st2 where 6: "get_ipv6_socket env port st1 = (s6, st2)" by force
  obtain s4 st3 where 4: "get_ipv4_socket env port st2 = (s4, st3)" by force
  have "s6 \<noteq> -1 \<longleftrightarrow> opened env AF_INET6 sockaddr_in6_size port" "s4 \<noteq> -1 \<longleftrightarrow> opened env AF_INET sockaddr_in_size port"
    using get_sockets_opened(2) [of env port st1] get_sockets_opened(1) [of env port st2] 4 6 by simp_all
  then show thesis
    by (intro that [of st3]) (simp add: indexnodes_listen_main_def st1 6 4)
qed


text \<open>
  One interface, sockets 3 and 4, an advert, two errors of \<^verbatim>\<open>select\<close>, an empty round, and a second advert that
  arrives with the deletion.
\<close>

definition loopback :: ifaddrs_t where
  "loopback = \<lparr>ifa_name = ''lo'', ifa_addr = Some (AF_INET, Some ''127.0.0.1'')\<rparr>"

definition tunnel_ifa :: ifaddrs_t where "tunnel_ifa = \<lparr>ifa_name = ''tun0'', ifa_addr = None\<rparr>"

definition example_socks :: sock_env where
  "example_socks = \<lparr>se_socket = (\<lambda>domain. if domain = AF_INET6 then 3 else 4), se_bind = (\<lambda>s sa len. 0),
     se_strerror = []\<rparr>"

definition example_advert :: advert_packet where
  "example_advert = \<lparr>ap_sockaddr = example_sa [10, 0, 0, 1], ap_garbage = 16, ap_port = ''80'',
     ap_protocol = ''fs2protocol-1'', ap_id = ''u''\<rparr>"

lemma example_advert_host: "ap_host kind_in example_advert = ''10.0.0.1''"
  by code_simp

lemma example_advert_ok: "advert_ok (kind_in, example_advert)"
proof -
  have "length (ap_host kind_in example_advert) = 8" unfolding example_advert_host by simp
  then show ?thesis unfolding advert_ok_def
    by (simp add: address_given_def field_def example_advert_def example_sa_def kind_in_def sockaddr_in_size_def)
qed


end
