(* ===== verification/Downloader.thy ===== *)
theory Downloader
  imports Binary_Heap Fetcher Utils
begin

text \<open>
  The download thread of an open file (\<^verbatim>\<open>src/src/downloader/downloader.c\<close>). Readers queue the
  byte ranges they want (chunks) in a heap keyed on their start; the thread fetches the file from
  the first chunk on, copies the incoming blocks into the chunks and calls each chunk's callback.

  A chunk's buffer is the list of bytes written to it so far. The calls of the chunks' callbacks
  (\<^verbatim>\<open>signal_read_thread\<close>) are logged in \<open>d_signals\<close>. The other threads are represented by the
  requests they will make: \<open>d_busy\<close> holds what is queued before each coming call of
  \<^verbatim>\<open>chunk_get_next\<close>, and \<open>d_waits\<close> the return code of each coming \<^verbatim>\<open>pthread_cond_timedwait\<close> with what
  is queued during that wait; when that list is used up, a wait times out with nothing queued.
\<close>

section \<open>State\<close>

record chunk_t =
  c_start :: int
  c_end :: int
  c_bytes_used :: nat
  c_buf :: string
  c_ctxt :: nat

type_synonym request = "int \<times> int \<times> nat"
type_synonym wait_t = "int \<times> request list"

record downloader_t =
  d_size :: int
  d_chunks :: "chunk_t binary_heap_t"
  d_offset :: int
  d_current :: "chunk_t option"
  d_seek :: bool
  d_timed_out :: bool
  d_busy :: "request list list"
  d_waits :: "wait_t list"
  d_signals :: "(nat \<times> int \<times> nat \<times> string) list"

text \<open>\<^verbatim>\<open>calloc\<close> and \<^verbatim>\<open>binary_heap_new\<close>; the size is that of the direntry.\<close>

definition downloader_new :: "int \<Rightarrow> request list list \<Rightarrow> wait_t list \<Rightarrow> downloader_t" where
  "downloader_new sz busy waits =
     \<lparr>d_size = sz, d_chunks = binary_heap_new, d_offset = 0, d_current = None, d_seek = False,
      d_timed_out = False, d_busy = busy, d_waits = waits, d_signals = []\<rparr>"

definition thread_delete :: "downloader_t \<Rightarrow> unit res" where
  "thread_delete t =
     bind_res (c_assert (d_current t = None)) (\<lambda>_. binary_heap_delete (d_chunks t))"

section \<open>Chunks\<close>

definition chunk_new :: "int \<Rightarrow> int \<Rightarrow> nat \<Rightarrow> chunk_t" where
  "chunk_new start fin ctxt =
     \<lparr>c_start = start, c_end = fin, c_bytes_used = 0, c_buf = [], c_ctxt = ctxt\<rparr>"

text \<open>The heap's key is an \<^verbatim>\<open>int\<close>: the offset is truncated to 32 bits.\<close>

definition downloader_chunk_add :: "request \<Rightarrow> downloader_t \<Rightarrow> downloader_t res" where
  "downloader_chunk_add = (\<lambda>(start, fin, ctxt) thread.
     bind_res (c_assert (start \<le> fin)) (\<lambda>_.
     bind_res (c_assert (start \<le> d_size thread)) (\<lambda>_.
     bind_res (c_assert (fin \<le> d_size thread)) (\<lambda>_.
     let c = chunk_new start fin ctxt in
     bind_res (binary_heap_add (d_chunks thread) (to_int (c_start c)) c) (\<lambda>heap.
     Inr (thread\<lparr>d_chunks := heap\<rparr>))))))"

text \<open>What \<^verbatim>\<open>chunk_get_next\<close> does once its loop has ended.\<close>

definition chunk_woken ::
  "int \<Rightarrow> chunk_t option \<Rightarrow> downloader_t \<Rightarrow> (chunk_t option \<times> downloader_t) res" where
  "chunk_woken rc chunk thread =
     (if rc = ETIMEDOUT then Inr (None, thread)
      else if rc = 0 then (case chunk of None \<Rightarrow> Inl Uninitialised | Some c \<Rightarrow> Inr (Some c, thread))
      else Inl AssertFail)"

text \<open>\<^verbatim>\<open>while (!binary_heap_trypop(...) && rc == 0) rc = pthread_cond_timedwait(...)\<close>\<close>

fun chunk_wait :: "int \<Rightarrow> wait_t list \<Rightarrow> downloader_t \<Rightarrow> (chunk_t option \<times> downloader_t) res" where
  "chunk_wait rc ws thread =
     bind_res (binary_heap_trypop (d_chunks thread)) (\<lambda>(popped, heap).
     let thread = thread\<lparr>d_chunks := heap, d_waits := ws\<rparr> in
     case popped of
       Some (start, chunk) \<Rightarrow> chunk_woken rc (Some chunk) thread
     | None \<Rightarrow>
         if rc \<noteq> 0 then chunk_woken rc None thread
         else (case ws of
                 [] \<Rightarrow> chunk_woken ETIMEDOUT None thread
               | (rc', adds) # ws' \<Rightarrow>
                   bind_res (fold_res downloader_chunk_add adds thread) (chunk_wait rc' ws')))"

declare chunk_wait.simps [simp del]

definition chunk_get_next :: "downloader_t \<Rightarrow> (chunk_t option \<times> downloader_t) res" where
  "chunk_get_next thread =
     bind_res
       (case d_busy thread of
          [] \<Rightarrow> Inr thread
        | adds # busy \<Rightarrow> fold_res downloader_chunk_add adds (thread\<lparr>d_busy := busy\<rparr>))
       (\<lambda>thread. chunk_wait 0 (d_waits thread) thread)"

definition signal_read_thread :: "chunk_t \<Rightarrow> int \<Rightarrow> nat \<Rightarrow> downloader_t \<Rightarrow> downloader_t" where
  "signal_read_thread chunk rc sz thread =
     thread\<lparr>d_signals := d_signals thread @ [(c_ctxt chunk, rc, sz, c_buf chunk)]\<rparr>"

section \<open>How many chunks there can still be\<close>

lemma move_up_used: "move_up heap p = Inr heap' \<Longrightarrow> used heap' = used heap"
proof (induction heap p rule: move_up.induct)
  case (1 heap p)
  from "1.prems" show ?case
    by (subst (asm) move_up.simps) (auto simp: Let_def split: if_splits dest!: "1.IH")
qed

lemma move_down_used: "move_down heap p = Inr heap' \<Longrightarrow> used heap' = used heap"
proof (induction "used heap - p" arbitrary: heap p rule: less_induct)
  case less
  show ?case
  proof (cases "p < used heap div 2")
    case False
    then show ?thesis using less.prems by (simp add: move_down.simps [of heap p])
  next
    case True
    have IH: "used heap' = used heap"
      if "move_down (heap_swap heap p q) q = Inr heap'" "p < q" for q
      using less.hyps [of "heap_swap heap p q" q] that True by simp
    from less.prems show ?thesis
      using IH [of "left_child p"] IH [of "right_child p"]
      by (simp add: move_down.simps [of heap p] Let_def split: if_splits prod.splits) auto
  qed
qed

lemma heap_add_used: "binary_heap_add heap k v = Inr heap' \<Longrightarrow> used heap' = used heap + 1"
  by (auto simp: binary_heap_add_def Let_def split: if_splits dest!: move_up_used)

lemma heap_trypop_used:
  "binary_heap_trypop heap = Inr (x, heap') \<Longrightarrow>
   used heap' = (if x = None then used heap else used heap - 1) \<and> (x \<noteq> None \<longrightarrow> 0 < used heap)"
  by (auto simp: binary_heap_trypop_def Let_def split: if_splits dest!: move_down_used)

definition chunk_supply :: "downloader_t \<Rightarrow> nat" where
  "chunk_supply thread =
     used (d_chunks thread) + length (concat (d_busy thread)) + length (concat (map snd (d_waits thread)))"

lemma chunk_add_frame:
  "downloader_chunk_add r thread = Inr thread' \<Longrightarrow>
   \<exists>heap. thread' = thread\<lparr>d_chunks := heap\<rparr> \<and> used heap = used (d_chunks thread) + 1"
  by (auto simp: downloader_chunk_add_def Let_def split: prod.splits dest!: heap_add_used)

lemma chunk_adds_frame:
  "fold_res downloader_chunk_add rs thread = Inr thread' \<Longrightarrow>
   \<exists>heap. thread' = thread\<lparr>d_chunks := heap\<rparr> \<and> used heap = used (d_chunks thread) + length rs"
proof (induction rs arbitrary: thread)
  case Nil
  then show ?case by (intro exI [of _ "d_chunks thread"]) simp
next
  case (Cons r rs)
  then obtain t where t: "downloader_chunk_add r thread = Inr t" "fold_res downloader_chunk_add rs t = Inr thread'"
    by auto
  from chunk_add_frame [OF t(1)] obtain h where
    h: "t = thread\<lparr>d_chunks := h\<rparr>" "used h = used (d_chunks thread) + 1" by blast
  from Cons.IH [OF t(2)] show ?case unfolding h by (auto simp: h(2))
qed

lemma chunk_woken_frame:
  "chunk_woken rc c thread = Inr (x, thread') \<Longrightarrow> thread' = thread \<and> (x \<noteq> None \<longrightarrow> x = c)"
  by (auto simp: chunk_woken_def split: if_splits option.splits)

lemma chunk_wait_supply:
  "chunk_wait rc ws thread = Inr (Some c, thread') \<Longrightarrow>
   chunk_supply thread' < chunk_supply (thread\<lparr>d_waits := ws\<rparr>)"
proof (induction ws arbitrary: rc thread)
  case Nil
  then show ?case
    by (simp add: chunk_wait.simps [of rc "[]"])
      (auto simp: Let_def chunk_supply_def chunk_woken_def split: option.splits if_splits
        dest!: heap_trypop_used)
next
  case (Cons w ws)
  obtain rc' adds where w: "w = (rc', adds)" by force
  from Cons.prems obtain popped heap where
    pop: "binary_heap_trypop (d_chunks thread) = Inr (popped, heap)"
    by (auto simp: chunk_wait.simps [of rc "w # ws"])
  show ?case
  proof (cases popped)
    case (Some kc)
    with Cons.prems pop heap_trypop_used [OF pop] show ?thesis
      by (auto simp: chunk_wait.simps [of rc "w # ws"] chunk_supply_def split: prod.splits
          dest!: chunk_woken_frame)
  next
    case None
    with Cons.prems pop w obtain thread1 where
      t: "fold_res downloader_chunk_add adds (thread\<lparr>d_chunks := heap, d_waits := (rc', adds) # ws\<rparr>) = Inr thread1"
      "chunk_wait rc' ws thread1 = Inr (Some c, thread')"
      by (auto simp: chunk_wait.simps [of rc "(rc', adds) # ws"] chunk_woken_def Let_def split: if_splits)
    from chunk_adds_frame [OF t(1)] obtain h where
      "thread1 = thread\<lparr>d_waits := (rc', adds) # ws, d_chunks := h\<rparr>" "used h = used heap + length adds"
      by auto
    with Cons.IH [OF t(2)] heap_trypop_used [OF pop] None w show ?thesis
      by (simp add: chunk_supply_def)
  qed
qed

lemma chunk_get_next_supply:
  assumes "chunk_get_next thread = Inr (Some c, thread')"
  shows "chunk_supply thread' < chunk_supply thread"
proof -
  from assms obtain t where
    t: "(case d_busy thread of [] \<Rightarrow> Inr thread
        | adds # busy \<Rightarrow> fold_res downloader_chunk_add adds (thread\<lparr>d_busy := busy\<rparr>)) = Inr t"
    and "chunk_wait 0 (d_waits t) t = Inr (Some c, thread')"
    by (auto simp: chunk_get_next_def)
  from chunk_wait_supply [OF this(2)] have "chunk_supply thread' < chunk_supply t"
    by (simp add: chunk_supply_def)
  also have "chunk_supply t \<le> chunk_supply thread"
  proof (cases "d_busy thread")
    case Nil
    then show ?thesis using t by simp
  next
    case (Cons adds busy)
    with t have *: "fold_res downloader_chunk_add adds (thread\<lparr>d_busy := busy\<rparr>) = Inr t" by simp
    from chunk_adds_frame [OF *] Cons show ?thesis by (auto simp: chunk_supply_def)
  qed
  finally show ?thesis .
qed

section \<open>Consuming the incoming data\<close>

text \<open>
  The loop of \<^verbatim>\<open>buf_consumer\<close>: \<open>bstart\<close> is the file offset of the first byte of \<open>dat\<close>, the part of
  the block that is not yet consumed. The result is the C return code, 1 when the block could
  not be consumed.
\<close>

function buf_loop :: "int \<Rightarrow> string \<Rightarrow> downloader_t \<Rightarrow> (int \<times> downloader_t) res" where
  "buf_loop bstart dat thread =
     (case d_current thread of
        None \<Rightarrow> Inl NullDeref
      | Some chunk \<Rightarrow>
          if c_start chunk = bstart
          then if c_end chunk < c_start chunk then Inl OutOfBounds
            else
            let copy_len = min (length dat) (nat (c_end chunk - c_start chunk));
                chunk = chunk\<lparr>c_bytes_used := c_bytes_used chunk + copy_len,
                              c_start := c_start chunk + int copy_len,
                              c_buf := c_buf chunk @ take copy_len dat\<rparr>;
                bstart = bstart + int copy_len;
                dat = drop copy_len dat in
            if dat = [] \<and> c_start chunk = c_end chunk
            then Inr (0, (signal_read_thread chunk 0 (c_bytes_used chunk) thread)
                           \<lparr>d_current := None, d_offset := bstart\<rparr>)
            else if dat = []
            then Inr (0, thread\<lparr>d_current := Some chunk, d_offset := bstart\<rparr>)
            else if c_start chunk = c_end chunk
            then (case chunk_get_next (signal_read_thread chunk 0 (c_bytes_used chunk) thread) of
                    Inl e \<Rightarrow> Inl e
                  | Inr (None, thread) \<Rightarrow>
                      Inr (1, thread\<lparr>d_current := None, d_timed_out := True\<rparr>)
                  | Inr (Some next, thread) \<Rightarrow>
                      buf_loop bstart dat (thread\<lparr>d_current := Some next\<rparr>))
            else Inl AssertFail \<comment> \<open>not reached: the block or the chunk is used up\<close>
          else Inr (1, thread\<lparr>d_seek := True\<rparr>))"
  by pat_completeness auto
termination
proof (relation "measure (\<lambda>(bstart, dat, thread). chunk_supply thread)", goal_cases)
  case 1
  then show ?case by simp
next
  case (2 bstart dat thread c copy_len chunk bstart' dat' x popped thread' nxt)
  then show ?case by (auto dest!: chunk_get_next_supply simp: chunk_supply_def signal_read_thread_def)
qed

declare buf_loop.simps [simp del]

definition buf_consumer :: "downloader_t fetcher_body_cb_t" where
  "buf_consumer dat thread =
     bind_res
       (case d_current thread of
          None \<Rightarrow> bind_res (chunk_get_next thread) (\<lambda>(chunk, thread). Inr (thread\<lparr>d_current := chunk\<rparr>))
        | Some c \<Rightarrow> Inr thread) (\<lambda>thread.
     case d_current thread of
       None \<Rightarrow> Inr (1, thread\<lparr>d_timed_out := True\<rparr>)
     | Some c \<Rightarrow> buf_loop (d_offset thread) dat thread)"

section \<open>The thread\<close>

function chunks_empty :: "int \<Rightarrow> downloader_t \<Rightarrow> downloader_t res" where
  "chunks_empty rc thread =
     (case binary_heap_trypop (d_chunks thread) of
        Inl e \<Rightarrow> Inl e
      | Inr (None, heap) \<Rightarrow> Inr (thread\<lparr>d_chunks := heap\<rparr>)
      | Inr (Some (start, c), heap) \<Rightarrow>
          chunks_empty rc (signal_read_thread c rc 0 (thread\<lparr>d_chunks := heap\<rparr>)))"
  by pat_completeness auto
termination
  by (relation "measure (\<lambda>(rc, thread). used (d_chunks thread))")
    (auto simp: signal_read_thread_def dest!: heap_trypop_used)

declare chunks_empty.simps [simp del]

text \<open>
  One round of the thread's loop fetches from the alternative that
  \<^verbatim>\<open>listing_tryget_best_alternative\<close> gives, through \<open>fetch\<close>, which is \<^verbatim>\<open>fetcher_fetch_body\<close> on a new
  fetcher with \<^verbatim>\<open>buf_consumer\<close> as its callback. An answer of \<^verbatim>\<open>listing_tryget_best_alternative\<close> is
  its return code, which the loop takes for success when it is not 0, and the location of the
  listing it chose (\<open>None\<close> for the null pointer). The loop runs over the sequence \<open>bests\<close> of
  these answers; \<open>None\<close> is the result when it has not ended by then. Its value is the thread and
  \<^verbatim>\<open>rc\<close>, which is indeterminate (\<open>None\<close>) until the first round has set it.
\<close>

type_synonym fetch_t = "string \<Rightarrow> string option \<Rightarrow> downloader_t \<Rightarrow> (int \<times> downloader_t) res"
type_synonym best_t = "int \<times> string option"

definition main_chunk :: "bool \<Rightarrow> downloader_t \<Rightarrow> downloader_t res" where
  "main_chunk first_time thread =
     bind_res (if d_seek thread
               then bind_res (c_assert (d_current thread \<noteq> None)) (\<lambda>_. Inr (thread\<lparr>d_seek := False\<rparr>))
               else Inr thread) (\<lambda>thread.
     bind_res (c_assert (first_time \<longrightarrow> d_current thread = None)) (\<lambda>_.
     case d_current thread of
       None \<Rightarrow> bind_res (chunk_get_next thread) (\<lambda>(chunk, thread). Inr (thread\<lparr>d_current := chunk\<rparr>))
     | Some c \<Rightarrow> Inr thread))"

definition range_of :: "chunk_t \<Rightarrow> string res" where
  "range_of chunk =
     bind_res string_buffer_new (\<lambda>sb.
     if c_start chunk \<noteq> 0
     then bind_res (string_buffer_printf sb (dec (nat (c_start chunk)) @ ''-'')) string_buffer_commit
     else string_buffer_commit sb)"

definition main_fetch ::
  "fetch_t \<Rightarrow> best_t \<Rightarrow> chunk_t \<Rightarrow> downloader_t \<Rightarrow> (int \<times> downloader_t) res" where
  "main_fetch fetch best chunk thread =
     bind_res (range_of chunk) (\<lambda>range_str.
     let thread = thread\<lparr>d_offset := c_start chunk\<rparr> in
     if fst best \<noteq> 0
     then (case snd best of
             None \<Rightarrow> Inl NullDeref
           | Some href \<Rightarrow> fetch href (if c_start chunk \<noteq> 0 then Some range_str else None) thread)
     else Inr (EBUSY, thread))"

fun main_loop ::
  "fetch_t \<Rightarrow> best_t list \<Rightarrow> bool \<Rightarrow> int option \<Rightarrow> downloader_t \<Rightarrow>
   (int option \<times> downloader_t) res option" where
  "main_loop fetch [] first_time rc thread = None"
| "main_loop fetch (best # bests) first_time rc thread =
     (case main_chunk first_time thread of
        Inl e \<Rightarrow> Some (Inl e)
      | Inr thread \<Rightarrow>
          (case d_current thread of
             None \<Rightarrow> Some (Inr (rc, thread))
           | Some chunk \<Rightarrow>
               (case main_fetch fetch best chunk thread of
                  Inl e \<Rightarrow> Some (Inl e)
                | Inr (rc, thread) \<Rightarrow>
                    if rc = 0 then main_loop fetch bests False (Some rc) thread
                    else Some (Inr (Some rc, thread)))))"

text \<open>The end of the thread, after the loop; the result is the log of signals.\<close>

definition main_end :: "int option \<Rightarrow> downloader_t \<Rightarrow> downloader_t res" where
  "main_end rc thread =
     bind_res
       (case rc of
          None \<Rightarrow> Inl Uninitialised
        | Some rc \<Rightarrow>
            if rc = 0
            then bind_res (c_assert (d_current thread = None)) (\<lambda>_.
                 bind_res (binary_heap_trypop (d_chunks thread)) (\<lambda>(popped, heap).
                 bind_res (c_assert (popped = None)) (\<lambda>_. Inr (thread\<lparr>d_chunks := heap\<rparr>))))
            else (case d_current thread of
                    None \<Rightarrow> Inr thread
                  | Some chunk \<Rightarrow>
                      chunks_empty rc ((signal_read_thread chunk rc 0 thread)\<lparr>d_current := None\<rparr>)))
       (\<lambda>thread. bind_res (thread_delete thread) (\<lambda>_. Inr thread))"

definition downloaderead_main ::
  "fetch_t \<Rightarrow> best_t list \<Rightarrow> downloader_t \<Rightarrow> downloader_t res option" where
  "downloaderead_main fetch bests thread =
     map_option (\<lambda>r. bind_res r (\<lambda>(rc, thread). main_end rc thread))
       (main_loop fetch bests True None thread)"

section \<open>What the readers are owed\<close>

text \<open>
  \<open>bytes\<close> is the contents of the file and \<open>req\<close> the range that each reader (by its context) asked
  for. A chunk holds the bytes from the start of its range up to its current start; a reader that
  is signalled without error has all of its range.
\<close>

definition segment :: "string \<Rightarrow> int \<Rightarrow> int \<Rightarrow> string" where
  "segment bytes i j = take (nat (j - i)) (drop (nat i) bytes)"

definition request_ok :: "string \<Rightarrow> (nat \<Rightarrow> int \<times> int) \<Rightarrow> request \<Rightarrow> bool" where
  "request_ok bytes req = (\<lambda>(s, e, ctxt).
     0 \<le> s \<and> s \<le> e \<and> e \<le> int (length bytes) \<and> req ctxt = (s, e))"

definition chunk_ok :: "string \<Rightarrow> (nat \<Rightarrow> int \<times> int) \<Rightarrow> chunk_t \<Rightarrow> bool" where
  "chunk_ok bytes req c \<longleftrightarrow>
     (let s = c_start c - int (c_bytes_used c) in
      0 \<le> s \<and> c_start c \<le> c_end c \<and> c_end c \<le> int (length bytes) \<and>
      req (c_ctxt c) = (s, c_end c) \<and> c_buf c = segment bytes s (c_start c))"

definition signal_ok :: "string \<Rightarrow> (nat \<Rightarrow> int \<times> int) \<Rightarrow> nat \<times> int \<times> nat \<times> string \<Rightarrow> bool" where
  "signal_ok bytes req = (\<lambda>(ctxt, rc, sz, buf).
     rc = 0 \<longrightarrow> buf = segment bytes (fst (req ctxt)) (snd (req ctxt)) \<and> sz = length buf)"

text \<open>A wait ends with any return code; the requests that come during it are valid ones.\<close>

definition wait_ok :: "string \<Rightarrow> (nat \<Rightarrow> int \<times> int) \<Rightarrow> wait_t \<Rightarrow> bool" where
  "wait_ok bytes req = (\<lambda>(rc, adds). \<forall>r \<in> set adds. request_ok bytes req r)"

text \<open>
  A wait fails when it returns an error other than the time-out, as \<^verbatim>\<open>pthread_cond_timedwait\<close> does
  (\<^verbatim>\<open>EINVAL\<close>) for the 1000000000 nanoseconds computed from 999999 microseconds. A wait is late when it
  times out although a chunk was queued during it, behind its deadline.
\<close>

definition waits_fail :: "downloader_t \<Rightarrow> bool" where
  "waits_fail t \<longleftrightarrow> (\<exists>w \<in> set (d_waits t). fst w \<noteq> 0 \<and> fst w \<noteq> ETIMEDOUT)"

definition late_wait :: "int \<times> 'a list \<Rightarrow> bool" where
  "late_wait = (\<lambda>(rc, adds). rc = ETIMEDOUT \<and> adds \<noteq> [])"

definition late_waits :: "downloader_t \<Rightarrow> nat" where
  "late_waits t = length (filter late_wait (d_waits t))"

definition heap_chunks :: "chunk_t binary_heap_t \<Rightarrow> chunk_t multiset" where
  "heap_chunks heap = image_mset snd (heap_contents heap)"

definition down_inv :: "string \<Rightarrow> (nat \<Rightarrow> int \<times> int) \<Rightarrow> downloader_t \<Rightarrow> bool" where
  "down_inv bytes req t \<longleftrightarrow>
     heap_inv (d_chunks t) \<and> (\<forall>c \<in># heap_chunks (d_chunks t). chunk_ok bytes req c) \<and>
     (\<forall>c. d_current t = Some c \<longrightarrow> chunk_ok bytes req c) \<and>
     (\<forall>s \<in> set (d_signals t). signal_ok bytes req s) \<and>
     (\<forall>rs \<in> set (d_busy t). \<forall>r \<in> set rs. request_ok bytes req r) \<and>
     (\<forall>w \<in> set (d_waits t). wait_ok bytes req w) \<and> d_size t = int (length bytes)"

text \<open>Everyone who has asked or will ask: queued, in hand, signalled, or still to come.\<close>

definition ctxt_of :: "chunk_t option \<Rightarrow> nat multiset" where
  "ctxt_of c = (case c of None \<Rightarrow> {#} | Some c \<Rightarrow> {#c_ctxt c#})"

definition readers :: "downloader_t \<Rightarrow> nat multiset" where
  "readers t = image_mset c_ctxt (heap_chunks (d_chunks t)) + ctxt_of (d_current t) +
     mset (map fst (d_signals t)) + mset (map (snd \<circ> snd) (concat (d_busy t))) +
     mset (map (snd \<circ> snd) (concat (map snd (d_waits t))))"

lemma chunk_new_ok: "request_ok bytes req (s, e, ctxt) \<Longrightarrow> chunk_ok bytes req (chunk_new s e ctxt)"
  by (simp add: request_ok_def chunk_ok_def chunk_new_def segment_def)

lemma chunk_new_ctxt [simp]: "c_ctxt (chunk_new s e ctxt) = ctxt"
  by (simp add: chunk_new_def)

lemma chunk_add_correct:
  assumes "heap_inv (d_chunks t)" "request_ok bytes req r" "d_size t = int (length bytes)"
  shows "\<exists>h. downloader_chunk_add r t = Inr (t\<lparr>d_chunks := h\<rparr>) \<and> heap_inv h \<and>
    heap_chunks h = add_mset (chunk_new (fst r) (fst (snd r)) (snd (snd r))) (heap_chunks (d_chunks t))"
proof -
  obtain s e ctxt where r: "r = (s, e, ctxt)" by (metis prod_cases3)
  from heap_pq.add_total [OF assms(1), of "to_int s" "chunk_new s e ctxt"] obtain h where
    "binary_heap_add (d_chunks t) (to_int s) (chunk_new s e ctxt) = Inr h" "heap_inv h"
    "heap_contents h = add_mset (to_int s, chunk_new s e ctxt) (heap_contents (d_chunks t))" by blast
  with assms(2,3) r show ?thesis
    by (intro exI [of _ h])
      (simp add: downloader_chunk_add_def request_ok_def heap_chunks_def Let_def chunk_new_def)
qed

lemma chunk_adds_correct:
  assumes "heap_inv (d_chunks t)" "\<forall>r \<in> set rs. request_ok bytes req r" "d_size t = int (length bytes)"
  shows "\<exists>h. fold_res downloader_chunk_add rs t = Inr (t\<lparr>d_chunks := h\<rparr>) \<and> heap_inv h \<and>
    heap_chunks h = mset (map (\<lambda>(s, e, ctxt). chunk_new s e ctxt) rs) + heap_chunks (d_chunks t)"
  using assms
proof (induction rs arbitrary: t)
  case Nil
  then show ?case by (intro exI [of _ "d_chunks t"]) simp
next
  case (Cons r rs)
  obtain s e ctxt where r: "r = (s, e, ctxt)" by (metis prod_cases3)
  from chunk_add_correct [where t = t and r = r and bytes = bytes and req = req] Cons.prems r obtain h where
    h: "downloader_chunk_add r t = Inr (t\<lparr>d_chunks := h\<rparr>)" "heap_inv h"
      "heap_chunks h = add_mset (chunk_new s e ctxt) (heap_chunks (d_chunks t))" by auto
  from Cons.IH [of "t\<lparr>d_chunks := h\<rparr>"] Cons.prems h r show ?case by auto
qed

text \<open>Queueing requests that were outstanding keeps the invariant and the readers.\<close>

lemma adds_inv:
  assumes "down_inv bytes req t" "\<forall>r \<in> set rs. request_ok bytes req r"
  shows "\<exists>h. fold_res downloader_chunk_add rs t = Inr (t\<lparr>d_chunks := h\<rparr>) \<and>
    down_inv bytes req (t\<lparr>d_chunks := h\<rparr>) \<and>
    readers (t\<lparr>d_chunks := h\<rparr>) = readers t + mset (map (snd \<circ> snd) rs) \<and>
    size (heap_chunks h) = size (heap_chunks (d_chunks t)) + length rs"
proof -
  from assms obtain h where
    h: "fold_res downloader_chunk_add rs t = Inr (t\<lparr>d_chunks := h\<rparr>)" "heap_inv h"
      "heap_chunks h = mset (map (\<lambda>(s, e, ctxt). chunk_new s e ctxt) rs) + heap_chunks (d_chunks t)"
    using chunk_adds_correct [where t = t and rs = rs and bytes = bytes and req = req] by (auto simp: down_inv_def)
  have "\<forall>c \<in># heap_chunks h. chunk_ok bytes req c"
    using assms by (auto simp: h(3) down_inv_def intro!: chunk_new_ok)
  then have "down_inv bytes req (t\<lparr>d_chunks := h\<rparr>)" using assms(1) h(2) by (simp add: down_inv_def)
  moreover have "image_mset c_ctxt (mset (map (\<lambda>(s, e, ctxt). chunk_new s e ctxt) rs)) =
      mset (map (snd \<circ> snd) rs)"
    by (induction rs) auto
  ultimately show ?thesis using h(1) by (intro exI [of _ h]) (simp add: readers_def h(3))
qed

lemma pop_inv:
  assumes "down_inv bytes req t"
  shows "(heap_chunks (d_chunks t) = {#} \<and> binary_heap_trypop (d_chunks t) = Inr (None, d_chunks t)) \<or>
    (\<exists>k c h. binary_heap_trypop (d_chunks t) = Inr (Some (k, c), h) \<and> down_inv bytes req (t\<lparr>d_chunks := h\<rparr>) \<and>
       chunk_ok bytes req c \<and> readers t = add_mset (c_ctxt c) (readers (t\<lparr>d_chunks := h\<rparr>)))"
proof (cases "heap_contents (d_chunks t) = {#}")
  case True
  then show ?thesis using heap_pq.trypop_empty assms by (auto simp: down_inv_def heap_chunks_def)
next
  case False
  have inv: "heap_inv (d_chunks t)" using assms by (simp add: down_inv_def)
  from heap_pq.trypop_least [OF inv False] obtain k c h where
    "binary_heap_trypop (d_chunks t) = Inr (Some (k, c), h)" "heap_inv h"
    "heap_contents (d_chunks t) = add_mset (k, c) (heap_contents h)" by blast
  then show ?thesis using assms by (auto simp: down_inv_def heap_chunks_def readers_def)
qed

section \<open>Getting the next chunk\<close>

lemma chunk_wait_popped:
  "binary_heap_trypop (d_chunks t) = Inr (Some (k, c), h) \<Longrightarrow>
   chunk_wait 0 ws t = Inr (Some c, t\<lparr>d_chunks := h, d_waits := ws\<rparr>)"
  by (simp add: chunk_wait.simps [of 0 ws] chunk_woken_def ETIMEDOUT_def)

lemma chunk_wait_empty:
  "binary_heap_trypop (d_chunks t) = Inr (None, d_chunks t) \<Longrightarrow>
   chunk_wait rc ws t =
     (if rc \<noteq> 0 then chunk_woken rc None (t\<lparr>d_waits := ws\<rparr>)
      else case ws of
        [] \<Rightarrow> Inr (None, t\<lparr>d_waits := []\<rparr>)
      | (rc', adds) # ws' \<Rightarrow>
          bind_res (fold_res downloader_chunk_add adds (t\<lparr>d_waits := ws\<rparr>)) (chunk_wait rc' ws'))"
  by (simp add: chunk_wait.simps [of rc ws] chunk_woken_def split: list.splits)

lemma waits_same: "d_waits t = w \<Longrightarrow> t\<lparr>d_waits := w\<rparr> = t"
  by auto

lemma heap_trypop_empty:
  "heap_inv h \<Longrightarrow> heap_chunks h = {#} \<Longrightarrow> binary_heap_trypop h = Inr (None, h)"
  by (simp add: heap_chunks_def heap_pq.trypop_empty)

text \<open>The field \<open>d_waits\<close> of the argument does not matter: \<open>chunk_wait\<close> works on its second argument.\<close>

lemma chunk_wait_frame: "chunk_wait rc ws (t\<lparr>d_waits := w\<rparr>) = chunk_wait rc ws t"
proof -
  show ?thesis by (simp add: chunk_wait.simps [of rc ws])
qed

text \<open>
  From \<open>t\<close> to \<open>t'\<close> with the chunk \<open>x\<close> taken, the readers \<open>l\<close> were lost, one for each late wait in between.
\<close>

definition dropped :: "downloader_t \<Rightarrow> downloader_t \<Rightarrow> chunk_t option \<Rightarrow> nat multiset \<Rightarrow> bool" where
  "dropped t t' x l \<longleftrightarrow> readers t = readers t' + ctxt_of x + l \<and> late_waits t = late_waits t' + size l \<and>
     set (d_waits t') \<subseteq> set (d_waits t)"

lemma dropped_trans: "dropped t u None l \<Longrightarrow> dropped u v x m \<Longrightarrow> dropped t v x (l + m)"
  by (auto simp: dropped_def ctxt_of_def)

lemma dropped_same: "readers t = readers t' \<Longrightarrow> d_waits t' = d_waits t \<Longrightarrow> dropped t t' None {#}"
  by (simp add: dropped_def ctxt_of_def late_waits_def)

lemma dropped_fail: "dropped t u x l \<Longrightarrow> waits_fail u \<Longrightarrow> waits_fail t"
  by (auto simp: dropped_def waits_fail_def)

text \<open>What a call of \<open>chunk_get_next\<close> leaves behind: it fails only when a wait fails.\<close>

definition wait_post ::
  "string \<Rightarrow> (nat \<Rightarrow> int \<times> int) \<Rightarrow> downloader_t \<Rightarrow> (chunk_t option \<times> downloader_t) res \<Rightarrow> bool" where
  "wait_post bytes req t r \<longleftrightarrow> (case r of
     Inl e \<Rightarrow> e = AssertFail \<and> waits_fail t
   | Inr (x, t') \<Rightarrow> (\<exists>h b w. t' = t\<lparr>d_chunks := h, d_busy := b, d_waits := w\<rparr>) \<and> down_inv bytes req t' \<and>
       (\<forall>c. x = Some c \<longrightarrow> chunk_ok bytes req c) \<and> (\<exists>l. dropped t t' x l))"

lemma wait_postI:
  assumes "t' = t\<lparr>d_chunks := h, d_busy := b, d_waits := w\<rparr>" "down_inv bytes req t'"
    and "\<forall>c. x = Some c \<longrightarrow> chunk_ok bytes req c" "dropped t t' x l"
  shows "wait_post bytes req t (Inr (x, t'))"
  using assms unfolding wait_post_def by auto

lemma wait_post_trans:
  assumes "wait_post bytes req (t\<lparr>d_chunks := h, d_busy := b, d_waits := w\<rparr>) r"
    and "dropped t (t\<lparr>d_chunks := h, d_busy := b, d_waits := w\<rparr>) None l"
  shows "wait_post bytes req t r"
proof (cases r)
  case (Inl e)
  then show ?thesis using assms(1) dropped_fail [OF assms(2)] by (simp add: wait_post_def)
next
  case (Inr xt)
  obtain x t' where xt: "xt = (x, t')" by force
  from assms(1) Inr xt dropped_trans [OF assms(2)] show ?thesis
    unfolding wait_post_def by (fastforce split: sum.splits)
qed

lemma chunk_wait_pops:
  assumes "down_inv bytes req t" "d_waits t = ws" "heap_chunks (d_chunks t) \<noteq> {#}"
  shows "wait_post bytes req t (chunk_wait 0 ws t)"
proof -
  from pop_inv [OF assms(1)] assms(3) obtain k c h where
    h: "binary_heap_trypop (d_chunks t) = Inr (Some (k, c), h)" "down_inv bytes req (t\<lparr>d_chunks := h\<rparr>)"
    "chunk_ok bytes req c" "readers t = add_mset (c_ctxt c) (readers (t\<lparr>d_chunks := h\<rparr>))" by blast
  have "dropped t (t\<lparr>d_chunks := h\<rparr>) (Some c) {#}"
    using h(4) by (simp add: dropped_def ctxt_of_def late_waits_def)
  then have "wait_post bytes req t (Inr (Some c, t\<lparr>d_chunks := h\<rparr>))"
    using h(2,3) by (intro wait_postI [where b = "d_busy t" and w = "d_waits t"]) simp_all
  then show ?thesis using h(1) assms(2) by (simp add: chunk_wait_popped waits_same)
qed

text \<open>A wait that returns \<open>rc\<close>, when \<open>t\<close> is the state behind it: a chunk that is queued is lost.\<close>

lemma chunk_wait_over:
  assumes "down_inv bytes req t" "d_waits t = ws" "rc \<noteq> 0"
  shows "if rc = ETIMEDOUT
    then \<exists>h l. chunk_wait rc ws t = Inr (None, t\<lparr>d_chunks := h\<rparr>) \<and> down_inv bytes req (t\<lparr>d_chunks := h\<rparr>) \<and>
      readers t = readers (t\<lparr>d_chunks := h\<rparr>) + l \<and> size l = (if heap_chunks (d_chunks t) = {#} then 0 else 1)
    else chunk_wait rc ws t = Inl AssertFail"
proof -
  consider (empty) "heap_chunks (d_chunks t) = {#}" "binary_heap_trypop (d_chunks t) = Inr (None, d_chunks t)"
  | (full) k c h where "heap_chunks (d_chunks t) \<noteq> {#}" "binary_heap_trypop (d_chunks t) = Inr (Some (k, c), h)"
      "down_inv bytes req (t\<lparr>d_chunks := h\<rparr>)" "readers t = add_mset (c_ctxt c) (readers (t\<lparr>d_chunks := h\<rparr>))"
    using pop_inv [OF assms(1)] by (cases "heap_chunks (d_chunks t) = {#}") (auto simp: readers_def)
  then show ?thesis
  proof cases
    case empty
    have "chunk_wait rc ws t = chunk_woken rc None t"
      using empty assms(2,3) by (simp add: chunk_wait_empty waits_same)
    then show ?thesis using assms(1,3) empty(1)
      by (auto simp: chunk_woken_def intro!: exI [of _ "d_chunks t"])
  next
    case full
    have "chunk_wait rc ws t = chunk_woken rc (Some c) (t\<lparr>d_chunks := h\<rparr>)"
      using full(2) assms(2,3) by (auto simp: chunk_wait.simps [of rc ws])
    then show ?thesis using full assms(3)
      by (auto simp: chunk_woken_def intro!: exI [of _ h] exI [of _ "{#c_ctxt c#}"])
  qed
qed

lemma chunk_wait_correct:
  assumes "down_inv bytes req t" "d_waits t = ws"
  shows "wait_post bytes req t (chunk_wait 0 ws t)"
  using assms
proof (induction ws arbitrary: t)
  case (Nil t)
  show ?case
  proof (cases "heap_chunks (d_chunks t) = {#}")
    case True
    with Nil.prems(1) have "binary_heap_trypop (d_chunks t) = Inr (None, d_chunks t)"
      by (simp add: heap_trypop_empty down_inv_def)
    then have w: "chunk_wait 0 [] t = Inr (None, t)" using Nil.prems by (simp add: chunk_wait_empty waits_same)
    show ?thesis unfolding w
      by (rule wait_postI [OF _ Nil.prems(1) _ dropped_same, where h = "d_chunks t" and b = "d_busy t" and w = "d_waits t"])
        simp_all
  qed (rule chunk_wait_pops [OF Nil.prems])
next
  case (Cons w ws t)
  obtain rc' adds where w: "w = (rc', adds)" by force
  show ?case
  proof (cases "heap_chunks (d_chunks t) = {#}")
    case empty: True
    then have pop: "binary_heap_trypop (d_chunks t) = Inr (None, d_chunks t)"
      using Cons.prems(1) by (simp add: heap_trypop_empty down_inv_def)
    have "\<forall>r \<in> set adds. request_ok bytes req r" using Cons.prems w by (auto simp: down_inv_def wait_ok_def)
    from adds_inv [OF Cons.prems(1) this] obtain h where
      h: "fold_res downloader_chunk_add adds t = Inr (t\<lparr>d_chunks := h\<rparr>)" "down_inv bytes req (t\<lparr>d_chunks := h\<rparr>)"
        "readers (t\<lparr>d_chunks := h\<rparr>) = readers t + mset (map (snd \<circ> snd) adds)" "size (heap_chunks h) = length adds"
      using empty by auto
    let ?t = "t\<lparr>d_chunks := h, d_busy := d_busy t, d_waits := ws\<rparr>"
    have t: "down_inv bytes req ?t" "d_waits ?t = ws" "readers t = readers ?t" "set ws \<subseteq> set (d_waits t)"
        "late_waits t = late_waits ?t + (if late_wait w then 1 else 0)"
      using h(2,3) w Cons.prems(2) by (auto simp: down_inv_def readers_def late_waits_def)
    have fr: "chunk_wait rc' ws (t\<lparr>d_chunks := h\<rparr>) = chunk_wait rc' ws ?t"
      using chunk_wait_frame [where rc = rc' and ws = ws and t = "t\<lparr>d_chunks := h\<rparr>" and w = ws] by simp
    have eq: "chunk_wait 0 (w # ws) t = chunk_wait rc' ws ?t"
      using pop h(1) w Cons.prems(2) fr by (simp add: chunk_wait_empty waits_same)
    show ?thesis
    proof (cases "rc' = 0")
      case True
      then have "dropped t ?t None {#}" using t by (simp add: dropped_def ctxt_of_def late_wait_def w)
      from wait_post_trans [OF _ this] Cons.IH [OF t(1,2)] True show ?thesis unfolding eq by simp
    next
      case False
      note over = chunk_wait_over [OF t(1,2) False]
      show ?thesis
      proof (cases "rc' = ETIMEDOUT")
        case True
        with over obtain h' l where o: "chunk_wait rc' ws ?t = Inr (None, ?t\<lparr>d_chunks := h'\<rparr>)"
            "down_inv bytes req (?t\<lparr>d_chunks := h'\<rparr>)" "readers ?t = readers (?t\<lparr>d_chunks := h'\<rparr>) + l"
            "size l = (if heap_chunks h = {#} then 0 else 1)" by auto
        have "heap_chunks h = {#} \<longleftrightarrow> adds = []" using h(4) by (metis length_0_conv size_eq_0_iff_empty)
        then have "dropped t (?t\<lparr>d_chunks := h'\<rparr>) None l"
          using o(3,4) t(3-5) True by (auto simp: dropped_def ctxt_of_def late_wait_def w late_waits_def)
        with o(2) show ?thesis unfolding eq o(1)
          by (intro wait_postI [where h = h' and b = "d_busy t" and w = ws]) simp_all
      next
        case False
        then have "waits_fail t" using \<open>rc' \<noteq> 0\<close> Cons.prems(2) w by (auto simp: waits_fail_def)
        then show ?thesis using over False unfolding eq wait_post_def by simp
      qed
    qed
  qed (rule chunk_wait_pops [OF Cons.prems])
qed

lemma chunk_get_next_correct:
  assumes "down_inv bytes req t"
  shows "wait_post bytes req t (chunk_get_next t)"
proof (cases "d_busy t")
  case Nil
  then show ?thesis using chunk_wait_correct [OF assms refl] by (simp add: chunk_get_next_def)
next
  case (Cons adds busy)
  have inv: "down_inv bytes req (t\<lparr>d_busy := busy\<rparr>)" "\<forall>r \<in> set adds. request_ok bytes req r"
    using assms Cons by (auto simp: down_inv_def)
  from adds_inv [OF this] obtain h where
    h: "fold_res downloader_chunk_add adds (t\<lparr>d_busy := busy\<rparr>) = Inr (t\<lparr>d_busy := busy, d_chunks := h\<rparr>)"
      "down_inv bytes req (t\<lparr>d_busy := busy, d_chunks := h\<rparr>)"
      "readers (t\<lparr>d_busy := busy, d_chunks := h\<rparr>) = readers (t\<lparr>d_busy := busy\<rparr>) + mset (map (snd \<circ> snd) adds)"
    by blast
  have eq: "t\<lparr>d_busy := busy, d_chunks := h\<rparr> = t\<lparr>d_chunks := h, d_busy := busy, d_waits := d_waits t\<rparr>" by simp
  have "readers t = readers (t\<lparr>d_busy := busy, d_chunks := h\<rparr>)"
    using h(3) Cons by (simp add: readers_def)
  then have "dropped t (t\<lparr>d_busy := busy, d_chunks := h\<rparr>) None {#}" by (rule dropped_same) simp
  moreover have "wait_post bytes req (t\<lparr>d_busy := busy, d_chunks := h\<rparr>)
      (chunk_wait 0 (d_waits t) (t\<lparr>d_busy := busy, d_chunks := h\<rparr>))"
    by (rule chunk_wait_correct [OF h(2)]) simp
  ultimately have "wait_post bytes req t (chunk_wait 0 (d_waits t) (t\<lparr>d_busy := busy, d_chunks := h\<rparr>))"
    unfolding eq by (intro wait_post_trans [where t = t and h = h and b = busy and w = "d_waits t"])
  then show ?thesis using Cons h(1) by (simp add: chunk_get_next_def)
qed

section \<open>Serving the chunks\<close>

lemma segment_append:
  assumes "0 \<le> i" "i \<le> j" "j \<le> k"
  shows "segment bytes i j @ segment bytes j k = segment bytes i k"
proof -
  define a where "a = nat i"
  define m where "m = nat (j - i)"
  define n where "n = nat (k - j)"
  have eq: "nat i = a" "nat j = a + m" "nat (j - i) = m" "nat (k - j) = n" "nat (k - i) = m + n"
    using assms by (simp_all add: a_def m_def n_def nat_diff_distrib)
  show ?thesis unfolding segment_def eq by (simp add: take_add add.commute)
qed

lemma length_segment: "0 \<le> i \<Longrightarrow> i \<le> j \<Longrightarrow> j \<le> int (length bytes) \<Longrightarrow> length (segment bytes i j) = nat (j - i)"
  by (simp add: segment_def min_def) linarith

lemma take_segment:
  "0 \<le> i \<Longrightarrow> int n \<le> j - i \<Longrightarrow> take n (segment bytes i j) = segment bytes i (i + int n)"
  by (simp add: segment_def min_def) linarith?

lemma drop_segment:
  assumes "0 \<le> i" "int n \<le> j - i"
  shows "drop n (segment bytes i j) = segment bytes (i + int n) j"
proof -
  have "nat (j - (i + int n)) = nat (j - i) - n" "nat (i + int n) = n + nat i" using assms by linarith+
  then show ?thesis by (simp add: segment_def drop_take)
qed

text \<open>Copying the next bytes of the file into a chunk.\<close>

definition fill :: "nat \<Rightarrow> string \<Rightarrow> chunk_t \<Rightarrow> chunk_t" where
  "fill n dat c = c\<lparr>c_bytes_used := c_bytes_used c + n, c_start := c_start c + int n,
     c_buf := c_buf c @ take n dat\<rparr>"

lemma fill_simps [simp]:
  "c_start (fill n dat c) = c_start c + int n" "c_end (fill n dat c) = c_end c"
  "c_bytes_used (fill n dat c) = c_bytes_used c + n" "c_ctxt (fill n dat c) = c_ctxt c"
  by (simp_all add: fill_def)

lemma fill_ok:
  assumes "chunk_ok bytes req c" "int n \<le> c_end c - c_start c"
    and "dat = segment bytes (c_start c) j" "int n \<le> j - c_start c"
  shows "chunk_ok bytes req (fill n dat c)"
proof -
  let ?s = "c_start c - int (c_bytes_used c)"
  have s: "0 \<le> ?s" "?s \<le> c_start c" using assms(1) by (auto simp: chunk_ok_def Let_def)
  then have "0 \<le> c_start c" by linarith
  then have "take n dat = segment bytes (c_start c) (c_start c + int n)"
    using take_segment assms(3,4) by simp
  then have "c_buf (fill n dat c) = segment bytes ?s (c_start c + int n)"
    using assms(1) segment_append [of ?s "c_start c" "c_start c + int n" bytes] s
    by (simp add: fill_def chunk_ok_def Let_def)
  then show ?thesis using assms(1,2) by (simp add: chunk_ok_def Let_def)
qed

text \<open>Signalling a chunk that is full.\<close>

lemma signal_inv:
  assumes "down_inv bytes req t" "chunk_ok bytes req c" "c_start c = c_end c"
  shows "down_inv bytes req (signal_read_thread c 0 (c_bytes_used c) t)"
proof -
  let ?s = "c_start c - int (c_bytes_used c)"
  have "signal_ok bytes req (c_ctxt c, 0, c_bytes_used c, c_buf c)"
    using assms(2,3) length_segment [of ?s "c_start c" bytes]
    by (auto simp: signal_ok_def chunk_ok_def Let_def)
  then show ?thesis using assms(1) by (simp add: down_inv_def signal_read_thread_def)
qed

lemma signal_frame [simp]:
  "d_chunks (signal_read_thread c rc sz t) = d_chunks t"
  "d_current (signal_read_thread c rc sz t) = d_current t"
  "d_busy (signal_read_thread c rc sz t) = d_busy t"
  "d_waits (signal_read_thread c rc sz t) = d_waits t"
  by (simp_all add: signal_read_thread_def)

lemma signal_readers: "readers (signal_read_thread c rc sz t) = readers t + {#c_ctxt c#}"
  by (simp add: readers_def signal_read_thread_def)

lemma current_inv:
  "down_inv bytes req t \<Longrightarrow> (\<forall>c. x = Some c \<longrightarrow> chunk_ok bytes req c) \<Longrightarrow>
   down_inv bytes req (t\<lparr>d_current := x\<rparr>)"
  by (simp add: down_inv_def)

lemma current_readers: "readers (t\<lparr>d_current := x\<rparr>) + ctxt_of (d_current t) = readers t + ctxt_of x"
  by (simp add: readers_def)

text \<open>Signalling the full chunk in hand and taking the next one, as the loop does.\<close>

lemma next_chunk:
  assumes inv: "down_inv bytes req t" and c: "d_current t = Some c" "c_ctxt c' = c_ctxt c"
    and full: "chunk_ok bytes req c'" "c_start c' = c_end c'"
  shows "case chunk_get_next (signal_read_thread c' 0 (c_bytes_used c') t) of
     Inl e \<Rightarrow> e = AssertFail \<and> waits_fail t
   | Inr (x, t') \<Rightarrow> down_inv bytes req (t'\<lparr>d_current := x\<rparr>) \<and> (\<exists>l. dropped t (t'\<lparr>d_current := x\<rparr>) None l) \<and>
       d_seek t' = d_seek t \<and> (x \<noteq> None \<longrightarrow> chunk_supply (t'\<lparr>d_current := x\<rparr>) < chunk_supply t)"
proof -
  let ?s = "signal_read_thread c' 0 (c_bytes_used c') t"
  note post = chunk_get_next_correct [OF signal_inv [OF inv full]]
  show ?thesis
  proof (cases "chunk_get_next ?s")
    case (Inl e)
    then show ?thesis using post by (simp add: wait_post_def waits_fail_def)
  next
    case (Inr xt)
    obtain x t' where xt: "xt = (x, t')" by force
    from post [unfolded wait_post_def Inr xt] obtain h b w l where
      t': "t' = ?s\<lparr>d_chunks := h, d_busy := b, d_waits := w\<rparr>" "down_inv bytes req t'"
        "\<forall>c. x = Some c \<longrightarrow> chunk_ok bytes req c" "dropped ?s t' x l" by auto
    have cur: "d_current t' = Some c" "d_seek t' = d_seek t" using c(1) t'(1) by (simp_all add: signal_read_thread_def)
    have "readers (t'\<lparr>d_current := x\<rparr>) + {#c_ctxt c#} = readers t' + ctxt_of x"
      using cur(1) current_readers [of x t'] by (simp add: ctxt_of_def)
    then have "add_mset (c_ctxt c) (readers t) = add_mset (c_ctxt c) (readers (t'\<lparr>d_current := x\<rparr>) + l)"
      using t'(4) signal_readers [of c' 0 "c_bytes_used c'" t] c(2) by (simp add: dropped_def)
    then have "dropped t (t'\<lparr>d_current := x\<rparr>) None l"
      using t'(4) by (simp add: dropped_def ctxt_of_def late_waits_def)
    moreover have "chunk_supply (t'\<lparr>d_current := x\<rparr>) < chunk_supply t" if "x \<noteq> None"
      using that Inr xt chunk_get_next_supply [of ?s] by (auto simp: chunk_supply_def signal_read_thread_def)
    ultimately show ?thesis using Inr xt current_inv [OF t'(2,3)] cur(2) by auto
  qed
qed

text \<open>How the loop can end.\<close>

definition consumed :: "int \<Rightarrow> downloader_t \<Rightarrow> int \<Rightarrow> downloader_t \<Rightarrow> bool" where
  "consumed fin t rc t' \<longleftrightarrow>
     (rc = 0 \<and> d_offset t' = fin \<and> d_seek t' = d_seek t) \<or>
     (rc = 1 \<and> d_seek t' \<and> d_current t' \<noteq> None) \<or>
     (rc = 1 \<and> d_timed_out t' \<and> d_current t' = None \<and> d_seek t' = d_seek t)"

definition served ::
  "string \<Rightarrow> (nat \<Rightarrow> int \<times> int) \<Rightarrow> int \<Rightarrow> downloader_t \<Rightarrow> (int \<times> downloader_t) res \<Rightarrow> bool" where
  "served bytes req fin t r \<longleftrightarrow> (case r of
     Inl e \<Rightarrow> e = AssertFail \<and> waits_fail t
   | Inr (rc, t') \<Rightarrow> down_inv bytes req t' \<and> (\<exists>l. dropped t t' None l) \<and> consumed fin t rc t')"

lemma servedI:
  assumes "down_inv bytes req t'" "dropped t t' None l" "consumed fin t rc t'"
  shows "served bytes req fin t (Inr (rc, t'))"
  using assms by (auto simp: served_def)

lemma served_trans:
  assumes "served bytes req fin u r" "dropped t u None l" "d_seek u = d_seek t"
  shows "served bytes req fin t r"
proof (cases r)
  case (Inl e)
  then show ?thesis using assms(1) dropped_fail [OF assms(2)] by (simp add: served_def)
next
  case (Inr x)
  then show ?thesis using assms(1,3) dropped_trans [OF assms(2)]
    by (fastforce simp: served_def consumed_def split: prod.splits)
qed

lemma buf_loop_step:
  assumes "d_current t = Some c" "c_start c = bstart" "c_start c \<le> c_end c"
    and "n = min (length dat) (nat (c_end c - c_start c))"
  shows "buf_loop bstart dat t =
    (let c' = fill n dat c in
     if length dat \<le> n
     then Inr (0, if c_start c' = c_end c'
                  then (signal_read_thread c' 0 (c_bytes_used c') t)
                         \<lparr>d_current := None, d_offset := bstart + int n\<rparr>
                  else t\<lparr>d_current := Some c', d_offset := bstart + int n\<rparr>)
     else case chunk_get_next (signal_read_thread c' 0 (c_bytes_used c') t) of
            Inl e \<Rightarrow> Inl e
          | Inr (None, t) \<Rightarrow> Inr (1, t\<lparr>d_current := None, d_timed_out := True\<rparr>)
          | Inr (Some next, t) \<Rightarrow> buf_loop (bstart + int n) (drop n dat) (t\<lparr>d_current := Some next\<rparr>))"
proof -
  have "\<not> length dat \<le> n \<Longrightarrow> c_start c + int n = c_end c" using assms(3,4) by (simp add: min_def split: if_splits)
  then show ?thesis
    using assms by (subst buf_loop.simps) (auto simp: Let_def fill_def)
qed

lemma buf_loop_correct:
  assumes "down_inv bytes req t" "d_current t \<noteq> None" "0 \<le> bstart"
    and "bstart + int (length dat) \<le> int (length bytes)"
    and "dat = segment bytes bstart (bstart + int (length dat))"
  shows "served bytes req (bstart + int (length dat)) t (buf_loop bstart dat t)"
  using assms
proof (induction "chunk_supply t" arbitrary: bstart dat t rule: less_induct)
  case less
  obtain c where c: "d_current t = Some c" using less.prems(2) by auto
  have ok: "chunk_ok bytes req c" using less.prems(1) c by (simp add: down_inv_def)
  then have le: "c_start c \<le> c_end c" by (simp add: chunk_ok_def Let_def)
  show ?case
  proof (cases "c_start c = bstart")
    case False
    then have "buf_loop bstart dat t = Inr (1, t\<lparr>d_seek := True\<rparr>)"
      using c by (simp add: buf_loop.simps [of bstart dat t])
    moreover have "dropped t (t\<lparr>d_seek := True\<rparr>) None {#}" by (rule dropped_same) (simp_all add: readers_def)
    ultimately show ?thesis using less.prems(1) c
      by (auto intro!: servedI simp: down_inv_def consumed_def)
  next
    case True
    define n where "n = min (length dat) (nat (c_end c - c_start c))"
    define c' where "c' = fill n dat c"
    have n: "int n \<le> c_end c - c_start c" "n \<le> length dat" using le by (simp_all add: n_def)
    have ok': "chunk_ok bytes req c'"
      unfolding c'_def using less.prems(5) n True by (intro fill_ok [OF ok n(1), of dat "bstart + int (length dat)"]) auto
    note step = buf_loop_step [OF c True le n_def, folded c'_def, unfolded Let_def]
    show ?thesis
    proof (cases "length dat \<le> n")
      case end_of_buf: True
      with n(2) have len: "int n = int (length dat)" by simp
      show ?thesis
      proof (cases "c_start c' = c_end c'")
        case True
        let ?t = "(signal_read_thread c' 0 (c_bytes_used c') t)\<lparr>d_current := None, d_offset := bstart + int n\<rparr>"
        have "down_inv bytes req ?t" using signal_inv [OF less.prems(1) ok' True] by (simp add: down_inv_def)
        moreover have "readers t = readers ?t"
          using current_readers [of None "signal_read_thread c' 0 (c_bytes_used c') t"]
            signal_readers [of c' 0 "c_bytes_used c'" t] c
          by (simp add: ctxt_of_def signal_read_thread_def c'_def readers_def)
        then have "dropped t ?t None {#}" by (rule dropped_same) simp
        ultimately show ?thesis using step end_of_buf True len
          by (auto intro!: servedI simp: consumed_def signal_read_thread_def)
      next
        case False
        let ?t = "t\<lparr>d_current := Some c', d_offset := bstart + int n\<rparr>"
        have "dropped t ?t None {#}" by (rule dropped_same) (simp_all add: readers_def ctxt_of_def c'_def c)
        then show ?thesis using step end_of_buf len less.prems(1) ok' False
          by (auto intro!: servedI simp: down_inv_def consumed_def)
      qed
    next
      case more: False
      then have full: "c_start c' = c_end c'" using le by (simp add: c'_def n_def min_def split: if_splits)
      have "c_ctxt c' = c_ctxt c" by (simp add: c'_def)
      note nx = next_chunk [OF less.prems(1) c this ok' full]
      show ?thesis
      proof (cases "chunk_get_next (signal_read_thread c' 0 (c_bytes_used c') t)")
        case (Inl e)
        then show ?thesis using step more nx by (simp add: served_def)
      next
        case (Inr xt)
        obtain x t' where xt: "xt = (x, t')" by force
        from nx [unfolded Inr xt] obtain l where
          t': "down_inv bytes req (t'\<lparr>d_current := x\<rparr>)" "dropped t (t'\<lparr>d_current := x\<rparr>) None l"
            "d_seek t' = d_seek t" "x \<noteq> None \<longrightarrow> chunk_supply (t'\<lparr>d_current := x\<rparr>) < chunk_supply t" by auto
        show ?thesis
        proof (cases x)
          case None
          let ?t = "t'\<lparr>d_current := None, d_timed_out := True\<rparr>"
          have "down_inv bytes req ?t" using t'(1) None by (simp add: down_inv_def)
          moreover have "dropped t ?t None l"
            using t'(2) None by (simp add: dropped_def readers_def late_waits_def)
          ultimately show ?thesis using step more Inr xt None t'(3)
            by (auto intro!: servedI simp: consumed_def)
        next
          case (Some nc)
          let ?t = "t'\<lparr>d_current := Some nc\<rparr>"
          have rest: "bstart + int n + int (length (drop n dat)) = bstart + int (length dat)" using n(2) by simp
          have dat: "drop n dat = segment bytes (bstart + int n) (bstart + int n + int (length (drop n dat)))"
            unfolding rest
            using drop_segment [of bstart n "bstart + int (length dat)" bytes] less.prems(3,5) n(2) by simp
          have "chunk_supply ?t < chunk_supply t" "down_inv bytes req ?t" "d_current ?t \<noteq> None"
            "0 \<le> bstart + int n" "bstart + int n + int (length (drop n dat)) \<le> int (length bytes)"
            using t' Some less.prems(3,4) rest by auto
          from less.hyps [OF this dat] have
            "served bytes req (bstart + int (length dat)) ?t (buf_loop (bstart + int n) (drop n dat) ?t)"
            unfolding rest .
          from served_trans [OF this] t'(2,3) step more Inr xt Some show ?thesis by auto
        qed
      qed
    qed
  qed
qed

lemma buf_consumer_correct:
  assumes inv: "down_inv bytes req t" and off: "0 \<le> d_offset t"
    and len: "d_offset t + int (length dat) \<le> int (length bytes)"
    and dat: "dat = segment bytes (d_offset t) (d_offset t + int (length dat))"
  shows "served bytes req (d_offset t + int (length dat)) t (buf_consumer dat t)"
proof (cases "d_current t")
  case (Some c)
  then show ?thesis using buf_loop_correct [OF inv _ off len dat] by (simp add: buf_consumer_def)
next
  case None
  note post = chunk_get_next_correct [OF inv]
  show ?thesis
  proof (cases "chunk_get_next t")
    case (Inl e)
    then show ?thesis using post None by (simp add: buf_consumer_def wait_post_def served_def)
  next
    case (Inr xt)
    obtain x u where xt: "xt = (x, u)" by force
    from post [unfolded wait_post_def Inr xt] obtain h b w l where
      u: "u = t\<lparr>d_chunks := h, d_busy := b, d_waits := w\<rparr>" "down_inv bytes req u"
        "\<forall>c. x = Some c \<longrightarrow> chunk_ok bytes req c" "dropped t u x l" by auto
    let ?t = "u\<lparr>d_current := x\<rparr>"
    have inv': "down_inv bytes req ?t" using current_inv [OF u(2,3)] .
    have "d_current u = None" using u(1) None by simp
    then have l: "dropped t ?t None l"
      using u(4) current_readers [of x u] by (simp add: dropped_def ctxt_of_def late_waits_def)
    have off': "d_offset ?t = d_offset t" "d_seek ?t = d_seek t" using u(1) by simp_all
    show ?thesis
    proof (cases x)
      case None
      let ?u = "?t\<lparr>d_timed_out := True\<rparr>"
      have "down_inv bytes req ?u" using inv' by (simp add: down_inv_def)
      moreover have "dropped t ?u None l" using l by (simp add: dropped_def readers_def late_waits_def)
      ultimately have "served bytes req (d_offset t + int (length dat)) t (Inr (1, ?u))"
        using None off' by (intro servedI) (simp_all add: consumed_def)
      then show ?thesis using Inr xt None \<open>d_current t = None\<close> by (simp add: buf_consumer_def)
    next
      case (Some c)
      then have "served bytes req (d_offset t + int (length dat)) ?t (buf_loop (d_offset t) dat ?t)"
        by (intro buf_loop_correct [OF inv' _ off len dat]) simp
      from served_trans [OF this l off'(2)] show ?thesis
        using Inr xt None Some off'(1) by (simp add: buf_consumer_def)
    qed
  qed
qed

text \<open>A transfer of any blocks: what is lost is lost in late waits.\<close>

lemma transfer_correct:
  assumes "down_inv bytes req t" "0 \<le> d_offset t" "[] \<notin> set blocks"
    and "d_offset t + int (length (concat blocks)) \<le> int (length bytes)"
    and "concat blocks = segment bytes (d_offset t) (d_offset t + int (length (concat blocks)))"
  shows "case deliver (body_cb_wrapper buf_consumer WrapperCtxt) blocks t of
     Inl e \<Rightarrow> e = AssertFail \<and> waits_fail t
   | Inr (ok, t') \<Rightarrow> down_inv bytes req t' \<and> (\<exists>l. dropped t t' None l) \<and>
       (ok \<longrightarrow> d_offset t' = d_offset t + int (length (concat blocks)))"
  using assms
proof (induction blocks arbitrary: t)
  case Nil
  then show ?case using dropped_same [of t t] by auto
next
  case (Cons dat blocks)
  let ?o = "d_offset t" let ?rest = "concat blocks"
  have all: "dat @ ?rest = segment bytes ?o (?o + int (length dat + length ?rest))"
    using Cons.prems(5) by simp
  have dat: "dat = segment bytes ?o (?o + int (length dat))"
    using arg_cong [OF all, of "take (length dat)"] Cons.prems(2) by (simp add: take_segment)
  have rest: "?rest = segment bytes (?o + int (length dat)) (?o + int (length dat) + int (length ?rest))"
    using arg_cong [OF all, of "drop (length dat)"] Cons.prems(2) by (simp add: drop_segment add.assoc)
  have len: "?o + int (length dat) \<le> int (length bytes)" using Cons.prems(4) by simp
  note serve = buf_consumer_correct [OF Cons.prems(1,2) len dat]
  show ?case
  proof (cases "buf_consumer dat t")
    case (Inl e)
    then show ?thesis using serve by (simp add: body_cb_wrapper_def [of _ _ dat t] served_def)
  next
    case (Inr rt)
    obtain rc t' where rt: "rt = (rc, t')" by force
    from serve [unfolded served_def Inr rt] obtain l where
      t': "down_inv bytes req t'" "dropped t t' None l" "consumed (?o + int (length dat)) t rc t'" by auto
    show ?thesis
    proof (cases "rc = 0")
      case True
      then have o': "d_offset t' = ?o + int (length dat)" using t'(3) by (auto simp: consumed_def)
      have "case deliver (body_cb_wrapper buf_consumer WrapperCtxt) blocks t' of
          Inl e \<Rightarrow> e = AssertFail \<and> waits_fail t'
        | Inr (ok, t'') \<Rightarrow> down_inv bytes req t'' \<and> (\<exists>l. dropped t' t'' None l) \<and>
            (ok \<longrightarrow> d_offset t'' = d_offset t' + int (length ?rest))"
        using Cons.prems o' rest by (intro Cons.IH [OF t'(1)]) auto
      with True Inr rt o' dropped_fail [OF t'(2)] dropped_trans [OF t'(2)] show ?thesis
        by (fastforce simp: body_cb_wrapper_def [of _ _ dat t] split: sum.splits)
    next
      case False
      moreover have "dat \<noteq> []" using Cons.prems(3) by auto
      ultimately show ?thesis using Inr rt t' by (auto simp: body_cb_wrapper_def [of _ _ dat t])
    qed
  qed
qed

section \<open>The end of the thread\<close>

lemma signal_error:
  "down_inv bytes req t \<Longrightarrow> rc \<noteq> 0 \<Longrightarrow> down_inv bytes req (signal_read_thread c rc sz t)"
  by (simp add: down_inv_def signal_read_thread_def signal_ok_def)

lemma chunks_empty_correct:
  assumes "down_inv bytes req t" "rc \<noteq> 0"
  shows "\<exists>t'. chunks_empty rc t = Inr t' \<and> down_inv bytes req t' \<and> readers t' = readers t \<and>
    heap_chunks (d_chunks t') = {#} \<and> d_current t' = d_current t \<and>
    d_busy t' = d_busy t \<and> d_waits t' = d_waits t"
  using assms
proof (induction "used (d_chunks t)" arbitrary: t rule: less_induct)
  case less
  from pop_inv [OF less.prems(1)] show ?case
  proof (elim disjE exE conjE)
    assume "heap_chunks (d_chunks t) = {#}" "binary_heap_trypop (d_chunks t) = Inr (None, d_chunks t)"
    then show ?thesis using less.prems by (intro exI [of _ t]) (simp add: chunks_empty.simps [of rc t])
  next
    fix k c h
    assume pop: "binary_heap_trypop (d_chunks t) = Inr (Some (k, c), h)"
      and inv: "down_inv bytes req (t\<lparr>d_chunks := h\<rparr>)"
      and r: "readers t = add_mset (c_ctxt c) (readers (t\<lparr>d_chunks := h\<rparr>))"
    let ?t = "signal_read_thread c rc 0 (t\<lparr>d_chunks := h\<rparr>)"
    have "used (d_chunks ?t) < used (d_chunks t)"
      using heap_trypop_used [OF pop] by (simp add: signal_read_thread_def)
    from less.hyps [OF this signal_error [OF inv less.prems(2)] less.prems(2)] show ?thesis
      using pop r signal_readers [of c rc 0 "t\<lparr>d_chunks := h\<rparr>"]
      by (auto simp: chunks_empty.simps [of rc t])
  qed
qed

text \<open>The requests that have not been made yet.\<close>

definition to_come :: "downloader_t \<Rightarrow> nat multiset" where
  "to_come t = mset (map (snd \<circ> snd) (concat (d_busy t))) +
     mset (map (snd \<circ> snd) (concat (map snd (d_waits t))))"

lemma heap_chunks_used: "heap_inv h \<Longrightarrow> heap_chunks h = {#} \<longleftrightarrow> used h = 0"
  by (simp add: heap_chunks_def heap_contents_empty)

lemma thread_delete_ok:
  "down_inv bytes req t \<Longrightarrow> d_current t = None \<Longrightarrow>
   thread_delete t = (if heap_chunks (d_chunks t) = {#} then Inr () else Inl AssertFail)"
  by (simp add: thread_delete_def binary_heap_delete_def down_inv_def heap_chunks_used)

lemma main_end_error:
  assumes "down_inv bytes req t" "rc \<noteq> 0" "d_current t = Some c"
  shows "\<exists>t'. main_end (Some rc) t = Inr t' \<and> down_inv bytes req t' \<and>
    mset (map fst (d_signals t')) + to_come t = readers t"
proof -
  let ?s = "signal_read_thread c rc 0 t"
  let ?t = "?s\<lparr>d_current := None\<rparr>"
  have inv: "down_inv bytes req ?t" using signal_error [OF assms(1,2)] by (intro current_inv) simp_all
  have r: "readers ?t = readers t"
    using current_readers [of None ?s] signal_readers [of c rc 0 t] assms(3)
    by (simp add: ctxt_of_def signal_read_thread_def)
  from chunks_empty_correct [OF inv assms(2)] obtain t' where
    t': "chunks_empty rc ?t = Inr t'" "down_inv bytes req t'" "readers t' = readers ?t"
      "heap_chunks (d_chunks t') = {#}" "d_current t' = None" "d_busy t' = d_busy t" "d_waits t' = d_waits t"
    by (auto simp: signal_read_thread_def)
  have "mset (map fst (d_signals t')) + to_come t = readers t'"
    using t' by (simp add: readers_def to_come_def ctxt_of_def)
  then show ?thesis
    using assms(2,3) t' r by (auto simp: main_end_def thread_delete_ok)
qed

lemma down_inv_signals:
  "down_inv bytes req t \<Longrightarrow> \<forall>(ctxt, rc, sz, buf) \<in> set (d_signals t). rc = 0 \<longrightarrow>
     buf = segment bytes (fst (req ctxt)) (snd (req ctxt)) \<and> sz = length buf"
  by (auto simp: down_inv_def signal_ok_def)

section \<open>Properties\<close>


text \<open>
  Three readers of a file of six bytes: the second one is queued while the first one is served, and the third
  one is queued behind the deadline of the next wait.
\<close>

definition example_req :: "nat \<Rightarrow> int \<times> int" where
  "example_req ctxt = (if ctxt = 1 then (0, 2) else if ctxt = 2 then (2, 5) else (5, 6))"

definition example_thread :: downloader_t where
  "example_thread = downloader_new 6 [[(0, 2, 1)]] [(0, [(2, 5, 2)]), (ETIMEDOUT, [(5, 6, 3)])]"

lemma example_thread_inv: "down_inv ''abcdef'' example_req example_thread"
  by (simp add: down_inv_def example_thread_def downloader_new_def heap_pq.new_invar heap_chunks_def
      heap_pq.new_contents request_ok_def wait_ok_def example_req_def)


text \<open>The end of a failed download (downloader.c, \<^verbatim>\<open>downloaderead_main\<close>): when a request fails with
  a chunk in hand, that chunk's reader and every reader still queued is signalled, each once, with
  the error and no bytes, and the thread's assertions at its end hold.\<close>
theorem downloader_error_signals_all:
  assumes "down_inv bytes req t" "rc \<noteq> 0" "d_current t = Some c"
  shows "\<exists>t'. main_end (Some rc) t = Inr t' \<and> mset (map fst (d_signals t')) + to_come t = readers t \<and>
    (\<forall>(ctxt, rc', sz, buf) \<in> set (d_signals t'). rc' = 0 \<longrightarrow>
       buf = segment bytes (fst (req ctxt)) (snd (req ctxt)) \<and> sz = length buf)"
proof -
  from main_end_error [OF assms] obtain t' where
    t': "main_end (Some rc) t = Inr t'" "down_inv bytes req t'"
      "mset (map fst (d_signals t')) + to_come t = readers t" by blast
  show ?thesis by (rule exI [of _ t']) (intro conjI t'(1,3) down_inv_signals [OF t'(2)])
qed

definition example_in_hand :: downloader_t where
  "example_in_hand = (downloader_new 6 [] [])\<lparr>d_current := Some (chunk_new 0 2 1)\<rparr>"

theorem downloader_error_signals_all_witness:
  "\<exists>t'. main_end (Some ENOENT) example_in_hand = Inr t' \<and> mset (map fst (d_signals t')) = {#1#}"
proof -
  have ok: "chunk_ok ''abcdef'' example_req (chunk_new 0 2 1)"
    by (rule chunk_new_ok) (simp add: request_ok_def example_req_def)
  then have inv: "down_inv ''abcdef'' example_req example_in_hand"
    by (simp add: down_inv_def example_in_hand_def downloader_new_def heap_pq.new_invar
        heap_chunks_def heap_pq.new_contents)
  have "readers example_in_hand = {#1#}" "to_come example_in_hand = {#}"
    by (simp_all add: readers_def to_come_def example_in_hand_def downloader_new_def heap_chunks_def
        heap_pq.new_contents ctxt_of_def)
  moreover have "d_current example_in_hand = Some (chunk_new 0 2 1)" by (simp add: example_in_hand_def)
  ultimately show ?thesis using downloader_error_signals_all [OF inv _ \<open>d_current _ = _\<close>, of ENOENT] by auto
qed

text \<open>A lost reader (downloader.c, \<^verbatim>\<open>chunk_get_next\<close>): when a chunk is queued between the deadline of
  a wait and the moment the waiting thread has the lock again, the loop pops it and then throws it
  away because of the time-out: it is neither queued nor in hand nor signalled, so that its read
  never returns.\<close>
theorem chunk_get_next_loses_chunk:
  assumes "heap_inv (d_chunks t)" "heap_chunks (d_chunks t) = {#}" "request_ok bytes req (s, e, ctxt)"
    and "d_size t = int (length bytes)" "d_busy t = []" "d_waits t = [(ETIMEDOUT, [(s, e, ctxt)])]"
  shows "\<exists>h. chunk_get_next t = Inr (None, t\<lparr>d_chunks := h, d_waits := []\<rparr>) \<and> heap_chunks h = {#}"
proof -
  from chunk_add_correct [OF assms(1,3,4)] obtain h where
    h: "downloader_chunk_add (s, e, ctxt) t = Inr (t\<lparr>d_chunks := h\<rparr>)" "heap_inv h"
      "heap_chunks h = {#chunk_new s e ctxt#}" using assms(2) by auto
  then have "heap_contents h \<noteq> {#}" by (auto simp: heap_chunks_def)
  from heap_pq.trypop_least [OF h(2) this] obtain k c h' where
    pop: "binary_heap_trypop h = Inr (Some (k, c), h')" "heap_contents h = add_mset (k, c) (heap_contents h')"
    by blast
  have "heap_chunks h' = {#}" using pop(2) h(3) by (auto simp: heap_chunks_def)
  moreover have "chunk_wait ETIMEDOUT [] (t\<lparr>d_chunks := h\<rparr>) = Inr (None, t\<lparr>d_chunks := h', d_waits := []\<rparr>)"
    using pop(1) by (simp add: chunk_wait.simps [of ETIMEDOUT "[]"] chunk_woken_def)
  ultimately show ?thesis
    using assms h(1)
    by (intro exI [of _ h']) (simp add: chunk_get_next_def chunk_wait_empty heap_trypop_empty waits_same)
qed

theorem chunk_get_next_loses_chunk_witness:
  "\<exists>h. chunk_get_next (downloader_new 6 [] [(ETIMEDOUT, [(0, 2, 1)])]) =
      Inr (None, (downloader_new 6 [] [(ETIMEDOUT, [(0, 2, 1)])])\<lparr>d_chunks := h, d_waits := []\<rparr>) \<and>
    heap_chunks h = {#}"
  by (rule chunk_get_next_loses_chunk [of _ "''abcdef''" example_req 0 2 1])
    (simp_all add: downloader_new_def heap_pq.new_invar heap_chunks_def heap_pq.new_contents
      request_ok_def example_req_def)

text \<open>Ends that abort (downloader.c, \<^verbatim>\<open>downloaderead_main\<close>): a thread whose first wait times out
  tests the variable \<^verbatim>\<open>rc\<close> before anything was assigned to it; and when a request fails while no
  chunk is in hand but chunks are queued, these are not signalled and the assertion that the queue
  is empty fails.\<close>
theorem downloader_abnormal_ends:
  assumes "down_inv bytes req t" "d_current t = None" "heap_chunks (d_chunks t) \<noteq> {#}" "rc \<noteq> 0"
  shows "main_end (Some rc) t = Inl AssertFail \<and>
    downloaderead_main fetch (best # bests) (downloader_new sz [] []) = Some (Inl Uninitialised)"
proof -
  have "binary_heap_trypop binary_heap_new = Inr (None, binary_heap_new :: chunk_t binary_heap_t)"
    by (rule heap_pq.trypop_empty) (simp_all add: heap_pq.new_invar heap_pq.new_contents)
  then have "downloaderead_main fetch (best # bests) (downloader_new sz [] []) = Some (Inl Uninitialised)"
    by (simp add: downloaderead_main_def main_chunk_def downloader_new_def chunk_get_next_def
        chunk_wait.simps chunk_woken_def main_end_def)
  then show ?thesis using assms by (simp add: main_end_def thread_delete_ok)
qed

theorem downloader_abnormal_ends_witness:
  "\<exists>t. downloader_chunk_add (0, 2, 1) (downloader_new 6 [] []) = Inr t \<and>
    main_end (Some ENOENT) t = Inl AssertFail"
proof -
  let ?t = "downloader_new 6 [] []"
  have inv: "down_inv ''abcdef'' example_req ?t" "request_ok ''abcdef'' example_req (0, 2, 1)"
    by (simp_all add: down_inv_def downloader_new_def heap_pq.new_invar heap_chunks_def
        heap_pq.new_contents request_ok_def example_req_def)
  have "heap_inv (d_chunks ?t)" "d_size ?t = int (length ''abcdef'')"
    using inv(1) by (simp_all add: down_inv_def)
  from chunk_add_correct [OF this(1) inv(2) this(2)] obtain h where
    h: "downloader_chunk_add (0, 2, 1) ?t = Inr (?t\<lparr>d_chunks := h\<rparr>)"
      "heap_chunks h = add_mset (chunk_new 0 2 1) (heap_chunks (d_chunks ?t))" by auto
  from adds_inv [OF inv(1), of "[(0, 2, 1)]"] inv(2) h(1) have
    "down_inv ''abcdef'' example_req (?t\<lparr>d_chunks := h\<rparr>)" by auto
  from downloader_abnormal_ends [OF this, of ENOENT] h show ?thesis by (auto simp: downloader_new_def)
qed

end
