(* ===== verification/Nativefs.thy ===== *)
theory Nativefs
  imports Indexnode Peerstats
begin

text \<open>
  The file system tree: \<^verbatim>\<open>src/src/nativefs/direntry.c\<close>, the table of inodes
  (\<^verbatim>\<open>nativefs/inode_map.c\<close>) and \<^verbatim>\<open>listing_tryget_best_alternative\<close> of \<^verbatim>\<open>nativefs/listing.c\<close>.
  Direntries live in a reference-counted store of their own class; their links are addresses in it.
  The tree may be followed along \<^verbatim>\<open>next\<close> and \<^verbatim>\<open>parent\<close> pointers for ever when it has a cycle, so
  these loops have fuel and return \<open>None\<close> when it is used up; the lemmas give the fuel that is
  enough for an acyclic tree.

  The indexnode is asked for entries through the interface \<open>entry_source\<close>: the functions that do so
  take the request (\<open>tryget\<close>) as an argument. \<open>alloc\<close> is \<^verbatim>\<open>malloc\<close> for listings.
\<close>

section \<open>State\<close>

definition FSFUSE_ROOT_INODE :: nat where "FSFUSE_ROOT_INODE = 1"
definition INODE_MAP_MOD :: nat where "INODE_MAP_MOD = 32"

record direntry_t =
  de_li :: listing_t
  de_inode :: nat
  de_next :: "addr option"
  de_parent :: "addr option"
  de_children :: "addr option"
  de_looked_for_children :: bool

text \<open>
  The table of inodes is a block of \<open>s_inode_map_size\<close> pointers; a slot that was never assigned is
  \<open>None\<close>.
\<close>

record nativefs_t =
  fs_des :: "direntry_t rc_store"
  fs_lis :: "listing_t rc_store"
  fs_ins :: "indexnode_t rc_store"
  s_inode_map :: "addr option list"
  s_inode_map_size :: nat
  s_inode_map_used :: nat
  s_inode_next :: nat

section \<open>direntry.c: life cycle\<close>

definition direntry_copy :: "addr \<Rightarrow> direntry_t rc_store \<Rightarrow> direntry_t rc_store res" where
  "direntry_copy de st = obj_copy de st"

definition direntry_delete :: "addr \<Rightarrow> direntry_t rc_store \<Rightarrow> direntry_t rc_store res" where
  "direntry_delete de st = obj_delete de st"

definition direntry_equal :: "direntry_t \<Rightarrow> direntry_t \<Rightarrow> bool res" where
  "direntry_equal de other = listing_equal (de_li de) (de_li other)"

text \<open>The traversal functions return null or a copy.\<close>

definition copy_link ::
  "addr option \<Rightarrow> direntry_t rc_store \<Rightarrow> (addr option \<times> direntry_t rc_store) res" where
  "copy_link l st =
     (case l of None \<Rightarrow> Inr (None, st) | Some a \<Rightarrow> bind_res (direntry_copy a st) (\<lambda>st. Inr (Some a, st)))"

definition direntry_get_parent ::
  "addr \<Rightarrow> direntry_t rc_store \<Rightarrow> (addr option \<times> direntry_t rc_store) res" where
  "direntry_get_parent de st = bind_res (obj_get de st) (\<lambda>d. copy_link (de_parent d) st)"

definition direntry_get_first_child ::
  "addr \<Rightarrow> direntry_t rc_store \<Rightarrow> (addr option \<times> direntry_t rc_store) res" where
  "direntry_get_first_child de st = bind_res (obj_get de st) (\<lambda>d. copy_link (de_children d) st)"

definition direntry_get_next_sibling ::
  "addr \<Rightarrow> direntry_t rc_store \<Rightarrow> (addr option \<times> direntry_t rc_store) res" where
  "direntry_get_next_sibling de st = bind_res (obj_get de st) (\<lambda>d. copy_link (de_next d) st)"

definition direntry_get_name :: "addr \<Rightarrow> direntry_t rc_store \<Rightarrow> string res" where
  "direntry_get_name de st = bind_res (obj_get de st) (\<lambda>d. listing_get_name (de_li d))"

text \<open>The getters of a live direntry; the two notifications do nothing.\<close>

definition direntry_get_inode :: "direntry_t \<Rightarrow> nat" where "direntry_get_inode de = de_inode de"

definition direntry_get_hash :: "direntry_t \<Rightarrow> string res" where
  "direntry_get_hash de = listing_get_hash (de_li de)"

definition direntry_get_type :: "direntry_t \<Rightarrow> listing_type_t" where
  "direntry_get_type de = listing_get_type (de_li de)"

definition direntry_get_size :: "direntry_t \<Rightarrow> int" where
  "direntry_get_size de = listing_get_size (de_li de)"

definition direntry_get_link_count :: "direntry_t \<Rightarrow> nat" where
  "direntry_get_link_count de = listing_get_link_count (de_li de)"

definition direntry_get_href :: "direntry_t \<Rightarrow> string res" where
  "direntry_get_href de = listing_get_href (de_li de)"

definition direntry_get_looked_for_children :: "direntry_t \<Rightarrow> bool" where
  "direntry_get_looked_for_children de = de_looked_for_children de"

definition direntry_still_exists :: "direntry_t \<Rightarrow> direntry_t" where "direntry_still_exists de = de"

definition direntry_no_longer_exists :: "direntry_t \<Rightarrow> direntry_t" where "direntry_no_longer_exists de = de"

definition direntry_is_root :: "direntry_t \<Rightarrow> bool" where
  "direntry_is_root de = (de_inode de = FSFUSE_ROOT_INODE)"

definition direntry_set_looked_for_children :: "bool \<Rightarrow> direntry_t \<Rightarrow> direntry_t" where
  "direntry_set_looked_for_children val de = de\<lparr>de_looked_for_children := val\<rparr>"

definition direntry_de2stat :: "attr_config \<Rightarrow> direntry_t \<Rightarrow> stat" where
  "direntry_de2stat config de = (listing_li2stat config (de_li de))\<lparr>st_ino := de_inode de\<rparr>"

record fuse_entry_param =
  fe_ino :: nat
  fe_generation :: nat
  fe_attr :: stat

definition direntry_de2fuse_entry :: "attr_config \<Rightarrow> direntry_t \<Rightarrow> fuse_entry_param" where
  "direntry_de2fuse_entry config de =
     \<lparr>fe_ino = de_inode de, fe_generation = 0, fe_attr = direntry_de2stat config de\<rparr>"

text \<open>Deleting a list of siblings: the next sibling is copied before the current one is deleted.\<close>

fun direntry_delete_list ::
  "nat \<Rightarrow> addr option \<Rightarrow> direntry_t rc_store \<Rightarrow> direntry_t rc_store res option" where
  "direntry_delete_list 0 de st = None"
| "direntry_delete_list (Suc fuel) None st = Some (Inr st)"
| "direntry_delete_list (Suc fuel) (Some de) st =
     (case bind_res (direntry_get_next_sibling de st) (\<lambda>(nxt, st).
           bind_res (direntry_delete de st) (\<lambda>st. Inr (nxt, st))) of
        Inl e \<Rightarrow> Some (Inl e)
      | Inr (nxt, st) \<Rightarrow> direntry_delete_list fuel nxt st)"

section \<open>inode\_map.c\<close>

definition inode_map_add :: "nat \<Rightarrow> addr \<Rightarrow> nativefs_t \<Rightarrow> nativefs_t res" where
  "inode_map_add inode de fs =
     (let fs = (if inode \<ge> s_inode_map_size fs
                then fs\<lparr>s_inode_map_size := s_inode_map_size fs + INODE_MAP_MOD,
                        s_inode_map := s_inode_map fs @ replicate INODE_MAP_MOD None\<rparr>
                else fs) in
      bind_res (direntry_copy de (fs_des fs)) (\<lambda>st.
      if inode < length (s_inode_map fs)
      then Inr (fs\<lparr>fs_des := st, s_inode_map := (s_inode_map fs)[inode := Some de],
                   s_inode_map_used := inode + 1\<rparr>)
      else Inl OutOfBounds))"

definition inode_map_get :: "nat \<Rightarrow> nativefs_t \<Rightarrow> (addr option \<times> nativefs_t) res" where
  "inode_map_get inode fs =
     (if inode < s_inode_map_used fs
      then if inode < length (s_inode_map fs)
        then (case s_inode_map fs ! inode of
                None \<Rightarrow> Inl Uninitialised
              | Some de \<Rightarrow>
                  bind_res (direntry_copy de (fs_des fs)) (\<lambda>st. Inr (Some de, fs\<lparr>fs_des := st\<rparr>)))
        else Inl OutOfBounds
      else Inr (None, fs))"

definition inode_next :: "nativefs_t \<Rightarrow> nat \<times> nativefs_t" where
  "inode_next fs = (s_inode_next fs, fs\<lparr>s_inode_next := s_inode_next fs + 1\<rparr>)"

text \<open>
  Clearing deletes the references and frees the table; the number of slots in use is not reset, so
  a lookup after it is out of bounds (of the freed table).
\<close>

definition inode_map_clear :: "nativefs_t \<Rightarrow> nativefs_t res" where
  "inode_map_clear fs =
     bind_res (fold_res (\<lambda>i st.
          if i < length (s_inode_map fs)
          then (case s_inode_map fs ! i of None \<Rightarrow> Inl Uninitialised | Some de \<Rightarrow> direntry_delete de st)
          else Inl OutOfBounds) [1..<s_inode_map_used fs] (fs_des fs)) (\<lambda>st.
     Inr (fs\<lparr>fs_des := st, s_inode_map := []\<rparr>))"

section \<open>direntry.c: making direntries\<close>

text \<open>
  Callers see the prototype of \<^verbatim>\<open>inode_map.h\<close>, which has one parameter where the definition has
  two: the call passes the direntry where the inode is expected and no direntry at all.
\<close>

definition inode_map_add_by_prototype :: "addr \<Rightarrow> nativefs_t \<Rightarrow> nativefs_t res" where
  "inode_map_add_by_prototype de fs = Inl BadCall"

text \<open>
  \<^verbatim>\<open>direntry_from_listing\<close> moves the listing to a larger block at address \<open>a\<close>, and clears memory
  from \<^verbatim>\<open>de + sizeof(listing_t)\<close> on, which counts in units of direntries. Sizes are those of a
  64-bit machine.
\<close>

definition sizeof_listing_t :: nat where "sizeof_listing_t = 72"
definition sizeof_direntry_t :: nat where "sizeof_direntry_t = 112"

definition direntry_from_listing :: "addr \<Rightarrow> addr \<Rightarrow> nativefs_t \<Rightarrow> (addr \<times> nativefs_t) res" where
  "direntry_from_listing a li fs =
     (case fs_lis fs li of
        None \<Rightarrow> Inl UseAfterFree
      | Some (rc, l) \<Rightarrow>
          if sizeof_listing_t * sizeof_direntry_t + (sizeof_direntry_t - sizeof_listing_t) \<le> sizeof_direntry_t
          then let (inode, fs) = inode_next fs;
                   fs = fs\<lparr>fs_lis := (fs_lis fs)(li := None),
                           fs_des := (fs_des fs)(a \<mapsto> (rc, \<lparr>de_li = l, de_inode = inode, de_next = None,
                             de_parent = None, de_children = None, de_looked_for_children = False\<rparr>))\<rparr> in
            bind_res (inode_map_add_by_prototype a fs) (\<lambda>fs. Inr (a, fs))
          else Inl OutOfBounds)"

text \<open>The root comes from \<^verbatim>\<open>calloc\<close>: it has no reference count and no indexnode.\<close>

definition direntry_new_root :: "addr \<Rightarrow> nativefs_t \<Rightarrow> (addr \<times> nativefs_t) res" where
  "direntry_new_root a fs =
     (let li = \<lparr>li_in = None, li_name = Some '''', li_hash = None, li_type = listing_type_DIRECTORY,
                li_size = 0, li_link_count = 1, li_href = None, li_client = None\<rparr>;
          fs = fs\<lparr>fs_des := (fs_des fs)(a \<mapsto> (None, \<lparr>de_li = li, de_inode = FSFUSE_ROOT_INODE,
                 de_next = None, de_parent = None, de_children = None,
                 de_looked_for_children = False\<rparr>))\<rparr> in
      bind_res (inode_map_add_by_prototype a fs) (\<lambda>fs. Inr (a, fs)))"

definition direntry_init :: "addr \<Rightarrow> nativefs_t \<Rightarrow> nativefs_t res" where
  "direntry_init a fs =
     bind_res (direntry_new_root a fs) (\<lambda>(de, fs).
     bind_res (direntry_delete de (fs_des fs)) (\<lambda>st. Inr (fs\<lparr>fs_des := st\<rparr>)))"

definition direntry_finalise :: "nativefs_t \<Rightarrow> nativefs_t res" where
  "direntry_finalise fs = inode_map_clear fs"

text \<open>Setting the links of a new child and chaining it to the previous one.\<close>

definition chain_child :: "addr \<Rightarrow> addr option \<Rightarrow> addr \<Rightarrow> nativefs_t \<Rightarrow> nativefs_t res" where
  "chain_child parent prev de fs =
     bind_res (obj_get de (fs_des fs)) (\<lambda>d.
     bind_res (obj_put de (d\<lparr>de_parent := Some parent, de_next := prev\<rparr>) (fs_des fs)) (\<lambda>st.
     Inr (fs\<lparr>fs_des := st\<rparr>)))"

definition direntries_from_listing_list ::
  "(nativefs_t \<Rightarrow> addr) \<Rightarrow> listing_list_t \<Rightarrow> addr \<Rightarrow> nativefs_t \<Rightarrow> (addr option \<times> nativefs_t) res" where
  "direntries_from_listing_list alloc lis parent fs =
     fold_res (\<lambda>i (prev, fs).
       bind_res (listing_list_get_item lis i (fs_lis fs)) (\<lambda>(li, st).
       let fs = fs\<lparr>fs_lis := st\<rparr> in
       bind_res (direntry_from_listing (alloc fs) li fs) (\<lambda>(de, fs).
       bind_res (listing_delete li (fs_lis fs)) (\<lambda>st.
       bind_res (chain_child parent prev de (fs\<lparr>fs_lis := st\<rparr>)) (\<lambda>fs.
       Inr (Some de, fs)))))) [0..<listing_list_get_count lis] (None, fs)"

section \<open>direntry.c: paths and children\<close>

fun direntry_get_path_inner ::
  "nat \<Rightarrow> addr \<Rightarrow> direntry_t rc_store \<times> string_buffer_t \<Rightarrow>
   (direntry_t rc_store \<times> string_buffer_t) res option" where
  "direntry_get_path_inner 0 de s = None"
| "direntry_get_path_inner (Suc fuel) de (st, path) =
     (let finish = (\<lambda>(st, path).
            bind_res (direntry_get_name de st) (\<lambda>name.
            bind_res (string_buffer_append path (HeapStr name)) (\<lambda>path.
            bind_res (string_buffer_append path (HeapStr ''/'')) (\<lambda>path. Inr (st, path))))) in
      case direntry_get_parent de st of
        Inl e \<Rightarrow> Some (Inl e)
      | Inr (None, st) \<Rightarrow> Some (finish (st, path))
      | Inr (Some parent, st) \<Rightarrow>
          map_option (\<lambda>r. bind_res r (\<lambda>(st, path).
              bind_res (direntry_delete parent st) (\<lambda>st. finish (st, path))))
            (direntry_get_path_inner fuel parent (st, path)))"

definition direntry_get_path ::
  "nat \<Rightarrow> addr \<Rightarrow> direntry_t rc_store \<Rightarrow> (string \<times> direntry_t rc_store) res option" where
  "direntry_get_path fuel de st =
     (case string_buffer_new of
        Inl e \<Rightarrow> Some (Inl e)
      | Inr path \<Rightarrow>
          map_option (\<lambda>r. bind_res r (\<lambda>(st, path).
              bind_res (string_buffer_commit path) (\<lambda>s. Inr (s, st))))
            (direntry_get_path_inner fuel de (st, path)))"

text \<open>The callback that collects listings, on the state of its context and the two stores.\<close>

type_synonym found_state = "entry_found_ctxt_t \<times> indexnode_t rc_store \<times> listing_t rc_store"

definition entry_found_cb :: "(listing_t rc_store \<Rightarrow> addr) \<Rightarrow> found_state entry_found_cb" where
  "entry_found_cb alloc e = (\<lambda>(ctxt, ins, lis).
     entry_found (alloc lis) (fe_hash e) (fe_name e) (fe_type e) (fe_size e) (fe_link_count e)
       (fe_href e) (fe_client e) (ctxt, ins, lis))"

type_synonym tryget_t =
  "indexnode_t \<Rightarrow> char_ptr \<Rightarrow> found_state entry_found_cb \<Rightarrow> found_state \<Rightarrow> (int \<times> found_state) res"

text \<open>
  The request for the children. The path is passed on from its second character, so the pointer is
  not the start of a block and must not be freed (\<open>Literal\<close>).
\<close>

definition fetch_children ::
  "tryget_t \<Rightarrow> (listing_t rc_store \<Rightarrow> addr) \<Rightarrow> direntry_t \<Rightarrow> string \<Rightarrow> nativefs_t \<Rightarrow>
   (int \<times> listing_list_t \<times> nativefs_t) res" where
  "fetch_children tryget alloc d path fs =
     (case li_in (de_li d) of
        None \<Rightarrow> Inl NullDeref
      | Some ind \<Rightarrow>
          bind_res (indexnode_copy ind (fs_ins fs)) (\<lambda>ins.
          bind_res (obj_get ind ins) (\<lambda>node.
          bind_res (tryget node (Literal (tl path)) (entry_found_cb alloc)
                      (\<lparr>ctxt_in = ind, ctxt_lis = listing_list_new 0, ctxt_i = 0\<rparr>, ins, fs_lis fs))
            (\<lambda>(rc, ctxt, ins, lis). Inr (rc, ctxt_lis ctxt, fs\<lparr>fs_ins := ins, fs_lis := lis\<rparr>)))))"

definition direntry_ensure_children ::
  "tryget_t \<Rightarrow> (listing_t rc_store \<Rightarrow> addr) \<Rightarrow> (nativefs_t \<Rightarrow> addr) \<Rightarrow> nat \<Rightarrow> addr \<Rightarrow> nativefs_t \<Rightarrow>
   (int \<times> nativefs_t) res option" where
  "direntry_ensure_children tryget alloc_li alloc_de fuel de fs =
     (case obj_get de (fs_des fs) of
        Inl e \<Rightarrow> Some (Inl e)
      | Inr d \<Rightarrow>
          if de_looked_for_children d then Some (Inr (EIO, fs))
          else map_option (\<lambda>r.
            bind_res r (\<lambda>(path, st).
            bind_res (fetch_children tryget alloc_li d path (fs\<lparr>fs_des := st\<rparr>)) (\<lambda>(got, lis, fs).
            bind_res
              (if got \<noteq> 0
               then bind_res (direntries_from_listing_list alloc_de lis de fs) (\<lambda>(dirents, fs).
                    bind_res (listing_list_delete lis (fs_lis fs)) (\<lambda>st.
                    Inr (0, dirents, fs\<lparr>fs_lis := st\<rparr>)))
               else Inr (EIO, None, fs)) (\<lambda>(rc, dirents, fs).
            bind_res (obj_get de (fs_des fs)) (\<lambda>d.
            bind_res (obj_put de (d\<lparr>de_children := dirents, de_looked_for_children := True\<rparr>) (fs_des fs))
              (\<lambda>st. Inr (rc, fs\<lparr>fs_des := st\<rparr>)))))))
            (direntry_get_path fuel de (fs_des fs)))"

definition direntry_get_by_inode :: "nat \<Rightarrow> nativefs_t \<Rightarrow> (int \<times> addr option \<times> nativefs_t) res" where
  "direntry_get_by_inode ino fs =
     bind_res (inode_map_get ino fs) (\<lambda>(de, fs). Inr (if de \<noteq> None then 0 else ENOENT, de, fs))"

text \<open>The loop over the children: the first one with the name, with the reference the loop holds.\<close>

fun find_child ::
  "nat \<Rightarrow> string \<Rightarrow> addr option \<Rightarrow> direntry_t rc_store \<Rightarrow>
   (int \<times> addr option \<times> direntry_t rc_store) res option" where
  "find_child 0 name child st = None"
| "find_child (Suc fuel) name None st = Some (Inr (ENOENT, None, st))"
| "find_child (Suc fuel) name (Some child) st =
     (case direntry_get_name child st of
        Inl e \<Rightarrow> Some (Inl e)
      | Inr n \<Rightarrow>
          if n = name then Some (Inr (0, Some child, st))
          else (case bind_res (direntry_get_next_sibling child st) (\<lambda>(nxt, st).
                     bind_res (direntry_delete child st) (\<lambda>st. Inr (nxt, st))) of
                  Inl e \<Rightarrow> Some (Inl e)
                | Inr (nxt, st) \<Rightarrow> find_child fuel name nxt st))"

definition direntry_get_child_by_name ::
  "tryget_t \<Rightarrow> (listing_t rc_store \<Rightarrow> addr) \<Rightarrow> (nativefs_t \<Rightarrow> addr) \<Rightarrow> nat \<Rightarrow> nat \<Rightarrow> string \<Rightarrow> nativefs_t \<Rightarrow>
   (int \<times> addr option \<times> nativefs_t) res option" where
  "direntry_get_child_by_name tryget alloc_li alloc_de fuel parent name fs =
     (case direntry_get_by_inode parent fs of
        Inl e \<Rightarrow> Some (Inl e)
      | Inr (rc, None, fs) \<Rightarrow> Some (Inr (rc, None, fs))
      | Inr (rc, Some de, fs) \<Rightarrow>
          (case direntry_ensure_children tryget alloc_li alloc_de fuel de fs of
             None \<Rightarrow> None
           | Some (Inl e) \<Rightarrow> Some (Inl e)
           | Some (Inr (_, fs)) \<Rightarrow>
               (case direntry_get_first_child de (fs_des fs) of
                  Inl e \<Rightarrow> Some (Inl e)
                | Inr (child, st) \<Rightarrow>
                    map_option (\<lambda>r.
                      bind_res r (\<lambda>(rc, child, st).
                      bind_res (direntry_delete de st) (\<lambda>st.
                      Inr (rc, if rc = 0 then child else None, fs\<lparr>fs_des := st\<rparr>))))
                      (find_child fuel name child st))))"

section \<open>listing.c: the best alternative\<close>

definition listing_tryget_best_alternative ::
  "tryget_t \<Rightarrow> (listing_t rc_store \<Rightarrow> addr) \<Rightarrow> string list option \<Rightarrow> string list option \<Rightarrow> nat \<Rightarrow>
   listing_t \<Rightarrow> nativefs_t \<Rightarrow> (int \<times> addr option \<times> nativefs_t) res" where
  "listing_tryget_best_alternative tryget alloc favourites blocked random li_reference fs =
     (case li_in li_reference of
        None \<Rightarrow> Inl NullDeref
      | Some ind \<Rightarrow>
          bind_res (indexnode_copy ind (fs_ins fs)) (\<lambda>ins.
          bind_res (indexnode_copy ind ins) (\<lambda>ins.
          bind_res (listing_get_hash li_reference) (\<lambda>hash.
          bind_res (obj_get ind ins) (\<lambda>node.
          bind_res (tryget node (HeapStr hash) (entry_found_cb alloc)
                      (\<lparr>ctxt_in = ind, ctxt_lis = listing_list_new 0, ctxt_i = 0\<rparr>, ins, fs_lis fs))
            (\<lambda>(rc, ctxt, ins, lis).
          bind_res (peerstats_chose_alternative favourites blocked random (ctxt_lis ctxt) lis)
            (\<lambda>(li_best, lis).
          bind_res (listing_list_delete (ctxt_lis ctxt) lis) (\<lambda>lis.
          Inr (rc, li_best, fs\<lparr>fs_ins := ins, fs_lis := lis\<rparr>)))))))))"

interpretation direntry_rc: counted direntry_copy direntry_delete refs contents_at max_refs
  unfolding direntry_copy_def [abs_def] direntry_delete_def [abs_def] by (rule rc_obj.counted_axioms)

section \<open>Trees\<close>

text \<open>
  \<open>chain st l xs\<close>: following \<^verbatim>\<open>next\<close> from the link \<open>l\<close> visits exactly \<open>xs\<close>. \<open>lineage st a xs\<close>:
  following \<^verbatim>\<open>parent\<close> from \<open>a\<close> visits exactly \<open>xs\<close>, the last of which has no parent.
\<close>

fun chain :: "direntry_t rc_store \<Rightarrow> addr option \<Rightarrow> addr list \<Rightarrow> bool" where
  "chain st l [] = (l = None)"
| "chain st l (x # xs) =
     (l = Some x \<and> (case contents_at st x of None \<Rightarrow> False | Some d \<Rightarrow> chain st (de_next d) xs))"

fun lineage :: "direntry_t rc_store \<Rightarrow> addr \<Rightarrow> addr list \<Rightarrow> bool" where
  "lineage st a [] = False"
| "lineage st a (x # xs) =
     (a = x \<and> (case contents_at st x of
        None \<Rightarrow> False
      | Some d \<Rightarrow> (case de_parent d of None \<Rightarrow> xs = [] | Some p \<Rightarrow> lineage st p xs)))"

definition name_at :: "direntry_t rc_store \<Rightarrow> addr \<Rightarrow> string option" where
  "name_at st a = (case contents_at st a of None \<Rightarrow> None | Some d \<Rightarrow> li_name (de_li d))"

text \<open>A direntry that is alive, has a name, and has room for the references the loops take.\<close>

definition healthy :: "direntry_t rc_store \<Rightarrow> addr \<Rightarrow> bool" where
  "healthy st a \<longleftrightarrow> 0 < refs st a \<and> refs st a + 2 \<le> max_refs \<and> name_at st a \<noteq> None"

lemma chain_cong: "contents_at st = contents_at st' \<Longrightarrow> chain st l xs = chain st' l xs"
  by (induction xs arbitrary: l) (auto split: option.splits)

lemma lineage_cong: "contents_at st = contents_at st' \<Longrightarrow> lineage st a xs = lineage st' a xs"
  by (induction xs arbitrary: a) (auto split: option.splits)

lemma name_at_cong: "contents_at st = contents_at st' \<Longrightarrow> name_at st = name_at st'"
  by (rule ext) (simp add: name_at_def)

lemma direntry_get_name_ok:
  assumes "0 < refs st a" "name_at st a = Some n"
  shows "direntry_get_name a st = Inr n"
  using assms obj_get_contents [of st a]
  by (auto simp: direntry_get_name_def name_at_def listing_get_name_def split: option.splits)

lemma copy_link_Some:
  assumes "0 < refs st a" "refs st a < max_refs"
  shows "\<exists>st'. copy_link (Some a) st = Inr (Some a, st') \<and>
           refs st' = (refs st)(a := refs st a + 1) \<and> contents_at st' = contents_at st"
  using direntry_rc.copy_count [OF assms] by (auto simp: copy_link_def)

lemma copy_link_None [simp]: "copy_link None st = Inr (None, st)"
  by (simp add: copy_link_def)

lemma drop_reference:
  assumes "1 < refs st a"
  shows "\<exists>st'. direntry_delete a st = Inr st' \<and> refs st' = (refs st)(a := refs st a - 1) \<and>
           contents_at st' = contents_at st"
  using direntry_rc.delete_count [of st a] obj_delete_keeps [of a st] assms
  unfolding direntry_delete_def by auto

section \<open>The loop over the children\<close>

text \<open>The reference counts when one more reference is held on the object of a link.\<close>

definition held :: "(addr \<Rightarrow> nat) \<Rightarrow> addr option \<Rightarrow> addr \<Rightarrow> nat" where
  "held r l a = r a + (if l = Some a then 1 else 0)"

lemma held_None [simp]: "held r None = r"
  by (simp add: held_def fun_eq_iff)

lemma held_upd: "r(a := Suc (r a)) = held r (Some a)"
  by (simp add: held_def fun_eq_iff)

lemma copy_link_held:
  assumes "\<forall>a. l = Some a \<longrightarrow> 0 < refs st a \<and> refs st a < max_refs"
  shows "\<exists>st'. copy_link l st = Inr (l, st') \<and> refs st' = held (refs st) l \<and>
           contents_at st' = contents_at st"
  using assms copy_link_Some by (cases l) (auto simp: held_upd)

lemma drop_held:
  assumes "refs s = held r (Some a)" "0 < r a"
  shows "\<exists>s'. direntry_delete a s = Inr s' \<and> refs s' = r \<and> contents_at s' = contents_at s"
proof -
  have "1 < refs s a" using assms by (simp add: held_def)
  from drop_reference [OF this] show ?thesis using assms by (auto simp: held_def fun_eq_iff)
qed

lemma held_commute: "held (held r l) l' = held (held r l') l"
  by (simp add: held_def fun_eq_iff)

text \<open>One step of a loop over siblings: the reference moves from one sibling to the next.\<close>

lemma sibling_step:
  assumes "chain st (Some x) (x # xs)" "\<forall>y \<in> set (x # xs). healthy st y"
    and "contents_at s = contents_at st" "refs s = held (refs st) (Some x)"
  obtains d s' where "contents_at st x = Some d" "obj_get x s = Inr d" "chain st (de_next d) xs"
    "bind_res (direntry_get_next_sibling x s) (\<lambda>(nxt, s). bind_res (direntry_delete x s) (\<lambda>s. Inr (nxt, s))) =
      Inr (de_next d, s')"
    "contents_at s' = contents_at st" "refs s' = held (refs st) (de_next d)"
proof -
  from assms(1) obtain d where d: "contents_at st x = Some d" "chain st (de_next d) xs"
    by (auto split: option.splits)
  have hx: "healthy st x" using assms(2) by simp
  have "0 < refs s x" using assms(4) by (simp add: held_def)
  then have getx: "obj_get x s = Inr d" using d(1) assms(3) by (simp add: obj_get_contents)
  have "healthy st y" if "de_next d = Some y" for y
    using that d(2) assms(2) by (cases xs) auto
  then have "\<forall>y. de_next d = Some y \<longrightarrow> 0 < refs s y \<and> refs s y < max_refs"
    using assms(4) by (auto simp: healthy_def held_def)
  from copy_link_held [OF this] obtain s1 where
    s1: "copy_link (de_next d) s = Inr (de_next d, s1)" "contents_at s1 = contents_at st"
      "refs s1 = held (held (refs st) (de_next d)) (Some x)"
    using assms(3,4) held_commute [of "refs st" "Some x" "de_next d"] by auto
  have "0 < held (refs st) (de_next d) x" using hx by (simp add: held_def healthy_def)
  from drop_held [OF s1(3) this] obtain s2 where
    s2: "direntry_delete x s1 = Inr s2" "refs s2 = held (refs st) (de_next d)"
      "contents_at s2 = contents_at st" using s1(2) by auto
  show ?thesis
    by (rule that [OF d(1) getx d(2) _ s2(3,2)]) (use getx s1(1) s2(1) in \<open>simp add: direntry_get_next_sibling_def\<close>)
qed

lemma find_child_correct:
  assumes "chain st l xs" "\<forall>x \<in> set xs. healthy st x" "length xs < fuel"
    and "contents_at s = contents_at st" "refs s = held (refs st) l"
  shows "let found = find (\<lambda>x. name_at st x = Some name) xs in
    \<exists>s'. find_child fuel name l s = Some (Inr (if found = None then ENOENT else 0, found, s')) \<and>
      contents_at s' = contents_at st \<and> refs s' = held (refs st) found"
  using assms
proof (induction xs arbitrary: l fuel s)
  case Nil
  then show ?case by (cases fuel) auto
next
  case (Cons x xs)
  then obtain f where f: "fuel = Suc f" and l: "l = Some x"
    by (cases fuel) (auto split: option.splits)
  have "chain st (Some x) (x # xs)" "refs s = held (refs st) (Some x)"
    using Cons.prems(1,5) l by simp_all
  from sibling_step [OF this(1) Cons.prems(2,4) this(2)] obtain d s2 where
    "contents_at st x = Some d" "obj_get x s = Inr d" and d: "chain st (de_next d) xs" and
    step: "bind_res (direntry_get_next_sibling x s) (\<lambda>(nxt, s). bind_res (direntry_delete x s) (\<lambda>s. Inr (nxt, s))) =
        Inr (de_next d, s2)" and
    s2: "contents_at s2 = contents_at st" "refs s2 = held (refs st) (de_next d)" .
  obtain n where n: "name_at st x = Some n" using Cons.prems(2) by (auto simp: healthy_def)
  have "0 < refs s x" using Cons.prems(5) l by (simp add: held_def)
  then have nm: "direntry_get_name x s = Inr n"
    using direntry_get_name_ok n name_at_cong [OF Cons.prems(4)] by simp
  show ?case
  proof (cases "n = name")
    case True
    then show ?thesis using f l nm n Cons.prems(4,5) by simp
  next
    case False
    have "find_child fuel name l s = find_child f name (de_next d) s2"
      using f l nm False step by auto
    then show ?thesis
      using Cons.IH [OF d _ _ s2, of f] Cons.prems(2,3) f False n by simp
  qed
qed

lemma get_child_by_name_ok:
  assumes "parent < s_inode_map_used fs" "parent < length (s_inode_map fs)"
    and "s_inode_map fs ! parent = Some de"
    and "contents_at (fs_des fs) de = Some d" "de_looked_for_children d"
    and "chain (fs_des fs) (de_children d) xs" "\<forall>x \<in> set (de # xs). healthy (fs_des fs) x"
    and "de \<notin> set xs" "length xs < fuel"
  shows "let found = find (\<lambda>x. name_at (fs_des fs) x = Some name) xs in
    \<exists>st'. direntry_get_child_by_name tryget alloc_li alloc_de fuel parent name fs =
        Some (Inr (if found = None then ENOENT else 0, found, fs\<lparr>fs_des := st'\<rparr>)) \<and>
      contents_at st' = contents_at (fs_des fs) \<and> refs st' = held (refs (fs_des fs)) found"
proof -
  let ?st = "fs_des fs" and ?found = "find (\<lambda>x. name_at (fs_des fs) x = Some name) xs"
  have hde: "0 < refs ?st de" "refs ?st de < max_refs" using assms(7) by (auto simp: healthy_def)
  from direntry_rc.copy_count [OF this] obtain s1 where
    s1: "direntry_copy de ?st = Inr s1" "refs s1 = held (refs ?st) (Some de)"
      "contents_at s1 = contents_at ?st" by (auto simp: held_upd)
  have by_inode: "direntry_get_by_inode parent fs = Inr (0, Some de, fs\<lparr>fs_des := s1\<rparr>)"
    using assms(1-3) s1(1) by (simp add: direntry_get_by_inode_def inode_map_get_def)
  have getd: "obj_get de s1 = Inr d"
    using s1 hde assms(4) by (intro obj_get_contents) (simp_all add: held_def)
  have "healthy ?st a" if "de_children d = Some a" for a
    using that assms(6,7) by (cases xs) auto
  then have "\<forall>a. de_children d = Some a \<longrightarrow> 0 < refs s1 a \<and> refs s1 a < max_refs"
    using s1(2) by (auto simp: healthy_def held_def)
  from copy_link_held [OF this] obtain s2 where
    s2: "copy_link (de_children d) s1 = Inr (de_children d, s2)"
      "refs s2 = held (refs s1) (de_children d)" "contents_at s2 = contents_at s1" by blast
  have c: "chain s1 (de_children d) xs" using assms(6) chain_cong [OF s1(3)] by blast
  have "\<forall>x \<in> set xs. healthy s1 x"
    using assms(7,8) s1(2) name_at_cong [OF s1(3)] by (auto simp: healthy_def held_def)
  from find_child_correct [OF c this assms(9) s2(3,2), of name] obtain s3 where
    s3: "find_child fuel name (de_children d) s2 =
        Some (Inr (if ?found = None then ENOENT else 0, ?found, s3))"
      "contents_at s3 = contents_at ?st" "refs s3 = held (held (refs ?st) ?found) (Some de)"
    unfolding name_at_cong [OF s1(3)] Let_def using s1(2,3) held_commute [of "refs ?st" "Some de" ?found] by auto
  have "0 < held (refs ?st) ?found de" using hde by (simp add: held_def)
  from drop_held [OF s3(3) this] obtain s4 where
    s4: "direntry_delete de s3 = Inr s4" "refs s4 = held (refs ?st) ?found"
      "contents_at s4 = contents_at ?st" using s3(2) by auto
  have looked: "direntry_ensure_children tryget alloc_li alloc_de fuel de (fs\<lparr>fs_des := s1\<rparr>) =
      Some (Inr (EIO, fs\<lparr>fs_des := s1\<rparr>))"
    using getd assms(5) by (simp add: direntry_ensure_children_def)
  have first: "direntry_get_first_child de s1 = Inr (de_children d, s2)"
    using getd s2(1) by (simp add: direntry_get_first_child_def)
  have "direntry_get_child_by_name tryget alloc_li alloc_de fuel parent name fs =
      Some (Inr (if ?found = None then ENOENT else 0, ?found, fs\<lparr>fs_des := s4\<rparr>))"
    by (simp add: direntry_get_child_by_name_def by_inode looked first s3(1) s4(1))
  then show ?thesis using s4 by (auto simp: Let_def)
qed

text \<open>C7. \<^verbatim>\<open>direntry_get_child_by_name\<close> in a directory whose children are known: the call finds the
  first child of that name and returns it with one reference for the caller, or returns
  \<^verbatim>\<open>ENOENT\<close> when there is none; every other reference count is as before, no direntry changes,
  and the loop ends within as many steps as the directory has children.\<close>
theorem direntry_get_child_by_name_correct:
  assumes "parent < s_inode_map_used fs" "parent < length (s_inode_map fs)"
    and "s_inode_map fs ! parent = Some de"
    and "contents_at (fs_des fs) de = Some d" "de_looked_for_children d"
    and "chain (fs_des fs) (de_children d) xs" "\<forall>x \<in> set (de # xs). healthy (fs_des fs) x"
    and "de \<notin> set xs" "length xs < fuel"
  shows "let found = find (\<lambda>x. name_at (fs_des fs) x = Some name) xs in
    \<exists>st'. direntry_get_child_by_name tryget alloc_li alloc_de fuel parent name fs =
        Some (Inr (if found = None then ENOENT else 0, found, fs\<lparr>fs_des := st'\<rparr>)) \<and>
      contents_at st' = contents_at (fs_des fs) \<and> refs st' = held (refs (fs_des fs)) found"
  using get_child_by_name_ok [OF assms] .

text \<open>An example tree: a root directory with the children a and b, whose children are known.\<close>

definition example_de :: "string \<Rightarrow> nat \<Rightarrow> addr option \<Rightarrow> addr option \<Rightarrow> addr option \<Rightarrow> direntry_t" where
  "example_de name inode nxt par kids =
     \<lparr>de_li = \<lparr>li_in = None, li_name = Some name, li_hash = None, li_type = listing_type_DIRECTORY,
        li_size = 0, li_link_count = 1, li_href = None, li_client = None\<rparr>,
      de_inode = inode, de_next = nxt, de_parent = par, de_children = kids,
      de_looked_for_children = (kids \<noteq> None)\<rparr>"

definition example_fs :: nativefs_t where
  "example_fs =
     \<lparr>fs_des = [10 \<mapsto> (Some ref_count_new, example_de '''' 1 None None (Some 11)),
                11 \<mapsto> (Some ref_count_new, example_de ''b'' 2 (Some 12) (Some 10) None),
                12 \<mapsto> (Some ref_count_new, example_de ''a'' 3 None (Some 10) None)],
      fs_lis = Map.empty, fs_ins = Map.empty,
      s_inode_map = [None, Some 10, Some 11, Some 12] @ replicate 28 None,
      s_inode_map_size = 32, s_inode_map_used = 4, s_inode_next = 4\<rparr>"

lemma example_refs: "refs (fs_des example_fs) = (\<lambda>a. if a \<in> {10, 11, 12} then 1 else 0)"
  by (rule ext) (simp add: refs_def example_fs_def ref_count_new_def)

lemma example_contents:
  "contents_at (fs_des example_fs) 10 = Some (example_de '''' 1 None None (Some 11))"
  "contents_at (fs_des example_fs) 11 = Some (example_de ''b'' 2 (Some 12) (Some 10) None)"
  "contents_at (fs_des example_fs) 12 = Some (example_de ''a'' 3 None (Some 10) None)"
  by (simp_all add: contents_at_def example_fs_def)

lemma example_de_simps [simp]:
  "de_next (example_de n i nx p k) = nx" "de_parent (example_de n i nx p k) = p"
  "de_children (example_de n i nx p k) = k" "li_name (de_li (example_de n i nx p k)) = Some n"
  "de_looked_for_children (example_de n i nx p k) = (k \<noteq> None)"
  "li_in (de_li (example_de n i nx p k)) = None"
  by (simp_all add: example_de_def)

lemma example_names:
  "name_at (fs_des example_fs) 10 = Some ''''" "name_at (fs_des example_fs) 11 = Some ''b''"
  "name_at (fs_des example_fs) 12 = Some ''a''"
  by (simp_all add: name_at_def example_contents)

theorem direntry_get_child_by_name_correct_witness:
  "\<exists>st'. direntry_get_child_by_name (\<lambda>node path cb c. Inr (0, c)) (\<lambda>_. 0) (\<lambda>_. 0) 3 1 ''a'' example_fs =
      Some (Inr (0, Some 12, example_fs\<lparr>fs_des := st'\<rparr>)) \<and>
    refs st' 12 = 2 \<and> refs st' 11 = 1 \<and> refs st' 10 = 1"
proof -
  have "let found = find (\<lambda>x. name_at (fs_des example_fs) x = Some ''a'') [11, 12] in
    \<exists>st'. direntry_get_child_by_name (\<lambda>node path cb c. Inr (0, c)) (\<lambda>_. 0) (\<lambda>_. 0) 3 1 ''a'' example_fs =
        Some (Inr (if found = None then ENOENT else 0, found, example_fs\<lparr>fs_des := st'\<rparr>)) \<and>
      contents_at st' = contents_at (fs_des example_fs) \<and> refs st' = held (refs (fs_des example_fs)) found"
    by (rule direntry_get_child_by_name_correct [where de = 10 and d = "example_de '''' 1 None None (Some 11)"])
      (simp_all add: example_contents example_refs example_names healthy_def, simp_all add: example_fs_def)
  then show ?thesis by (auto simp: example_names example_refs held_def Let_def)
qed

section \<open>Paths\<close>

definition path_of :: "direntry_t rc_store \<Rightarrow> addr list \<Rightarrow> string" where
  "path_of st xs = concat (map (\<lambda>x. the (name_at st x) @ ''/'') (rev xs))"

lemma path_of_Cons: "path_of st (x # xs) = path_of st xs @ the (name_at st x) @ ''/''"
  by (simp add: path_of_def)

lemma path_of_cong: "contents_at s = contents_at st \<Longrightarrow> path_of s = path_of st"
  using name_at_cong [of s st] by (simp add: path_of_def fun_eq_iff)

text \<open>The part of the recursion after the parent's path: the name and a slash are appended.\<close>

lemma append_name:
  assumes "sb_holds sb pre" "nul_free n"
  shows "\<exists>sb'. bind_res (string_buffer_append sb (HeapStr n))
      (\<lambda>path. bind_res (string_buffer_append path (HeapStr ''/'')) (\<lambda>path. Inr (st, path))) = Inr (st, sb') \<and>
    sb_holds sb' (pre @ n @ ''/'')"
proof -
  from sb.append_holds [OF assms] obtain b1 where
    b1: "string_buffer_append sb (HeapStr n) = Inr b1" "sb_holds b1 (pre @ n)" by blast
  from sb.append_holds [OF b1(2), of "''/''"] b1(1) show ?thesis by auto
qed

lemma path_inner_correct:
  assumes "lineage st a xs" "\<forall>x \<in> set xs. 0 < refs st x \<and> refs st x + length xs \<le> max_refs"
    and "\<forall>x \<in> set xs. \<exists>n. name_at st x = Some n \<and> nul_free n"
    and "length xs \<le> fuel" "sb_holds sb pre"
  shows "\<exists>st' sb'. direntry_get_path_inner fuel a (st, sb) = Some (Inr (st', sb')) \<and>
    contents_at st' = contents_at st \<and> refs st' = refs st \<and> sb_holds sb' (pre @ path_of st xs)"
  using assms
proof (induction xs arbitrary: a fuel st sb pre)
  case Nil
  then show ?case by simp
next
  case (Cons x xs)
  then obtain f d where f: "fuel = Suc f" and a: "a = x" and d: "contents_at st x = Some d"
    by (cases fuel) (auto split: option.splits)
  have live: "0 < refs st x" using Cons.prems(2) by simp
  obtain n where n: "name_at st x = Some n" "nul_free n" using Cons.prems(3) by auto
  have getx: "obj_get x st = Inr d" using obj_get_contents [OF live d] .
  show ?case
  proof (cases "de_parent d")
    case None
    then have "xs = []" using Cons.prems(1) d by simp
    then show ?thesis
      using append_name [OF Cons.prems(5) n(2), of st] f a getx None n
        direntry_get_name_ok [OF live n(1)]
      by (intro exI [of _ st]) (simp add: direntry_get_parent_def path_of_def)
  next
    case (Some p)
    then have lin: "lineage st p xs" using Cons.prems(1) d by simp
    then have "p \<in> set xs" by (cases xs) auto
    then have p: "0 < refs st p" "refs st p < max_refs" using Cons.prems(2) by force+
    from copy_link_held [of "Some p" st] p obtain s1 where
      s1: "copy_link (Some p) st = Inr (Some p, s1)" "refs s1 = held (refs st) (Some p)"
        "contents_at s1 = contents_at st" by auto
    have "\<forall>x \<in> set xs. 0 < refs s1 x \<and> refs s1 x + length xs \<le> max_refs"
      using Cons.prems(2) s1(2) by (fastforce simp: held_def)
    from Cons.IH [OF lin [folded lineage_cong [OF s1(3)]] this _ _ Cons.prems(5), of f]
    obtain s2 sb2 where s2: "direntry_get_path_inner f p (s1, sb) = Some (Inr (s2, sb2))"
        "contents_at s2 = contents_at st" "refs s2 = held (refs st) (Some p)"
        "sb_holds sb2 (pre @ path_of st xs)"
      using Cons.prems(3,4) f s1(2,3) name_at_cong [OF s1(3)] path_of_cong [OF s1(3)] by auto
    from drop_held [OF s2(3) p(1)] obtain s3 where
      s3: "direntry_delete p s2 = Inr s3" "refs s3 = refs st" "contents_at s3 = contents_at st"
      using s2(2) by auto
    have nm: "direntry_get_name x s3 = Inr n"
      using direntry_get_name_ok [of s3 x n] live n(1) s3(2) name_at_cong [OF s3(3)] by simp
    from append_name [OF s2(4) n(2), of s3] obtain sb3 where
      sb3: "bind_res (string_buffer_append sb2 (HeapStr n)) (\<lambda>path. bind_res
          (string_buffer_append path (HeapStr ''/'')) (\<lambda>path. Inr (s3, path))) = Inr (s3, sb3)"
        "sb_holds sb3 ((pre @ path_of st xs) @ n @ ''/'')" by blast
    have "direntry_get_path_inner fuel a (st, sb) = Some (Inr (s3, sb3))"
      unfolding f a
      by (simp add: direntry_get_path_inner.simps(2) [of f x st sb] direntry_get_parent_def getx Some
          s1(1) s2(1) s3(1) nm sb3(1) del: bind_res_eq_Inr)
    then show ?thesis using s3 sb3(2) n(1) by (auto simp: path_of_Cons)
  qed
qed

text \<open>\<^verbatim>\<open>direntry_get_path\<close>: for a direntry whose line of parents ends at the root, the recursion
  ends (with one level per ancestor), the path is the names from the root down to the direntry,
  each followed by a slash, and every reference taken on the way up is given back.\<close>
theorem direntry_get_path_correct:
  assumes "lineage st a xs" "\<forall>x \<in> set xs. 0 < refs st x \<and> refs st x + length xs \<le> max_refs"
    and "\<forall>x \<in> set xs. \<exists>n. name_at st x = Some n \<and> nul_free n" "length xs \<le> fuel"
  shows "\<exists>st'. direntry_get_path fuel a st =
      Some (Inr (concat (map (\<lambda>x. the (name_at st x) @ ''/'') (rev xs)), st')) \<and>
    contents_at st' = contents_at st \<and> refs st' = refs st"
proof -
  from sb_new_holds obtain sb where sb: "string_buffer_new = Inr sb" "sb_holds sb ''''" by blast
  from path_inner_correct [OF assms sb(2)] obtain st' sb' where
    "direntry_get_path_inner fuel a (st, sb) = Some (Inr (st', sb'))"
    "contents_at st' = contents_at st" "refs st' = refs st" "sb_holds sb' (path_of st xs)" by auto
  then show ?thesis
    unfolding direntry_get_path_def sb(1) by (auto simp: sb.commit_holds simp flip: path_of_def)
qed

theorem direntry_get_path_correct_witness:
  "\<exists>st'. direntry_get_path 2 12 (fs_des example_fs) = Some (Inr (''/a/'', st'))"
  using direntry_get_path_correct [of "fs_des example_fs" 12 "[12, 10]" 2]
  by (auto simp: example_contents example_refs example_names)

section \<open>The table of inodes\<close>

text \<open>
  What the rest of the file system relies on: inodes are given out one after the other, the
  direntry of a known inode is found and a reference to it returned, an unknown inode is reported
  as such, and clearing the table gives the references back. \<open>inv s xs\<close>: the inodes from 1 on are
  those of \<open>xs\<close>.
\<close>

locale inode_table =
  fixes add :: "nat \<Rightarrow> addr \<Rightarrow> 's \<Rightarrow> 's res"
    and lookup :: "nat \<Rightarrow> 's \<Rightarrow> (addr option \<times> 's) res"
    and clear :: "'s \<Rightarrow> 's res"
    and inv :: "'s \<Rightarrow> addr list \<Rightarrow> bool"
    and count :: "'s \<Rightarrow> addr \<Rightarrow> nat"
    and limit :: nat
  assumes add_inv: "inv s xs \<Longrightarrow> 0 < count s a \<Longrightarrow> count s a < limit \<Longrightarrow>
      \<exists>s'. add (Suc (length xs)) a s = Inr s' \<and> inv s' (xs @ [a]) \<and>
        count s' = (count s)(a := count s a + 1)"
    and lookup_known: "inv s xs \<Longrightarrow> i < length xs \<Longrightarrow> 0 < count s (xs ! i) \<Longrightarrow>
      count s (xs ! i) < limit \<Longrightarrow>
      \<exists>s'. lookup (Suc i) s = Inr (Some (xs ! i), s') \<and> inv s' xs \<and>
        count s' = (count s)(xs ! i := count s (xs ! i) + 1)"
    and lookup_unknown: "inv s xs \<Longrightarrow> length xs < i \<Longrightarrow> lookup i s = Inr (None, s)"
    and clear_count: "inv s xs \<Longrightarrow> \<forall>a. count_list xs a \<le> count s a \<Longrightarrow>
      \<exists>s'. clear s = Inr s' \<and> count s' = (\<lambda>a. count s a - count_list xs a)"
begin

lemma fill_inv:
  assumes "inv s xs" "\<forall>a \<in> set ys. 0 < count s a \<and> count s a + count_list ys a \<le> limit"
  shows "\<exists>s'. fold_res (\<lambda>(i, a). add i a) (List.enumerate (Suc (length xs)) ys) s = Inr s' \<and>
    inv s' (xs @ ys) \<and> count s' = (\<lambda>a. count s a + count_list ys a)"
  using assms
proof (induction ys arbitrary: s xs)
  case Nil
  then show ?case by simp
next
  case (Cons y ys)
  then have y: "0 < count s y" "count s y < limit" by auto
  from add_inv [OF Cons.prems(1) y] obtain s1 where
    s1: "add (Suc (length xs)) y s = Inr s1" "inv s1 (xs @ [y])"
      "count s1 = (count s)(y := count s y + 1)" by blast
  have "\<forall>a \<in> set ys. 0 < count s1 a \<and> count s1 a + count_list ys a \<le> limit"
    using Cons.prems(2) s1(3) by auto
  from Cons.IH [OF s1(2) this] s1 show ?case by (auto simp: fun_eq_iff)
qed

lemma table_life:
  assumes "inv s []" "\<forall>a \<in> set ys. 0 < count s a \<and> count s a + count_list ys a < limit"
  shows "\<exists>s'. fold_res (\<lambda>(i, a). add i a) (List.enumerate 1 ys) s = Inr s' \<and>
    (\<forall>i < length ys. \<exists>s''. lookup (Suc i) s' = Inr (Some (ys ! i), s'') \<and>
       count s'' = (count s')(ys ! i := count s' (ys ! i) + 1)) \<and>
    (\<forall>i > length ys. lookup i s' = Inr (None, s')) \<and>
    (\<exists>s''. clear s' = Inr s'' \<and> count s'' = count s)"
proof -
  have "\<forall>a \<in> set ys. 0 < count s a \<and> count s a + count_list ys a \<le> limit"
    using assms(2) by (simp add: less_imp_le)
  from fill_inv [OF assms(1) this] obtain s' where
    s': "fold_res (\<lambda>(i, a). add i a) (List.enumerate 1 ys) s = Inr s'" "inv s' ys"
      "count s' = (\<lambda>a. count s a + count_list ys a)" by auto
  have "\<exists>s''. lookup (Suc i) s' = Inr (Some (ys ! i), s'') \<and>
       count s'' = (count s')(ys ! i := count s' (ys ! i) + 1)" if "i < length ys" for i
    using lookup_known [OF s'(2) that] assms(2) that s'(3) by force
  moreover have "\<exists>s''. clear s' = Inr s'' \<and> count s'' = count s"
    using clear_count [OF s'(2)] s'(3) by auto
  ultimately show ?thesis using s'(1) lookup_unknown [OF s'(2)] by blast
qed

end

definition inode_inv :: "nativefs_t \<Rightarrow> addr list \<Rightarrow> bool" where
  "inode_inv fs des \<longleftrightarrow>
     s_inode_map_used fs = (if des = [] then 0 else Suc (length des)) \<and>
     s_inode_map_size fs = length (s_inode_map fs) \<and> s_inode_map_used fs \<le> s_inode_map_size fs \<and>
     (\<forall>i < length des. s_inode_map fs ! Suc i = Some (des ! i))"

lemma inode_map_add_inv:
  assumes "inode_inv fs des" "0 < refs (fs_des fs) de" "refs (fs_des fs) de < max_refs"
  shows "\<exists>fs'. inode_map_add (Suc (length des)) de fs = Inr fs' \<and> inode_inv fs' (des @ [de]) \<and>
    refs (fs_des fs') = (refs (fs_des fs))(de := refs (fs_des fs) de + 1)"
proof -
  from direntry_rc.copy_count [OF assms(2,3)] obtain st where
    st: "direntry_copy de (fs_des fs) = Inr st"
      "refs st = (refs (fs_des fs))(de := refs (fs_des fs) de + 1)" by blast
  define m where "m = (if Suc (length des) \<ge> s_inode_map_size fs
    then s_inode_map fs @ replicate INODE_MAP_MOD None else s_inode_map fs)"
  have len: "length m \<ge> 2 + length des"
    using assms(1) by (auto simp: m_def inode_inv_def INODE_MAP_MOD_def split: if_splits)
  have old: "m ! Suc i = Some (des ! i)" if "i < length des" for i
    using that assms(1) by (auto simp: m_def inode_inv_def nth_append split: if_splits)
  have "inode_map_add (Suc (length des)) de fs =
      Inr (fs\<lparr>fs_des := st, s_inode_map := m[Suc (length des) := Some de], s_inode_map_size := length m,
              s_inode_map_used := Suc (length des) + 1\<rparr>)"
    using st(1) len assms(1)
    by (cases "s_inode_map_size fs \<le> Suc (length des)"; cases fs)
      (simp_all add: inode_map_add_def m_def inode_inv_def INODE_MAP_MOD_def)
  then show ?thesis
    using st(2) len old by (auto simp: inode_inv_def nth_append nth_list_update less_Suc_eq)
qed

lemma inode_map_get_known:
  assumes "inode_inv fs des" "i < length des" "0 < refs (fs_des fs) (des ! i)"
    and "refs (fs_des fs) (des ! i) < max_refs"
  shows "\<exists>fs'. inode_map_get (Suc i) fs = Inr (Some (des ! i), fs') \<and> inode_inv fs' des \<and>
    refs (fs_des fs') = (refs (fs_des fs))(des ! i := refs (fs_des fs) (des ! i) + 1)"
proof -
  from direntry_rc.copy_count [OF assms(3,4)] obtain st where
    st: "direntry_copy (des ! i) (fs_des fs) = Inr st"
      "refs st = (refs (fs_des fs))(des ! i := refs (fs_des fs) (des ! i) + 1)" by blast
  have slot: "Suc i < s_inode_map_used fs" "Suc i < length (s_inode_map fs)"
      "s_inode_map fs ! Suc i = Some (des ! i)"
    using assms(1,2) by (auto simp: inode_inv_def split: if_splits)
  have "inode_inv (fs\<lparr>fs_des := st\<rparr>) des" using assms(1) by (simp add: inode_inv_def)
  then show ?thesis using slot st by (simp add: inode_map_get_def)
qed

lemma inode_map_get_unknown:
  "inode_inv fs des \<Longrightarrow> length des < i \<Longrightarrow> inode_map_get i fs = Inr (None, fs)"
  by (auto simp: inode_map_get_def inode_inv_def split: if_splits)

lemma clear_loop:
  assumes "inode_inv fs des" "k \<le> length des"
  shows "fold_res (\<lambda>i st.
      if i < length (s_inode_map fs)
      then (case s_inode_map fs ! i of None \<Rightarrow> Inl Uninitialised | Some de \<Rightarrow> direntry_delete de st)
      else Inl OutOfBounds) [Suc k..<Suc (length des)] st = fold_res direntry_delete (drop k des) st"
  using assms(2)
proof (induction "length des - k" arbitrary: k st)
  case 0
  then show ?case by simp
next
  case (Suc n)
  then have k: "k < length des" by simp
  have slot: "Suc k < length (s_inode_map fs)" "s_inode_map fs ! Suc k = Some (des ! k)"
    using assms(1) k by (auto simp: inode_inv_def split: if_splits)
  have "n = length des - Suc k" using Suc.hyps(2) by simp
  from Suc.hyps(1) [OF this] k show ?case
    by (cases "direntry_delete (des ! k) st")
      (simp_all add: upt_conv_Cons [of "Suc k"] slot Cons_nth_drop_Suc [symmetric] del: upt_Suc)
qed

lemma inode_map_clear_refs:
  assumes "inode_inv fs des" "\<forall>a. count_list des a \<le> refs (fs_des fs) a"
  shows "\<exists>fs'. inode_map_clear fs = Inr fs' \<and>
    refs (fs_des fs') = (\<lambda>a. refs (fs_des fs) a - count_list des a)"
proof -
  have slots: "[1..<s_inode_map_used fs] = [Suc 0..<Suc (length des)]"
    using assms(1) by (cases des) (auto simp: inode_inv_def)
  from direntry_rc.delete_list [OF assms(2)] obtain st where
    "fold_res direntry_delete des (fs_des fs) = Inr st"
    "refs st = (\<lambda>a. refs (fs_des fs) a - count_list des a)" by blast
  then show ?thesis
    using clear_loop [OF assms(1) le0, of "fs_des fs"]
    unfolding inode_map_clear_def slots by (simp del: upt_Suc)
qed

interpretation im: inode_table inode_map_add inode_map_get inode_map_clear inode_inv
    "\<lambda>fs. refs (fs_des fs)" max_refs
  by unfold_locales
    (fact inode_map_add_inv inode_map_get_known inode_map_get_unknown inode_map_clear_refs)+

text \<open>C18. The inode table (inode\_map.c): when direntries are added under the inodes 1, 2, 3, ... to
  an empty table, every write is inside the table, which grows by 32 slots when it is full; then
  every inode given out finds its own direntry and returns a new reference to it, every larger
  inode is reported as unknown, and clearing the table gives back exactly the references the
  table took.\<close>
theorem inode_map_life:
  assumes "s_inode_map fs = []" "s_inode_map_size fs = 0" "s_inode_map_used fs = 0"
    and "\<forall>a \<in> set des. 0 < refs (fs_des fs) a \<and> refs (fs_des fs) a + count_list des a < max_refs"
  shows "\<exists>fs'. fold_res (\<lambda>(i, a). inode_map_add i a) (List.enumerate 1 des) fs = Inr fs' \<and>
    (\<forall>i < length des. \<exists>fs''. inode_map_get (Suc i) fs' = Inr (Some (des ! i), fs'') \<and>
       refs (fs_des fs'') = (refs (fs_des fs'))(des ! i := refs (fs_des fs') (des ! i) + 1)) \<and>
    (\<forall>i > length des. inode_map_get i fs' = Inr (None, fs')) \<and>
    (\<exists>fs''. inode_map_clear fs' = Inr fs'' \<and> refs (fs_des fs'') = refs (fs_des fs))"
proof -
  have "inode_inv fs []" using assms(1-3) by (simp add: inode_inv_def)
  from im.table_life [OF this assms(4)] show ?thesis .
qed

theorem inode_map_life_witness:
  "\<exists>fs' fs''. fold_res (\<lambda>(i, a). inode_map_add i a) (List.enumerate 1 (replicate 40 10))
      (example_fs\<lparr>s_inode_map := [], s_inode_map_size := 0, s_inode_map_used := 0\<rparr>) = Inr fs' \<and>
    inode_map_get 40 fs' = Inr (Some 10, fs'') \<and> inode_map_get 41 fs' = Inr (None, fs')"
proof -
  let ?fs = "example_fs\<lparr>s_inode_map := [], s_inode_map_size := 0, s_inode_map_used := 0\<rparr>"
  have r: "\<forall>a \<in> set (replicate 40 10). 0 < refs (fs_des ?fs) a \<and>
      refs (fs_des ?fs) a + count_list (replicate 40 10) a < max_refs"
    using example_refs count_le_length [of "replicate 40 10" "10 :: nat"] by simp
  have empty: "s_inode_map ?fs = []" "s_inode_map_size ?fs = 0" "s_inode_map_used ?fs = 0" by simp_all
  from inode_map_life [OF empty r] obtain fs' where
    fs': "fold_res (\<lambda>(i, a). inode_map_add i a) (List.enumerate 1 (replicate 40 10)) ?fs = Inr fs'"
      "\<forall>i < 40. \<exists>fs''. inode_map_get (Suc i) fs' = Inr (Some (replicate 40 10 ! i), fs'')"
      "\<forall>i > 40. inode_map_get i fs' = Inr (None, fs')" unfolding length_replicate by blast
  from fs'(2) [rule_format, of 39] obtain fs'' where "inode_map_get 40 fs' = Inr (Some 10, fs'')" by auto
  moreover have "inode_map_get 41 fs' = Inr (None, fs')" using fs'(3) by simp
  ultimately show ?thesis using fs'(1) by blast
qed

section \<open>Asking for the children\<close>

lemma tryget_listing_inner_pointer:
  "indexnode_tryget_listing perform escape nick chunk x node (Literal s) cb c = Inl InvalidFree"
proof -
  from sb_new_holds obtain sb where sb: "string_buffer_new = Inr sb" by blast
  show ?thesis
    unfolding indexnode_tryget_listing_def tryget_entries_def proto_indexnode_make_url_def make_path_def sb
    by (simp add: fetcher_escape_for_http_def)
qed

text \<open>\<^verbatim>\<open>direntry_ensure_children\<close> on a directory that has not been looked up yet never gets to
  the children: it passes the request a pointer into the middle of the path, which the request
  frees, and for a direntry without an indexnode (the root) it takes a copy of a null indexnode.
  So with the real request, whatever the server would answer, the children of no directory are
  ever read.\<close>
theorem direntry_ensure_children_fails:
  assumes "contents_at (fs_des fs) de = Some d" "\<not> de_looked_for_children d"
    and "lineage (fs_des fs) de xs"
    and "\<forall>x \<in> set xs. 0 < refs (fs_des fs) x \<and> refs (fs_des fs) x + length xs \<le> max_refs"
    and "\<forall>x \<in> set xs. \<exists>n. name_at (fs_des fs) x = Some n \<and> nul_free n" "length xs \<le> fuel"
    and "\<forall>a. li_in (de_li d) = Some a \<longrightarrow> 0 < refs (fs_ins fs) a \<and> refs (fs_ins fs) a < max_refs"
  shows "direntry_ensure_children (indexnode_tryget_listing perform escape nick chunk x)
      alloc_li alloc_de fuel de fs =
    Some (Inl (if li_in (de_li d) = None then NullDeref else InvalidFree))"
proof -
  from sb_new_holds obtain sb where sb: "string_buffer_new = Inr sb" "sb_holds sb ''''" by blast
  from path_inner_correct [OF assms(3-6) sb(2)] obtain st' where
    path: "direntry_get_path fuel de (fs_des fs) = Some (Inr (path_of (fs_des fs) xs, st'))"
    unfolding direntry_get_path_def sb(1) by (auto simp: sb.commit_holds)
  have "de \<in> set xs" using assms(3) by (cases xs) auto
  then have getd: "obj_get de (fs_des fs) = Inr d" using assms(1,4) by (simp add: obj_get_contents)
  have "fetch_children (indexnode_tryget_listing perform escape nick chunk x) alloc_li d
      (path_of (fs_des fs) xs) (fs\<lparr>fs_des := st'\<rparr>) =
    Inl (if li_in (de_li d) = None then NullDeref else InvalidFree)"
  proof (cases "li_in (de_li d)")
    case None
    then show ?thesis by (simp add: fetch_children_def)
  next
    case (Some a)
    from indexnode_rc.copy_count [of "fs_ins fs" a] Some assms(7) obtain ins where
      ins: "indexnode_copy a (fs_ins fs) = Inr ins" "0 < refs ins a" by auto
    then obtain node where "obj_get a ins = Inr node"
      by (auto simp: refs_pos obj_get_def)
    with ins Some show ?thesis by (simp add: fetch_children_def tryget_listing_inner_pointer)
  qed
  with getd assms(2) path show ?thesis by (simp add: direntry_ensure_children_def)
qed

definition example_remote_fs :: nativefs_t where
  "example_remote_fs = example_fs
     \<lparr>fs_des := [13 \<mapsto> (Some ref_count_new, (example_de ''c'' 4 None None None)
        \<lparr>de_li := (de_li (example_de ''c'' 4 None None None))\<lparr>li_in := Some 5\<rparr>\<rparr>)],
      fs_ins := [5 \<mapsto> (Some ref_count_new, \<lparr>in_pin = \<lparr>pin_host = ''h'', pin_port = ''80''\<rparr>,
        in_version = ''0.13'', in_id = ''u'', in_last_seen = 0\<rparr>)]\<rparr>"

theorem direntry_ensure_children_fails_witness:
  "direntry_ensure_children
     (indexnode_tryget_listing (curl_for example_server) id (HeapStr ''me'') (\<lambda>x chunk end. (x, [], 0)) ())
     (\<lambda>_. 50) (\<lambda>_. 60) 1 13 example_remote_fs = Some (Inl InvalidFree)"
proof -
  let ?d = "(example_de ''c'' 4 None None None)
     \<lparr>de_li := (de_li (example_de ''c'' 4 None None None))\<lparr>li_in := Some 5\<rparr>\<rparr>"
  have d: "contents_at (fs_des example_remote_fs) 13 = Some ?d"
    by (simp add: contents_at_def example_remote_fs_def)
  have r: "refs (fs_des example_remote_fs) 13 = 1" "refs (fs_ins example_remote_fs) 5 = 1"
    by (simp_all add: refs_def example_remote_fs_def ref_count_new_def)
  have n: "name_at (fs_des example_remote_fs) 13 = Some ''c''"
    by (simp add: name_at_def d example_de_def)
  show ?thesis
    using direntry_ensure_children_fails [of example_remote_fs 13 ?d "[13]" 1 "curl_for example_server"
        id "HeapStr ''me''" "\<lambda>x chunk end. (x, [], 0)" "()" "\<lambda>_. 50" "\<lambda>_. 60"]
    by (simp add: d r n example_de_def)
qed

end
