(* ===== verification/Fuse_Methods.thy ===== *)
theory Fuse_Methods
  imports Nativefs Indexnodes Downloader
begin

text \<open>
  The FUSE operations (\<^verbatim>\<open>src/src/fuse_methods/*.c\<close>) and their table (\<^verbatim>\<open>fuse_methods.c\<close>). A request is
  answered by one of libfuse's reply functions; the answers are logged with the request they belong
  to, and the functions report success. A read is answered later, by \<^verbatim>\<open>chunk_done\<close>, when the
  download thread calls back.

  The blocks that \<^verbatim>\<open>open\<close> and \<^verbatim>\<open>read\<close> allocate are kept in maps from their addresses. What the
  operations take from their environment (the requests to an indexnode, the allocators, the
  configuration, the clock, and libfuse's encoding of a directory entry) is a record.
\<close>

unbundle bit_operations_syntax

section \<open>State\<close>

record statvfs =
  f_bsize :: nat
  f_frsize :: nat
  f_blocks :: nat
  f_files :: nat
  f_flag :: nat
  f_namemax :: nat

datatype reply =
    reply_err int
  | reply_entry fuse_entry_param nat nat
  | reply_attr stat nat
  | reply_open nat
  | reply_buf cells
  | reply_statfs statvfs
  | reply_none

text \<open>The downloader's thread frees its block when it ends; \<open>of_running\<close> is false from then on.\<close>

record open_file_ctxt_t =
  of_de :: addr
  of_downloader :: downloader_t
  of_running :: bool

record read_context_t =
  rd_de :: addr
  rd_req :: nat
  rd_size :: nat

record fuse_t =
  fu_fs :: nativefs_t
  fu_ins :: indexnodes_t
  fu_files :: "addr \<rightharpoonup> open_file_ctxt_t"
  fu_reads :: "addr \<rightharpoonup> read_context_t"
  fu_replies :: "(nat \<times> reply) list"

record fuse_file_info =
  fi_flags :: "32 word"
  fi_fh :: nat

definition fuse_reply :: "nat \<Rightarrow> reply \<Rightarrow> fuse_t \<Rightarrow> fuse_t" where
  "fuse_reply req r s = s\<lparr>fu_replies := fu_replies s @ [(req, r)]\<rparr>"

text \<open>Dropping a reference to a direntry.\<close>

definition drop_de :: "addr \<Rightarrow> fuse_t \<Rightarrow> fuse_t res" where
  "drop_de a s =
     bind_res (direntry_delete a (fs_des (fu_fs s))) (\<lambda>st.
     Inr (s\<lparr>fu_fs := (fu_fs s)\<lparr>fs_des := st\<rparr>\<rparr>))"

definition de_at :: "addr \<Rightarrow> fuse_t \<Rightarrow> direntry_t res" where
  "de_at a s = obj_get a (fs_des (fu_fs s))"

text \<open>
  \<open>dirent_size\<close> is what \<^verbatim>\<open>fuse_add_direntry\<close> returns for a null buffer, \<open>dirent\<close> the bytes it writes
  for a name, the attributes and the offset of the next entry.
\<close>

type_synonym stats_state = "(nat \<times> statvfs \<times> nat \<times> nat) option \<times> (nat \<times> reply) list"

record fuse_env =
  env_tryget :: tryget_t
  env_tryget_stats :: "indexnode_t \<Rightarrow> stats_state stats_cb \<Rightarrow> stats_state \<Rightarrow> (int \<times> stats_state) res"
  env_alloc_li :: "listing_t rc_store \<Rightarrow> addr"
  env_alloc_de :: "nativefs_t \<Rightarrow> addr"
  env_fuel :: nat
  env_attr :: attr_config
  env_now :: int
  env_timeout :: int
  env_busy :: "request list list"
  env_waits :: "wait_t list"
  env_dirent_size :: "string \<Rightarrow> nat"
  env_dirent :: "string \<Rightarrow> stat \<Rightarrow> nat \<Rightarrow> char list"

section \<open>init.c, destroy.c\<close>

definition fsfuse_init :: "fuse_t \<Rightarrow> fuse_t" where
  "fsfuse_init s = s\<lparr>fu_ins := indexnodes_new (ins_store (fu_ins s))\<rparr>"

definition fsfuse_destroy :: "fuse_t \<Rightarrow> fuse_t res" where
  "fsfuse_destroy s =
     bind_res (indexnodes_delete (fu_ins s)) (\<lambda>st. Inr (s\<lparr>fu_ins := (fu_ins s)\<lparr>ins_store := st\<rparr>\<rparr>))"

section \<open>lookup.c, forget.c, getattr.c, access.c\<close>

definition fsfuse_lookup :: "fuse_env \<Rightarrow> nat \<Rightarrow> nat \<Rightarrow> string \<Rightarrow> fuse_t \<Rightarrow> fuse_t res option" where
  "fsfuse_lookup env req par name s =
     map_option (\<lambda>r. bind_res r (\<lambda>(rc, de, fs).
         let s = s\<lparr>fu_fs := fs\<rparr> in
         if rc = 0
         then (case de of
                 None \<Rightarrow> Inl Uninitialised
               | Some a \<Rightarrow> bind_res (de_at a s) (\<lambda>d.
                   Inr (fuse_reply req (reply_entry (direntry_de2fuse_entry (env_attr env) d) 1 1) s)))
         else Inr (fuse_reply req (reply_err rc) s)))
       (direntry_get_child_by_name (env_tryget env) (env_alloc_li env) (env_alloc_de env) (env_fuel env)
          par name (fu_fs s))"

definition fsfuse_forget :: "nat \<Rightarrow> nat \<Rightarrow> nat \<Rightarrow> fuse_t \<Rightarrow> fuse_t res" where
  "fsfuse_forget req ino nlookup s =
     bind_res (direntry_get_by_inode ino (fu_fs s)) (\<lambda>(rc, de, fs).
     let s = s\<lparr>fu_fs := fs\<rparr> in
     bind_res
       (case de of
          None \<Rightarrow> Inr s
        | Some a \<Rightarrow> bind_res (drop_de a s) (fold_res (\<lambda>_. drop_de a) [0..<nlookup])) (\<lambda>s.
     Inr (fuse_reply req reply_none s)))"

text \<open>libfuse passes a null \<^verbatim>\<open>fi\<close> for attributes that are not asked for on an open file.\<close>

definition fsfuse_getattr :: "fuse_env \<Rightarrow> nat \<Rightarrow> nat \<Rightarrow> fuse_file_info option \<Rightarrow> fuse_t \<Rightarrow> fuse_t res" where
  "fsfuse_getattr env req ino fi s =
     (case fi of
        None \<Rightarrow> Inl NullDeref
      | Some fi \<Rightarrow>
          (case fu_files s (fi_fh fi) of
             None \<Rightarrow> Inl UseAfterFree
           | Some ctxt \<Rightarrow>
               bind_res (de_at (of_de ctxt) s) (\<lambda>d.
               bind_res (drop_de (of_de ctxt) s) (\<lambda>s.
               Inr (fuse_reply req (reply_attr (direntry_de2stat (env_attr env) d) 1) s)))))"

definition fsfuse_access :: "fuse_env \<Rightarrow> nat \<Rightarrow> nat \<Rightarrow> 32 word \<Rightarrow> fuse_t \<Rightarrow> fuse_t res" where
  "fsfuse_access env req ino msk s =
     bind_res (direntry_get_by_inode ino (fu_fs s)) (\<lambda>(rc, de, fs).
     let s = s\<lparr>fu_fs := fs\<rparr> in
     bind_res
       (case de of
          None \<Rightarrow> Inr (rc, s)
        | Some a \<Rightarrow>
            bind_res (de_at a s) (\<lambda>d.
            let rc = (case li_type (de_li d) of
                        listing_type_DIRECTORY \<Rightarrow>
                          if msk AND NOT (config_attr_mode_dir (env_attr env)) \<noteq> 0 then EACCES else rc
                      | listing_type_FILE \<Rightarrow>
                          if msk AND NOT (config_attr_mode_file (env_attr env)) \<noteq> 0 then EACCES else rc) in
            bind_res (drop_de a s) (\<lambda>s. Inr (rc, s)))) (\<lambda>(rc, s).
     Inr (fuse_reply req (reply_err rc) s)))"

section \<open>open.c, release.c, opendir.c, releasedir.c\<close>

definition O_RDONLY :: "32 word" where "O_RDONLY = 0"

text \<open>
  \<^verbatim>\<open>fsfuse_open\<close> allocates its context at \<open>a\<close>; the download thread it creates (\<^verbatim>\<open>downloader_new\<close>) takes
  a reference to the direntry of its own.
\<close>

definition fsfuse_open :: "fuse_env \<Rightarrow> addr \<Rightarrow> nat \<Rightarrow> nat \<Rightarrow> fuse_file_info \<Rightarrow> fuse_t \<Rightarrow> fuse_t res" where
  "fsfuse_open env a req ino fi s =
     bind_res (direntry_get_by_inode ino (fu_fs s)) (\<lambda>(rc, de, fs).
     case de of
       None \<Rightarrow> Inr (fuse_reply req (reply_err rc) (s\<lparr>fu_fs := fs\<rparr>))
     | Some de \<Rightarrow>
         bind_res (obj_get de (fs_des fs)) (\<lambda>d.
         let rc = (if fi_flags fi AND 3 \<noteq> O_RDONLY then EROFS else rc);
             rc = (if li_type (de_li d) \<noteq> listing_type_FILE then EISDIR else rc) in
         if rc = 0
         then bind_res (direntry_copy de (fs_des fs)) (\<lambda>st.
              let ctxt = \<lparr>of_de = de, of_downloader =
                    downloader_new (li_size (de_li d)) (env_busy env) (env_waits env), of_running = True\<rparr> in
              Inr (fuse_reply req (reply_open a)
                     (s\<lparr>fu_fs := fs\<lparr>fs_des := st\<rparr>, fu_files := (fu_files s)(a \<mapsto> ctxt)\<rparr>)))
         else Inr (fuse_reply req (reply_err rc) (s\<lparr>fu_fs := fs\<rparr>))))"

definition fsfuse_release :: "nat \<Rightarrow> nat \<Rightarrow> fuse_file_info \<Rightarrow> fuse_t \<Rightarrow> fuse_t res" where
  "fsfuse_release req ino fi s =
     (case fu_files s (fi_fh fi) of
        None \<Rightarrow> Inl UseAfterFree
      | Some ctxt \<Rightarrow>
          bind_res (drop_de (of_de ctxt) s) (\<lambda>s.
          bind_res (drop_de (of_de ctxt) s) (\<lambda>s.
          Inr (fuse_reply req (reply_err 0) (s\<lparr>fu_files := (fu_files s)(fi_fh fi := None)\<rparr>)))))"

text \<open>The handle of an open directory is the direntry itself.\<close>

definition fsfuse_opendir :: "nat \<Rightarrow> nat \<Rightarrow> fuse_file_info \<Rightarrow> fuse_t \<Rightarrow> fuse_t res" where
  "fsfuse_opendir req ino fi s =
     bind_res (direntry_get_by_inode ino (fu_fs s)) (\<lambda>(rc, de, fs).
     let s = s\<lparr>fu_fs := fs\<rparr> in
     case de of
       None \<Rightarrow> Inr (fuse_reply req (reply_err rc) s)
     | Some de \<Rightarrow>
         bind_res (de_at de s) (\<lambda>d.
         let rc = (if fi_flags fi AND 3 \<noteq> O_RDONLY then EROFS else rc);
             rc = (if li_type (de_li d) \<noteq> listing_type_DIRECTORY then ENOTDIR else rc) in
         Inr (fuse_reply req (if rc = 0 then reply_open de else reply_err rc) s)))"

definition fsfuse_releasedir :: "nat \<Rightarrow> nat \<Rightarrow> fuse_file_info \<Rightarrow> fuse_t \<Rightarrow> fuse_t res" where
  "fsfuse_releasedir req ino fi s =
     bind_res (drop_de (fi_fh fi) s) (\<lambda>s.
     bind_res (drop_de (fi_fh fi) s) (\<lambda>s.
     Inr (fuse_reply req (reply_err 0) s)))"

section \<open>read.c\<close>

text \<open>
  The size is cut so that the range ends at the end of the file; the end of the range is compared as
  an \<^verbatim>\<open>unsigned\<close>. The read context is allocated at \<open>a\<close>.
\<close>

definition read_size :: "int \<Rightarrow> nat \<Rightarrow> int \<Rightarrow> nat" where
  "read_size fsize sz off =
     (if off \<ge> fsize then 0
      else if (off + int sz) mod 2 ^ 32 \<ge> fsize then nat (fsize - off)
      else sz)"

definition fsfuse_read ::
  "addr \<Rightarrow> nat \<Rightarrow> nat \<Rightarrow> nat \<Rightarrow> int \<Rightarrow> fuse_file_info \<Rightarrow> fuse_t \<Rightarrow> fuse_t res" where
  "fsfuse_read a req ino sz off fi s =
     (case fu_files s (fi_fh fi) of
        None \<Rightarrow> Inl UseAfterFree
      | Some ctxt \<Rightarrow>
          bind_res (de_at (of_de ctxt) s) (\<lambda>d.
          let sz = read_size (li_size (de_li d)) sz off in
          if \<not> of_running ctxt then Inl UseAfterFree
          else bind_res (downloader_chunk_add (off, off + int sz, a) (of_downloader ctxt)) (\<lambda>t.
          Inr (s\<lparr>fu_reads := (fu_reads s)(a \<mapsto> \<lparr>rd_de = of_de ctxt, rd_req = req, rd_size = sz\<rparr>),
                 fu_files := (fu_files s)(fi_fh fi \<mapsto> ctxt\<lparr>of_downloader := t\<rparr>)\<rparr>))))"

text \<open>
  The callback of a chunk: its context, the error, the number of bytes and the bytes written to
  the buffer, which is as long as the request. It gives up a reference to the direntry.
\<close>

definition chunk_done :: "nat \<times> int \<times> nat \<times> string \<Rightarrow> fuse_t \<Rightarrow> fuse_t res" where
  "chunk_done = (\<lambda>(a, rc, sz, buf) s.
     case fu_reads s a of
       None \<Rightarrow> Inl UseAfterFree
     | Some ctxt \<Rightarrow>
         let m = map Some buf @ replicate (rd_size ctxt - length buf) None in
         if rc = 0 \<and> sz > length m then Inl OutOfBounds
         else let s = fuse_reply (rd_req ctxt) (if rc = 0 then reply_buf (take sz m) else reply_err rc) s in
           bind_res (drop_de (rd_de ctxt) s) (\<lambda>s. Inr (s\<lparr>fu_reads := (fu_reads s)(a := None)\<rparr>)))"

section \<open>readdir.c\<close>

text \<open>
  An entry is appended to the buffer: its size is asked for first, the buffer is grown by that
  much, and the entry is written when it fits.
\<close>

definition dirbuf_add :: "fuse_env \<Rightarrow> direntry_t \<Rightarrow> string option \<Rightarrow> cells \<Rightarrow> cells res" where
  "dirbuf_add env d name buf =
     bind_res (case name of Some n \<Rightarrow> Inr n | None \<Rightarrow> listing_get_name (de_li d)) (\<lambda>name.
     let n = env_dirent_size env name;
         e = env_dirent env name (direntry_de2stat (env_attr env) d) (length buf + n) in
     Inr (buf @ (if length e \<le> n then map Some e @ replicate (n - length e) None
                 else replicate n None)))"

fun dirbuf_children ::
  "fuse_env \<Rightarrow> nat \<Rightarrow> addr option \<Rightarrow> direntry_t rc_store \<times> cells \<Rightarrow>
   (direntry_t rc_store \<times> cells) res option" where
  "dirbuf_children env 0 child s = None"
| "dirbuf_children env (Suc fuel) None s = Some (Inr s)"
| "dirbuf_children env (Suc fuel) (Some child) (st, buf) =
     (case bind_res (obj_get child st) (\<lambda>d.
           bind_res (dirbuf_add env d None buf) (\<lambda>buf.
           bind_res (direntry_get_next_sibling child st) (\<lambda>(nxt, st).
           bind_res (direntry_delete child st) (\<lambda>st. Inr (nxt, st, buf))))) of
        Inl e \<Rightarrow> Some (Inl e)
      | Inr (nxt, st, buf) \<Rightarrow> dirbuf_children env fuel nxt (st, buf))"

text \<open>The part of the buffer that answers a request; the offset is compared as an \<^verbatim>\<open>unsigned\<close>.\<close>

definition dirbuf_slice :: "int \<Rightarrow> nat \<Rightarrow> cells \<Rightarrow> cells res" where
  "dirbuf_slice off sz buf =
     (if off mod 2 ^ 32 < int (length buf)
      then if 0 \<le> off \<and> off \<le> int (length buf) then Inr (take sz (drop (nat off) buf)) else Inl OutOfBounds
      else Inr [])"

definition dirbuf_dots :: "fuse_env \<Rightarrow> addr \<Rightarrow> direntry_t rc_store \<Rightarrow> (direntry_t rc_store \<times> cells) res" where
  "dirbuf_dots env de st =
     bind_res (obj_get de st) (\<lambda>d.
     bind_res (dirbuf_add env d (Some ''.'') []) (\<lambda>buf.
     bind_res (direntry_get_parent de st) (\<lambda>(par, st).
     case par of
       Some p \<Rightarrow>
         bind_res (obj_get p st) (\<lambda>pd.
         bind_res (dirbuf_add env pd (Some ''..'') buf) (\<lambda>buf.
         bind_res (direntry_delete p st) (\<lambda>st. Inr (st, buf))))
     | None \<Rightarrow> bind_res (dirbuf_add env d (Some ''..'') buf) (\<lambda>buf. Inr (st, buf)))))"

definition fsfuse_readdir ::
  "fuse_env \<Rightarrow> nat \<Rightarrow> nat \<Rightarrow> nat \<Rightarrow> int \<Rightarrow> fuse_file_info \<Rightarrow> fuse_t \<Rightarrow> fuse_t res option" where
  "fsfuse_readdir env req ino sz off fi s =
     (let de = fi_fh fi; fs = fu_fs s in
      case dirbuf_dots env de (fs_des fs) of
        Inl e \<Rightarrow> Some (Inl e)
      | Inr (st, buf) \<Rightarrow>
          (case direntry_ensure_children (env_tryget env) (env_alloc_li env) (env_alloc_de env)
                  (env_fuel env) de (fs\<lparr>fs_des := st\<rparr>) of
             None \<Rightarrow> None
           | Some (Inl e) \<Rightarrow> Some (Inl e)
           | Some (Inr (_, fs)) \<Rightarrow>
               (case direntry_get_first_child de (fs_des fs) of
                  Inl e \<Rightarrow> Some (Inl e)
                | Inr (child, st) \<Rightarrow>
                    map_option (\<lambda>r. bind_res r (\<lambda>(st, buf).
                        bind_res (dirbuf_slice off sz buf) (\<lambda>out.
                        Inr (fuse_reply req (reply_buf out) (s\<lparr>fu_fs := fs\<lparr>fs_des := st\<rparr>\<rparr>)))))
                      (dirbuf_children env (env_fuel env) child (st, buf)))))"

section \<open>statfs.c\<close>

text \<open>
  The context of the callback is the request, the answer so far, the bytes so far and the number of
  indexnodes still to report; \<open>None\<close> when it has been freed. Sums are \<^verbatim>\<open>unsigned long\<close>, the counter
  is \<^verbatim>\<open>unsigned\<close>.
\<close>

definition stats_cb :: "stats_state stats_cb" where
  "stats_cb files bytes = (\<lambda>(ctxt, replies).
     case ctxt of
       None \<Rightarrow> Inl UseAfterFree
     | Some (req, stvfs, bytes_total, remaining) \<Rightarrow>
         let stvfs = stvfs\<lparr>f_files := (f_files stvfs + files) mod 2 ^ 64\<rparr>;
             bytes_total = (bytes_total + bytes) mod 2 ^ 64;
             remaining = (if remaining = 0 then 2 ^ 32 - 1 else remaining - 1) in
         if remaining = 0
         then Inr (None, replies @ [(req, reply_statfs (stvfs\<lparr>f_blocks := bytes_total div f_bsize stvfs\<rparr>))])
         else Inr (Some (req, stvfs, bytes_total, remaining), replies))"

text \<open>The two loops over the list, with the iterator.\<close>

function count_loop :: "indexnodes_iterator_t \<Rightarrow> nat \<Rightarrow> indexnode_t rc_store \<Rightarrow> (nat \<times> indexnode_t rc_store) res" where
  "count_loop iter n st =
     (if indexnodes_iterator_end iter then Inr (n, st)
      else bind_res (indexnodes_iterator_current iter st) (\<lambda>(ind, st).
           bind_res (indexnode_delete ind st) (\<lambda>st.
           bind_res (indexnodes_iterator_next iter) (\<lambda>iter. count_loop iter ((n + 1) mod 2 ^ 32) st))))"
  by pat_completeness auto
termination
  by (relation "measure (\<lambda>(iter, n, st). length (iter_current iter))")
    (auto simp: indexnodes_iterator_next_def split: list.splits)

function stats_loop ::
  "fuse_env \<Rightarrow> indexnodes_iterator_t \<Rightarrow> stats_state \<Rightarrow> indexnode_t rc_store \<Rightarrow>
   (stats_state \<times> indexnode_t rc_store) res" where
  "stats_loop env iter c st =
     (if indexnodes_iterator_end iter then Inr (c, st)
      else bind_res (indexnodes_iterator_current iter st) (\<lambda>(ind, st).
           bind_res (obj_get ind st) (\<lambda>node.
           bind_res (env_tryget_stats env node stats_cb c) (\<lambda>(rc, c).
           bind_res (indexnode_delete ind st) (\<lambda>st.
           bind_res (indexnodes_iterator_next iter) (\<lambda>iter. stats_loop env iter c st))))))"
  by pat_completeness auto
termination
  by (relation "measure (\<lambda>(env, iter, c, st). length (iter_current iter))")
    (auto simp: indexnodes_iterator_next_def split: list.splits)

declare count_loop.simps [simp del] stats_loop.simps [simp del]

definition ST_RDONLY :: nat where "ST_RDONLY = 1"
definition ST_NOSUID :: nat where "ST_NOSUID = 2"
definition ULONG_MAX :: nat where "ULONG_MAX = 2 ^ 64 - 1"

definition new_stvfs :: statvfs where
  "new_stvfs = \<lparr>f_bsize = FSFUSE_BLKSIZE, f_frsize = FSFUSE_BLKSIZE, f_blocks = 0, f_files = 0,
     f_flag = or ST_RDONLY ST_NOSUID, f_namemax = ULONG_MAX\<rparr>"

definition fsfuse_statfs :: "fuse_env \<Rightarrow> nat \<Rightarrow> nat \<Rightarrow> fuse_t \<Rightarrow> fuse_t res" where
  "fsfuse_statfs env req ino s =
     bind_res (indexnodes_get (env_now env) (env_timeout env) (fu_ins s)) (\<lambda>(lis, ins).
     bind_res (count_loop (indexnodes_iterator_begin lis) 0 (ins_store ins)) (\<lambda>(n, st).
     bind_res (stats_loop env (indexnodes_iterator_begin lis) (Some (req, new_stvfs, 0, n), fu_replies s) st)
       (\<lambda>((ctxt, replies), st).
     bind_res (indexnodes_list_delete lis st) (\<lambda>st.
     Inr (s\<lparr>fu_ins := ins\<lparr>ins_store := st\<rparr>, fu_replies := replies\<rparr>)))))"

section \<open>Operations that only answer\<close>

definition fsfuse_setattr :: "nat \<Rightarrow> fuse_t \<Rightarrow> fuse_t" where
  "fsfuse_setattr req s = fuse_reply req (reply_err EROFS) s"

definition fsfuse_mknod :: "nat \<Rightarrow> fuse_t \<Rightarrow> fuse_t" where
  "fsfuse_mknod req s = fuse_reply req (reply_err EROFS) s"

definition fsfuse_mkdir :: "nat \<Rightarrow> fuse_t \<Rightarrow> fuse_t" where
  "fsfuse_mkdir req s = fuse_reply req (reply_err EROFS) s"

definition fsfuse_unlink :: "nat \<Rightarrow> fuse_t \<Rightarrow> fuse_t" where
  "fsfuse_unlink req s = fuse_reply req (reply_err EROFS) s"

definition fsfuse_rmdir :: "nat \<Rightarrow> fuse_t \<Rightarrow> fuse_t" where
  "fsfuse_rmdir req s = fuse_reply req (reply_err EROFS) s"

definition fsfuse_symlink :: "nat \<Rightarrow> fuse_t \<Rightarrow> fuse_t" where
  "fsfuse_symlink req s = fuse_reply req (reply_err EROFS) s"

definition fsfuse_rename :: "nat \<Rightarrow> fuse_t \<Rightarrow> fuse_t" where
  "fsfuse_rename req s = fuse_reply req (reply_err EROFS) s"

definition fsfuse_link :: "nat \<Rightarrow> fuse_t \<Rightarrow> fuse_t" where
  "fsfuse_link req s = fuse_reply req (reply_err EROFS) s"

definition fsfuse_write :: "nat \<Rightarrow> fuse_t \<Rightarrow> fuse_t" where
  "fsfuse_write req s = fuse_reply req (reply_err EROFS) s"

definition fsfuse_fsync :: "nat \<Rightarrow> fuse_t \<Rightarrow> fuse_t" where
  "fsfuse_fsync req s = fuse_reply req (reply_err EROFS) s"

definition fsfuse_fsyncdir :: "nat \<Rightarrow> fuse_t \<Rightarrow> fuse_t" where
  "fsfuse_fsyncdir req s = fuse_reply req (reply_err EROFS) s"

definition fsfuse_create :: "nat \<Rightarrow> fuse_t \<Rightarrow> fuse_t" where
  "fsfuse_create req s = fuse_reply req (reply_err EROFS) s"

definition fsfuse_flush :: "nat \<Rightarrow> fuse_t \<Rightarrow> fuse_t" where
  "fsfuse_flush req s = fuse_reply req (reply_err 0) s"

definition fsfuse_bmap :: "nat \<Rightarrow> fuse_t \<Rightarrow> fuse_t" where
  "fsfuse_bmap req s = fuse_reply req (reply_err EIO) s"

definition fsfuse_readlink :: "nat \<Rightarrow> fuse_t \<Rightarrow> fuse_t res" where
  "fsfuse_readlink req s =
     bind_res (c_assert False) (\<lambda>_. Inr (fuse_reply req (reply_err EIO) s))"

section \<open>The table\<close>

datatype fuse_op =
    op_lookup nat string
  | op_forget nat nat
  | op_getattr nat "fuse_file_info option"
  | op_setattr | op_readlink | op_mknod | op_mkdir | op_unlink | op_rmdir | op_symlink | op_rename | op_link
  | op_open nat fuse_file_info addr
  | op_read nat nat int fuse_file_info addr
  | op_write | op_flush
  | op_release nat fuse_file_info
  | op_fsync
  | op_opendir nat fuse_file_info
  | op_readdir nat nat int fuse_file_info
  | op_releasedir nat fuse_file_info
  | op_fsyncdir
  | op_statfs nat
  | op_access nat "32 word"
  | op_create | op_bmap

fun fuse_methods :: "fuse_env \<Rightarrow> nat \<Rightarrow> fuse_op \<Rightarrow> fuse_t \<Rightarrow> fuse_t res option" where
  "fuse_methods env req (op_lookup par name) s = fsfuse_lookup env req par name s"
| "fuse_methods env req (op_forget ino n) s = Some (fsfuse_forget req ino n s)"
| "fuse_methods env req (op_getattr ino fi) s = Some (fsfuse_getattr env req ino fi s)"
| "fuse_methods env req op_setattr s = Some (Inr (fsfuse_setattr req s))"
| "fuse_methods env req op_readlink s = Some (fsfuse_readlink req s)"
| "fuse_methods env req op_mknod s = Some (Inr (fsfuse_mknod req s))"
| "fuse_methods env req op_mkdir s = Some (Inr (fsfuse_mkdir req s))"
| "fuse_methods env req op_unlink s = Some (Inr (fsfuse_unlink req s))"
| "fuse_methods env req op_rmdir s = Some (Inr (fsfuse_rmdir req s))"
| "fuse_methods env req op_symlink s = Some (Inr (fsfuse_symlink req s))"
| "fuse_methods env req op_rename s = Some (Inr (fsfuse_rename req s))"
| "fuse_methods env req op_link s = Some (Inr (fsfuse_link req s))"
| "fuse_methods env req (op_open ino fi a) s = Some (fsfuse_open env a req ino fi s)"
| "fuse_methods env req (op_read ino sz off fi a) s = Some (fsfuse_read a req ino sz off fi s)"
| "fuse_methods env req op_write s = Some (Inr (fsfuse_write req s))"
| "fuse_methods env req op_flush s = Some (Inr (fsfuse_flush req s))"
| "fuse_methods env req (op_release ino fi) s = Some (fsfuse_release req ino fi s)"
| "fuse_methods env req op_fsync s = Some (Inr (fsfuse_fsync req s))"
| "fuse_methods env req (op_opendir ino fi) s = Some (fsfuse_opendir req ino fi s)"
| "fuse_methods env req (op_readdir ino sz off fi) s = fsfuse_readdir env req ino sz off fi s"
| "fuse_methods env req (op_releasedir ino fi) s = Some (fsfuse_releasedir req ino fi s)"
| "fuse_methods env req op_fsyncdir s = Some (Inr (fsfuse_fsyncdir req s))"
| "fuse_methods env req (op_statfs ino) s = Some (fsfuse_statfs env req ino s)"
| "fuse_methods env req (op_access ino msk) s = Some (fsfuse_access env req ino msk s)"
| "fuse_methods env req op_create s = Some (Inr (fsfuse_create req s))"
| "fuse_methods env req op_bmap s = Some (Inr (fsfuse_bmap req s))"

section \<open>Answers\<close>

lemma drop_de_frame:
  "drop_de a s = Inr s' \<Longrightarrow> \<exists>st. s' = s\<lparr>fu_fs := (fu_fs s)\<lparr>fs_des := st\<rparr>\<rparr>"
  by (auto simp: drop_de_def)

lemma drop_de_replies [simp]: "drop_de a s = Inr s' \<Longrightarrow> fu_replies s' = fu_replies s"
  by (auto dest: drop_de_frame)

lemma drops_replies: "fold_res (\<lambda>_. drop_de a) xs s = Inr s' \<Longrightarrow> fu_replies s' = fu_replies s"
  by (induction xs arbitrary: s) fastforce+

lemma fuse_reply_replies [simp]: "fu_replies (fuse_reply req r s) = fu_replies s @ [(req, r)]"
  by (simp add: fuse_reply_def)

lemmas fuse_op_defs = fsfuse_setattr_def fsfuse_mknod_def fsfuse_mkdir_def fsfuse_unlink_def fsfuse_rmdir_def
  fsfuse_symlink_def fsfuse_rename_def fsfuse_link_def fsfuse_write_def fsfuse_fsync_def fsfuse_fsyncdir_def
  fsfuse_create_def fsfuse_flush_def fsfuse_bmap_def fsfuse_readlink_def

lemma lookup_one_reply:
  "fsfuse_lookup env req par name s = Some (Inr s') \<Longrightarrow> \<exists>r. fu_replies s' = fu_replies s @ [(req, r)]"
  by (auto simp: fsfuse_lookup_def Let_def split: if_splits option.splits)

lemma forget_one_reply:
  assumes "fsfuse_forget req ino n s = Inr s'"
  shows "fu_replies s' = fu_replies s @ [(req, reply_none)]"
proof -
  from assms obtain rc de fs s1 where
    "(case de of None \<Rightarrow> Inr (s\<lparr>fu_fs := fs\<rparr>)
      | Some a \<Rightarrow> bind_res (drop_de a (s\<lparr>fu_fs := fs\<rparr>)) (fold_res (\<lambda>_. drop_de a) [0..<n])) = Inr s1"
    and s': "s' = fuse_reply req reply_none s1"
    by (auto simp: fsfuse_forget_def Let_def)
  then have "fu_replies s1 = fu_replies s" by (auto split: option.splits dest!: drops_replies)
  with s' show ?thesis by simp
qed

lemma getattr_one_reply:
  "fsfuse_getattr env req ino fi s = Inr s' \<Longrightarrow> \<exists>r. fu_replies s' = fu_replies s @ [(req, r)]"
  by (auto simp: fsfuse_getattr_def split: option.splits)

lemma access_one_reply:
  assumes "fsfuse_access env req ino msk s = Inr s'"
  shows "\<exists>r. fu_replies s' = fu_replies s @ [(req, r)]"
proof -
  from assms obtain rc de fs where "direntry_get_by_inode ino (fu_fs s) = Inr (rc, de, fs)"
    by (auto simp: fsfuse_access_def)
  with assms show ?thesis
    by (cases de) (auto simp: fsfuse_access_def Let_def)
qed

lemma open_one_reply:
  "fsfuse_open env a req ino fi s = Inr s' \<Longrightarrow> \<exists>r. fu_replies s' = fu_replies s @ [(req, r)]"
  by (auto simp: fsfuse_open_def Let_def split: option.splits if_splits)

lemma opendir_one_reply:
  "fsfuse_opendir req ino fi s = Inr s' \<Longrightarrow> \<exists>r. fu_replies s' = fu_replies s @ [(req, r)]"
  by (auto simp: fsfuse_opendir_def Let_def split: option.splits if_splits)

lemma release_one_reply:
  "fsfuse_release req ino fi s = Inr s' \<Longrightarrow> fu_replies s' = fu_replies s @ [(req, reply_err 0)]"
  by (auto simp: fsfuse_release_def split: option.splits)

lemma releasedir_one_reply:
  "fsfuse_releasedir req ino fi s = Inr s' \<Longrightarrow> fu_replies s' = fu_replies s @ [(req, reply_err 0)]"
  by (auto simp: fsfuse_releasedir_def)

lemma readdir_one_reply:
  "fsfuse_readdir env req ino sz off fi s = Some (Inr s') \<Longrightarrow> \<exists>r. fu_replies s' = fu_replies s @ [(req, r)]"
  by (auto simp: fsfuse_readdir_def Let_def split: sum.splits option.splits prod.splits)

lemmas one_reply = lookup_one_reply forget_one_reply getattr_one_reply access_one_reply open_one_reply
  opendir_one_reply release_one_reply releasedir_one_reply readdir_one_reply

text \<open>An example: the tree of the example file system, no indexnodes, and an environment.\<close>

definition example_env :: fuse_env where
  "example_env = \<lparr>env_tryget = (\<lambda>node path cb c. Inr (0, c)), env_tryget_stats = (\<lambda>node cb c. Inr (EIO, c)),
     env_alloc_li = (\<lambda>_. 100), env_alloc_de = (\<lambda>_. 100), env_fuel = 5,
     env_attr = \<lparr>config_attr_id_uid = 0, config_attr_id_gid = 0, config_attr_mode_file = 0, config_attr_mode_dir = 0,
       process_uid = 0, process_gid = 0\<rparr>,
     env_now = 0, env_timeout = 60, env_busy = [], env_waits = [],
     env_dirent_size = (\<lambda>n. length n + 1), env_dirent = (\<lambda>n st off. n @ ''/'')\<rparr>"

definition example_fuse :: fuse_t where
  "example_fuse = \<lparr>fu_fs = example_fs, fu_ins = indexnodes_new Map.empty, fu_files = Map.empty,
     fu_reads = Map.empty, fu_replies = []\<rparr>"

lemma example_fuse_simps [simp]:
  "fu_fs example_fuse = example_fs" "fu_files example_fuse = Map.empty" "fu_replies example_fuse = []"
  "fu_ins example_fuse = indexnodes_new Map.empty" "env_fuel example_env = 5"
  by (simp_all add: example_fuse_def example_env_def)

text \<open>C16. Every request is answered once (fuse\_methods/*.c): an operation that returns has sent exactly
  one answer, to the request it was called for, except for a read, which has not been answered yet
  and whose single answer is sent when its chunk is done, and for statfs.\<close>
theorem fuse_methods_one_reply:
  assumes "fuse_methods env req op s = Some (Inr s')"
    and "chunk_done (a, rc, sz, buf) t = Inr t'"
  shows "(case op of
      op_read _ _ _ _ _ \<Rightarrow> fu_replies s' = fu_replies s
    | op_statfs _ \<Rightarrow> True
    | _ \<Rightarrow> \<exists>r. fu_replies s' = fu_replies s @ [(req, r)]) \<and>
    (\<exists>ctxt r. fu_reads t a = Some ctxt \<and> fu_replies t' = fu_replies t @ [(rd_req ctxt, r)] \<and>
       fu_reads t' a = None)"
proof
  show "case op of
      op_read _ _ _ _ _ \<Rightarrow> fu_replies s' = fu_replies s
    | op_statfs _ \<Rightarrow> True
    | _ \<Rightarrow> \<exists>r. fu_replies s' = fu_replies s @ [(req, r)]"
    using assms(1)
    by (cases op)
      (auto simp: fuse_op_defs fsfuse_read_def Let_def split: option.splits if_split_asm dest!: one_reply)
  show "\<exists>ctxt r. fu_reads t a = Some ctxt \<and> fu_replies t' = fu_replies t @ [(rd_req ctxt, r)] \<and>
       fu_reads t' a = None"
    using assms(2) by (auto simp: chunk_done_def Let_def split: option.splits if_splits)
qed

theorem fuse_methods_one_reply_witness:
  "\<exists>s' r. fuse_methods example_env 7 (op_opendir 9 \<lparr>fi_flags = 0, fi_fh = 0\<rparr>) example_fuse = Some (Inr s') \<and>
     fu_replies s' = [(7, r)]"
proof -
  let ?t = "example_fuse\<lparr>fu_reads := [5 \<mapsto> \<lparr>rd_de = 12, rd_req = 8, rd_size = 4\<rparr>]\<rparr>"
  obtain st where "direntry_delete 12 (fs_des example_fs) = Inr st"
    using obj_delete_last [of "fs_des example_fs" 12] by (auto simp: example_refs direntry_delete_def)
  then obtain t' where t': "chunk_done (5, 5, 0, []) ?t = Inr t'"
    by (simp add: chunk_done_def Let_def drop_de_def fuse_reply_def)
  have "\<exists>s'. fuse_methods example_env 7 (op_opendir 9 \<lparr>fi_flags = 0, fi_fh = 0\<rparr>) example_fuse = Some (Inr s')"
    by (simp add: fsfuse_opendir_def direntry_get_by_inode_def inode_map_get_def example_fs_def)
  then obtain s' where s': "fuse_methods example_env 7 (op_opendir 9 \<lparr>fi_flags = 0, fi_fh = 0\<rparr>) example_fuse =
      Some (Inr s')" by blast
  from fuse_methods_one_reply [OF s' t'] s' show ?thesis by auto
qed



end
