(* ===== verification/Fuse_Files.thy ===== *)
theory Fuse_Files
  imports Fuse_Methods
begin

text \<open>
  What the FUSE operations promise of the tree they serve: the references that lookups, opens and
  their counterparts take and give back, the range and the answer of a read, the listing of a
  directory, and the statistics of the file system.
\<close>

unbundle bit_operations_syntax

section \<open>References held by the kernel\<close>

abbreviation de_refs :: "fuse_t \<Rightarrow> addr \<Rightarrow> nat" where "de_refs s \<equiv> refs (fs_des (fu_fs s))"
abbreviation de_contents :: "fuse_t \<Rightarrow> addr \<Rightarrow> direntry_t option" where
  "de_contents s \<equiv> contents_at (fs_des (fu_fs s))"

text \<open>Everything but the reference counts of the direntries and the answers is the same.\<close>

definition same_tree :: "fuse_t \<Rightarrow> fuse_t \<Rightarrow> bool" where
  "same_tree s s' \<longleftrightarrow> (\<exists>st rs. contents_at st = de_contents s \<and>
     s' = s\<lparr>fu_fs := (fu_fs s)\<lparr>fs_des := st\<rparr>, fu_replies := rs\<rparr>)"

lemma same_treeI [intro]:
  "contents_at st = de_contents s \<Longrightarrow> same_tree s (s\<lparr>fu_fs := (fu_fs s)\<lparr>fs_des := st\<rparr>, fu_replies := rs\<rparr>)"
  unfolding same_tree_def by blast

lemma same_treeI' [intro]:
  "contents_at st = de_contents s \<Longrightarrow> same_tree s (s\<lparr>fu_fs := (fu_fs s)\<lparr>fs_des := st\<rparr>\<rparr>)"
  using same_treeI [of st s "fu_replies s"] by simp

lemma same_tree_refl [simp]: "same_tree s s"
  using same_treeI' [of "fs_des (fu_fs s)" s] by simp

lemma same_tree_contents: "same_tree s s' \<Longrightarrow> de_contents s' = de_contents s"
  by (auto simp: same_tree_def)

lemma same_tree_trans: "same_tree s t \<Longrightarrow> same_tree t u \<Longrightarrow> same_tree s u"
  unfolding same_tree_def by fastforce

lemma same_tree_reply [simp]: "same_tree s (fuse_reply req r s)"
  using same_treeI [of "fs_des (fu_fs s)" s] by (simp add: fuse_reply_def)

lemma de_refs_reply [simp]: "de_refs (fuse_reply req r s) = de_refs s"
  by (simp add: fuse_reply_def)

text \<open>The direntry the inode table has for an inode.\<close>

definition slot :: "nativefs_t \<Rightarrow> nat \<Rightarrow> addr option" where
  "slot fs ino = (if ino < s_inode_map_used fs \<and> ino < length (s_inode_map fs) then s_inode_map fs ! ino else None)"

lemma same_tree_slot: "same_tree s s' \<Longrightarrow> slot (fu_fs s') ino = slot (fu_fs s) ino"
  by (auto simp: same_tree_def slot_def)

lemma get_by_inode_slot:
  assumes "slot fs ino = Some a" "0 < refs (fs_des fs) a" "refs (fs_des fs) a < max_refs"
  shows "\<exists>st. direntry_get_by_inode ino fs = Inr (0, Some a, fs\<lparr>fs_des := st\<rparr>) \<and>
    refs st = held (refs (fs_des fs)) (Some a) \<and> contents_at st = contents_at (fs_des fs)"
proof -
  from direntry_rc.copy_count [OF assms(2,3)] obtain st where
    "direntry_copy a (fs_des fs) = Inr st" "refs st = held (refs (fs_des fs)) (Some a)"
    "contents_at st = contents_at (fs_des fs)" by (auto simp: held_upd)
  with assms(1) show ?thesis
    by (auto simp: direntry_get_by_inode_def inode_map_get_def slot_def split: if_splits)
qed

lemma drop_de_held:
  assumes "de_refs s = held r (Some a)" "0 < r a"
  shows "\<exists>s'. drop_de a s = Inr s' \<and> de_refs s' = r \<and> same_tree s s' \<and> fu_replies s' = fu_replies s"
  using drop_held [OF assms] by (auto simp: drop_de_def)

lemma held_times: "(held r (Some a))(a := r a + Suc n) = held (r(a := r a + n)) (Some a)"
  by (auto simp: held_def)

lemma drops_held:
  assumes "de_refs s = r(a := r a + n)" "0 < r a"
  shows "\<exists>s'. fold_res (\<lambda>_. drop_de a) [0..<n] s = Inr s' \<and> de_refs s' = r \<and> same_tree s s' \<and>
    fu_replies s' = fu_replies s"
  using assms
proof (induction n arbitrary: s)
  case 0
  then show ?case by simp
next
  case (Suc n)
  have "de_refs s = held (r(a := r a + n)) (Some a)"
    using Suc.prems(1) by (auto simp: held_def)
  from drop_de_held [OF this] Suc.prems(2) obtain s1 where
    s1: "drop_de a s = Inr s1" "de_refs s1 = r(a := r a + n)" "same_tree s s1" "fu_replies s1 = fu_replies s"
    by auto
  from Suc.IH [OF s1(2) Suc.prems(2)] obtain s2 where
    s2: "fold_res (\<lambda>_. drop_de a) [0..<n] s1 = Inr s2" "de_refs s2 = r" "same_tree s1 s2"
      "fu_replies s2 = fu_replies s1" by blast
  have "fold_res (\<lambda>_. drop_de a) xs t = fold_res (\<lambda>_. drop_de a) ys t"
    if "length xs = length ys" for xs ys :: "nat list" and t
    using that by (induction xs ys arbitrary: t rule: list_induct2) (auto cong: bind_res_cong)
  from this [of "[0..<Suc n]" "0 # [0..<n]" s] s1 s2 show ?case
    by (auto intro: same_tree_trans)
qed

text \<open>A directory whose children are known.\<close>

definition known_dir :: "nativefs_t \<Rightarrow> nat \<Rightarrow> addr \<Rightarrow> addr list \<Rightarrow> bool" where
  "known_dir fs ino de xs \<longleftrightarrow> slot fs ino = Some de \<and> de \<notin> set xs \<and>
     (\<exists>d. contents_at (fs_des fs) de = Some d \<and> de_looked_for_children d \<and>
          chain (fs_des fs) (de_children d) xs) \<and>
     (\<forall>x \<in> set (de # xs). name_at (fs_des fs) x \<noteq> None)"

lemma same_tree_known_dir:
  assumes "same_tree s s'" "known_dir (fu_fs s) ino de xs"
  shows "known_dir (fu_fs s') ino de xs"
proof -
  have c: "contents_at (fs_des (fu_fs s')) = contents_at (fs_des (fu_fs s))"
    using same_tree_contents [OF assms(1)] .
  show ?thesis
    using assms(2) same_tree_slot [OF assms(1)] c chain_cong [OF c] name_at_cong [OF c]
    by (simp add: known_dir_def)
qed

lemma lookup_known:
  assumes "known_dir (fu_fs s) par de xs" "\<forall>x \<in> set (de # xs). 0 < de_refs s x \<and> de_refs s x + 2 \<le> max_refs"
    and "length xs < env_fuel env"
  shows "let found = find (\<lambda>x. name_at (fs_des (fu_fs s)) x = Some name) xs in
    \<exists>s'. fsfuse_lookup env req par name s = Some (Inr s') \<and> same_tree s s' \<and>
      de_refs s' = held (de_refs s) found \<and>
      fu_replies s' = fu_replies s @ [(req, case found of
         None \<Rightarrow> reply_err ENOENT
       | Some x \<Rightarrow> reply_entry (direntry_de2fuse_entry (env_attr env) (the (de_contents s x))) 1 1)]"
proof -
  let ?fs = "fu_fs s" and ?found = "find (\<lambda>x. name_at (fs_des (fu_fs s)) x = Some name) xs"
  from assms(1) obtain d where d: "contents_at (fs_des ?fs) de = Some d" "de_looked_for_children d"
      "chain (fs_des ?fs) (de_children d) xs" by (auto simp: known_dir_def)
  have slot: "par < s_inode_map_used ?fs" "par < length (s_inode_map ?fs)" "s_inode_map ?fs ! par = Some de"
    using assms(1) by (auto simp: known_dir_def slot_def split: if_splits)
  have "\<forall>x \<in> set (de # xs). healthy (fs_des ?fs) x"
    using assms(1,2) by (auto simp: healthy_def known_dir_def)
  from get_child_by_name_ok [OF slot d this _ assms(3), of name "env_tryget env" "env_alloc_li env" "env_alloc_de env"]
  obtain st' where
    st': "direntry_get_child_by_name (env_tryget env) (env_alloc_li env) (env_alloc_de env) (env_fuel env)
          par name ?fs = Some (Inr (if ?found = None then ENOENT else 0, ?found, ?fs\<lparr>fs_des := st'\<rparr>))"
      "contents_at st' = contents_at (fs_des ?fs)" "refs st' = held (refs (fs_des ?fs)) ?found"
    using assms(1) by (auto simp: known_dir_def Let_def)
  show ?thesis
  proof (cases ?found)
    case None
    then show ?thesis using st' by (auto simp: fsfuse_lookup_def fuse_reply_def)
  next
    case (Some x)
    then have "0 < refs st' x" using st'(3) by (simp add: held_def)
    moreover obtain dx where "contents_at (fs_des ?fs) x = Some dx"
      using Some by (auto simp: find_Some_iff name_at_def split: option.splits)
    ultimately have "obj_get x st' = Inr dx" "the (contents_at (fs_des ?fs) x) = dx"
      using st'(2) obj_get_contents [of st' x dx] by auto
    then show ?thesis using st' Some by (auto simp: fsfuse_lookup_def de_at_def fuse_reply_def)
  qed
qed

fun lookup_times :: "fuse_env \<Rightarrow> nat \<Rightarrow> nat \<Rightarrow> string \<Rightarrow> nat \<Rightarrow> fuse_t \<Rightarrow> fuse_t res option" where
  "lookup_times env req par name 0 s = Some (Inr s)"
| "lookup_times env req par name (Suc n) s =
     (case fsfuse_lookup env req par name s of
        Some (Inr s) \<Rightarrow> lookup_times env req par name n s
      | r \<Rightarrow> r)"

lemma lookup_times_known:
  assumes "known_dir (fu_fs s) par de xs" "length xs < env_fuel env"
    and "\<forall>x \<in> set (de # xs). 0 < de_refs s x \<and> de_refs s x + n + 1 \<le> max_refs"
    and "find (\<lambda>x. name_at (fs_des (fu_fs s)) x = Some name) xs = Some x"
  shows "\<exists>s'. lookup_times env req par name n s = Some (Inr s') \<and> same_tree s s' \<and>
    de_refs s' = (de_refs s)(x := de_refs s x + n)"
  using assms
proof (induction n arbitrary: s)
  case 0
  then show ?case by simp
next
  case (Suc n)
  have b: "\<forall>x \<in> set (de # xs). 0 < de_refs s x \<and> de_refs s x + 2 \<le> max_refs"
    using Suc.prems(3) by auto
  from lookup_known [OF Suc.prems(1) b Suc.prems(2), of name req] Suc.prems(4) obtain s1 where
    s1: "fsfuse_lookup env req par name s = Some (Inr s1)" "same_tree s s1" "de_refs s1 = held (de_refs s) (Some x)"
    by auto
  have c: "contents_at (fs_des (fu_fs s1)) = contents_at (fs_des (fu_fs s))" using same_tree_contents [OF s1(2)] .
  have "\<forall>x \<in> set (de # xs). 0 < de_refs s1 x \<and> de_refs s1 x + n + 1 \<le> max_refs"
    using Suc.prems(3) s1(3) by (fastforce simp: held_def)
  from Suc.IH [OF same_tree_known_dir [OF s1(2) Suc.prems(1)] Suc.prems(2) this] Suc.prems(4)
  obtain s2 where "lookup_times env req par name n s1 = Some (Inr s2)" "same_tree s1 s2"
      "de_refs s2 = (de_refs s1)(x := de_refs s1 x + n)"
    unfolding name_at_cong [OF c] by blast
  with s1 show ?case by (auto simp: held_def fun_eq_iff intro: same_tree_trans)
qed

lemma forget_held:
  assumes "slot (fu_fs s) ino = Some a" "de_refs s = r(a := r a + n)" "0 < r a" "r a + n < max_refs"
  shows "\<exists>s'. fsfuse_forget req ino n s = Inr s' \<and> same_tree s s' \<and> de_refs s' = r"
proof -
  have pos: "0 < de_refs s a" "de_refs s a < max_refs" using assms(2-4) by auto
  from get_by_inode_slot [OF assms(1) pos] obtain st where
    st: "direntry_get_by_inode ino (fu_fs s) = Inr (0, Some a, (fu_fs s)\<lparr>fs_des := st\<rparr>)"
      "refs st = held (de_refs s) (Some a)" "contents_at st = de_contents s" by blast
  let ?s = "s\<lparr>fu_fs := (fu_fs s)\<lparr>fs_des := st\<rparr>\<rparr>"
  from drop_de_held [of ?s "de_refs s" a] st(2) pos(1) obtain s1 where
    s1: "drop_de a ?s = Inr s1" "de_refs s1 = de_refs s" "same_tree ?s s1" by auto
  from drops_held [of s1 r a n] s1(2) assms(2,3) obtain s2 where
    s2: "fold_res (\<lambda>_. drop_de a) [0..<n] s1 = Inr s2" "de_refs s2 = r" "same_tree s1 s2" by auto
  have "same_tree s ?s" using st(3) by blast
  then have "same_tree s (fuse_reply req reply_none s2)"
    using s1(3) s2(3) same_tree_trans same_tree_reply by blast
  with s1(1) s2(1,2) st(1) show ?thesis by (simp add: fsfuse_forget_def)
qed


lemma example_slots: "slot example_fs 1 = Some 10" "slot example_fs 3 = Some 12"
  by (simp_all add: slot_def example_fs_def)

lemma example_known_dir: "known_dir example_fs 1 10 [11, 12]"
  by (simp add: known_dir_def example_slots example_contents example_names del: One_nat_def)


section \<open>Closing\<close>

lemma drop_two:
  assumes "de_refs s = r(a := Suc (Suc (r a)))" "0 < r a"
  shows "\<exists>s1 s2. drop_de a s = Inr s1 \<and> drop_de a s1 = Inr s2 \<and> de_refs s2 = r \<and> same_tree s s2"
proof -
  have "de_refs s = held (r(a := Suc (r a))) (Some a)" using assms(1) by (auto simp: held_def)
  from drop_de_held [OF this] obtain s1 where
    s1: "drop_de a s = Inr s1" "de_refs s1 = r(a := Suc (r a))" "same_tree s s1" by auto
  from drop_de_held [of s1 r a] s1(2) assms(2) obtain s2 where
    "drop_de a s1 = Inr s2" "de_refs s2 = r" "same_tree s1 s2" by (auto simp: held_upd)
  with s1 show ?thesis using same_tree_trans by blast
qed

text \<open>Giving up the last reference frees the direntry; the inode table still points to it.\<close>

lemma drop_last_dangles:
  assumes "de_refs s a = 1" "slot (fu_fs s) ino = Some a"
  shows "\<exists>s'. drop_de a s = Inr s' \<and> direntry_get_by_inode ino (fu_fs s') = Inl UseAfterFree"
proof -
  from obj_delete_last [OF assms(1)] obtain st where st: "obj_delete a (fs_des (fu_fs s)) = Inr st" "st a = None"
    by blast
  with assms(2) show ?thesis
    by (auto simp: drop_de_def direntry_delete_def direntry_get_by_inode_def inode_map_get_def slot_def
        direntry_copy_def obj_copy_def split: if_splits)
qed

lemma opendir_ok:
  assumes "slot (fu_fs s) ino = Some a" "0 < de_refs s a" "de_refs s a < max_refs"
    and "de_contents s a = Some d" "li_type (de_li d) = listing_type_DIRECTORY" "fi_flags fi AND 3 = 0"
  shows "\<exists>s'. fsfuse_opendir req ino fi s = Inr s' \<and> same_tree s s' \<and>
    de_refs s' = (de_refs s)(a := Suc (de_refs s a)) \<and> fu_replies s' = fu_replies s @ [(req, reply_open a)]"
proof -
  from get_by_inode_slot [OF assms(1-3)] obtain st where
    st: "direntry_get_by_inode ino (fu_fs s) = Inr (0, Some a, (fu_fs s)\<lparr>fs_des := st\<rparr>)"
      "refs st = held (de_refs s) (Some a)" "contents_at st = de_contents s" by blast
  have "obj_get a st = Inr d" using st(2,3) assms(4) by (intro obj_get_contents) (simp_all add: held_def)
  with st assms(5,6) show ?thesis
    by (auto simp: fsfuse_opendir_def de_at_def O_RDONLY_def fuse_reply_def held_upd)
qed

lemma open_ok:
  assumes "slot (fu_fs s) ino = Some a" "0 < de_refs s a" "de_refs s a + 1 < max_refs"
    and "de_contents s a = Some d" "li_type (de_li d) = listing_type_FILE" "fi_flags fi AND 3 = 0"
  shows "\<exists>s' st. fsfuse_open env h req ino fi s = Inr s' \<and>
    s' = fuse_reply req (reply_open h) (s\<lparr>fu_fs := (fu_fs s)\<lparr>fs_des := st\<rparr>,
      fu_files := (fu_files s)(h \<mapsto> \<lparr>of_de = a,
        of_downloader = downloader_new (li_size (de_li d)) (env_busy env) (env_waits env), of_running = True\<rparr>)\<rparr>) \<and>
    refs st = (de_refs s)(a := Suc (Suc (de_refs s a))) \<and> contents_at st = de_contents s"
proof -
  have "de_refs s a < max_refs" using assms(3) by simp
  from get_by_inode_slot [OF assms(1,2) this] obtain st where
    st: "direntry_get_by_inode ino (fu_fs s) = Inr (0, Some a, (fu_fs s)\<lparr>fs_des := st\<rparr>)"
      "refs st = held (de_refs s) (Some a)" "contents_at st = de_contents s" by blast
  have g: "obj_get a st = Inr d" using st(2,3) assms(4) by (intro obj_get_contents) (simp_all add: held_def)
  have "0 < refs st a" "refs st a < max_refs" using st(2) assms(3) by (simp_all add: held_def)
  from direntry_rc.copy_count [OF this] obtain st2 where
    st2: "direntry_copy a st = Inr st2" "refs st2 = (refs st)(a := refs st a + 1)"
      "contents_at st2 = contents_at st" by blast
  have "refs st2 = (de_refs s)(a := Suc (Suc (de_refs s a)))" using st(2) st2(2) by (auto simp: held_def)
  with st st2 g assms(5,6) show ?thesis by (auto simp: fsfuse_open_def O_RDONLY_def)
qed

lemma release_two:
  assumes "fu_files s (fi_fh fi) = Some ctxt" "of_de ctxt = a"
    and "de_refs s = r(a := Suc (Suc (r a)))" "0 < r a"
  shows "\<exists>s'. fsfuse_release req ino fi s = Inr s' \<and> de_refs s' = r \<and> (\<forall>i. slot (fu_fs s') i = slot (fu_fs s) i)"
proof -
  from drop_two [OF assms(3,4)] obtain s1 s2 where
    "drop_de a s = Inr s1" "drop_de a s1 = Inr s2" "de_refs s2 = r" "same_tree s s2" by blast
  with assms(1,2) show ?thesis
    using same_tree_slot [of s s2] by (auto simp: fsfuse_release_def fuse_reply_def)
qed

text \<open>C39. Closing gives up too much (release.c, releasedir.c, downloader.c): opening a directory takes
  one reference and closing it gives up two; opening a file takes one for the open file and one
  for its download thread, closing it gives up both and the thread gives up its own again when it
  ends. So when the inode table holds the only reference to a direntry, opening and closing it once
  frees the direntry although the table still refers to it, and the next operation on its inode
  is a use after free.\<close>
theorem close_leaves_dangling_inode:
  assumes "slot (fu_fs s) ino = Some a" "de_refs s a = 1" "de_contents s a = Some d" "fi_flags fi AND 3 = 0"
  shows "(li_type (de_li d) = listing_type_DIRECTORY \<longrightarrow>
      (\<exists>s1 s2. fsfuse_opendir req ino fi s = Inr s1 \<and> fu_replies s1 = fu_replies s @ [(req, reply_open a)] \<and>
         fsfuse_releasedir req' ino (fi\<lparr>fi_fh := a\<rparr>) s1 = Inr s2 \<and>
         direntry_get_by_inode ino (fu_fs s2) = Inl UseAfterFree)) \<and>
    (li_type (de_li d) = listing_type_FILE \<longrightarrow>
      (\<exists>s1 s2 s3. fsfuse_open env h req ino fi s = Inr s1 \<and> fu_replies s1 = fu_replies s @ [(req, reply_open h)] \<and>
         fsfuse_release req' ino (fi\<lparr>fi_fh := h\<rparr>) s1 = Inr s2 \<and>
         drop_de a s2 = Inr s3 \<and> direntry_get_by_inode ino (fu_fs s3) = Inl UseAfterFree))"
proof (intro conjI impI)
  have r: "0 < de_refs s a" "de_refs s a < max_refs" "de_refs s a + 1 < max_refs" using assms(2) by simp_all
  assume "li_type (de_li d) = listing_type_DIRECTORY"
  from opendir_ok [OF assms(1) r(1,2) assms(3) this assms(4), of req] obtain s1 where
    s1: "fsfuse_opendir req ino fi s = Inr s1" "same_tree s s1" "de_refs s1 = (de_refs s)(a := Suc (de_refs s a))"
      "fu_replies s1 = fu_replies s @ [(req, reply_open a)]" by blast
  from drop_de_held [of s1 "de_refs s" a] s1(3) r(1) obtain s2 where
    s2: "drop_de a s1 = Inr s2" "de_refs s2 = de_refs s" "same_tree s1 s2" by (auto simp: held_upd)
  have "slot (fu_fs s2) ino = Some a" using assms(1) same_tree_slot s1(2) s2(3) by simp
  from drop_last_dangles [OF _ this] s2(2) assms(2) obtain s3 where
    "drop_de a s2 = Inr s3" "direntry_get_by_inode ino (fu_fs s3) = Inl UseAfterFree" by auto
  then show "\<exists>s1 s2. fsfuse_opendir req ino fi s = Inr s1 \<and> fu_replies s1 = fu_replies s @ [(req, reply_open a)] \<and>
         fsfuse_releasedir req' ino (fi\<lparr>fi_fh := a\<rparr>) s1 = Inr s2 \<and>
         direntry_get_by_inode ino (fu_fs s2) = Inl UseAfterFree"
    using s1 s2(1) by (simp add: fsfuse_releasedir_def fuse_reply_def)
next
  have r: "0 < de_refs s a" "de_refs s a + 1 < max_refs" using assms(2) by simp_all
  assume "li_type (de_li d) = listing_type_FILE"
  from open_ok [OF assms(1) r assms(3) this assms(4), of env h req] obtain s1 st where
    s1: "fsfuse_open env h req ino fi s = Inr s1" and
    eq: "s1 = fuse_reply req (reply_open h) (s\<lparr>fu_fs := (fu_fs s)\<lparr>fs_des := st\<rparr>,
      fu_files := (fu_files s)(h \<mapsto> \<lparr>of_de = a,
        of_downloader = downloader_new (li_size (de_li d)) (env_busy env) (env_waits env), of_running = True\<rparr>)\<rparr>)" and
    st: "refs st = (de_refs s)(a := Suc (Suc (de_refs s a)))" by blast
  from eq have f: "fu_files s1 h = Some \<lparr>of_de = a, of_downloader =
      downloader_new (li_size (de_li d)) (env_busy env) (env_waits env), of_running = True\<rparr>"
    and rep: "fu_replies s1 = fu_replies s @ [(req, reply_open h)]"
    and rf: "de_refs s1 = (de_refs s)(a := Suc (Suc (de_refs s a)))"
    and sl: "slot (fu_fs s1) ino = Some a"
    using st assms(1) by (auto simp: fuse_reply_def slot_def split: if_splits)
  from release_two [of s1 "fi\<lparr>fi_fh := h\<rparr>", OF _ _ rf r(1), of _ req' ino] f obtain s2 where
    s2: "fsfuse_release req' ino (fi\<lparr>fi_fh := h\<rparr>) s1 = Inr s2" "de_refs s2 = de_refs s"
      "slot (fu_fs s2) ino = Some a" using sl by auto
  from drop_last_dangles [OF _ s2(3)] s2(2) assms(2) obtain s3 where
    "drop_de a s2 = Inr s3" "direntry_get_by_inode ino (fu_fs s3) = Inl UseAfterFree" by auto
  with s1 rep s2(1) show "\<exists>s1 s2 s3. fsfuse_open env h req ino fi s = Inr s1 \<and>
      fu_replies s1 = fu_replies s @ [(req, reply_open h)] \<and>
      fsfuse_release req' ino (fi\<lparr>fi_fh := h\<rparr>) s1 = Inr s2 \<and>
      drop_de a s2 = Inr s3 \<and> direntry_get_by_inode ino (fu_fs s3) = Inl UseAfterFree" by blast
qed

theorem close_leaves_dangling_inode_witness:
  "\<exists>s1 s2. fsfuse_opendir 7 1 \<lparr>fi_flags = 0, fi_fh = 0\<rparr> example_fuse = Inr s1 \<and>
     fsfuse_releasedir 8 1 \<lparr>fi_flags = 0, fi_fh = 10\<rparr> s1 = Inr s2 \<and>
     direntry_get_by_inode 1 (fu_fs s2) = Inl UseAfterFree"
proof -
  let ?d = "example_de '''' 1 None None (Some 11)"
  have "slot (fu_fs example_fuse) 1 = Some 10" "de_refs example_fuse 10 = 1" "de_contents example_fuse 10 = Some ?d"
    "fi_flags \<lparr>fi_flags = 0, fi_fh = 0\<rparr> AND 3 = 0"
    by (simp_all add: example_slots example_refs example_contents del: One_nat_def)
  from close_leaves_dangling_inode [OF this, of 7 8] show ?thesis by (auto simp: example_de_def)
qed

section \<open>Reading\<close>

text \<open>
  The reads that end in a failed assertion: those behind the end of the file, and those over the end
  of the file whose end, as a 32-bit number, seems to lie inside.
\<close>

definition read_rejected :: "int \<Rightarrow> nat \<Rightarrow> int \<Rightarrow> bool" where
  "read_rejected fsize sz off \<longleftrightarrow>
     fsize < off \<or> off < fsize \<and> fsize < off + int sz \<and> (off + int sz) mod 2 ^ 32 < fsize"

lemma read_size_fits:
  assumes "0 \<le> off" "\<not> read_rejected fsize sz off"
  shows "off + int (read_size fsize sz off) = min (off + int sz) fsize"
proof -
  have "(off + int sz) mod 2 ^ 32 \<le> off + int sz" using assms(1) by (simp add: zmod_le_nonneg_dividend)
  then show ?thesis using assms by (auto simp: read_size_def read_rejected_def)
qed

text \<open>The state after a read that is queued.\<close>

definition after_read :: "addr \<Rightarrow> nat \<Rightarrow> nat \<Rightarrow> addr \<Rightarrow> open_file_ctxt_t \<Rightarrow> chunk_t binary_heap_t \<Rightarrow> fuse_t \<Rightarrow> fuse_t" where
  "after_read a req sz fh ctxt h s =
     s\<lparr>fu_reads := (fu_reads s)(a \<mapsto> \<lparr>rd_de = of_de ctxt, rd_req = req, rd_size = sz\<rparr>),
       fu_files := (fu_files s)(fh \<mapsto> ctxt\<lparr>of_downloader := (of_downloader ctxt)\<lparr>d_chunks := h\<rparr>\<rparr>)\<rparr>"

lemma fsfuse_read_queues:
  assumes "fu_files s (fi_fh fi) = Some ctxt" "de_at (of_de ctxt) s = Inr d" "heap_inv (d_chunks (of_downloader ctxt))"
    and "d_size (of_downloader ctxt) = li_size (de_li d)" "0 \<le> off" "0 \<le> li_size (de_li d)" "of_running ctxt"
    and "\<not> read_rejected (li_size (de_li d)) sz off"
  obtains h where "heap_inv h"
    "fsfuse_read a req ino sz off fi s =
       Inr (after_read a req (nat (min (off + int sz) (li_size (de_li d)) - off)) (fi_fh fi) ctxt h s)"
    "heap_chunks h = add_mset (chunk_new off (min (off + int sz) (li_size (de_li d))) a)
       (heap_chunks (d_chunks (of_downloader ctxt)))"
proof -
  let ?t = "of_downloader ctxt" and ?fsize = "li_size (de_li d)"
  let ?sz = "read_size ?fsize sz off"
  have sz: "off + int ?sz = min (off + int sz) ?fsize" by (rule read_size_fits [OF assms(5,8)])
  let ?bytes = "replicate (nat ?fsize) NUL" and ?rq = "\<lambda>_. (off, off + int ?sz)"
  have "request_ok ?bytes ?rq (off, off + int ?sz, a)" "d_size ?t = int (length ?bytes)"
    using sz assms(4-6,8) by (auto simp: request_ok_def read_rejected_def min_def split: if_splits)
  from chunk_add_correct [OF assms(3) this] obtain h where
    "downloader_chunk_add (off, off + int ?sz, a) ?t = Inr (?t\<lparr>d_chunks := h\<rparr>)" "heap_inv h"
    "heap_chunks h = add_mset (chunk_new off (off + int ?sz) a) (heap_chunks (d_chunks ?t))" by auto
  with assms(1,2,7) show thesis
    by (intro that [of h]) (simp_all add: fsfuse_read_def after_read_def Let_def flip: sz)
qed

lemma fsfuse_read_rejected:
  assumes "fu_files s (fi_fh fi) = Some ctxt" "de_at (of_de ctxt) s = Inr d" "of_running ctxt"
    and "d_size (of_downloader ctxt) = li_size (de_li d)" "0 \<le> off" "read_rejected (li_size (de_li d)) sz off"
  shows "fsfuse_read a req ino sz off fi s = Inl AssertFail"
  using assms by (auto simp: fsfuse_read_def Let_def downloader_chunk_add_def read_size_def read_rejected_def)


text \<open>The example with an open file of five bytes.\<close>

definition example_file :: direntry_t where
  "example_file = (example_de ''f'' 2 None None None)\<lparr>de_li :=
     (de_li (example_de ''f'' 2 None None None))\<lparr>li_type := listing_type_FILE, li_size := 5\<rparr>\<rparr>"

definition example_open :: fuse_t where
  "example_open = example_fuse\<lparr>fu_fs := example_fs\<lparr>fs_des := [11 \<mapsto> (Some \<lparr>ref_count = 3\<rparr>, example_file)]\<rparr>,
     fu_files := [60 \<mapsto> \<lparr>of_de = 11, of_downloader = downloader_new 5 [] [], of_running = True\<rparr>]\<rparr>"

lemma example_open_simps [simp]:
  "de_refs example_open 11 = 3" "de_contents example_open 11 = Some example_file"
  "fu_files example_open 60 = Some \<lparr>of_de = 11, of_downloader = downloader_new 5 [] [], of_running = True\<rparr>"
  "li_size (de_li example_file) = 5"
  by (simp_all add: example_open_def refs_def contents_at_def example_file_def)


text \<open>
  The answer to a read (read.c, \<^verbatim>\<open>chunk_done\<close>, with downloader.c): when the download thread calls
  back for the range that \<^verbatim>\<open>fsfuse_read\<close> queued, with what the thread promises of a successful
  chunk, the answer is exactly the bytes of the file from the offset on, as many as were asked
  for or as the file has; an error is passed on. Each answer gives up a reference to the direntry
  that the read never took.
\<close>

lemma chunk_done_answers:
  assumes "signal_ok bytes rq (a, rc, len, buf)" "rq a = (int off, min (int (off + sz)) (int (length bytes)))"
    and "off \<le> length bytes" "fu_reads s a = Some \<lparr>rd_de = de, rd_req = req, rd_size = min sz (length bytes - off)\<rparr>"
  shows "chunk_done (a, rc, len, buf) s =
    bind_res (drop_de de (fuse_reply req (if rc = 0 then reply_buf (map Some (take sz (drop off bytes)))
                                          else reply_err rc) s)) (\<lambda>s.
    Inr (s\<lparr>fu_reads := (fu_reads s)(a := None)\<rparr>))"
proof (cases "rc = 0")
  case True
  have "nat (min (int (off + sz)) (int (length bytes)) - int off) = min sz (length bytes - off)"
    using assms(3) by linarith
  then have "buf = take sz (drop off bytes) \<and> len = length buf"
    using assms(1,2) True by (auto simp: signal_ok_def segment_def min_def)
  then show ?thesis using True assms(4) by (simp add: chunk_done_def Let_def) linarith
next
  case False
  then show ?thesis using assms(4) by (simp add: chunk_done_def Let_def)
qed

section \<open>Reading a directory\<close>

text \<open>
  The listing a directory should have, and its encoding: each entry carries the position behind it,
  at which a later request continues.
\<close>

fun dirents :: "fuse_env \<Rightarrow> nat \<Rightarrow> (string \<times> stat) list \<Rightarrow> string" where
  "dirents env pos [] = []"
| "dirents env pos ((name, st) # es) =
     env_dirent env name st (pos + env_dirent_size env name) @ dirents env (pos + env_dirent_size env name) es"

definition entry_of :: "fuse_env \<Rightarrow> direntry_t rc_store \<Rightarrow> addr \<Rightarrow> string \<times> stat" where
  "entry_of env st x = (the (name_at st x), direntry_de2stat (env_attr env) (the (contents_at st x)))"

definition dir_entries :: "fuse_env \<Rightarrow> direntry_t rc_store \<Rightarrow> addr \<Rightarrow> addr list \<Rightarrow> (string \<times> stat) list" where
  "dir_entries env st de xs =
     (let d = the (contents_at st de);
          pd = (case de_parent d of None \<Rightarrow> d | Some p \<Rightarrow> the (contents_at st p)) in
      (''.'', direntry_de2stat (env_attr env) d) # (''..'', direntry_de2stat (env_attr env) pd) #
      map (entry_of env st) xs)"

text \<open>libfuse writes as many bytes for an entry as it has announced.\<close>

definition dirent_sized :: "fuse_env \<Rightarrow> bool" where
  "dirent_sized env \<longleftrightarrow> (\<forall>n st off. length (env_dirent env n st off) = env_dirent_size env n)"

lemma dirents_append:
  assumes "dirent_sized env"
  shows "dirents env pos (es @ fs) = dirents env pos es @ dirents env (pos + length (dirents env pos es)) fs"
  using assms
  by (induction es arbitrary: pos rule: list.induct) (auto simp: dirent_sized_def add.assoc)

lemma dirbuf_add_ok:
  assumes "dirent_sized env" "(case name of Some m \<Rightarrow> m = n | None \<Rightarrow> li_name (de_li d) = Some n)"
  shows "dirbuf_add env d name (map Some b) =
    Inr (map Some (b @ env_dirent env n (direntry_de2stat (env_attr env) d) (length b + env_dirent_size env n)))"
  using assms
  by (auto simp: dirbuf_add_def dirent_sized_def listing_get_name_def Let_def split: option.splits)

lemma dirbuf_children_ok:
  assumes "chain st l xs" "\<forall>x \<in> set xs. healthy st x" "length xs < fuel" "dirent_sized env"
    and "contents_at s = contents_at st" "refs s = held (refs st) l"
  shows "\<exists>s'. dirbuf_children env fuel l (s, map Some b) =
      Some (Inr (s', map Some (b @ dirents env (length b) (map (entry_of env st) xs)))) \<and>
    contents_at s' = contents_at st \<and> refs s' = refs st"
  using assms
proof (induction xs arbitrary: l fuel s b)
  case Nil
  then show ?case by (cases fuel) auto
next
  case (Cons x xs)
  then obtain f where f: "fuel = Suc f" and l: "l = Some x"
    by (cases fuel) (auto split: option.splits)
  have "chain st (Some x) (x # xs)" "refs s = held (refs st) (Some x)"
    using Cons.prems(1,6) l by simp_all
  from sibling_step [OF this(1) Cons.prems(2,5) this(2)] obtain d s2 where
    d: "contents_at st x = Some d" "obj_get x s = Inr d" "chain st (de_next d) xs" and
    step: "bind_res (direntry_get_next_sibling x s) (\<lambda>(nxt, s). bind_res (direntry_delete x s) (\<lambda>s. Inr (nxt, s))) =
        Inr (de_next d, s2)" and
    s2: "contents_at s2 = contents_at st" "refs s2 = held (refs st) (de_next d)" .
  obtain n where n: "name_at st x = Some n" using Cons.prems(2) by (auto simp: healthy_def)
  let ?e = "env_dirent env n (direntry_de2stat (env_attr env) d) (length b + env_dirent_size env n)"
  have "li_name (de_li d) = Some n" using n d(1) by (simp add: name_at_def)
  then have "dirbuf_add env d None (map Some b) = Inr (map Some (b @ ?e))"
    by (intro dirbuf_add_ok [OF Cons.prems(4)]) simp
  with d(2) step f l have eq: "dirbuf_children env fuel l (s, map Some b) =
      dirbuf_children env f (de_next d) (s2, map Some (b @ ?e))" by auto
  have "length ?e = env_dirent_size env n" using Cons.prems(4) by (simp add: dirent_sized_def)
  then have "dirents env (length b) (map (entry_of env st) (x # xs)) =
      ?e @ dirents env (length (b @ ?e)) (map (entry_of env st) xs)"
    using n d(1) by (simp add: entry_of_def)
  then show ?case
    using Cons.IH [OF d(3) _ _ Cons.prems(4) s2, of f "b @ ?e"] Cons.prems(2,3) f eq by simp
qed

lemma dirbuf_dots_ok:
  assumes "dirent_sized env" "contents_at st de = Some d" "0 < refs st de"
    and "\<forall>p. de_parent d = Some p \<longrightarrow> healthy st p"
  shows "\<exists>s'. dirbuf_dots env de st = Inr (s', map Some (dirents env 0 (dir_entries env st de []))) \<and>
    contents_at s' = contents_at st \<and> refs s' = refs st"
proof -
  have g: "obj_get de st = Inr d" using assms(3,2) by (rule obj_get_contents)
  have add: "dirbuf_add env x (Some n) (map Some b) = Inr (map Some (b @
      env_dirent env n (direntry_de2stat (env_attr env) x) (length b + env_dirent_size env n)))" for x n b
    by (intro dirbuf_add_ok [OF assms(1)]) simp
  note dots = g add add [where b = "[]", simplified] dirbuf_dots_def direntry_get_parent_def dir_entries_def assms(2)
  have len: "length (env_dirent env n x p) = env_dirent_size env n" for n x p
    using assms(1) by (simp add: dirent_sized_def)
  show ?thesis
  proof (cases "de_parent d")
    case None
    then show ?thesis by (simp add: dots len)
  next
    case (Some p)
    then have hp: "healthy st p" using assms(4) by simp
    then obtain pd where pd: "contents_at st p = Some pd" by (auto simp: healthy_def name_at_def split: option.splits)
    have "\<forall>a. Some p = Some a \<longrightarrow> 0 < refs st a \<and> refs st a < max_refs"
      using hp by (auto simp: healthy_def)
    from copy_link_held [OF this] obtain s1 where
      s1: "copy_link (Some p) st = Inr (Some p, s1)" "refs s1 = held (refs st) (Some p)"
        "contents_at s1 = contents_at st" by blast
    have gp: "obj_get p s1 = Inr pd" using s1 pd by (intro obj_get_contents) (simp_all add: held_def)
    from drop_held [OF s1(2)] hp obtain s2 where
      "direntry_delete p s1 = Inr s2" "refs s2 = refs st" "contents_at s2 = contents_at s1"
      by (auto simp: healthy_def)
    with s1 gp pd Some show ?thesis by (simp add: dots len)
  qed
qed



section \<open>Statistics\<close>

text \<open>What an indexnode reports: the numbers of files and bytes, or nothing when the request fails.\<close>

definition stats_reports :: "fuse_env \<Rightarrow> (indexnode_t \<Rightarrow> (nat \<times> nat) option) \<Rightarrow> bool" where
  "stats_reports env report \<longleftrightarrow> (\<forall>node cb c. env_tryget_stats env node cb c =
     (case report node of
        None \<Rightarrow> Inr (EIO, c)
      | Some (files, bytes) \<Rightarrow> bind_res (cb files bytes c) (\<lambda>c. Inr (0, c))))"

lemma iteration_step:
  assumes "0 < refs st x" "refs st x < max_refs"
  shows "\<exists>st1 st2. indexnodes_iterator_current \<lparr>iter_current = x # xs\<rparr> st = Inr (x, st1) \<and>
    obj_get x st1 = Inr (node_at st x) \<and> indexnode_delete x st1 = Inr st2 \<and>
    refs st2 = refs st \<and> contents_at st2 = contents_at st"
proof -
  from indexnode_rc.copy_count [OF assms] obtain st1 where
    st1: "indexnode_copy x st = Inr st1" "refs st1 = (refs st)(x := refs st x + 1)"
      "contents_at st1 = contents_at st" by blast
  have "1 < refs st1 x" "0 < refs st1 x" using st1(2) assms(1) by simp_all
  with indexnode_rc.delete_count [of st1 x] obj_delete_keeps [of x st1] obtain st2 where
    "indexnode_delete x st1 = Inr st2" "refs st2 = (refs st1)(x := refs st1 x - 1)"
      "contents_at st2 = contents_at st1" by (auto simp: indexnode_delete_def)
  moreover have "obj_get x st1 = Inr (node_at st x)"
    using obj_get_node [of st1 x] node_at_contents [OF st1(3)] st1(2) by simp
  ultimately show ?thesis using st1 by (auto simp: indexnodes_iterator_current_def)
qed

definition live_items :: "addr list \<Rightarrow> indexnode_t rc_store \<Rightarrow> bool" where
  "live_items xs st \<longleftrightarrow> (\<forall>x \<in> set xs. 0 < refs st x \<and> refs st x < max_refs)"

lemmas iterating = indexnodes_iterator_end_def indexnodes_iterator_next_def

lemma count_loop_ok:
  assumes "live_items xs st" "n + length xs < 2 ^ 32"
  shows "\<exists>st'. count_loop \<lparr>iter_current = xs\<rparr> n st = Inr (n + length xs, st') \<and>
    refs st' = refs st \<and> contents_at st' = contents_at st"
  using assms
proof (induction xs arbitrary: n st)
  case Nil
  then show ?case by (simp add: count_loop.simps iterating)
next
  case (Cons x xs)
  from Cons.prems(1) iteration_step [of st x xs] obtain st1 st2 where
    s: "indexnodes_iterator_current \<lparr>iter_current = x # xs\<rparr> st = Inr (x, st1)"
      "indexnode_delete x st1 = Inr st2" "refs st2 = refs st" "contents_at st2 = contents_at st"
    by (auto simp: live_items_def)
  have "count_loop \<lparr>iter_current = x # xs\<rparr> n st = count_loop \<lparr>iter_current = xs\<rparr> (n + 1) st2"
    using s(1,2) Cons.prems(2) by (subst count_loop.simps) (simp add: iterating)
  then show ?case using Cons.IH [of st2 "n + 1"] Cons.prems s(3,4) by (simp add: live_items_def)
qed

definition all_reports :: "(indexnode_t \<Rightarrow> (nat \<times> nat) option) \<Rightarrow> indexnode_t list \<Rightarrow> (nat \<times> nat) list" where
  "all_reports report nodes = List.map_filter report nodes"

lemma stats_loop_ok:
  assumes "live_items xs st" "stats_reports env report"
    and "fold_res (\<lambda>(files, bytes). stats_cb files bytes) (all_reports report (map (node_at st) xs)) c = Inr c'"
  shows "\<exists>st'. stats_loop env \<lparr>iter_current = xs\<rparr> c st = Inr (c', st') \<and>
    refs st' = refs st \<and> contents_at st' = contents_at st"
  using assms
proof (induction xs arbitrary: c st)
  case Nil
  then show ?case by (simp add: stats_loop.simps iterating all_reports_def map_filter_def)
next
  case (Cons x xs)
  from Cons.prems(1) iteration_step [of st x xs] obtain st1 st2 where
    s: "indexnodes_iterator_current \<lparr>iter_current = x # xs\<rparr> st = Inr (x, st1)"
      "obj_get x st1 = Inr (node_at st x)"
      "indexnode_delete x st1 = Inr st2" "refs st2 = refs st" "contents_at st2 = contents_at st"
    by (auto simp: live_items_def)
  obtain c1 where
    "(case report (node_at st x) of None \<Rightarrow> Inr c | Some (f, b) \<Rightarrow> stats_cb f b c) = Inr c1" and
    rest: "fold_res (\<lambda>(files, bytes). stats_cb files bytes) (all_reports report (map (node_at st2) xs)) c1 = Inr c'"
    using Cons.prems(3) node_at_contents [OF s(5)]
    by (cases "report (node_at st x)") (auto simp: all_reports_def map_filter_def)
  then have "\<exists>rc. env_tryget_stats env (node_at st x) stats_cb c = Inr (rc, c1)"
    using Cons.prems(2) [unfolded stats_reports_def, rule_format, of "node_at st x" stats_cb c]
    by (cases c1) (auto split: option.splits)
  then have "stats_loop env \<lparr>iter_current = x # xs\<rparr> c st = stats_loop env \<lparr>iter_current = xs\<rparr> c1 st2"
    using s(1-3) by (subst stats_loop.simps) (auto simp: iterating)
  then show ?case using Cons.IH [OF _ Cons.prems(2) rest] Cons.prems(1) s(4,5) by (simp add: live_items_def)
qed

definition stats_answer :: "(nat \<times> nat) list \<Rightarrow> statvfs" where
  "stats_answer rs = new_stvfs\<lparr>f_files := sum_list (map fst rs) mod 2 ^ 64,
     f_blocks := sum_list (map snd rs) mod 2 ^ 64 div FSFUSE_BLKSIZE\<rparr>"

lemma stats_cbs:
  assumes "length rs < n" "n < 2 ^ 32"
  shows "fold_res (\<lambda>(files, bytes). stats_cb files bytes) rs
      (Some (req, new_stvfs\<lparr>f_files := f mod 2 ^ 64\<rparr>, b mod 2 ^ 64, n), replies) =
    Inr (Some (req, new_stvfs\<lparr>f_files := (f + sum_list (map fst rs)) mod 2 ^ 64\<rparr>,
      (b + sum_list (map snd rs)) mod 2 ^ 64, n - length rs), replies)"
  using assms
proof (induction rs arbitrary: f b n)
  case (Cons r rs)
  obtain x y where r: "r = (x, y)" by force
  have "stats_cb x y (Some (req, new_stvfs\<lparr>f_files := f mod 2 ^ 64\<rparr>, b mod 2 ^ 64, n), replies) =
      Inr (Some (req, new_stvfs\<lparr>f_files := (f + x) mod 2 ^ 64\<rparr>, (b + y) mod 2 ^ 64, n - 1), replies)"
    using Cons.prems by (simp add: stats_cb_def Let_def mod_add_left_eq)
  moreover have "length rs < n - 1" "n - 1 < 2 ^ 32" using Cons.prems by auto
  ultimately show ?case using Cons.IH [of "n - 1" "f + x" "b + y"] r by (simp add: add.assoc)
qed simp

lemma stats_cbs_last:
  assumes "rs \<noteq> []" "length rs < 2 ^ 32"
  shows "fold_res (\<lambda>(files, bytes). stats_cb files bytes) rs (Some (req, new_stvfs, 0, length rs), replies) =
    Inr (None, replies @ [(req, reply_statfs (stats_answer rs))])"
proof -
  obtain qs x y where rs: "rs = qs @ [(x, y)]" using assms(1) by (cases rs rule: rev_cases) auto
  have "new_stvfs\<lparr>f_files := 0 mod 2 ^ 64\<rparr> = new_stvfs" by (simp add: new_stvfs_def)
  then have "fold_res (\<lambda>(files, bytes). stats_cb files bytes) qs (Some (req, new_stvfs, 0, length rs), replies) =
      Inr (Some (req, new_stvfs\<lparr>f_files := sum_list (map fst qs) mod 2 ^ 64\<rparr>, sum_list (map snd qs) mod 2 ^ 64, 1),
        replies)"
    using stats_cbs [of qs "length rs" req 0 0 replies] assms(2) rs by simp
  then show ?thesis
    by (simp add: rs fold_res_append stats_cb_def stats_answer_def mod_add_left_eq new_stvfs_def)
qed

lemma ins_inv_cong:
  assumes "refs st = refs (ins_store ins)" "contents_at st = contents_at (ins_store ins)" "ins_inv ins"
  shows "ins_inv (ins\<lparr>ins_store := st\<rparr>)"
  using assms node_at_contents [OF assms(2)] by (simp add: ins_inv_def)


lemma all_reports_all: "\<forall>node \<in> set nodes. report node \<noteq> None \<Longrightarrow> all_reports report nodes = map (the \<circ> report) nodes"
  by (induction nodes) (auto simp: all_reports_def map_filter_def)

lemma all_reports_less: "\<exists>node \<in> set nodes. report node = None \<Longrightarrow> length (all_reports report nodes) < length nodes"
  unfolding all_reports_def map_filter_def by (auto intro: length_filter_less)

lemma stats_callbacks:
  assumes "length nodes < 2 ^ 32"
  shows "\<exists>ctxt. fold_res (\<lambda>(files, bytes). stats_cb files bytes) (all_reports report nodes)
      (Some (req, new_stvfs, 0, length nodes), replies) =
    Inr (ctxt, replies @ (if nodes \<noteq> [] \<and> (\<forall>node \<in> set nodes. report node \<noteq> None)
       then [(req, reply_statfs (stats_answer (map (the \<circ> report) nodes)))] else []))"
proof (cases "\<forall>node \<in> set nodes. report node \<noteq> None")
  case True
  show ?thesis
  proof (cases "nodes = []")
    case False
    then show ?thesis
      using stats_cbs_last [of "map (the \<circ> report) nodes" req replies] assms True
      by (simp add: all_reports_all [OF True])
  qed (simp add: all_reports_def map_filter_def)
next
  case False
  then have "\<exists>node \<in> set nodes. report node = None" by (metis (full_types))
  from stats_cbs [OF all_reports_less [OF this] assms, of req 0 0 replies] False show ?thesis
    by (simp add: new_stvfs_def)
qed


lemma known_singleton:
  assumes "ins_inv ins" "known ins = [k \<mapsto> node]"
  shows "map (node_at (ins_store ins)) (ins_items (ins_list ins)) = [node]"
proof -
  let ?nodes = "map (node_at (ins_store ins)) (ins_items (ins_list ins))"
  have d: "distinct (map in_id ?nodes)" using assms(1) by (simp add: ins_inv_def comp_def)
  have k: "map_of (map (\<lambda>n. (in_id n, n)) ?nodes) = [k \<mapsto> node]"
    using assms(2) by (simp add: known_def comp_def)
  have "map_of (map (\<lambda>n. (in_id n, n)) ?nodes) (in_id n) = Some n" if "n \<in> set ?nodes" for n
    using that d by (intro map_of_is_SomeI) (auto simp: comp_def)
  then have "n = node" if "n \<in> set ?nodes" for n using that unfolding k by (force split: if_splits)
  then have "set ?nodes \<subseteq> {node}" by blast
  moreover have "?nodes \<noteq> []" using fun_cong [OF k, of k] by auto
  moreover have "distinct ?nodes" using d distinct_map by blast
  ultimately show ?thesis by (cases ?nodes; cases "tl ?nodes") auto
qed


end
