(* ===== verification/Server.thy ===== *)
theory Server
  imports Fuse_Files "HOL-Library.Sublist"
begin

text \<open>
  Reads from end to end: the kernel's requests (\<^verbatim>\<open>fuse_methods/read.c\<close>), the download thread of the open
  file with its fetcher (\<^verbatim>\<open>downloader.c\<close>) and the answers, as one system that interleaves them in any
  way. The steps are the definitions of \<open>Fuse_Methods\<close> and \<open>Downloader\<close>. The thread is given a fetcher
  that passes each block to \<^verbatim>\<open>buf_consumer\<close> with the thread as its context, as \<^verbatim>\<open>downloader.c\<close> asks for; with the
  wrong context that \<^verbatim>\<open>fetcher.c\<close> does pass, no block reaches the thread at all, and that is shown in
  the root theory (\<open>downloader_delivers_nothing\<close>). The choice of the peer, which comes before each fetch,
  is not part of the system: a fetch that finds none ends with an error.
\<close>

section \<open>The system\<close>

text \<open>
  The thread is at the top of its loop, inside a fetch, inside a fetch that its callback has cut
  short, or behind the loop. \<open>sv_rc\<close> is the thread's \<^verbatim>\<open>rc\<close>, which is not set before the first fetch has returned;
  \<open>sv_asked\<close> are the contexts of the requests so far, \<open>sv_answered\<close> is the number of signals
  that have been answered, and \<open>sv_late\<close> is the number of waits so far that timed out although a chunk was
  queued during them.
\<close>

datatype phase = AtTop | Fetching | CutShort | AtEnd

record server_t =
  sv_fuse :: fuse_t
  sv_phase :: phase
  sv_rc :: "int option"
  sv_asked :: "addr list"
  sv_answered :: nat
  sv_late :: nat

definition sv_file :: "addr \<Rightarrow> server_t \<Rightarrow> open_file_ctxt_t" where
  "sv_file fh sv = the (fu_files (sv_fuse sv) fh)"

definition sv_thread :: "addr \<Rightarrow> server_t \<Rightarrow> downloader_t" where
  "sv_thread fh sv = of_downloader (sv_file fh sv)"

definition put_file :: "addr \<Rightarrow> open_file_ctxt_t \<Rightarrow> server_t \<Rightarrow> server_t" where
  "put_file fh ctxt sv = sv\<lparr>sv_fuse := (sv_fuse sv)\<lparr>fu_files := (fu_files (sv_fuse sv))(fh \<mapsto> ctxt)\<rparr>\<rparr>"

definition put_thread :: "addr \<Rightarrow> downloader_t \<Rightarrow> server_t \<Rightarrow> server_t" where
  "put_thread fh t sv = put_file fh ((sv_file fh sv)\<lparr>of_downloader := t\<rparr>) sv"

definition server_new :: "fuse_t \<Rightarrow> server_t" where
  "server_new s = \<lparr>sv_fuse = s, sv_phase = AtTop, sv_rc = None, sv_asked = [], sv_answered = 0, sv_late = 0\<rparr>"

text \<open>A request of \<open>sz\<close> bytes at an offset; its context is allocated at \<open>a\<close>.\<close>

definition server_ask :: "addr \<Rightarrow> addr \<Rightarrow> nat \<times> nat \<times> nat \<Rightarrow> server_t \<Rightarrow> server_t res" where
  "server_ask fh a = (\<lambda>(req, off, sz) sv.
     bind_res (fsfuse_read a req 0 sz (int off) \<lparr>fi_flags = 0, fi_fh = fh\<rparr> (sv_fuse sv)) (\<lambda>s.
     Inr (sv\<lparr>sv_fuse := s, sv_asked := a # sv_asked sv\<rparr>)))"

text \<open>
  Requests that are made while the thread waits: each wait has its return code and the contexts of
  the requests whose chunks are queued during it. All they do is done now, except that their chunks are left to
  the waits, which take them from \<open>d_waits\<close>.
\<close>

type_synonym waits = "(int \<times> addr list) list"

definition queue_request :: "(addr \<Rightarrow> nat \<times> nat \<times> nat) \<Rightarrow> int \<Rightarrow> addr \<Rightarrow> request" where
  "queue_request plan fsize a =
     (case plan a of (req, off, sz) \<Rightarrow> (int off, int off + int (read_size fsize sz (int off)), a))"

definition server_during ::
  "addr \<Rightarrow> (addr \<Rightarrow> nat \<times> nat \<times> nat) \<Rightarrow> waits \<Rightarrow> server_t \<Rightarrow> server_t res" where
  "server_during fh plan ws sv =
     bind_res (fold_res (\<lambda>a. server_ask fh a (plan a)) (concat (map snd ws)) sv) (\<lambda>sv'.
     Inr ((put_thread fh ((sv_thread fh sv)\<lparr>d_waits :=
              map (\<lambda>(rc, as). (rc, map (queue_request plan (d_size (sv_thread fh sv))) as)) ws\<rparr>) sv')
            \<lparr>sv_late := sv_late sv + length (filter late_wait ws)\<rparr>))"

text \<open>
  The top of the loop: a chunk is in hand or is waited for, and the fetch from its start begins; a
  thread that has waited in vain leaves the loop.
\<close>

definition server_next :: "addr \<Rightarrow> server_t \<Rightarrow> server_t res" where
  "server_next fh sv =
     bind_res (main_chunk (sv_rc sv = None) (sv_thread fh sv)) (\<lambda>t.
     case d_current t of
       None \<Rightarrow> Inr ((put_thread fh t sv)\<lparr>sv_phase := AtEnd\<rparr>)
     | Some c \<Rightarrow>
         bind_res (range_of c) (\<lambda>range_str.
         Inr ((put_thread fh (t\<lparr>d_offset := c_start c\<rparr>) sv)\<lparr>sv_phase := Fetching\<rparr>)))"

definition server_block :: "addr \<Rightarrow> string \<Rightarrow> server_t \<Rightarrow> server_t res" where
  "server_block fh dat sv =
     bind_res (buf_consumer dat (sv_thread fh sv)) (\<lambda>(rc, t).
     Inr ((put_thread fh t sv)\<lparr>sv_phase := if rc = 0 then Fetching else CutShort\<rparr>))"

definition server_fetched :: "int \<Rightarrow> server_t \<Rightarrow> server_t res" where
  "server_fetched rc sv = Inr (sv\<lparr>sv_rc := Some rc, sv_phase := if rc = 0 then AtTop else AtEnd\<rparr>)"

text \<open>The end of the thread: it frees its block and gives up its reference to the direntry.\<close>

definition server_end :: "addr \<Rightarrow> server_t \<Rightarrow> server_t res" where
  "server_end fh sv =
     bind_res (main_end (sv_rc sv) (sv_thread fh sv)) (\<lambda>t.
     bind_res (drop_de (of_de (sv_file fh sv)) (sv_fuse sv)) (\<lambda>s.
     Inr (put_file fh ((sv_file fh sv)\<lparr>of_downloader := t, of_running := False\<rparr>) (sv\<lparr>sv_fuse := s\<rparr>))))"

definition server_answer :: "addr \<Rightarrow> server_t \<Rightarrow> server_t res" where
  "server_answer fh sv =
     bind_res (chunk_done (d_signals (sv_thread fh sv) ! sv_answered sv) (sv_fuse sv)) (\<lambda>s.
     Inr (sv\<lparr>sv_fuse := s, sv_answered := sv_answered sv + 1\<rparr>))"

text \<open>
  \<open>plan\<close> gives the request that is made with a context. The top of the loop and the processing of a
  block can wait for chunks; the other actions cannot.
\<close>

datatype action = Ask addr | Next waits | Block string waits | Fetched int | Finish | Answer

fun server_act ::
  "addr \<Rightarrow> (addr \<Rightarrow> nat \<times> nat \<times> nat) \<Rightarrow> action \<Rightarrow> server_t \<Rightarrow> server_t res" where
  "server_act fh plan (Ask a) sv = server_ask fh a (plan a) sv"
| "server_act fh plan (Next ws) sv = bind_res (server_during fh plan ws sv) (server_next fh)"
| "server_act fh plan (Block dat ws) sv = bind_res (server_during fh plan ws sv) (server_block fh dat)"
| "server_act fh plan (Fetched rc) sv = server_fetched rc sv"
| "server_act fh plan Finish sv = server_end fh sv"
| "server_act fh plan Answer sv = server_answer fh sv"

text \<open>
  The requests made during waits are new, and none of those that abort the program when they are
  made; \<open>ws\<close> are waits of this step, so that all of them are over behind it.
\<close>

definition waits_new :: "string \<Rightarrow> (addr \<Rightarrow> nat \<times> nat \<times> nat) \<Rightarrow> waits \<Rightarrow> server_t \<Rightarrow> bool" where
  "waits_new bytes plan ws sv \<longleftrightarrow> (let as = concat (map snd ws) in
     distinct as \<and> set as \<inter> set (sv_asked sv) = {} \<and>
     (\<forall>a \<in> set as. case plan a of (req, off, sz) \<Rightarrow> \<not> read_rejected (int (length bytes)) sz (int off)))"

definition waits_over :: "addr \<Rightarrow> server_t res \<Rightarrow> bool" where
  "waits_over fh r \<longleftrightarrow> (case r of Inl e \<Rightarrow> True | Inr sv \<Rightarrow> d_waits (sv_thread fh sv) = [])"

text \<open>A fetch that was cut short is no error (\<^verbatim>\<open>process_curl_response\<close>).\<close>

inductive server_step ::
  "string \<Rightarrow> addr \<Rightarrow> (addr \<Rightarrow> nat \<times> nat \<times> nat) \<Rightarrow> server_t \<Rightarrow> action \<Rightarrow> server_t res \<Rightarrow> bool" for bytes fh plan where
  ask: "a \<notin> set (sv_asked sv) \<Longrightarrow> server_step bytes fh plan sv (Ask a) (server_act fh plan (Ask a) sv)"
| next_chunk: "of_running (sv_file fh sv) \<Longrightarrow> sv_phase sv = AtTop \<Longrightarrow> waits_new bytes plan ws sv \<Longrightarrow>
     waits_over fh (server_act fh plan (Next ws) sv) \<Longrightarrow>
     server_step bytes fh plan sv (Next ws) (server_act fh plan (Next ws) sv)"
| block: "of_running (sv_file fh sv) \<Longrightarrow> sv_phase sv = Fetching \<Longrightarrow> dat \<noteq> [] \<Longrightarrow>
     d_offset (sv_thread fh sv) + int (length dat) \<le> int (length bytes) \<Longrightarrow>
     dat = segment bytes (d_offset (sv_thread fh sv)) (d_offset (sv_thread fh sv) + int (length dat)) \<Longrightarrow>
     waits_new bytes plan ws sv \<Longrightarrow> waits_over fh (server_act fh plan (Block dat ws) sv) \<Longrightarrow>
     server_step bytes fh plan sv (Block dat ws) (server_act fh plan (Block dat ws) sv)"
| fetched: "of_running (sv_file fh sv) \<Longrightarrow> sv_phase sv = Fetching \<or> sv_phase sv = CutShort \<and> rc = 0 \<Longrightarrow>
     server_step bytes fh plan sv (Fetched rc) (server_act fh plan (Fetched rc) sv)"
| finish: "of_running (sv_file fh sv) \<Longrightarrow> sv_phase sv = AtEnd \<Longrightarrow>
     server_step bytes fh plan sv Finish (server_act fh plan Finish sv)"
| answer: "sv_answered sv < length (d_signals (sv_thread fh sv)) \<Longrightarrow>
     server_step bytes fh plan sv Answer (server_act fh plan Answer sv)"

inductive server_reach ::
  "string \<Rightarrow> addr \<Rightarrow> (addr \<Rightarrow> nat \<times> nat \<times> nat) \<Rightarrow> server_t \<Rightarrow> server_t \<Rightarrow> bool" for bytes fh plan sv0 where
  opened: "server_reach bytes fh plan sv0 sv0"
| further: "server_reach bytes fh plan sv0 sv \<Longrightarrow> server_step bytes fh plan sv act (Inr sv') \<Longrightarrow>
     server_reach bytes fh plan sv0 sv'"

section \<open>The thread alone\<close>

text \<open>
  Apart from the requests made during waits all requests come from outside; the thread's signals are only
  ever added to.
\<close>

definition grows :: "downloader_t \<Rightarrow> downloader_t \<Rightarrow> bool" where
  "grows t t' \<longleftrightarrow> (d_busy t = [] \<longrightarrow> d_busy t' = [] \<and> prefix (d_signals t) (d_signals t'))"

lemma grows_trans: "grows t u \<Longrightarrow> grows u v \<Longrightarrow> grows t v"
  by (auto simp: grows_def)

lemma grows_same: "d_busy t' = d_busy t \<Longrightarrow> d_signals t' = d_signals t \<Longrightarrow> grows t t'"
  by (simp add: grows_def)

lemma grows_signal: "grows t (signal_read_thread c rc n t)"
  by (simp add: grows_def signal_read_thread_def)

lemma chunk_adds_grows: "fold_res downloader_chunk_add adds t = Inr t' \<Longrightarrow> grows t t'"
  using chunk_adds_frame by (fastforce intro: grows_same)

lemma chunk_wait_grows: "chunk_wait rc ws t = Inr (x, t') \<Longrightarrow> grows t t'"
proof (induction ws arbitrary: rc t)
  case Nil
  then show ?case
    by (auto simp: chunk_wait.simps [of rc "[]"] chunk_woken_def Let_def grows_def
        split: option.splits if_splits)
next
  case (Cons w ws)
  obtain rc' adds where w: "w = (rc', adds)" by force
  from Cons.prems obtain popped h where pop: "binary_heap_trypop (d_chunks t) = Inr (popped, h)"
    by (auto simp: chunk_wait.simps [of rc "w # ws"])
  let ?t = "t\<lparr>d_chunks := h, d_waits := w # ws\<rparr>"
  have g: "grows t ?t" by (rule grows_same) simp_all
  show ?case
  proof (cases "popped = None \<and> rc = 0")
    case True
    with Cons.prems pop w obtain u where
      u: "fold_res downloader_chunk_add adds ?t = Inr u" "chunk_wait rc' ws u = Inr (x, t')"
      by (auto simp: chunk_wait.simps [of 0 "(rc', adds) # ws"])
    show ?thesis using grows_trans [OF g grows_trans [OF chunk_adds_grows [OF u(1)] Cons.IH [OF u(2)]]] .
  next
    case False
    then have "t' = ?t"
      using Cons.prems pop by (auto simp: chunk_wait.simps [of rc "w # ws"] Let_def split: option.splits if_splits
          dest!: chunk_woken_frame)
    then show ?thesis using g by simp
  qed
qed

lemma get_next_grows: "chunk_get_next t = Inr (x, t') \<Longrightarrow> grows t t'"
  by (cases "d_busy t") (auto simp: chunk_get_next_def grows_def dest!: chunk_wait_grows)

lemma buf_loop_grows: "buf_loop bstart dat t = Inr (rc, t') \<Longrightarrow> grows t t'"
proof (induction "chunk_supply t" arbitrary: bstart dat t rule: less_induct)
  case less
  let ?sig = "\<lambda>c. signal_read_thread c 0 (c_bytes_used c) t"
  obtain c where c: "d_current t = Some c"
    using less.prems by (auto simp: buf_loop.simps [of bstart dat t] split: option.splits)
  show ?case
  proof (cases "c_start c = bstart \<and> c_start c \<le> c_end c")
    case False
    then show ?thesis using less.prems c
      by (auto simp: buf_loop.simps [of bstart dat t] split: if_splits intro: grows_same)
  next
    case True
    let ?n = "min (length dat) (nat (c_end c - c_start c))"
    let ?c = "fill ?n dat c"
    have "c_start c = bstart" "c_start c \<le> c_end c" using True by auto
    note step = buf_loop_step [OF c this refl, of dat]
    show ?thesis
    proof (cases "length dat \<le> ?n")
      case True
      then show ?thesis using less.prems [unfolded step Let_def]
        by (auto simp: grows_def signal_read_thread_def split: if_splits)
    next
      case False
      then obtain x t1 where x: "chunk_get_next (?sig ?c) = Inr (x, t1)"
        using less.prems [unfolded step Let_def] by (auto split: sum.splits)
      have g: "grows t t1" using grows_trans [OF grows_signal get_next_grows [OF x]] .
      show ?thesis
      proof (cases x)
        case None
        then show ?thesis using less.prems [unfolded step Let_def] False x
          by (auto intro: grows_trans [OF g grows_same])
      next
        case (Some next_c)
        have "chunk_supply t1 < chunk_supply t"
          using chunk_get_next_supply [OF x [unfolded Some]] by (simp add: chunk_supply_def)
        moreover have "chunk_supply (t1\<lparr>d_current := x\<rparr>) = chunk_supply t1" by (simp add: chunk_supply_def)
        ultimately have "grows (t1\<lparr>d_current := x\<rparr>) t'"
          using less.hyps [of "t1\<lparr>d_current := x\<rparr>"] less.prems [unfolded step Let_def] False x Some by auto
        moreover have "grows t (t1\<lparr>d_current := x\<rparr>)" by (rule grows_trans [OF g grows_same]) simp_all
        ultimately show ?thesis using grows_trans by blast
      qed
    qed
  qed
qed

lemma buf_consumer_grows: "buf_consumer dat t = Inr (rc, t') \<Longrightarrow> grows t t'"
proof -
  assume b: "buf_consumer dat t = Inr (rc, t')"
  show ?thesis
  proof (cases "d_current t")
    case (Some c)
    then show ?thesis using b buf_loop_grows by (simp add: buf_consumer_def)
  next
    case None
    with b obtain x t1 where x: "chunk_get_next t = Inr (x, t1)"
      by (auto simp: buf_consumer_def)
    have g: "grows t (t1\<lparr>d_current := x\<rparr>)" by (rule grows_trans [OF get_next_grows [OF x] grows_same]) simp_all
    show ?thesis
    proof (cases x)
      case None
      then show ?thesis using b x \<open>d_current t = None\<close>
        by (auto simp: buf_consumer_def intro: grows_trans [OF get_next_grows [OF x] grows_same])
    next
      case (Some c)
      then have "grows (t1\<lparr>d_current := x\<rparr>) t'"
        using b x None buf_loop_grows by (fastforce simp: buf_consumer_def)
      with g show ?thesis by (rule grows_trans)
    qed
  qed
qed

lemma chunks_empty_grows: "chunks_empty rc t = Inr t' \<Longrightarrow> grows t t'"
proof (induction "used (d_chunks t)" arbitrary: t rule: less_induct)
  case less
  obtain x h where pop: "binary_heap_trypop (d_chunks t) = Inr (x, h)"
    using less.prems by (auto simp: chunks_empty.simps [of rc t] split: sum.splits)
  show ?case
  proof (cases x)
    case None
    then show ?thesis using less.prems pop by (auto simp: chunks_empty.simps [of rc t] intro: grows_same)
  next
    case (Some kc)
    obtain k c where kc: "x = Some (k, c)" using Some by force
    let ?t = "signal_read_thread c rc 0 (t\<lparr>d_chunks := h\<rparr>)"
    have "used (d_chunks ?t) < used (d_chunks t)" using heap_trypop_used [OF pop] kc by simp
    moreover have "chunks_empty rc ?t = Inr t'" using less.prems pop kc by (simp add: chunks_empty.simps [of rc t])
    ultimately have "grows ?t t'" by (rule less.hyps)
    moreover have "grows t (t\<lparr>d_chunks := h\<rparr>)" by (rule grows_same) simp_all
    ultimately show ?thesis using grows_signal grows_trans by blast
  qed
qed

lemma nul_free_dec [simp]: "nul_free (dec n)"
proof -
  have "char_of (48 + d :: nat) \<noteq> NUL" if "d < 10" for d
  proof
    assume "char_of (48 + d) = NUL"
    then have "(of_char (char_of (48 + d) :: char) :: nat) = of_char NUL" by simp
    then show False using that by (simp only: of_char_of) simp
  qed
  then show ?thesis using dec_digits [of NUL n] unfolding nul_free_def by metis
qed

lemma range_of_total: "\<exists>r. range_of c = Inr r"
proof (cases "c_start c = 0")
  case True
  obtain sb where "string_buffer_new = Inr sb" "sb_holds sb ''''" using sb_new_holds by blast
  with True sb_commit_holds [of sb "''''"] show ?thesis by (auto simp: range_of_def)
next
  case False
  have "nul_free (dec (nat (c_start c)) @ ''-'')" by simp
  from sb.build_printf [OF this] False show ?thesis by (auto simp: range_of_def)
qed

text \<open>
  Of those who asked, \<open>n\<close> are or will be lost in late waits; the others are queued, in hand, signalled or
  about to be queued.
\<close>

definition thread_ok :: "string \<Rightarrow> (addr \<Rightarrow> int \<times> int) \<Rightarrow> addr list \<Rightarrow> nat \<Rightarrow> downloader_t \<Rightarrow> bool" where
  "thread_ok bytes rq asked n t \<longleftrightarrow> down_inv bytes rq t \<and> d_busy t = [] \<and>
     (\<exists>l. mset asked = readers t + l \<and> n = late_waits t + size l)"

definition settled :: "addr list \<Rightarrow> nat \<Rightarrow> downloader_t \<Rightarrow> bool" where
  "settled asked n t \<longleftrightarrow> (\<exists>l. mset asked = mset (map fst (d_signals t)) + l \<and> n = size l)"

lemma thread_ok_drops:
  assumes "thread_ok bytes rq asked n t" "dropped t t' None l" "down_inv bytes rq t'" "grows t t'"
  shows "thread_ok bytes rq asked n t'" "prefix (d_signals t) (d_signals t')"
proof -
  obtain m where "mset asked = readers t + m" "n = late_waits t + size m"
    using assms(1) by (auto simp: thread_ok_def)
  then have "mset asked = readers t' + (l + m)" "n = late_waits t' + size (l + m)"
    using assms(2) by (auto simp: dropped_def ctxt_of_def)
  then show "thread_ok bytes rq asked n t'" "prefix (d_signals t) (d_signals t')"
    using assms(1,3,4) unfolding thread_ok_def grows_def by blast+
qed

lemma main_chunk_ok:
  assumes "thread_ok bytes rq asked n t" "d_seek t \<longrightarrow> d_current t \<noteq> None" "first_time \<longrightarrow> d_current t = None"
  shows "case main_chunk first_time t of
     Inl e \<Rightarrow> e = AssertFail \<and> waits_fail t
   | Inr t' \<Rightarrow> thread_ok bytes rq asked n t' \<and> \<not> d_seek t' \<and> prefix (d_signals t) (d_signals t')"
proof -
  let ?t = "t\<lparr>d_seek := False\<rparr>"
  have inv: "down_inv bytes rq ?t" using assms(1) by (simp add: thread_ok_def down_inv_def)
  have same: "dropped t ?t None {#}" "grows t ?t"
    by (rule dropped_same, simp_all add: readers_def grows_same)
  have eq: "main_chunk first_time t = (case d_current ?t of
      None \<Rightarrow> bind_res (chunk_get_next ?t) (\<lambda>(chunk, thread). Inr (thread\<lparr>d_current := chunk\<rparr>))
    | Some c \<Rightarrow> Inr ?t)"
  proof (cases "d_seek t")
    case False
    then have "?t = t" by simp
    then show ?thesis unfolding \<open>?t = t\<close> using False assms(2,3) by (auto simp: main_chunk_def)
  qed (use assms(2,3) in \<open>auto simp: main_chunk_def\<close>)
  show ?thesis
  proof (cases "d_current t")
    case (Some c)
    then show ?thesis using thread_ok_drops [OF assms(1) same(1) inv same(2)] eq by simp
  next
    case None
    note post = chunk_get_next_correct [OF inv]
    show ?thesis
    proof (cases "chunk_get_next ?t")
      case (Inl e)
      then show ?thesis using post eq None by (simp add: wait_post_def waits_fail_def)
    next
      case (Inr xu)
      obtain x u where xu: "xu = (x, u)" by force
      from post [unfolded wait_post_def Inr xu] obtain h b w l where
        u: "u = ?t\<lparr>d_chunks := h, d_busy := b, d_waits := w\<rparr>" "down_inv bytes rq u"
          "\<forall>c. x = Some c \<longrightarrow> chunk_ok bytes rq c" "dropped ?t u x l" by auto
      let ?u = "u\<lparr>d_current := x\<rparr>"
      have "d_current u = None" "\<not> d_seek ?u" using u(1) None by simp_all
      then have "dropped ?t ?u None l"
        using u(4) current_readers [of x u] by (simp add: dropped_def ctxt_of_def late_waits_def)
      moreover have "grows ?t ?u" using get_next_grows [OF Inr [unfolded xu]] by (simp add: grows_def)
      ultimately have "thread_ok bytes rq asked n ?u" "prefix (d_signals t) (d_signals ?u)"
        using thread_ok_drops [OF assms(1) dropped_trans [OF same(1)] current_inv [OF u(2,3)] grows_trans [OF same(2)]]
        by blast+
      then show ?thesis using eq None Inr xu \<open>\<not> d_seek ?u\<close> by simp
    qed
  qed
qed

lemma thread_ended:
  assumes "thread_ok bytes rq asked n t" "d_current t = None"
  shows "thread_delete t = (if heap_chunks (d_chunks t) = {#} then Inr () else Inl AssertFail)"
    "heap_chunks (d_chunks t) = {#} \<Longrightarrow> d_waits t = [] \<Longrightarrow> settled asked n t"
  using assms thread_delete_ok by (auto simp: thread_ok_def readers_def ctxt_of_def settled_def late_waits_def)

lemma main_end_failed:
  assumes "thread_ok bytes rq asked n t" "d_waits t = []" "rc \<noteq> 0" "d_current t = Some c"
  obtains t' where "main_end (Some rc) t = Inr t'" "thread_ok bytes rq asked n t'" "prefix (d_signals t) (d_signals t')"
    "settled asked n t'" "d_waits t' = []"
proof -
  let ?t = "(signal_read_thread c rc 0 t)\<lparr>d_current := None\<rparr>"
  have inv: "down_inv bytes rq ?t"
    using assms(1) signal_error [OF _ assms(3)] by (intro current_inv) (auto simp: thread_ok_def)
  have "readers t = readers ?t"
    using current_readers [of None "signal_read_thread c rc 0 t"] signal_readers [of c rc 0 t] assms(4)
    by (simp add: ctxt_of_def)
  from chunks_empty_correct [OF inv assms(3)] this obtain t' where
    t': "chunks_empty rc ?t = Inr t'" "down_inv bytes rq t'" "readers t = readers t'"
      "heap_chunks (d_chunks t') = {#}" "d_current t' = None" "d_waits t' = d_waits t" by auto
  have "grows t ?t" by (simp add: grows_def signal_read_thread_def)
  then have "grows t t'" using chunks_empty_grows [OF t'(1)] grows_trans by blast
  from thread_ok_drops [OF assms(1) dropped_same [OF t'(3,6)] t'(2) this]
  have ok: "thread_ok bytes rq asked n t'" "prefix (d_signals t) (d_signals t')" .
  with thread_ended [OF ok(1) t'(5)] t' assms(2-4) show thesis
    by (intro that [of t']) (simp_all add: main_end_def)
qed

lemma main_end_ok:
  assumes "thread_ok bytes rq asked n t" "d_waits t = []" "rc = Some 0 \<longrightarrow> d_current t = None"
  shows "case main_end rc t of
      Inr t' \<Rightarrow> thread_ok bytes rq asked n t' \<and> prefix (d_signals t) (d_signals t') \<and> settled asked n t' \<and> d_waits t' = []
    | Inl e \<Rightarrow> e = Uninitialised \<and> rc = None \<or> e = AssertFail \<and> heap_chunks (d_chunks t) \<noteq> {#}"
proof (cases "rc = None \<or> d_current t \<noteq> None")
  case True
  then show ?thesis
  proof (cases rc)
    case (Some r)
    with True assms(3) obtain c where c: "d_current t = Some c" "r \<noteq> 0" by auto
    obtain t' where "main_end (Some r) t = Inr t'" "thread_ok bytes rq asked n t'" "prefix (d_signals t) (d_signals t')"
      "settled asked n t'" "d_waits t' = []" using main_end_failed [OF assms(1,2) c(2,1)] .
    then show ?thesis using Some by simp
  qed (simp add: main_end_def)
next
  case False
  then obtain r where r: "rc = Some r" "d_current t = None" by auto
  note del = thread_ended [OF assms(1) r(2)]
  have inv: "down_inv bytes rq t" using assms(1) by (simp add: thread_ok_def)
  from pop_inv [OF inv] consider
    "heap_chunks (d_chunks t) = {#}" "binary_heap_trypop (d_chunks t) = Inr (None, d_chunks t)"
  | k c h where "heap_chunks (d_chunks t) \<noteq> {#}" "binary_heap_trypop (d_chunks t) = Inr (Some (k, c), h)"
    using inv by (metis down_inv_def heap_trypop_empty option.distinct(1) prod.inject sum.inject(2))
  then show ?thesis
  proof cases
    case 1
    then show ?thesis using assms(1,2) r del by (auto simp: main_end_def)
  next
    case 2
    then show ?thesis using r del by (auto simp: main_end_def)
  qed
qed

lemma block_ok:
  assumes "thread_ok bytes rq asked n t" "0 \<le> d_offset t" "\<not> d_seek t"
    and "d_offset t + int (length dat) \<le> int (length bytes)"
    and "dat = segment bytes (d_offset t) (d_offset t + int (length dat))"
  shows "case buf_consumer dat t of
     Inl e \<Rightarrow> e = AssertFail \<and> waits_fail t
   | Inr (rc, t') \<Rightarrow> thread_ok bytes rq asked n t' \<and> prefix (d_signals t) (d_signals t') \<and>
       (if rc = 0 then \<not> d_seek t' \<and> 0 \<le> d_offset t' else d_seek t' \<longrightarrow> d_current t' \<noteq> None)"
proof -
  have inv: "down_inv bytes rq t" using assms(1) by (simp add: thread_ok_def)
  note serve = buf_consumer_correct [OF inv assms(2,4,5)]
  show ?thesis
  proof (cases "buf_consumer dat t")
    case (Inl e)
    then show ?thesis using serve by (simp add: served_def)
  next
    case (Inr rt)
    obtain rc t' where rt: "rt = (rc, t')" by force
    from serve [unfolded served_def Inr rt] obtain l where
      t': "down_inv bytes rq t'" "dropped t t' None l" "consumed (d_offset t + int (length dat)) t rc t'" by auto
    from thread_ok_drops [OF assms(1) t'(2,1) buf_consumer_grows [OF Inr [unfolded rt]]] t'(3) assms(2,3)
    show ?thesis using Inr rt by (auto simp: consumed_def)
  qed
qed

section \<open>The invariant\<close>

text \<open>The range of a request that lies in the file, and the answer that is due for a signal.\<close>

definition wanted :: "string \<Rightarrow> (addr \<Rightarrow> nat \<times> nat \<times> nat) \<Rightarrow> addr \<Rightarrow> int \<times> int" where
  "wanted bytes plan a = (case plan a of (req, off, sz) \<Rightarrow> (int off, min (int (off + sz)) (int (length bytes))))"

definition due :: "string \<Rightarrow> (addr \<Rightarrow> nat \<times> nat \<times> nat) \<Rightarrow> nat \<times> int \<times> nat \<times> string \<Rightarrow> nat \<times> reply" where
  "due bytes plan = (\<lambda>(a, rc, len, buf). case plan a of (req, off, sz) \<Rightarrow>
     (req, if rc = 0 then reply_buf (map Some (take sz (drop off bytes))) else reply_err rc))"

text \<open>Every request that has not been answered has its context.\<close>

definition pending_ok ::
  "string \<Rightarrow> (addr \<Rightarrow> nat \<times> nat \<times> nat) \<Rightarrow> addr \<Rightarrow> addr set \<Rightarrow> (addr \<rightharpoonup> read_context_t) \<Rightarrow> bool" where
  "pending_ok bytes plan de as reads \<longleftrightarrow> (\<forall>a \<in> as. \<forall>req off sz. plan a = (req, off, sz) \<longrightarrow>
     off \<le> length bytes \<and> reads a = Some \<lparr>rd_de = de, rd_req = req, rd_size = min sz (length bytes - off)\<rparr>)"

definition phase_ok :: "int option \<Rightarrow> phase \<Rightarrow> downloader_t \<Rightarrow> bool" where
  "phase_ok rc ph t = (case ph of
     AtTop \<Rightarrow> (d_seek t \<longrightarrow> d_current t \<noteq> None) \<and> (rc = None \<longrightarrow> d_current t = None)
   | Fetching \<Rightarrow> \<not> d_seek t \<and> 0 \<le> d_offset t
   | CutShort \<Rightarrow> d_seek t \<longrightarrow> d_current t \<noteq> None
   | AtEnd \<Rightarrow> rc = Some 0 \<longrightarrow> d_current t = None)"

abbreviation answered :: "addr \<Rightarrow> server_t \<Rightarrow> (nat \<times> int \<times> nat \<times> string) list" where
  "answered fh sv \<equiv> take (sv_answered sv) (d_signals (sv_thread fh sv))"

definition has_size :: "string \<Rightarrow> addr \<Rightarrow> fuse_t \<Rightarrow> bool" where
  "has_size bytes de s \<longleftrightarrow> (\<forall>d. de_contents s de = Some d \<longrightarrow> li_size (de_li d) = int (length bytes))"

text \<open>
  Within a step there may be waits to come; \<open>server_ok\<close> is the invariant between the steps.
\<close>

definition server_inv ::
  "string \<Rightarrow> addr \<Rightarrow> (addr \<Rightarrow> nat \<times> nat \<times> nat) \<Rightarrow> (nat \<times> reply) list \<Rightarrow> server_t \<Rightarrow> bool" where
  "server_inv bytes fh plan replies sv \<longleftrightarrow>
     fu_files (sv_fuse sv) fh \<noteq> None \<and> has_size bytes (of_de (sv_file fh sv)) (sv_fuse sv) \<and>
     thread_ok bytes (wanted bytes plan) (sv_asked sv) (sv_late sv) (sv_thread fh sv) \<and> distinct (sv_asked sv) \<and>
     pending_ok bytes plan (of_de (sv_file fh sv)) (set (sv_asked sv) - fst ` set (answered fh sv))
       (fu_reads (sv_fuse sv)) \<and>
     sv_answered sv \<le> length (d_signals (sv_thread fh sv)) \<and>
     fu_replies (sv_fuse sv) = replies @ map (due bytes plan) (answered fh sv) \<and>
     (if of_running (sv_file fh sv) then phase_ok (sv_rc sv) (sv_phase sv) (sv_thread fh sv)
      else settled (sv_asked sv) (sv_late sv) (sv_thread fh sv))"

definition server_ok ::
  "string \<Rightarrow> addr \<Rightarrow> (addr \<Rightarrow> nat \<times> nat \<times> nat) \<Rightarrow> (nat \<times> reply) list \<Rightarrow> server_t \<Rightarrow> bool" where
  "server_ok bytes fh plan replies sv \<longleftrightarrow>
     server_inv bytes fh plan replies sv \<and> d_waits (sv_thread fh sv) = []"

lemma server_invI:
  assumes "fu_files (sv_fuse sv) fh \<noteq> None" "has_size bytes (of_de (sv_file fh sv)) (sv_fuse sv)"
    and "thread_ok bytes (wanted bytes plan) (sv_asked sv) (sv_late sv) (sv_thread fh sv)" "distinct (sv_asked sv)"
    and "pending_ok bytes plan (of_de (sv_file fh sv)) (set (sv_asked sv) - fst ` set (answered fh sv))
       (fu_reads (sv_fuse sv))"
    and "sv_answered sv \<le> length (d_signals (sv_thread fh sv))"
    and "fu_replies (sv_fuse sv) = replies @ map (due bytes plan) (answered fh sv)"
    and "if of_running (sv_file fh sv) then phase_ok (sv_rc sv) (sv_phase sv) (sv_thread fh sv)
      else settled (sv_asked sv) (sv_late sv) (sv_thread fh sv)"
  shows "server_inv bytes fh plan replies sv"
  using assms unfolding server_inv_def by blast

lemma server_invD:
  assumes "server_inv bytes fh plan replies sv"
  shows "fu_files (sv_fuse sv) fh \<noteq> None" "has_size bytes (of_de (sv_file fh sv)) (sv_fuse sv)"
    and "thread_ok bytes (wanted bytes plan) (sv_asked sv) (sv_late sv) (sv_thread fh sv)" "distinct (sv_asked sv)"
    and "pending_ok bytes plan (of_de (sv_file fh sv)) (set (sv_asked sv) - fst ` set (answered fh sv))
       (fu_reads (sv_fuse sv))"
    and "sv_answered sv \<le> length (d_signals (sv_thread fh sv))"
    and "fu_replies (sv_fuse sv) = replies @ map (due bytes plan) (answered fh sv)"
    and "if of_running (sv_file fh sv) then phase_ok (sv_rc sv) (sv_phase sv) (sv_thread fh sv)
      else settled (sv_asked sv) (sv_late sv) (sv_thread fh sv)"
  using assms unfolding server_inv_def by blast+

lemma server_okD:
  "server_ok bytes fh plan replies sv \<Longrightarrow> server_inv bytes fh plan replies sv"
  "server_ok bytes fh plan replies sv \<Longrightarrow> d_waits (sv_thread fh sv) = []"
  by (simp_all add: server_ok_def)

lemma pending_ok_add:
  "pending_ok bytes plan de as reads \<Longrightarrow> plan a = (req, off, sz) \<Longrightarrow> off \<le> length bytes \<Longrightarrow> bs \<subseteq> insert a as \<Longrightarrow>
   pending_ok bytes plan de bs (reads(a \<mapsto> \<lparr>rd_de = de, rd_req = req, rd_size = min sz (length bytes - off)\<rparr>))"
  unfolding pending_ok_def by (auto; blast)

lemma pending_ok_del:
  "pending_ok bytes plan de as reads \<Longrightarrow> bs \<subseteq> as - {a} \<Longrightarrow> pending_ok bytes plan de bs (reads(a := None))"
  unfolding pending_ok_def by (auto; blast)

lemma sv_simps [simp]:
  "sv_file fh (put_file fh ctxt sv) = ctxt"
  "sv_thread fh (put_file fh ctxt sv) = of_downloader ctxt"
  "sv_file fh (put_thread fh t sv) = (sv_file fh sv)\<lparr>of_downloader := t\<rparr>"
  "sv_thread fh (put_thread fh t sv) = t"
  "sv_file fh (sv\<lparr>sv_phase := ph\<rparr>) = sv_file fh sv" "sv_thread fh (sv\<lparr>sv_phase := ph\<rparr>) = sv_thread fh sv"
  "sv_file fh (sv\<lparr>sv_rc := rc\<rparr>) = sv_file fh sv" "sv_thread fh (sv\<lparr>sv_rc := rc\<rparr>) = sv_thread fh sv"
  "sv_file fh (sv\<lparr>sv_answered := n\<rparr>) = sv_file fh sv" "sv_thread fh (sv\<lparr>sv_answered := n\<rparr>) = sv_thread fh sv"
  "sv_file fh (sv\<lparr>sv_asked := as\<rparr>) = sv_file fh sv" "sv_thread fh (sv\<lparr>sv_asked := as\<rparr>) = sv_thread fh sv"
  "sv_file fh (sv\<lparr>sv_late := n\<rparr>) = sv_file fh sv" "sv_thread fh (sv\<lparr>sv_late := n\<rparr>) = sv_thread fh sv"
  by (simp_all add: sv_file_def sv_thread_def put_file_def put_thread_def)

lemma put_file_simps [simp]:
  "sv_asked (put_file fh ctxt sv) = sv_asked sv" "sv_answered (put_file fh ctxt sv) = sv_answered sv"
  "sv_rc (put_file fh ctxt sv) = sv_rc sv" "sv_phase (put_file fh ctxt sv) = sv_phase sv"
  "sv_late (put_file fh ctxt sv) = sv_late sv"
  "fu_reads (sv_fuse (put_file fh ctxt sv)) = fu_reads (sv_fuse sv)"
  "fu_replies (sv_fuse (put_file fh ctxt sv)) = fu_replies (sv_fuse sv)"
  "fu_fs (sv_fuse (put_file fh ctxt sv)) = fu_fs (sv_fuse sv)"
  "fu_files (sv_fuse (put_file fh ctxt sv)) fh = Some ctxt"
  by (simp_all add: put_file_def)

text \<open>A step of the thread that keeps it well-formed and only adds signals.\<close>

lemma server_inv_thread:
  assumes "server_inv bytes fh plan replies sv" "of_running (sv_file fh sv)"
    and "thread_ok bytes (wanted bytes plan) (sv_asked sv) (sv_late sv) t"
    and "prefix (d_signals (sv_thread fh sv)) (d_signals t)" "phase_ok (sv_rc sv) ph t"
  shows "server_inv bytes fh plan replies ((put_thread fh t sv)\<lparr>sv_phase := ph\<rparr>)"
proof -
  obtain xs where xs: "d_signals t = d_signals (sv_thread fh sv) @ xs" using assms(4) by (auto simp: prefix_def)
  show ?thesis using assms(1-3,5) xs
    by (simp add: server_inv_def) (simp add: put_thread_def put_file_def has_size_def)
qed

lemma drop_de_result:
  assumes "drop_de a s = Inr s'"
  obtains st where "s' = s\<lparr>fu_fs := (fu_fs s)\<lparr>fs_des := st\<rparr>\<rparr>"
    "\<forall>b d. contents_at st b = Some d \<longrightarrow> de_contents s b = Some d"
proof -
  obtain st where st: "obj_delete a (fs_des (fu_fs s)) = Inr st" "s' = s\<lparr>fu_fs := (fu_fs s)\<lparr>fs_des := st\<rparr>\<rparr>"
    using assms by (auto simp: drop_de_def direntry_delete_def)
  show thesis using st
    by (intro that [of st])
      (auto simp: obj_delete_def ref_count_dec_def contents_at_def split: option.splits if_splits)
qed

lemma drop_de_total: "0 < de_refs s a \<Longrightarrow> \<exists>s'. drop_de a s = Inr s'"
  using obj_delete_refs [of "fs_des (fu_fs s)" a] by (auto simp: drop_de_def direntry_delete_def)

text \<open>
  The errors an action may end with while there are references enough to the direntry: a read on a
  thread that has ended, or of a range that the downloader rejects; a wait that fails; and at the end
  of a thread, a thread that has never fetched, or behind whose last wait a request was queued.
\<close>

definition fault :: "string \<Rightarrow> addr \<Rightarrow> (addr \<Rightarrow> nat \<times> nat \<times> nat) \<Rightarrow> server_t \<Rightarrow> action \<Rightarrow> c_error \<Rightarrow> bool" where
  "fault bytes fh plan sv act e = (case act of
     Ask a \<Rightarrow> e = UseAfterFree \<and> \<not> of_running (sv_file fh sv) \<or>
       e = AssertFail \<and> (case plan a of (req, off, sz) \<Rightarrow> read_rejected (int (length bytes)) sz (int off))
   | Next ws \<Rightarrow> e = AssertFail \<and> (\<exists>(rc, as) \<in> set ws. rc \<noteq> 0 \<and> rc \<noteq> ETIMEDOUT)
   | Block dat ws \<Rightarrow> e = AssertFail \<and> (\<exists>(rc, as) \<in> set ws. rc \<noteq> 0 \<and> rc \<noteq> ETIMEDOUT)
   | Finish \<Rightarrow> e = Uninitialised \<and> sv_rc sv = None \<or> e = AssertFail \<and> heap_chunks (d_chunks (sv_thread fh sv)) \<noteq> {#}
   | _ \<Rightarrow> False)"

definition outcome ::
  "string \<Rightarrow> addr \<Rightarrow> (addr \<Rightarrow> nat \<times> nat \<times> nat) \<Rightarrow> (nat \<times> reply) list \<Rightarrow> server_t \<Rightarrow> action \<Rightarrow> server_t res \<Rightarrow> bool" where
  "outcome bytes fh plan replies sv act r = (case r of
     Inr sv' \<Rightarrow> server_inv bytes fh plan replies sv' \<and> (waits_over fh r \<longrightarrow> server_ok bytes fh plan replies sv')
   | Inl e \<Rightarrow> 1 < de_refs (sv_fuse sv) (of_de (sv_file fh sv)) \<longrightarrow> fault bytes fh plan sv act e)"

lemma outcomeI: "server_inv bytes fh plan replies sv' \<Longrightarrow> outcome bytes fh plan replies sv act (Inr sv')"
  by (simp add: outcome_def server_ok_def waits_over_def)

lemma outcome_okI:
  "server_ok bytes fh plan replies sv' \<Longrightarrow>
   outcome bytes fh plan replies sv act (Inr sv') \<and> waits_over fh (Inr sv')"
  by (simp add: outcome_def server_ok_def waits_over_def)

lemma waits_over_Inl [simp]: "waits_over fh (Inl e)"
  by (simp add: waits_over_def)

text \<open>The top of the loop and a block, in a state in which there may be waits.\<close>

lemma next_outcome:
  assumes "server_inv bytes fh plan replies sv" "of_running (sv_file fh sv)" "sv_phase sv = AtTop"
  shows "case server_next fh sv of
     Inl e \<Rightarrow> e = AssertFail \<and> waits_fail (sv_thread fh sv) | Inr sv' \<Rightarrow> server_inv bytes fh plan replies sv'"
proof -
  let ?t = "sv_thread fh sv"
  have ok: "thread_ok bytes (wanted bytes plan) (sv_asked sv) (sv_late sv) ?t" "d_seek ?t \<longrightarrow> d_current ?t \<noteq> None"
    "sv_rc sv = None \<longrightarrow> d_current ?t = None" using assms by (simp_all add: server_inv_def phase_ok_def)
  note main = main_chunk_ok [OF ok]
  show ?thesis
  proof (cases "main_chunk (sv_rc sv = None) ?t")
    case (Inl e)
    then show ?thesis using main by (simp add: server_next_def)
  next
    case (Inr t')
    then have t': "thread_ok bytes (wanted bytes plan) (sv_asked sv) (sv_late sv) t'" "\<not> d_seek t'"
      "prefix (d_signals ?t) (d_signals t')" using main by simp_all
    show ?thesis
    proof (cases "d_current t'")
      case None
      have "server_inv bytes fh plan replies ((put_thread fh t' sv)\<lparr>sv_phase := AtEnd\<rparr>)"
        by (rule server_inv_thread [OF assms(1,2) t'(1,3)]) (simp add: phase_ok_def None)
      then show ?thesis using None Inr by (simp add: server_next_def)
    next
      case (Some c)
      let ?u = "t'\<lparr>d_offset := c_start c\<rparr>"
      have "0 \<le> c_start c" "thread_ok bytes (wanted bytes plan) (sv_asked sv) (sv_late sv) ?u"
        using t'(1) Some by (auto simp: thread_ok_def down_inv_def readers_def late_waits_def chunk_ok_def Let_def)
      with server_inv_thread [OF assms(1,2), of ?u Fetching] t'(2,3) Some Inr range_of_total [of c] show ?thesis
        by (auto simp: server_next_def phase_ok_def)
    qed
  qed
qed

lemma block_outcome:
  assumes "server_inv bytes fh plan replies sv" "of_running (sv_file fh sv)" "sv_phase sv = Fetching"
    and "d_offset (sv_thread fh sv) + int (length dat) \<le> int (length bytes)"
    and "dat = segment bytes (d_offset (sv_thread fh sv)) (d_offset (sv_thread fh sv) + int (length dat))"
  shows "case server_block fh dat sv of
     Inl e \<Rightarrow> e = AssertFail \<and> waits_fail (sv_thread fh sv) | Inr sv' \<Rightarrow> server_inv bytes fh plan replies sv'"
proof -
  let ?t = "sv_thread fh sv"
  have ok: "thread_ok bytes (wanted bytes plan) (sv_asked sv) (sv_late sv) ?t" "0 \<le> d_offset ?t" "\<not> d_seek ?t"
    using assms(1-3) by (simp_all add: server_inv_def phase_ok_def)
  note block = block_ok [OF ok assms(4,5)]
  show ?thesis
  proof (cases "buf_consumer dat ?t")
    case (Inl e)
    then show ?thesis using block by (simp add: server_block_def)
  next
    case (Inr rt)
    obtain rc t' where rt: "rt = (rc, t')" by force
    then have t': "thread_ok bytes (wanted bytes plan) (sv_asked sv) (sv_late sv) t'" "prefix (d_signals ?t) (d_signals t')"
      "if rc = 0 then \<not> d_seek t' \<and> 0 \<le> d_offset t' else d_seek t' \<longrightarrow> d_current t' \<noteq> None"
      using block Inr by simp_all
    have "server_inv bytes fh plan replies ((put_thread fh t' sv)\<lparr>sv_phase := if rc = 0 then Fetching else CutShort\<rparr>)"
      by (rule server_inv_thread [OF assms(1,2) t'(1,2)]) (use t'(3) in \<open>auto simp: phase_ok_def\<close>)
    then show ?thesis using Inr rt by (simp add: server_block_def)
  qed
qed

lemma fetched_outcome:
  assumes "server_ok bytes fh plan replies sv" "of_running (sv_file fh sv)"
    and "sv_phase sv = Fetching \<or> sv_phase sv = CutShort \<and> rc = 0"
  shows "outcome bytes fh plan replies sv act (server_fetched rc sv) \<and> waits_over fh (server_fetched rc sv)"
proof -
  have "server_ok bytes fh plan replies (sv\<lparr>sv_rc := Some rc, sv_phase := if rc = 0 then AtTop else AtEnd\<rparr>)"
    using server_okD [OF assms(1)] assms(2,3) by (auto simp: server_ok_def server_inv_def phase_ok_def)
  from outcome_okI [OF this] show ?thesis by (simp add: server_fetched_def)
qed

lemma has_size_drop:
  assumes "drop_de a s = Inr s'" "has_size bytes de s"
  shows "has_size bytes de s'"
proof -
  obtain st where "s' = s\<lparr>fu_fs := (fu_fs s)\<lparr>fs_des := st\<rparr>\<rparr>"
    "\<forall>b d. contents_at st b = Some d \<longrightarrow> de_contents s b = Some d"
    using drop_de_result [OF assms(1)] .
  then show ?thesis using assms(2) by (simp add: has_size_def)
qed

lemma end_outcome:
  assumes "server_ok bytes fh plan replies sv" "of_running (sv_file fh sv)" "sv_phase sv = AtEnd"
  shows "outcome bytes fh plan replies sv Finish (server_end fh sv) \<and> waits_over fh (server_end fh sv)"
proof -
  let ?t = "sv_thread fh sv" and ?s = "sv_fuse sv" and ?de = "of_de (sv_file fh sv)"
  note inv = server_okD [OF assms(1)]
  have ok: "thread_ok bytes (wanted bytes plan) (sv_asked sv) (sv_late sv) ?t" "d_waits ?t = []"
    "sv_rc sv = Some 0 \<longrightarrow> d_current ?t = None"
    using inv assms(2,3) by (simp_all add: server_inv_def phase_ok_def)
  note main = main_end_ok [OF ok]
  show ?thesis
  proof (cases "main_end (sv_rc sv) ?t")
    case (Inl e)
    then show ?thesis using main by (auto simp: outcome_def server_end_def fault_def)
  next
    case (Inr t')
    then obtain xs where
      t': "thread_ok bytes (wanted bytes plan) (sv_asked sv) (sv_late sv) t'" "d_signals t' = d_signals ?t @ xs"
        "settled (sv_asked sv) (sv_late sv) t'" "d_waits t' = []" using main by (auto simp: prefix_def)
    show ?thesis
    proof (cases "drop_de ?de ?s")
      case (Inl e)
      then show ?thesis using \<open>main_end _ _ = _\<close> drop_de_total [of ?s ?de] by (auto simp: outcome_def server_end_def)
    next
      case (Inr s')
      obtain st where s': "s' = ?s\<lparr>fu_fs := (fu_fs ?s)\<lparr>fs_des := st\<rparr>\<rparr>" using drop_de_result [OF Inr] .
      let ?sv = "put_file fh ((sv_file fh sv)\<lparr>of_downloader := t', of_running := False\<rparr>) (sv\<lparr>sv_fuse := s'\<rparr>)"
      have "has_size bytes ?de s'" by (rule has_size_drop [OF Inr server_invD(2) [OF inv(1)]])
      then have "has_size bytes ?de (sv_fuse ?sv)" by (simp add: has_size_def)
      then have "server_inv bytes fh plan replies ?sv"
        using server_invD [OF inv(1)] t' s' by (intro server_invI) simp_all
      then have "server_ok bytes fh plan replies ?sv" using t'(4) by (simp add: server_ok_def)
      from outcome_okI [OF this] show ?thesis using \<open>main_end _ _ = _\<close> Inr by (simp add: server_end_def)
    qed
  qed
qed

lemma thread_ok_queued:
  assumes "thread_ok bytes rq asked n t" "heap_inv h" "chunk_ok bytes rq c"
    and "heap_chunks h = add_mset c (heap_chunks (d_chunks t))"
  shows "thread_ok bytes rq (c_ctxt c # asked) n (t\<lparr>d_chunks := h\<rparr>)"
  using assms by (auto simp: thread_ok_def down_inv_def readers_def late_waits_def)

text \<open>What a request that is accepted changes.\<close>

definition only_asked :: "addr \<Rightarrow> addr list \<Rightarrow> server_t \<Rightarrow> server_t \<Rightarrow> bool" where
  "only_asked fh as sv sv' \<longleftrightarrow> sv_asked sv' = as @ sv_asked sv \<and>
     (\<exists>h. sv_file fh sv' = (sv_file fh sv)\<lparr>of_downloader := (sv_thread fh sv)\<lparr>d_chunks := h\<rparr>\<rparr>) \<and>
     fu_fs (sv_fuse sv') = fu_fs (sv_fuse sv) \<and> sv_rc sv' = sv_rc sv \<and> sv_phase sv' = sv_phase sv \<and>
     sv_answered sv' = sv_answered sv \<and> sv_late sv' = sv_late sv"

lemma only_asked_refl: "only_asked fh [] sv sv"
  unfolding only_asked_def by (auto simp: sv_thread_def intro!: exI [of _ "d_chunks (sv_thread fh sv)"])

lemma only_asked_trans: "only_asked fh as sv sv' \<Longrightarrow> only_asked fh bs sv' sv'' \<Longrightarrow> only_asked fh (bs @ as) sv sv''"
  unfolding only_asked_def sv_thread_def by auto

abbreviation has_de :: "addr \<Rightarrow> server_t \<Rightarrow> bool" where
  "has_de fh sv \<equiv> \<exists>d. de_at (of_de (sv_file fh sv)) (sv_fuse sv) = Inr d"

lemma has_deI: "0 < de_refs (sv_fuse sv) (of_de (sv_file fh sv)) \<Longrightarrow> has_de fh sv"
  by (auto simp: de_at_def obj_get_def refs_def split: option.splits)

lemma ask_accepted:
  assumes "server_ok bytes fh plan replies sv" "a \<notin> set (sv_asked sv)" "plan a = (req, off, sz)"
    and "\<not> read_rejected (int (length bytes)) sz (int off)" "of_running (sv_file fh sv)"
    and "has_de fh sv"
  obtains sv' where "server_ask fh a (plan a) sv = Inr sv'" "server_ok bytes fh plan replies sv'" "only_asked fh [a] sv sv'"
proof -
  let ?s = "sv_fuse sv" and ?f = "sv_file fh sv" and ?t = "sv_thread fh sv"
  let ?fi = "\<lparr>fi_flags = 0, fi_fh = fh\<rparr>"
  note inv = server_invD [OF server_okD(1) [OF assms(1)]]
  have f: "fu_files ?s (fi_fh ?fi) = Some ?f" using inv(1) by (auto simp: sv_file_def)
  have t: "of_downloader ?f = ?t" by (simp add: sv_thread_def)
  obtain d where d: "de_at (of_de ?f) ?s = Inr d"
    using assms(6) by blast
  then have len: "li_size (de_li d) = int (length bytes)"
    using inv(2) by (auto simp: has_size_def de_at_def obj_get_def contents_at_def split: option.splits)
  have h: "heap_inv (d_chunks (of_downloader ?f))" "d_size (of_downloader ?f) = li_size (de_li d)"
    using inv(3) len t by (simp_all add: thread_ok_def down_inv_def)
  let ?c = "chunk_new (int off) (min (int off + int sz) (int (length bytes))) a"
  obtain h where h: "heap_inv h" "fsfuse_read a req 0 sz (int off) ?fi ?s =
       Inr (after_read a req (nat (min (int off + int sz) (int (length bytes)) - int off)) fh ?f h ?s)"
      "heap_chunks h = add_mset ?c (heap_chunks (d_chunks ?t))"
    using fsfuse_read_queues [OF f d h, of "int off" sz a req 0] assms(4,5) len t by auto
  have off: "off \<le> length bytes" using assms(4) by (simp add: read_rejected_def)
  have "chunk_ok bytes (wanted bytes plan) ?c"
    using assms(3) off by (intro chunk_new_ok) (auto simp: request_ok_def wanted_def)
  from thread_ok_queued [OF inv(3) h(1) this h(3)]
  have q: "thread_ok bytes (wanted bytes plan) (a # sv_asked sv) (sv_late sv) (?t\<lparr>d_chunks := h\<rparr>)" by simp
  have n: "nat (min (int off + int sz) (int (length bytes)) - int off) = min sz (length bytes - off)"
    using off by linarith
  let ?sv = "sv\<lparr>sv_fuse := after_read a req (min sz (length bytes - off)) fh ?f h ?s, sv_asked := a # sv_asked sv\<rparr>"
  have sv: "sv_file fh ?sv = ?f\<lparr>of_downloader := ?t\<lparr>d_chunks := h\<rparr>\<rparr>" "sv_thread fh ?sv = ?t\<lparr>d_chunks := h\<rparr>"
    by (simp_all add: sv_file_def sv_thread_def after_read_def)
  have "server_inv bytes fh plan replies ?sv"
  proof (intro server_invI, unfold sv)
    show "pending_ok bytes plan (of_de (?f\<lparr>of_downloader := ?t\<lparr>d_chunks := h\<rparr>\<rparr>))
        (set (sv_asked ?sv) - fst ` set (take (sv_answered ?sv) (d_signals (?t\<lparr>d_chunks := h\<rparr>))))
        (fu_reads (sv_fuse ?sv))"
      by (simp add: after_read_def) (rule pending_ok_add [OF inv(5) assms(3) off], auto)
    show "if of_running (?f\<lparr>of_downloader := ?t\<lparr>d_chunks := h\<rparr>\<rparr>)
        then phase_ok (sv_rc ?sv) (sv_phase ?sv) (?t\<lparr>d_chunks := h\<rparr>)
        else settled (sv_asked ?sv) (sv_late ?sv) (?t\<lparr>d_chunks := h\<rparr>)"
      using inv(8) assms(5) by (simp add: phase_ok_def split: phase.splits)
  qed (use inv q assms(2) in \<open>simp_all add: after_read_def has_size_def\<close>)
  moreover have "d_waits (sv_thread fh ?sv) = []" using server_okD(2) [OF assms(1)] unfolding sv by simp
  moreover have "server_ask fh a (plan a) sv = Inr ?sv" using h(2) assms(3) by (simp add: server_ask_def n)
  moreover have "only_asked fh [a] sv ?sv" unfolding only_asked_def sv by (auto simp: after_read_def)
  ultimately show thesis by (intro that [of ?sv]) (simp_all add: server_ok_def)
qed

lemma ask_outcome:
  assumes "server_ok bytes fh plan replies sv" "a \<notin> set (sv_asked sv)"
  shows "outcome bytes fh plan replies sv (Ask a) (server_ask fh a (plan a) sv) \<and>
    waits_over fh (server_ask fh a (plan a) sv)"
proof -
  let ?s = "sv_fuse sv" and ?f = "sv_file fh sv" and ?fi = "\<lparr>fi_flags = 0, fi_fh = fh\<rparr>"
  note inv = server_invD [OF server_okD(1) [OF assms(1)]]
  obtain req off sz where plan: "plan a = (req, off, sz)" by (metis prod_cases3)
  have f: "fu_files ?s (fi_fh ?fi) = Some ?f" using inv(1) by (auto simp: sv_file_def)
  show ?thesis
  proof (cases "de_at (of_de ?f) ?s")
    case (Inl e)
    then have "de_refs ?s (of_de ?f) = 0" by (auto simp: de_at_def obj_get_def refs_def split: option.splits)
    then show ?thesis using f Inl plan by (simp add: outcome_def server_ask_def fsfuse_read_def)
  next
    case (Inr d)
    show ?thesis
    proof (cases "of_running ?f")
      case False
      then show ?thesis using f Inr plan by (simp add: outcome_def server_ask_def fsfuse_read_def fault_def)
    next
      case run: True
      have d: "li_size (de_li d) = int (length bytes)" "has_de fh sv"
        using inv(2) Inr by (auto simp: has_size_def de_at_def obj_get_def contents_at_def split: option.splits)
      show ?thesis
      proof (cases "read_rejected (int (length bytes)) sz (int off)")
        case True
        have "d_size (of_downloader ?f) = li_size (de_li d)"
          using inv(3) d(1) by (simp add: thread_ok_def down_inv_def sv_thread_def)
        with True fsfuse_read_rejected [OF f Inr run, of "int off" sz a req 0] d(1)
        have "server_ask fh a (plan a) sv = Inl AssertFail" by (simp add: server_ask_def plan)
        then show ?thesis using True by (simp add: outcome_def fault_def plan)
      next
        case False
        obtain sv' where "server_ask fh a (plan a) sv = Inr sv'" "server_ok bytes fh plan replies sv'"
          using ask_accepted [OF assms plan False run d(2)] .
        then show ?thesis using outcome_okI by simp
      qed
    qed
  qed
qed

text \<open>The requests made during the waits of a step.\<close>

lemma asks_accepted:
  assumes "server_ok bytes fh plan replies sv" "distinct as" "set as \<inter> set (sv_asked sv) = {}"
    and "\<forall>a \<in> set as. case plan a of (req, off, sz) \<Rightarrow> \<not> read_rejected (int (length bytes)) sz (int off)"
    and "of_running (sv_file fh sv)" "as \<noteq> [] \<longrightarrow> has_de fh sv"
  shows "\<exists>sv'. fold_res (\<lambda>a. server_ask fh a (plan a)) as sv = Inr sv' \<and> server_ok bytes fh plan replies sv' \<and>
    only_asked fh (rev as) sv sv'"
  using assms
proof (induction as arbitrary: sv)
  case Nil
  then show ?case by (simp add: only_asked_refl)
next
  case (Cons a as)
  obtain req off sz where plan: "plan a = (req, off, sz)" by (metis prod_cases3)
  obtain sv1 where sv1: "server_ask fh a (plan a) sv = Inr sv1" "server_ok bytes fh plan replies sv1" "only_asked fh [a] sv sv1"
    using ask_accepted [OF Cons.prems(1) _ plan _ Cons.prems(5)] Cons.prems(3,4,6) plan by auto
  have "set as \<inter> set (sv_asked sv1) = {}" "of_running (sv_file fh sv1)"
    "as \<noteq> [] \<longrightarrow> has_de fh sv1"
    using sv1(3) Cons.prems(2,3,5,6) by (auto simp: only_asked_def de_at_def)
  with Cons.IH [OF sv1(2)] Cons.prems(2,4) obtain sv' where
    "fold_res (\<lambda>a. server_ask fh a (plan a)) as sv1 = Inr sv'" "server_ok bytes fh plan replies sv'"
    "only_asked fh (rev as) sv1 sv'" by auto
  with sv1(1) only_asked_trans [OF sv1(3)] show ?case by auto
qed

lemma queue_request_ok:
  assumes "case plan a of (req, off, sz) \<Rightarrow> \<not> read_rejected (int (length bytes)) sz (int off)"
  shows "request_ok bytes (wanted bytes plan) (queue_request plan (int (length bytes)) a)"
    and "snd (snd (queue_request plan (int (length bytes)) a)) = a"
proof -
  obtain req off sz where plan: "plan a = (req, off, sz)" by (metis prod_cases3)
  then have "\<not> read_rejected (int (length bytes)) sz (int off)" using assms by simp
  then show "request_ok bytes (wanted bytes plan) (queue_request plan (int (length bytes)) a)"
    using read_size_fits [of "int off" "int (length bytes)" sz]
    by (auto simp: request_ok_def queue_request_def wanted_def plan read_rejected_def)
  show "snd (snd (queue_request plan (int (length bytes)) a)) = a" by (simp add: queue_request_def plan)
qed

lemma during_ok:
  assumes "server_ok bytes fh plan replies sv" "waits_new bytes plan ws sv" "of_running (sv_file fh sv)"
    and "concat (map snd ws) \<noteq> [] \<longrightarrow> has_de fh sv"
  obtains sv' where "server_during fh plan ws sv = Inr sv'" "server_inv bytes fh plan replies sv'"
    "of_running (sv_file fh sv')" "sv_phase sv' = sv_phase sv" "sv_rc sv' = sv_rc sv"
    "d_offset (sv_thread fh sv') = d_offset (sv_thread fh sv)"
    "waits_fail (sv_thread fh sv') \<longleftrightarrow> (\<exists>(rc, as) \<in> set ws. rc \<noteq> 0 \<and> rc \<noteq> ETIMEDOUT)"
proof -
  let ?as = "concat (map snd ws)" and ?t = "sv_thread fh sv"
  note inv = server_invD [OF server_okD(1) [OF assms(1)]]
  have new: "distinct ?as" "set ?as \<inter> set (sv_asked sv) = {}"
    "\<forall>a \<in> set ?as. case plan a of (req, off, sz) \<Rightarrow> \<not> read_rejected (int (length bytes)) sz (int off)"
    using assms(2) by (simp_all add: waits_new_def Let_def)
  from asks_accepted [OF assms(1) new assms(3,4)] obtain sv1 where
    sv1: "fold_res (\<lambda>a. server_ask fh a (plan a)) ?as sv = Inr sv1" "server_ok bytes fh plan replies sv1"
      "only_asked fh (rev ?as) sv sv1" by blast
  note inv1 = server_invD [OF server_okD(1) [OF sv1(2)]]
  have size: "d_size ?t = int (length bytes)" using inv(3) by (simp add: thread_ok_def down_inv_def)
  let ?req = "queue_request plan (int (length bytes))"
  let ?ws = "map (\<lambda>(rc, as). (rc, map ?req as)) ws"
  let ?u = "?t\<lparr>d_waits := ?ws\<rparr>" and ?n = "sv_late sv + length (filter late_wait ws)"
  let ?sv = "(put_thread fh ?u sv1)\<lparr>sv_late := ?n\<rparr>"
  have ctxts: "map (snd \<circ> snd) (concat (map snd ?ws)) = ?as"
    using new(3) queue_request_ok(2) [where plan = plan and bytes = bytes] by (induction ws) (auto simp: map_idI)
  have late: "length (filter late_wait ?ws) = length (filter late_wait ws)"
    by (induction ws) (auto simp: late_wait_def)
  have "\<forall>w \<in> set ?ws. wait_ok bytes (wanted bytes plan) w"
    using new(3) queue_request_ok(1) [where plan = plan and bytes = bytes] by (auto simp: wait_ok_def)
  then have "down_inv bytes (wanted bytes plan) ?u" using inv(3) by (simp add: thread_ok_def down_inv_def)
  moreover have "readers ?u = readers ?t + mset ?as"
    using ctxts server_okD(2) [OF assms(1)] by (simp add: readers_def)
  moreover have "late_waits ?u = length (filter late_wait ws)" "late_waits ?t = 0"
    using late server_okD(2) [OF assms(1)] by (simp_all add: late_waits_def)
  ultimately have t: "thread_ok bytes (wanted bytes plan) (sv_asked sv1) ?n ?u"
    using inv(3) sv1(3) by (auto simp: thread_ok_def only_asked_def)
  have f: "sv_file fh ?sv = (sv_file fh sv)\<lparr>of_downloader := ?u\<rparr>" "sv_thread fh ?sv = ?u"
    using sv1(3) by (auto simp: only_asked_def)
  have sig: "d_signals (sv_thread fh sv1) = d_signals ?t" "sv_answered sv1 = sv_answered sv" "of_de (sv_file fh sv1) = of_de (sv_file fh sv)"
    using sv1(3) by (auto simp: only_asked_def sv_thread_def)
  have "server_inv bytes fh plan replies ?sv"
  proof (intro server_invI, unfold f)
    show "has_size bytes (of_de ((sv_file fh sv)\<lparr>of_downloader := ?u\<rparr>)) (sv_fuse ?sv)"
      using inv1(2) sig(3) by (simp add: has_size_def put_thread_def put_file_def)
    show "if of_running ((sv_file fh sv)\<lparr>of_downloader := ?u\<rparr>) then phase_ok (sv_rc ?sv) (sv_phase ?sv) ?u
        else settled (sv_asked ?sv) (sv_late ?sv) ?u"
      using inv(8) assms(3) sv1(3) by (simp add: put_thread_def only_asked_def phase_ok_def split: phase.splits)
  qed (use inv1 sig t in \<open>simp_all add: put_thread_def\<close>)
  moreover have "waits_fail ?u \<longleftrightarrow> (\<exists>(rc, as) \<in> set ws. rc \<noteq> 0 \<and> rc \<noteq> ETIMEDOUT)"
    by (force simp: waits_fail_def)
  moreover have "server_during fh plan ws sv = Inr ?sv" using sv1(1) size by (simp add: server_during_def)
  ultimately show thesis using f sv1(3) assms(3)
    by (intro that [of ?sv]) (simp_all add: put_thread_def only_asked_def)
qed

lemma during_unreferenced:
  assumes "concat (map snd ws) \<noteq> []" "\<not> has_de fh sv"
  shows "\<exists>e. server_during fh plan ws sv = Inl e"
proof -
  obtain a as where as: "concat (map snd ws) = a # as" using assms(1) by (cases "concat (map snd ws)") auto
  obtain req off sz where plan: "plan a = (req, off, sz)" by (metis prod_cases3)
  have "\<exists>e. server_ask fh a (plan a) sv = Inl e"
    using assms(2) by (cases "de_at (of_de (sv_file fh sv)) (sv_fuse sv)")
      (auto simp: server_ask_def plan fsfuse_read_def sv_file_def split: option.splits)
  then show ?thesis by (auto simp: server_during_def as)
qed

lemma waiting_outcome:
  assumes "server_ok bytes fh plan replies sv" "waits_new bytes plan ws sv" "of_running (sv_file fh sv)"
    and "act = Next ws \<and> sv_phase sv = AtTop \<or> act = Block dat ws \<and> sv_phase sv = Fetching \<and>
      d_offset (sv_thread fh sv) + int (length dat) \<le> int (length bytes) \<and>
      dat = segment bytes (d_offset (sv_thread fh sv)) (d_offset (sv_thread fh sv) + int (length dat))"
  shows "outcome bytes fh plan replies sv act (server_act fh plan act sv)"
proof (cases "concat (map snd ws) \<noteq> [] \<and> \<not> has_de fh sv")
  case True
  then obtain e where "server_during fh plan ws sv = Inl e" using during_unreferenced by blast
  then show ?thesis using assms(4) True has_deI [of sv fh] by (auto simp: outcome_def)
next
  case False
  then have refs: "concat (map snd ws) \<noteq> [] \<longrightarrow> has_de fh sv" by auto
  obtain sv1 where sv1: "server_during fh plan ws sv = Inr sv1" "server_inv bytes fh plan replies sv1"
    "of_running (sv_file fh sv1)" "sv_phase sv1 = sv_phase sv" "sv_rc sv1 = sv_rc sv"
    "d_offset (sv_thread fh sv1) = d_offset (sv_thread fh sv)"
    "waits_fail (sv_thread fh sv1) \<longleftrightarrow> (\<exists>(rc, as) \<in> set ws. rc \<noteq> 0 \<and> rc \<noteq> ETIMEDOUT)"
    using during_ok [OF assms(1-3) refs] .
  from assms(4) show ?thesis
  proof
    assume a: "act = Next ws \<and> sv_phase sv = AtTop"
    then have "sv_phase sv1 = AtTop" using sv1(4) by simp
    from next_outcome [OF sv1(2,3) this] sv1(1,7) a show ?thesis
      by (cases "server_next fh sv1") (auto simp: outcomeI, auto simp: outcome_def fault_def)
  next
    assume a: "act = Block dat ws \<and> sv_phase sv = Fetching \<and>
      d_offset (sv_thread fh sv) + int (length dat) \<le> int (length bytes) \<and>
      dat = segment bytes (d_offset (sv_thread fh sv)) (d_offset (sv_thread fh sv) + int (length dat))"
    then have "sv_phase sv1 = Fetching" "d_offset (sv_thread fh sv1) + int (length dat) \<le> int (length bytes)"
      "dat = segment bytes (d_offset (sv_thread fh sv1)) (d_offset (sv_thread fh sv1) + int (length dat))"
      using sv1(4,6) by simp_all
    from block_outcome [OF sv1(2,3) this] sv1(1,7) a show ?thesis
      by (cases "server_block fh dat sv1") (auto simp: outcomeI, auto simp: outcome_def fault_def)
  qed
qed

text \<open>The next signal to be answered is one of an unanswered request.\<close>

lemma signals_distinct:
  assumes "thread_ok bytes rq asked n t" "distinct asked"
  shows "distinct (map fst (d_signals t)) \<and> set (map fst (d_signals t)) \<subseteq> set asked"
proof -
  let ?xs = "map fst (d_signals t)"
  obtain l where "mset asked = readers t + l" using assms(1) by (auto simp: thread_ok_def)
  then have "\<exists>m. mset asked = mset ?xs + m" by (auto simp: readers_def ac_simps)
  then obtain ys where ys: "mset asked = mset (?xs @ ys)" by (metis ex_mset mset_append)
  show ?thesis using assms(2) mset_eq_imp_distinct_iff [OF ys] mset_eq_setD [OF ys] by auto
qed

lemma next_unanswered:
  assumes "thread_ok bytes rq asked k t" "distinct asked" "n < length (d_signals t)"
  shows "fst (d_signals t ! n) \<in> set asked - fst ` set (take n (d_signals t))"
proof -
  let ?xs = "map fst (d_signals t)"
  have "distinct (take (Suc n) ?xs)" using signals_distinct [OF assms(1,2)] by (simp add: distinct_take)
  then have "?xs ! n \<notin> set (take n ?xs)" using assms(3) by (simp add: take_Suc_conv_app_nth)
  moreover have "?xs ! n \<in> set asked" using signals_distinct [OF assms(1,2)] assms(3) by (auto simp: subset_iff)
  ultimately show ?thesis using assms(3) by (simp add: take_map)
qed

lemma answer_outcome:
  assumes "server_ok bytes fh plan replies sv" "sv_answered sv < length (d_signals (sv_thread fh sv))"
  shows "outcome bytes fh plan replies sv Answer (server_answer fh sv) \<and> waits_over fh (server_answer fh sv)"
proof -
  let ?s = "sv_fuse sv" and ?de = "of_de (sv_file fh sv)" and ?t = "sv_thread fh sv" and ?n = "sv_answered sv"
  note ok = server_invD [OF server_okD(1) [OF assms(1)]]
  obtain a rc len buf where sig: "d_signals ?t ! ?n = (a, rc, len, buf)" by (metis prod_cases4)
  obtain req off sz where plan: "plan a = (req, off, sz)" by (metis prod_cases3)
  have un: "a \<in> set (sv_asked sv) - fst ` set (answered fh sv)"
    using next_unanswered [OF ok(3,4) assms(2)] sig by simp
  then have rd: "off \<le> length bytes" "fu_reads ?s a = Some \<lparr>rd_de = ?de, rd_req = req, rd_size = min sz (length bytes - off)\<rparr>"
    using ok(5) plan by (auto simp: pending_ok_def)
  have "d_signals ?t ! ?n \<in> set (d_signals ?t)" using assms(2) by simp
  then have "signal_ok bytes (wanted bytes plan) (a, rc, len, buf)"
    using ok(3) sig by (simp add: thread_ok_def down_inv_def)
  from chunk_done_answers [OF this _ rd] plan have cb: "chunk_done (d_signals ?t ! ?n) ?s =
      bind_res (drop_de ?de (fuse_reply req (snd (due bytes plan (a, rc, len, buf))) ?s)) (\<lambda>s.
      Inr (s\<lparr>fu_reads := (fu_reads s)(a := None)\<rparr>))"
    by (simp add: wanted_def due_def sig)
  let ?r = "fuse_reply req (snd (due bytes plan (a, rc, len, buf))) ?s"
  show ?thesis
  proof (cases "drop_de ?de ?r")
    case (Inl e)
    then show ?thesis using cb drop_de_total [of ?r ?de] by (auto simp: outcome_def server_answer_def)
  next
    case (Inr s')
    obtain st where s': "s' = ?r\<lparr>fu_fs := (fu_fs ?r)\<lparr>fs_des := st\<rparr>\<rparr>" using drop_de_result [OF Inr] .
    let ?sv = "sv\<lparr>sv_fuse := s'\<lparr>fu_reads := (fu_reads s')(a := None)\<rparr>, sv_answered := ?n + 1\<rparr>"
    have sv: "sv_file fh ?sv = sv_file fh sv" "sv_thread fh ?sv = ?t"
      by (simp_all add: sv_file_def sv_thread_def s' fuse_reply_def)
    have tk: "take (?n + 1) (d_signals ?t) = answered fh sv @ [(a, rc, len, buf)]"
      using assms(2) sig by (simp add: take_Suc_conv_app_nth)
    have pend: "pending_ok bytes plan ?de (set (sv_asked sv) - fst ` set (take (?n + 1) (d_signals ?t)))
        ((fu_reads ?s)(a := None))"
      unfolding tk by (rule pending_ok_del [OF ok(5)]) auto
    have hs: "has_size bytes ?de s'"
      using ok(2) by (intro has_size_drop [OF Inr]) (simp add: has_size_def fuse_reply_def)
    have "server_inv bytes fh plan replies ?sv"
    proof (intro server_invI, unfold sv)
      show "has_size bytes ?de (sv_fuse ?sv)"
        using hs unfolding has_size_def by simp
      show "pending_ok bytes plan ?de (set (sv_asked ?sv) - fst ` set (take (sv_answered ?sv) (d_signals ?t)))
          (fu_reads (sv_fuse ?sv))"
        using pend by (simp add: s' fuse_reply_def)
      show "fu_replies (sv_fuse ?sv) = replies @ map (due bytes plan) (take (sv_answered ?sv) (d_signals ?t))"
        using ok(7) tk plan by (simp add: s' fuse_reply_def due_def)
    qed (use ok assms(2) in \<open>simp_all add: s' fuse_reply_def split: if_splits\<close>)
    then have "server_ok bytes fh plan replies ?sv" using server_okD(2) [OF assms(1)] sv by (simp add: server_ok_def)
    from outcome_okI [OF this] show ?thesis using cb Inr by (simp add: server_answer_def)
  qed
qed

lemma step_outcome:
  assumes "server_step bytes fh plan sv act r" "server_ok bytes fh plan replies sv"
  shows "outcome bytes fh plan replies sv act r \<and> waits_over fh r"
  using assms(1)
proof cases
  case (ask a)
  then show ?thesis using ask_outcome [OF assms(2)] by simp
next
  case (next_chunk ws)
  then show ?thesis using waiting_outcome [OF assms(2)] by blast
next
  case (block dat ws)
  then show ?thesis using waiting_outcome [OF assms(2)] by blast
next
  case (fetched rc)
  then show ?thesis using fetched_outcome [OF assms(2)] by simp
next
  case finish
  then show ?thesis using end_outcome [OF assms(2)] by simp
next
  case answer
  then show ?thesis using answer_outcome [OF assms(2)] by simp
qed

lemma reach_ok:
  assumes "server_reach bytes fh plan sv0 sv" "server_ok bytes fh plan replies sv0"
  shows "server_ok bytes fh plan replies sv"
  using assms
proof induction
  case (further sv act sv')
  then show ?case using step_outcome [OF further.hyps(2)] by (auto simp: outcome_def)
qed

section \<open>Properties\<close>

lemma read_rejected_int: "read_rejected (int n) sz (int off) \<longleftrightarrow>
  n < off \<or> off < n \<and> n < off + sz \<and> (off + sz) mod 2 ^ 32 < n"
proof -
  have "int ((off + sz) mod 2 ^ 32) = (int off + int sz) mod 2 ^ 32" unfolding of_nat_mod by simp
  then have "(int off + int sz) mod 2 ^ 32 < int n \<longleftrightarrow> (off + sz) mod 2 ^ 32 < n" by (metis of_nat_less_iff)
  moreover have "int n < int off + int sz \<longleftrightarrow> n < off + sz" by linarith
  ultimately show ?thesis unfolding read_rejected_def by (simp only: of_nat_less_iff)
qed

lemma opened_ok:
  assumes "slot (fu_fs s0) ino = Some de" "0 < de_refs s0 de" "de_refs s0 de + 1 < max_refs"
    and "de_contents s0 de = Some d" "li_type (de_li d) = listing_type_FILE" "fi_flags fi AND 3 = 0"
    and "li_size (de_li d) = int (length bytes)" "env_busy env = []" "env_waits env = []"
    and "fsfuse_open env fh req ino fi s0 = Inr s"
  shows "server_ok bytes fh plan (fu_replies s0 @ [(req, reply_open fh)]) (server_new s)"
proof -
  obtain st where s: "s = fuse_reply req (reply_open fh) (s0\<lparr>fu_fs := (fu_fs s0)\<lparr>fs_des := st\<rparr>,
      fu_files := (fu_files s0)(fh \<mapsto> \<lparr>of_de = de, of_downloader = downloader_new (int (length bytes)) [] [],
        of_running = True\<rparr>)\<rparr>)" "contents_at st = de_contents s0"
    using open_ok [OF assms(1-6), of env fh req] assms(7-10) by auto
  let ?t = "downloader_new (int (length bytes)) [] []"
  have t: "sv_file fh (server_new s) = \<lparr>of_de = de, of_downloader = ?t, of_running = True\<rparr>"
    "sv_thread fh (server_new s) = ?t"
    by (simp_all add: sv_file_def sv_thread_def server_new_def s(1) fuse_reply_def)
  have "thread_ok bytes (wanted bytes plan) [] 0 ?t"
    by (simp add: thread_ok_def down_inv_def downloader_new_def heap_pq.new_invar heap_chunks_def
        heap_pq.new_contents readers_def ctxt_of_def late_waits_def)
  then show ?thesis
    unfolding server_ok_def server_inv_def t
    using assms(4,7) s(2)
    by (simp add: server_new_def s(1) fuse_reply_def has_size_def pending_ok_def phase_ok_def downloader_new_def)
qed


text \<open>
  A request, a fetch that serves it and its answer on the example; then a second request comes behind
  the deadline of the thread's wait and is lost, and the thread ends.
\<close>

definition example_plan :: "addr \<Rightarrow> nat \<times> nat \<times> nat" where
  "example_plan a = (7, 0, 4)"

definition example_opened :: "fuse_t res" where
  "example_opened = fsfuse_open example_env 61 6 2 \<lparr>fi_flags = 0, fi_fh = 0\<rparr> example_open"

definition example_acts :: "action list" where
  "example_acts = [Ask 70, Next [], Block ''hell'' [], Fetched 0, Answer, Next [(ETIMEDOUT, [71])], Finish]"

primrec example_steps :: "nat \<Rightarrow> server_t res" where
  "example_steps 0 = map_sum id server_new example_opened"
| "example_steps (Suc n) = bind_res (example_steps n) (server_act 61 example_plan (example_acts ! n))"

definition example_sv :: "nat \<Rightarrow> server_t" where "example_sv n = projr (example_steps n)"

lemma example_steps_run: "n \<le> 7 \<Longrightarrow> example_steps n = Inr (example_sv n)"
proof -
  assume "n \<le> 7"
  moreover have "\<forall>n \<in> set [0..<8]. \<not> isl (example_steps n)" by code_simp
  ultimately have "\<not> isl (example_steps n)" by auto
  then show ?thesis unfolding example_sv_def by simp
qed

lemma example_server_steps:
  "server_step ''hello'' 61 example_plan (example_sv 0) (Ask 70) (server_act 61 example_plan (Ask 70) (example_sv 0))"
  "server_step ''hello'' 61 example_plan (example_sv 1) (Next []) (server_act 61 example_plan (Next []) (example_sv 1))"
  "server_step ''hello'' 61 example_plan (example_sv 2) (Block ''hell'' [])
     (server_act 61 example_plan (Block ''hell'' []) (example_sv 2))"
  "server_step ''hello'' 61 example_plan (example_sv 3) (Fetched 0)
     (server_act 61 example_plan (Fetched 0) (example_sv 3))"
  "server_step ''hello'' 61 example_plan (example_sv 4) Answer (server_act 61 example_plan Answer (example_sv 4))"
  "server_step ''hello'' 61 example_plan (example_sv 5) (Next [(ETIMEDOUT, [71])])
     (server_act 61 example_plan (Next [(ETIMEDOUT, [71])]) (example_sv 5))"
  "server_step ''hello'' 61 example_plan (example_sv 6) Finish (server_act 61 example_plan Finish (example_sv 6))"
  by (rule ask, code_simp, rule next_chunk, code_simp, code_simp, code_simp, code_simp,
      rule block, code_simp, code_simp, code_simp, code_simp, code_simp, code_simp, code_simp,
      rule fetched, code_simp, code_simp, rule answer, code_simp,
      rule next_chunk, code_simp, code_simp, code_simp, code_simp, rule finish, code_simp, code_simp)

lemma example_reach: "n \<le> 7 \<Longrightarrow> server_reach ''hello'' 61 example_plan (example_sv 0) (example_sv n)"
proof (induction n)
  case 0
  then show ?case by (simp add: opened)
next
  case (Suc n)
  have step: "server_act 61 example_plan (example_acts ! n) (example_sv n) = Inr (example_sv (Suc n))"
    using example_steps_run [of n] example_steps_run [of "Suc n"] Suc.prems by simp
  have "n \<in> {0, 1, 2, 3, 4, 5, 6}" using Suc.prems by auto
  then have "server_step ''hello'' 61 example_plan (example_sv n) (example_acts ! n)
      (server_act 61 example_plan (example_acts ! n) (example_sv n))"
    using example_server_steps by (elim insertE emptyE) (simp_all add: example_acts_def)
  then show ?case using further [OF Suc.IH] Suc.prems step by simp
qed

lemma example_opening:
  "slot (fu_fs example_open) 2 = Some 11" "0 < de_refs example_open 11" "de_refs example_open 11 + 1 < max_refs"
  "de_contents example_open 11 = Some example_file" "li_type (de_li example_file) = listing_type_FILE"
  "fi_flags \<lparr>fi_flags = 0, fi_fh = 0\<rparr> AND 3 = 0" "li_size (de_li example_file) = int (length ''hello'')"
  "env_busy example_env = []" "env_waits example_env = []"
  by (simp_all add: slot_def example_open_def example_fs_def example_file_def example_env_def refs_def contents_at_def)

lemma example_opened_run: "fsfuse_open example_env 61 6 2 \<lparr>fi_flags = 0, fi_fh = 0\<rparr> example_open = Inr (projr example_opened)"
proof -
  have "\<not> isl example_opened" by code_simp
  then show ?thesis by (simp add: example_opened_def)
qed

lemma example_sv_0: "example_sv 0 = server_new (projr example_opened)"
  using example_opened_run by (simp add: example_sv_def) (metis example_opened_def map_sum.simps(2) sum.sel(2))




lemma idle_ends:
  assumes "server_ok bytes fh plan replies sv" "of_running (sv_file fh sv)" "sv_phase sv = AtTop"
    and "sv_rc sv = Some 0" "d_current (sv_thread fh sv) = None" "heap_chunks (d_chunks (sv_thread fh sv)) = {#}"
    and "0 < de_refs (sv_fuse sv) (of_de (sv_file fh sv))"
  obtains sv1 sv2 where "server_next fh sv = Inr sv1" "server_end fh sv1 = Inr sv2"
    "\<not> of_running (sv_file fh sv2)" "fu_files (sv_fuse sv2) fh = Some (sv_file fh sv2)"
proof -
  let ?t = "sv_thread fh sv" and ?f = "sv_file fh sv"
  note inv = server_okD [OF assms(1)]
  have ok: "thread_ok bytes (wanted bytes plan) (sv_asked sv) (sv_late sv) ?t" "\<not> d_seek ?t"
    using server_invD(3,8) [OF inv(1)] assms(2-5) by (auto simp: phase_ok_def)
  then have h: "heap_inv (d_chunks ?t)" "d_busy ?t = []" "d_waits ?t = []"
    using inv(2) by (simp_all add: thread_ok_def down_inv_def)
  note pop = heap_trypop_empty [OF h(1) assms(6)]
  have "chunk_get_next ?t = Inr (None, ?t)"
    using h(2,3) by (simp add: chunk_get_next_def chunk_wait_empty [OF pop] waits_same)
  then have "main_chunk False ?t = Inr ?t"
    using ok(2) assms(5) by (simp add: main_chunk_def)
  then have nxt: "server_next fh sv = Inr ((put_thread fh ?t sv)\<lparr>sv_phase := AtEnd\<rparr>)"
    using assms(4,5) by (simp add: server_next_def)
  let ?sv = "(put_thread fh ?t sv)\<lparr>sv_phase := AtEnd\<rparr>"
  have "main_end (Some 0) ?t = Inr ?t"
    using pop assms(5,6) thread_ended(1) [OF ok(1) assms(5)] by (simp add: main_end_def)
  moreover obtain s' where "drop_de (of_de ?f) (sv_fuse ?sv) = Inr s'"
    using drop_de_total [of "sv_fuse ?sv" "of_de ?f"] assms(7) by (auto simp: put_thread_def)
  ultimately have "server_end fh ?sv =
      Inr (put_file fh (?f\<lparr>of_downloader := ?t, of_running := False\<rparr>) (?sv\<lparr>sv_fuse := s'\<rparr>))"
    using assms(4) by (simp add: server_end_def) (simp add: put_thread_def)
  then show thesis by (rule that [OF nxt]) simp_all
qed

text \<open>C32. A pause in the reading (downloader.c, \<^verbatim>\<open>downloaderead_main\<close>, with read.c): when the thread of an
  open file has served all its requests and waits in vain for another one, it ends and frees its
  block, but the open file keeps its pointer to the block: every later read of the open file is a
  use after free.\<close>
theorem server_idle_then_read:
  assumes "slot (fu_fs s0) ino = Some de" "0 < de_refs s0 de" "de_refs s0 de + 1 < max_refs"
    and "de_contents s0 de = Some d" "li_type (de_li d) = listing_type_FILE" "fi_flags fi AND 3 = 0"
    and "li_size (de_li d) = int (length bytes)" "env_busy env = []" "env_waits env = []"
    and "fsfuse_open env fh req0 ino fi s0 = Inr s" "server_reach bytes fh plan (server_new s) sv"
    and "of_running (sv_file fh sv)" "sv_phase sv = AtTop" "sv_rc sv = Some 0"
    and "d_current (sv_thread fh sv) = None" "heap_chunks (d_chunks (sv_thread fh sv)) = {#}"
    and "0 < de_refs (sv_fuse sv) (of_de (sv_file fh sv))"
  shows "\<exists>sv1 sv2. server_next fh sv = Inr sv1 \<and> server_end fh sv1 = Inr sv2 \<and>
    fu_files (sv_fuse sv2) fh \<noteq> None \<and> (\<forall>a r. server_ask fh a r sv2 = Inl UseAfterFree)"
proof -
  have "server_ok bytes fh plan (fu_replies s0 @ [(req0, reply_open fh)]) sv"
    using reach_ok [OF assms(11)] opened_ok [OF assms(1-10)] by blast
  from idle_ends [OF this assms(12-17)] obtain sv1 sv2 where
    sv: "server_next fh sv = Inr sv1" "server_end fh sv1 = Inr sv2" "\<not> of_running (sv_file fh sv2)"
      "fu_files (sv_fuse sv2) fh = Some (sv_file fh sv2)" .
  then have "server_ask fh a r sv2 = Inl UseAfterFree" for a r
    by (auto simp: server_ask_def fsfuse_read_def de_at_def obj_get_def Let_def split: prod.splits option.splits)
  then show ?thesis using sv by auto
qed

theorem server_idle_then_read_witness:
  "\<exists>sv1 sv2. server_next 61 (example_sv 5) = Inr sv1 \<and> server_end 61 sv1 = Inr sv2 \<and>
     server_ask 61 71 (8, 4, 1) sv2 = Inl UseAfterFree"
proof -
  let ?t = "sv_thread 61 (example_sv 5)"
  have r: "server_reach ''hello'' 61 example_plan (server_new (projr example_opened)) (example_sv 5)"
    using example_reach [of 5] example_sv_0 by simp
  have p: "of_running (sv_file 61 (example_sv 5))" "sv_phase (example_sv 5) = AtTop" "sv_rc (example_sv 5) = Some 0"
    "d_current ?t = None" "0 < de_refs (sv_fuse (example_sv 5)) (of_de (sv_file 61 (example_sv 5)))"
    "used (d_chunks ?t) = 0" by code_simp+
  have "server_ok ''hello'' 61 example_plan [(6, reply_open 61)] (example_sv 5)"
    using reach_ok [OF r opened_ok [OF example_opening example_opened_run]] by (simp add: example_open_def)
  from server_invD(3) [OF server_okD(1) [OF this]] have "heap_inv (d_chunks ?t)" by (simp add: thread_ok_def down_inv_def)
  then have "heap_chunks (d_chunks ?t) = {#}" using p(6) heap_chunks_used by blast
  from server_idle_then_read [OF example_opening example_opened_run r p(1-4) this p(5)] show ?thesis by blast
qed

end
