(* ===== verification/Locks.thy ===== *)
theory Locks
  imports Prelude
begin

text \<open>
  The read-write lock (\<^verbatim>\<open>src/src/locks.c\<close>). The part of an operation between
  \<^verbatim>\<open>pthread_mutex_lock\<close> and \<^verbatim>\<open>pthread_mutex_unlock\<close> is one step; the test of \<^verbatim>\<open>locking_thread\<close>
  in front of it, which is made without the mutex, is a step of its own, and so is each return from
  \<^verbatim>\<open>pthread_cond_wait\<close>, which may also return without a signal. The threads are numbered from 1, the
  number 0 is the null thread. Each thread takes the lock for reading or writing, releases it the
  same way, and does so any number of times.
\<close>

section \<open>locks.c\<close>

record rw_lock_t =
  readers_reading :: int
  writer_writing :: int
  locking_thread :: nat

definition rw_lock_new :: rw_lock_t where
  "rw_lock_new = \<lparr>readers_reading = 0, writer_writing = 0, locking_thread = 0\<rparr>"

text \<open>The test in front of both lock operations.\<close>

definition locked_by_self :: "nat \<Rightarrow> rw_lock_t \<Rightarrow> bool" where
  "locked_by_self t l = (locking_thread l \<noteq> 0 \<and> locking_thread l = t)"

text \<open>One round of the loops under the mutex: \<open>None\<close> when the thread goes to sleep.\<close>

definition rw_lock_rlock :: "nat \<Rightarrow> rw_lock_t \<Rightarrow> rw_lock_t option" where
  "rw_lock_rlock t l =
     (if writer_writing l \<noteq> 0 then None
      else Some (l\<lparr>readers_reading := readers_reading l + 1, locking_thread := t\<rparr>))"

definition rw_lock_wlock :: "nat \<Rightarrow> rw_lock_t \<Rightarrow> rw_lock_t option" where
  "rw_lock_wlock t l =
     (if writer_writing l \<noteq> 0 \<or> readers_reading l \<noteq> 0 then None
      else Some (l\<lparr>writer_writing := writer_writing l + 1, locking_thread := t\<rparr>))"

datatype wake = wake_none | wake_signal | wake_broadcast

text \<open>The return code, the lock and what is done to the condition variable.\<close>

definition rw_lock_runlock :: "rw_lock_t \<Rightarrow> int \<times> rw_lock_t \<times> wake" where
  "rw_lock_runlock l =
     (if readers_reading l = 0 then (-1, l, wake_none)
      else let l = l\<lparr>readers_reading := readers_reading l - 1\<rparr> in
        if readers_reading l = 0 then (0, l\<lparr>locking_thread := 0\<rparr>, wake_signal)
        else (0, l, wake_none))"

definition rw_lock_wunlock :: "rw_lock_t \<Rightarrow> int \<times> rw_lock_t \<times> wake" where
  "rw_lock_wunlock l =
     (if writer_writing l = 0 then (-1, l, wake_none)
      else (0, l\<lparr>writer_writing := 0, locking_thread := 0\<rparr>, wake_broadcast))"

section \<open>Threads\<close>

datatype lock_pc = Idle | EnterR | WaitR | Reading | EnterW | WaitW | Writing

record lock_sys =
  ls_lock :: rw_lock_t
  ls_pc :: "nat \<Rightarrow> lock_pc"

definition lock_init :: lock_sys where
  "lock_init = \<lparr>ls_lock = rw_lock_new, ls_pc = (\<lambda>_. Idle)\<rparr>"

fun awake :: "lock_pc \<Rightarrow> lock_pc" where
  "awake WaitR = EnterR"
| "awake WaitW = EnterW"
| "awake pc = pc"

definition waiting :: "lock_pc \<Rightarrow> bool" where "waiting pc \<longleftrightarrow> pc = WaitR \<or> pc = WaitW"

text \<open>What a signal or a broadcast does to the threads: a signal wakes one sleeper if there is one.\<close>

inductive woken :: "wake \<Rightarrow> (nat \<Rightarrow> lock_pc) \<Rightarrow> (nat \<Rightarrow> lock_pc) \<Rightarrow> bool" where
  none: "woken wake_none pc pc"
| signal_one: "waiting (pc u) \<Longrightarrow> woken wake_signal pc (pc(u := awake (pc u)))"
| signal_nobody: "\<forall>u. \<not> waiting (pc u) \<Longrightarrow> woken wake_signal pc pc"
| broadcast: "woken wake_broadcast pc (awake \<circ> pc)"

text \<open>\<open>may_read\<close> says which threads take the lock for reading.\<close>

inductive lock_step :: "(nat \<Rightarrow> bool) \<Rightarrow> lock_sys \<Rightarrow> lock_sys \<Rightarrow> bool" for may_read where
  rlock_test: "ls_pc s t = Idle \<Longrightarrow> t \<noteq> 0 \<Longrightarrow> may_read t \<Longrightarrow>
     lock_step may_read s
       (s\<lparr>ls_pc := (ls_pc s)(t := if locked_by_self t (ls_lock s) then Reading else EnterR)\<rparr>)"
| rlock_enter: "ls_pc s t = EnterR \<Longrightarrow> rw_lock_rlock t (ls_lock s) = Some l \<Longrightarrow>
     lock_step may_read s \<lparr>ls_lock = l, ls_pc = (ls_pc s)(t := Reading)\<rparr>"
| rlock_wait: "ls_pc s t = EnterR \<Longrightarrow> rw_lock_rlock t (ls_lock s) = None \<Longrightarrow>
     lock_step may_read s (s\<lparr>ls_pc := (ls_pc s)(t := WaitR)\<rparr>)"
| runlock: "ls_pc s t = Reading \<Longrightarrow> rw_lock_runlock (ls_lock s) = (rc, l, w) \<Longrightarrow>
     woken w ((ls_pc s)(t := Idle)) pc \<Longrightarrow> lock_step may_read s \<lparr>ls_lock = l, ls_pc = pc\<rparr>"
| wlock_test: "ls_pc s t = Idle \<Longrightarrow> t \<noteq> 0 \<Longrightarrow>
     lock_step may_read s
       (s\<lparr>ls_pc := (ls_pc s)(t := if locked_by_self t (ls_lock s) then Writing else EnterW)\<rparr>)"
| wlock_enter: "ls_pc s t = EnterW \<Longrightarrow> rw_lock_wlock t (ls_lock s) = Some l \<Longrightarrow>
     lock_step may_read s \<lparr>ls_lock = l, ls_pc = (ls_pc s)(t := Writing)\<rparr>"
| wlock_wait: "ls_pc s t = EnterW \<Longrightarrow> rw_lock_wlock t (ls_lock s) = None \<Longrightarrow>
     lock_step may_read s (s\<lparr>ls_pc := (ls_pc s)(t := WaitW)\<rparr>)"
| wunlock: "ls_pc s t = Writing \<Longrightarrow> rw_lock_wunlock (ls_lock s) = (rc, l, w) \<Longrightarrow>
     woken w ((ls_pc s)(t := Idle)) pc \<Longrightarrow> lock_step may_read s \<lparr>ls_lock = l, ls_pc = pc\<rparr>"
| spurious: "waiting (ls_pc s t) \<Longrightarrow>
     lock_step may_read s (s\<lparr>ls_pc := (ls_pc s)(t := awake (ls_pc s t))\<rparr>)"

inductive lock_reach :: "(nat \<Rightarrow> bool) \<Rightarrow> lock_sys \<Rightarrow> bool" for may_read where
  start: "lock_reach may_read lock_init"
| step: "lock_reach may_read s \<Longrightarrow> lock_step may_read s s' \<Longrightarrow> lock_reach may_read s'"

inductive_cases wokenE: "woken w pc pc'"

section \<open>One reader and any number of writers\<close>

definition holds :: "lock_pc \<Rightarrow> bool" where "holds pc \<longleftrightarrow> pc = Reading \<or> pc = Writing"
definition entering :: "lock_pc \<Rightarrow> bool" where "entering pc \<longleftrightarrow> pc = EnterR \<or> pc = EnterW"

text \<open>The lock is described by its holder alone.\<close>

definition lock_of :: "(nat \<Rightarrow> lock_pc) \<Rightarrow> nat \<Rightarrow> rw_lock_t" where
  "lock_of pc h = \<lparr>readers_reading = of_bool (pc h = Reading), writer_writing = of_bool (pc h = Writing),
     locking_thread = h\<rparr>"

definition pcs_ok :: "nat \<Rightarrow> (nat \<Rightarrow> lock_pc) \<Rightarrow> nat \<Rightarrow> bool" where
  "pcs_ok r pc h \<longleftrightarrow> pc 0 = Idle \<and> (\<forall>t. pc t \<in> {EnterR, WaitR, Reading} \<longrightarrow> t = r) \<and>
     (\<forall>t. holds (pc t) \<longleftrightarrow> t = h \<and> h \<noteq> 0) \<and>
     (h \<noteq> 0 \<or> (\<exists>t. entering (pc t)) \<or> (\<forall>t. \<not> waiting (pc t)))"

definition lock_inv :: "nat \<Rightarrow> lock_sys \<Rightarrow> bool" where
  "lock_inv r s \<longleftrightarrow> (\<exists>h. ls_lock s = lock_of (ls_pc s) h \<and> pcs_ok r (ls_pc s) h)"

lemmas pc_defs = holds_def entering_def waiting_def

lemma awake_simps [simp]:
  "awake p = Idle \<longleftrightarrow> p = Idle" "awake p = Reading \<longleftrightarrow> p = Reading" "awake p = Writing \<longleftrightarrow> p = Writing"
  "\<not> waiting (awake p)" "holds (awake p) \<longleftrightarrow> holds p" "waiting p \<Longrightarrow> entering (awake p)"
  "awake p \<in> {EnterR, WaitR, Reading} \<longleftrightarrow> p \<in> {EnterR, WaitR, Reading}"
  by (cases p; simp add: pc_defs)+

lemma lock_inv_init: "lock_inv r lock_init"
  unfolding lock_inv_def
  by (rule exI [of _ 0]) (simp add: lock_init_def rw_lock_new_def lock_of_def pcs_ok_def pc_defs)

text \<open>The conditions that speak of each thread alone, and that nobody sleeps without being woken.\<close>

lemma pcs_ok_upd:
  assumes "pcs_ok r pc h" "t \<noteq> 0" "p \<in> {EnterR, WaitR, Reading} \<Longrightarrow> t = r"
    and "\<And>u. holds ((pc(t := p)) u) \<longleftrightarrow> u = h' \<and> h' \<noteq> 0" "h' \<noteq> 0 \<or> entering p"
  shows "pcs_ok r (pc(t := p)) h'"
  unfolding pcs_ok_def
proof (intro conjI allI impI)
  show "(pc(t := p)) 0 = Idle" using assms(1,2) by (simp add: pcs_ok_def)
  show "u = r" if "(pc(t := p)) u \<in> {EnterR, WaitR, Reading}" for u
    using that assms(1,3) by (cases "u = t") (auto simp: pcs_ok_def)
  show "holds ((pc(t := p)) u) \<longleftrightarrow> u = h' \<and> h' \<noteq> 0" for u by (rule assms(4))
  have "entering ((pc(t := p)) t)" if "h' = 0" using that assms(5) by simp
  then show "h' \<noteq> 0 \<or> (\<exists>u. entering ((pc(t := p)) u)) \<or> (\<forall>u. \<not> waiting ((pc(t := p)) u))" by blast
qed

lemma pcs_ok_holds: "pcs_ok r pc h \<Longrightarrow> holds (pc t) \<longleftrightarrow> t = h \<and> h \<noteq> 0"
  by (simp add: pcs_ok_def)

lemma pcs_ok_enter:
  assumes "pcs_ok r pc h" "\<not> holds (pc t)" "t \<noteq> 0" "entering p" "p = EnterR \<Longrightarrow> t = r"
  shows "pcs_ok r (pc(t := p)) h"
  using assms by (intro pcs_ok_upd) (auto simp: entering_def pcs_ok_holds holds_def [of EnterR] holds_def [of EnterW])

lemma pcs_ok_sleep:
  assumes "pcs_ok r pc h" "h \<noteq> 0" "t \<noteq> 0" "\<not> holds (pc t)" "waiting p" "p = WaitR \<Longrightarrow> t = r"
  shows "pcs_ok r (pc(t := p)) h"
  using assms by (intro pcs_ok_upd) (auto simp: waiting_def pcs_ok_holds holds_def [of WaitR] holds_def [of WaitW])

lemma pcs_ok_acquire:
  assumes "pcs_ok r pc 0" "t \<noteq> 0" "holds p" "p = Reading \<Longrightarrow> t = r"
  shows "pcs_ok r (pc(t := p)) t"
  using assms by (intro pcs_ok_upd) (auto simp: pcs_ok_holds, auto simp: holds_def)

lemma pcs_ok_release:
  assumes "pcs_ok r pc h" "woken w (pc(h := Idle)) pc'" "w \<noteq> wake_none"
  shows "pcs_ok r pc' 0"
  unfolding pcs_ok_def
proof (intro conjI allI impI)
  have same: "holds (pc' u) = holds ((pc(h := Idle)) u)" "pc' u = Idle \<longleftrightarrow> (pc(h := Idle)) u = Idle"
    "pc' u \<in> {EnterR, WaitR, Reading} \<longleftrightarrow> (pc(h := Idle)) u \<in> {EnterR, WaitR, Reading}" for u
    using assms(2) by (cases rule: woken.cases; simp del: insert_iff)+
  show "pc' 0 = Idle" using assms(1) same(2) by (simp add: pcs_ok_def)
  show "u = r" if "pc' u \<in> {EnterR, WaitR, Reading}" for u
    using that assms(1) unfolding same(3) by (cases "u = h") (auto simp: pcs_ok_def)
  show "holds (pc' u) \<longleftrightarrow> u = 0 \<and> (0 :: nat) \<noteq> 0" for u
    unfolding same(1) using pcs_ok_holds [OF assms(1), of u] by (auto simp: holds_def [of Idle])
  have "\<exists>u. entering (pc' u)" if "waiting (pc' v)" for v
    using assms(2,3) that
  proof (cases rule: woken.cases)
    case (signal_one u)
    then have "entering (pc' u)" by simp
    then show ?thesis ..
  qed (use that in auto)
  then show "0 \<noteq> (0 :: nat) \<or> (\<exists>u. entering (pc' u)) \<or> (\<forall>u. \<not> waiting (pc' u))" by blast
qed

lemma pcs_ok_awake:
  assumes "pcs_ok r pc h" "waiting (pc t)"
  shows "pcs_ok r (pc(t := awake (pc t))) h"
proof (rule pcs_ok_enter [OF assms(1)])
  show "\<not> holds (pc t)" "entering (awake (pc t))" using assms(2) by (auto simp: waiting_def holds_def)
  show "t \<noteq> 0" using assms by (auto simp: pcs_ok_def waiting_def)
  show "t = r" if "awake (pc t) = EnterR" using that assms by (cases "pc t") (auto simp: pcs_ok_def)
qed

lemma lock_ofI: "pcs_ok r pc h \<Longrightarrow> l = lock_of pc h \<Longrightarrow> lock_inv r \<lparr>ls_lock = l, ls_pc = pc\<rparr>"
  by (auto simp: lock_inv_def)

lemma lock_of_upd: "pcs_ok r pc h \<Longrightarrow> t \<noteq> h \<Longrightarrow> lock_of (pc(t := p)) h = lock_of pc h"
  by (simp add: lock_of_def)

text \<open>The holder is the reader or a writer; when the lock is free, nobody holds it.\<close>

lemma lock_of_free:
  assumes "pcs_ok r pc h"
  shows "writer_writing (lock_of pc h) = 0 \<and> readers_reading (lock_of pc h) = 0 \<longleftrightarrow> h = 0"
proof -
  have "holds (pc h) \<longleftrightarrow> h \<noteq> 0" using pcs_ok_holds [OF assms, of h] by simp
  then show ?thesis by (auto simp: lock_of_def holds_def)
qed

lemma lock_inv_step:
  assumes "lock_step may_read s s'" "lock_inv r s" "\<And>t. may_read t \<Longrightarrow> t = r"
  shows "lock_inv r s'"
proof -
  obtain l0 pc0 where s: "s = \<lparr>ls_lock = l0, ls_pc = pc0\<rparr>" by (cases s)
  from assms(2) obtain h where l0: "l0 = lock_of pc0 h" and ok: "pcs_ok r pc0 h"
    by (auto simp: s lock_inv_def)
  have holds: "holds (pc0 t) \<longleftrightarrow> t = h \<and> h \<noteq> 0" for t by (rule pcs_ok_holds [OF ok])
  have keep: "lock_inv r \<lparr>ls_lock = l0, ls_pc = pc0(t := p)\<rparr>"
    if "pcs_ok r (pc0(t := p)) h" "\<not> holds (pc0 t)" "t \<noteq> 0" for t p
    using that holds [of t] lock_of_upd [OF ok] by (intro lock_ofI) (auto simp: l0)
  have nz: "t \<noteq> 0" if "pc0 t \<noteq> Idle" for t using that ok by (auto simp: pcs_ok_def)
  have rd: "t = r" if "pc0 t \<in> {EnterR, WaitR, Reading}" for t using that ok by (auto simp: pcs_ok_def)
  have enter: "lock_inv r \<lparr>ls_lock = l0, ls_pc = pc0(t := p)\<rparr>"
    if "pc0 t = Idle" "t \<noteq> 0" "entering p" "p = EnterR \<Longrightarrow> t = r" for t p
    using that by (intro keep pcs_ok_enter [OF ok]) (auto simp: holds_def [of Idle])
  have sleep: "lock_inv r \<lparr>ls_lock = l0, ls_pc = pc0(t := p)\<rparr>"
    if "entering (pc0 t)" "h \<noteq> 0" "waiting p" "p = WaitR \<Longrightarrow> t = r" for t p
    using that nz [of t] by (intro keep pcs_ok_sleep [OF ok]) (auto simp: entering_def holds_def)
  have acquire: "lock_inv r \<lparr>ls_lock = lock_of (pc0(t := p)) t, ls_pc = pc0(t := p)\<rparr>"
    if "pc0 t \<noteq> Idle" "h = 0" "holds p" "p = Reading \<Longrightarrow> t = r" for t p
    using that ok nz by (intro lock_ofI [where h = t] pcs_ok_acquire) auto
  have release: "lock_inv r \<lparr>ls_lock = rw_lock_new, ls_pc = pc\<rparr>"
    if "woken w (pc0(h := Idle)) pc" "w \<noteq> wake_none" for w pc
  proof (rule lock_ofI)
    show ok': "pcs_ok r pc 0" by (rule pcs_ok_release [OF ok that])
    then show "rw_lock_new = lock_of pc 0" by (simp add: lock_of_def rw_lock_new_def pcs_ok_def)
  qed
  from assms(1) show ?thesis
  proof cases
    case (rlock_test t)
    moreover from this have "\<not> locked_by_self t l0"
      using holds [of t] by (auto simp: s l0 lock_of_def locked_by_self_def holds_def)
    moreover have "t = r" using rlock_test(4) by (rule assms(3))
    ultimately show ?thesis using enter [of t EnterR] by (simp add: s entering_def)
  next
    case (rlock_enter t l)
    have "h = 0"
    proof (rule ccontr)
      assume "h \<noteq> 0"
      then have "holds (pc0 h)" using holds [of h] by simp
      then have "pc0 h = Reading"
        using rlock_enter by (auto simp: s l0 rw_lock_rlock_def lock_of_def holds_def split: if_splits)
      then show False using rd [of h] rd [of t] rlock_enter by (simp add: s)
    qed
    moreover from this have "l = lock_of (pc0(t := Reading)) t"
      using rlock_enter lock_of_free [OF ok] by (auto simp: s l0 rw_lock_rlock_def lock_of_def split: if_splits)
    ultimately show ?thesis using acquire [of t Reading] rlock_enter rd [of t] by (simp add: s holds_def)
  next
    case (rlock_wait t)
    then have "h \<noteq> 0" using lock_of_free [OF ok] by (auto simp: s l0 rw_lock_rlock_def split: if_splits)
    then show ?thesis using sleep [of t WaitR] rlock_wait rd [of t] by (simp add: s entering_def waiting_def)
  next
    case (runlock t rc l w pc)
    then have "t = h" "h \<noteq> 0" using holds [of t] by (auto simp: s holds_def)
    then have "w = wake_signal" "l = rw_lock_new"
      using runlock by (auto simp: s l0 rw_lock_runlock_def lock_of_def rw_lock_new_def)
    then show ?thesis using release [of w pc] runlock \<open>t = h\<close> by (simp add: s)
  next
    case (wlock_test t)
    moreover from this have "\<not> locked_by_self t l0"
      using holds [of t] by (auto simp: s l0 lock_of_def locked_by_self_def holds_def)
    ultimately show ?thesis using enter [of t EnterW] by (simp add: s entering_def)
  next
    case (wlock_enter t l)
    then have "h = 0" using lock_of_free [OF ok] by (auto simp: s l0 rw_lock_wlock_def split: if_splits)
    moreover from this have "l = lock_of (pc0(t := Writing)) t"
      using wlock_enter lock_of_free [OF ok] by (auto simp: s l0 rw_lock_wlock_def lock_of_def split: if_splits)
    ultimately show ?thesis using acquire [of t Writing] wlock_enter by (simp add: s holds_def)
  next
    case (wlock_wait t)
    then have "h \<noteq> 0" using lock_of_free [OF ok] by (auto simp: s l0 rw_lock_wlock_def split: if_splits)
    then show ?thesis using sleep [of t WaitW] wlock_wait by (simp add: s entering_def waiting_def)
  next
    case (wunlock t rc l w pc)
    then have "t = h" "h \<noteq> 0" using holds [of t] by (auto simp: s holds_def)
    then have "w = wake_broadcast" "l = rw_lock_new"
      using wunlock by (auto simp: s l0 rw_lock_wunlock_def lock_of_def rw_lock_new_def)
    then show ?thesis using release [of w pc] wunlock \<open>t = h\<close> by (simp add: s)
  next
    case (spurious t)
    then show ?thesis
      using keep [of t "awake (pc0 t)"] pcs_ok_awake [OF ok, of t] nz [of t] by (auto simp: s waiting_def holds_def)
  qed
qed

lemma lock_reach_inv:
  assumes "lock_reach may_read s" "\<And>t. may_read t \<Longrightarrow> t = r"
  shows "lock_inv r s"
  using assms(1) by induction (auto intro: lock_inv_init lock_inv_step assms(2))

text \<open>C21. The read-write lock with one reading thread (locks.c): when only one thread ever takes the lock
  for reading, and any number of threads take it for writing, in every interleaving, two different
  threads never hold the lock at once, no lock operation returns without having taken the lock,
  every release succeeds and leaves the lock as new, and whenever a thread sleeps, another holds the
  lock or is about to try to get it, so no wake-up is lost.\<close>
theorem rw_lock_one_reader:
  assumes "lock_reach may_read s" "\<And>t. may_read t \<Longrightarrow> t = r"
  shows "(\<forall>t u. holds (ls_pc s t) \<and> holds (ls_pc s u) \<longrightarrow> t = u) \<and>
    (\<forall>t. ls_pc s t = Idle \<longrightarrow> \<not> locked_by_self t (ls_lock s)) \<and>
    (\<forall>t. ls_pc s t = Reading \<longrightarrow> rw_lock_runlock (ls_lock s) = (0, rw_lock_new, wake_signal)) \<and>
    (\<forall>t. ls_pc s t = Writing \<longrightarrow> rw_lock_wunlock (ls_lock s) = (0, rw_lock_new, wake_broadcast)) \<and>
    (\<forall>t. waiting (ls_pc s t) \<longrightarrow> (\<exists>u. holds (ls_pc s u) \<or> entering (ls_pc s u)))"
proof -
  from lock_reach_inv [OF assms] obtain h where
    l: "ls_lock s = lock_of (ls_pc s) h" and ok: "pcs_ok r (ls_pc s) h" by (auto simp: lock_inv_def)
  have holds: "holds (ls_pc s t) \<longleftrightarrow> t = h \<and> h \<noteq> 0" for t by (rule pcs_ok_holds [OF ok])
  have "\<exists>u. holds (ls_pc s u) \<or> entering (ls_pc s u)" if "waiting (ls_pc s t)" for t
    using that ok holds unfolding pcs_ok_def by blast
  moreover have "\<not> locked_by_self t (ls_lock s)" if "ls_pc s t = Idle" for t
    using that holds [of t] by (auto simp: l locked_by_self_def lock_of_def holds_def)
  moreover have "rw_lock_runlock (ls_lock s) = (0, rw_lock_new, wake_signal)" if "ls_pc s t = Reading" for t
    using that holds [of t] by (auto simp: l rw_lock_runlock_def lock_of_def rw_lock_new_def holds_def)
  moreover have "rw_lock_wunlock (ls_lock s) = (0, rw_lock_new, wake_broadcast)" if "ls_pc s t = Writing" for t
    using that holds [of t] by (auto simp: l rw_lock_wunlock_def lock_of_def rw_lock_new_def holds_def)
  ultimately show ?thesis using holds by (intro conjI allI impI) (auto 0 0)
qed

section \<open>Two readers\<close>

text \<open>A run as the list of threads and what they do next.\<close>

lemma reach_test:
  assumes "lock_reach (\<lambda>_. True) \<lparr>ls_lock = l, ls_pc = pc\<rparr>" "pc t = Idle" "t \<noteq> 0"
  shows "lock_reach (\<lambda>_. True) \<lparr>ls_lock = l, ls_pc = pc(t := if locked_by_self t l then Reading else EnterR)\<rparr>"
    and "lock_reach (\<lambda>_. True) \<lparr>ls_lock = l, ls_pc = pc(t := if locked_by_self t l then Writing else EnterW)\<rparr>"
  using lock_reach.step [OF assms(1) lock_step.rlock_test [of _ t]]
    lock_reach.step [OF assms(1) lock_step.wlock_test [of _ t]] assms(2,3) by simp_all

lemma reach_reading:
  assumes "lock_reach (\<lambda>_. True) \<lparr>ls_lock = l, ls_pc = pc\<rparr>" "pc t = Idle" "t \<noteq> 0"
    and "\<not> locked_by_self t l" "writer_writing l = 0"
  shows "lock_reach (\<lambda>_. True) \<lparr>ls_lock = l\<lparr>readers_reading := readers_reading l + 1, locking_thread := t\<rparr>,
    ls_pc = pc(t := Reading)\<rparr>"
  using lock_reach.step [OF reach_test(1) [OF assms(1-3)] lock_step.rlock_enter [of _ t]] assms(4,5)
  by (simp add: rw_lock_rlock_def)

lemma two_readers:
  "lock_reach (\<lambda>_. True) \<lparr>ls_lock = \<lparr>readers_reading = 1, writer_writing = 0, locking_thread = 2\<rparr>,
     ls_pc = (\<lambda>_. Idle)(1 := Reading)\<rparr>"
proof -
  let ?pc = "(\<lambda>_. Idle)(1 := Reading, 2 := Reading)"
  have "lock_reach (\<lambda>_. True) \<lparr>ls_lock = \<lparr>readers_reading = 1, writer_writing = 0, locking_thread = 1\<rparr>,
     ls_pc = (\<lambda>_. Idle)(1 := Reading)\<rparr>"
    using reach_reading [OF lock_reach.start [unfolded lock_init_def], of 1]
    by (simp add: rw_lock_new_def locked_by_self_def)
  from reach_reading [OF this, of 2] have
    "lock_reach (\<lambda>_. True) \<lparr>ls_lock = \<lparr>readers_reading = 2, writer_writing = 0, locking_thread = 2\<rparr>, ls_pc = ?pc\<rparr>"
    by (simp add: locked_by_self_def)
  from lock_reach.step [OF this lock_step.runlock [of _ 2 0 _ wake_none, OF _ _ woken.none]] show ?thesis
    by (simp add: rw_lock_runlock_def fun_upd_idem)
qed

text \<open>The read-write lock with two reading threads (locks.c): when two threads read at once and the
  one that came last releases the lock first, the lock still names it as its owner; its next
  request for writing returns at once, while the other thread is reading, and its next request
  for reading is not counted, so that a writer gets the lock while it reads.\<close>
theorem rw_lock_two_readers:
  "(\<exists>s. lock_reach (\<lambda>_. True) s \<and> ls_pc s 1 = Reading \<and> ls_pc s 2 = Writing) \<and>
   (\<exists>s. lock_reach (\<lambda>_. True) s \<and> ls_pc s 2 = Reading \<and> ls_pc s 3 = Writing)"
proof
  have o: "locked_by_self 2 \<lparr>readers_reading = 1, writer_writing = 0, locking_thread = 2\<rparr>"
    by (simp add: locked_by_self_def)
  from reach_test(2) [OF two_readers, of 2]
  show "\<exists>s. lock_reach (\<lambda>_. True) s \<and> ls_pc s 1 = Reading \<and> ls_pc s 2 = Writing"
    using o by (intro exI conjI) auto
  from reach_test(1) [OF two_readers, of 2] have
    "lock_reach (\<lambda>_. True) \<lparr>ls_lock = \<lparr>readers_reading = 1, writer_writing = 0, locking_thread = 2\<rparr>,
       ls_pc = (\<lambda>_. Idle)(1 := Reading, 2 := Reading)\<rparr>" using o by simp
  from lock_reach.step [OF this lock_step.runlock [of _ 1 0 _ wake_signal, OF _ _ woken.signal_nobody]] have
    "lock_reach (\<lambda>_. True) \<lparr>ls_lock = rw_lock_new, ls_pc = (\<lambda>_. Idle)(2 := Reading)\<rparr>"
    by (simp add: rw_lock_runlock_def rw_lock_new_def waiting_def fun_upd_twist fun_upd_idem)
  from reach_test(2) [OF this, of 3] have
    "lock_reach (\<lambda>_. True) \<lparr>ls_lock = rw_lock_new, ls_pc = (\<lambda>_. Idle)(2 := Reading, 3 := EnterW)\<rparr>"
    by (simp add: locked_by_self_def rw_lock_new_def)
  from lock_reach.step [OF this lock_step.wlock_enter [of _ 3]]
  show "\<exists>s. lock_reach (\<lambda>_. True) s \<and> ls_pc s 2 = Reading \<and> ls_pc s 3 = Writing"
    by (intro exI conjI) (auto simp: rw_lock_wlock_def rw_lock_new_def)
qed

theorem rw_lock_one_reader_witness:
  "\<exists>s. lock_reach (\<lambda>t. t = 1) s \<and> ls_pc s 2 = EnterW \<and> ls_pc s 1 = Idle \<and>
     \<not> locked_by_self 1 (ls_lock s)"
proof -
  let ?s = "lock_init\<lparr>ls_pc := (ls_pc lock_init)(2 := if locked_by_self 2 (ls_lock lock_init) then Writing else EnterW)\<rparr>"
  have r: "lock_reach (\<lambda>t. t = 1) ?s"
    by (rule lock_reach.step [OF lock_reach.start lock_step.wlock_test]) (simp_all add: lock_init_def)
  moreover have "ls_pc ?s 2 = EnterW" "ls_pc ?s 1 = Idle"
    by (simp_all add: lock_init_def locked_by_self_def rw_lock_new_def)
  ultimately show ?thesis using rw_lock_one_reader [OF r, of 1] by blast
qed

end
