(* ===== verification/Alarm.thy ===== *)
theory Alarm
  imports Indexnodes
begin

text \<open>
  Alarms (\<^verbatim>\<open>src/src/alarm_simple.c\<close>) and the manager of the statically configured indexnodes that is
  built on them (\<^verbatim>\<open>src/src/indexnodes/indexnodes_statics_manager.c\<close>). An alarm is a thread that
  waits in \<^verbatim>\<open>select\<close> for its interval or for a message in its pipe; its owner deletes it by writing
  the message and joining the thread. A round of the thread's loop is two steps, the return of \<^verbatim>\<open>select\<close>
  and the switch over its result with the callback, so that the owner can run in between; and so are the two
  halves of \<^verbatim>\<open>alarm_delete\<close> around \<^verbatim>\<open>pthread_join\<close>. The results of \<^verbatim>\<open>pipe\<close>, \<^verbatim>\<open>pthread_create\<close> and
  \<^verbatim>\<open>select\<close> are arguments; \<open>select_returns\<close> says which results \<^verbatim>\<open>select\<close> can have in a state.
\<close>

section \<open>alarm\_simple.c\<close>

datatype alarm_control_codes_t = alarm_control_codes_NOT_USED | alarm_control_codes_STOP

text \<open>The two ends of the pipe are the messages in it.\<close>

record 'd alarm_t =
  al_interval :: "32 word"
  al_cb_data :: 'd
  al_pipe :: "alarm_control_codes_t list"

definition alarm_new :: "32 word \<Rightarrow> 'd \<Rightarrow> int \<Rightarrow> int \<Rightarrow> 'd alarm_t res" where
  "alarm_new interval cb_data pipe_rc create_rc =
     bind_res (c_assert (pipe_rc = 0)) (\<lambda>_.
     let alarm = \<lparr>al_interval = interval, al_cb_data = cb_data, al_pipe = []\<rparr> in
     bind_res (c_assert (create_rc = 0)) (\<lambda>_. Inr alarm))"

text \<open>
  The switch of a round of the loop in \<^verbatim>\<open>alarm_thread_main\<close>, with the result of \<^verbatim>\<open>select\<close> and whether it left the
  pipe in \<^verbatim>\<open>r_fds\<close>: the new value of \<^verbatim>\<open>exiting\<close>, the alarm and what the callback has done. A \<^verbatim>\<open>read\<close>
  that finds no message fails its assertion.
\<close>

definition alarm_round ::
  "('d \<Rightarrow> 's \<Rightarrow> 's res) \<Rightarrow> int \<Rightarrow> bool \<Rightarrow> 'd alarm_t \<Rightarrow> 's \<Rightarrow> (bool \<times> 'd alarm_t \<times> 's) res" where
  "alarm_round cb select_rc isset alarm u =
     (if select_rc = -1 then Inr (False, alarm, u)
      else if select_rc = 0 then bind_res (cb (al_cb_data alarm) u) (\<lambda>u. Inr (False, alarm, u))
      else if select_rc = 1 then
        if isset then
          (case al_pipe alarm of
             [] \<Rightarrow> Inl AssertFail
           | msg # msgs \<Rightarrow>
               bind_res (c_assert (msg = alarm_control_codes_STOP)) (\<lambda>_.
               Inr (True, alarm\<lparr>al_pipe := msgs\<rparr>, u)))
        else Inl AssertFail
      else Inl AssertFail)"

text \<open>
  The alarm with its thread and its owner. \<open>as_alarm\<close> is \<open>None\<close> once the alarm has been freed;
  \<open>as_woken\<close> is the result of a \<^verbatim>\<open>select\<close> that has returned and not been acted on;
  \<open>as_since\<close> is the time of the end of the last round, before which the running \<^verbatim>\<open>select\<close> has not
  been called; \<open>as_calls\<close> are the times of the calls of the callback, the last one first.
\<close>

datatype alarm_owner = Owning | Joining | Deleted

record ('d, 's) alarm_sys =
  as_alarm :: "'d alarm_t option"
  as_exited :: bool
  as_owner :: alarm_owner
  as_woken :: "(int \<times> bool) option"
  as_now :: nat
  as_since :: nat
  as_calls :: "nat list"
  as_user :: 's

definition alarm_start :: "'d alarm_t \<Rightarrow> nat \<Rightarrow> 's \<Rightarrow> ('d, 's) alarm_sys" where
  "alarm_start alarm now u = \<lparr>as_alarm = Some alarm, as_exited = False, as_owner = Owning,
     as_woken = None, as_now = now, as_since = now, as_calls = [], as_user = u\<rparr>"

definition alarm_select :: "int \<Rightarrow> bool \<Rightarrow> ('d, 's) alarm_sys \<Rightarrow> ('d, 's) alarm_sys res" where
  "alarm_select select_rc isset s =
     (case as_alarm s of
        None \<Rightarrow> Inl UseAfterFree
      | Some alarm \<Rightarrow> Inr (s\<lparr>as_woken := Some (select_rc, isset)\<rparr>))"

definition alarm_thread_main ::
  "('d \<Rightarrow> 's \<Rightarrow> 's res) \<Rightarrow> int \<Rightarrow> bool \<Rightarrow> ('d, 's) alarm_sys \<Rightarrow> ('d, 's) alarm_sys res" where
  "alarm_thread_main cb select_rc isset s =
     (case as_alarm s of
        None \<Rightarrow> Inl UseAfterFree
      | Some alarm \<Rightarrow>
          bind_res (alarm_round cb select_rc isset alarm (as_user s)) (\<lambda>(exiting, alarm, u).
          Inr (s\<lparr>as_alarm := Some alarm, as_exited := exiting, as_woken := None, as_since := as_now s,
                 as_calls := (if select_rc = 0 then [as_now s] else []) @ as_calls s, as_user := u\<rparr>)))"

text \<open>\<^verbatim>\<open>alarm_delete\<close> before and after the join.\<close>

definition alarm_delete_send :: "('d, 's) alarm_sys \<Rightarrow> ('d, 's) alarm_sys res" where
  "alarm_delete_send s =
     (case as_alarm s of
        None \<Rightarrow> Inl UseAfterFree
      | Some alarm \<Rightarrow>
          Inr (s\<lparr>as_alarm := Some (alarm\<lparr>al_pipe := al_pipe alarm @ [alarm_control_codes_STOP]\<rparr>),
                 as_owner := Joining\<rparr>))"

definition alarm_delete_free :: "('d, 's) alarm_sys \<Rightarrow> ('d, 's) alarm_sys res" where
  "alarm_delete_free s =
     (case as_alarm s of
        None \<Rightarrow> Inl InvalidFree
      | Some alarm \<Rightarrow> Inr (s\<lparr>as_alarm := None, as_owner := Deleted\<rparr>))"

section \<open>Runs of an alarm\<close>

text \<open>
  \<^verbatim>\<open>select\<close> can always be interrupted; it times out when nothing was in the pipe for the interval, and
  reports the pipe when there is a message in it.
\<close>

definition select_returns :: "int \<Rightarrow> bool \<Rightarrow> ('d, 's) alarm_sys \<Rightarrow> bool" where
  "select_returns rc isset s \<longleftrightarrow> rc = -1 \<or>
     (case as_alarm s of
        None \<Rightarrow> False
      | Some alarm \<Rightarrow>
          rc = 0 \<and> al_pipe alarm = [] \<and> as_since s + unat (al_interval alarm) \<le> as_now s \<or>
          rc = 1 \<and> isset \<and> al_pipe alarm \<noteq> [])"

inductive alarm_step ::
  "('d \<Rightarrow> 's \<Rightarrow> 's res) \<Rightarrow> ('d, 's) alarm_sys \<Rightarrow> ('d, 's) alarm_sys res \<Rightarrow> bool" for cb where
  pass: "alarm_step cb s (Inr (s\<lparr>as_now := as_now s + d\<rparr>))"
| wake: "\<not> as_exited s \<Longrightarrow> as_woken s = None \<Longrightarrow> select_returns rc isset s \<Longrightarrow>
     alarm_step cb s (alarm_select rc isset s)"
| act: "as_woken s = Some (rc, isset) \<Longrightarrow> alarm_step cb s (alarm_thread_main cb rc isset s)"
| send: "as_owner s = Owning \<Longrightarrow> alarm_step cb s (alarm_delete_send s)"
| join: "as_owner s = Joining \<Longrightarrow> as_exited s \<Longrightarrow> alarm_step cb s (alarm_delete_free s)"

inductive alarm_reach ::
  "('d \<Rightarrow> 's \<Rightarrow> 's res) \<Rightarrow> ('d, 's) alarm_sys \<Rightarrow> ('d, 's) alarm_sys \<Rightarrow> bool" for cb s0 where
  here: "alarm_reach cb s0 s0"
| step: "alarm_reach cb s0 s \<Longrightarrow> alarm_step cb s (Inr s') \<Longrightarrow> alarm_reach cb s0 s'"

text \<open>Each time of the list, read from its end, is at least \<open>i\<close> after the one before.\<close>

fun spaced :: "nat \<Rightarrow> nat list \<Rightarrow> bool" where
  "spaced i (y # x # xs) \<longleftrightarrow> x + i \<le> y \<and> spaced i (x # xs)"
| "spaced i xs \<longleftrightarrow> True"

text \<open>
  What a result of \<^verbatim>\<open>select\<close> that has not been acted on says: after a time-out the interval has passed
  since the last call.
\<close>

definition woken_ok :: "nat \<Rightarrow> nat \<Rightarrow> ('d, 's) alarm_sys \<Rightarrow> bool" where
  "woken_ok i t0 s \<longleftrightarrow> (case as_woken s of
     None \<Rightarrow> True
   | Some (rc, isset) \<Rightarrow> \<not> as_exited s \<and>
       (rc = -1 \<or> rc = 0 \<and> hd (as_calls s @ [t0]) + i \<le> as_now s \<or> rc = 1 \<and> isset \<and> as_owner s = Joining))"

definition alarm_inv :: "nat \<Rightarrow> nat \<Rightarrow> 'd \<Rightarrow> ('d, 's) alarm_sys \<Rightarrow> bool" where
  "alarm_inv i t0 d s \<longleftrightarrow>
     (case as_alarm s of
        None \<Rightarrow> as_owner s = Deleted \<and> as_exited s
      | Some alarm \<Rightarrow> as_owner s \<noteq> Deleted \<and> unat (al_interval alarm) = i \<and> al_cb_data alarm = d \<and>
          (as_exited s \<longrightarrow> as_owner s = Joining) \<and>
          al_pipe alarm = (if as_owner s = Joining \<and> \<not> as_exited s then [alarm_control_codes_STOP] else [])) \<and>
     woken_ok i t0 s \<and>
     spaced i (as_calls s @ [t0]) \<and> hd (as_calls s @ [t0]) \<le> as_since s \<and> as_since s \<le> as_now s"

lemma alarm_inv_start:
  "alarm_new i d p c = Inr alarm \<Longrightarrow> alarm_inv (unat i) t0 d (alarm_start alarm t0 u)"
  by (auto simp: alarm_new_def alarm_inv_def alarm_start_def woken_ok_def Let_def)

lemma spaced_Cons: "spaced i (y # xs) \<longleftrightarrow> (xs \<noteq> [] \<longrightarrow> hd xs + i \<le> y) \<and> spaced i xs"
  by (cases xs) auto

text \<open>What \<^verbatim>\<open>select\<close> and the switch can do in a state that satisfies the invariant.\<close>

lemma alarm_select_inv:
  assumes "alarm_inv i t0 d s" "\<not> as_exited s" "select_returns rc isset s"
  shows "alarm_select rc isset s = Inr (s\<lparr>as_woken := Some (rc, isset)\<rparr>)"
    and "alarm_inv i t0 d (s\<lparr>as_woken := Some (rc, isset)\<rparr>)"
proof -
  obtain alarm where a: "as_alarm s = Some alarm" "unat (al_interval alarm) = i"
      "al_pipe alarm = (if as_owner s = Joining then [alarm_control_codes_STOP] else [])"
    using assms(1,2) by (auto simp: alarm_inv_def split: option.splits)
  then show "alarm_select rc isset s = Inr (s\<lparr>as_woken := Some (rc, isset)\<rparr>)" by (simp add: alarm_select_def)
  have "hd (as_calls s @ [t0]) \<le> as_since s" using assms(1) by (simp add: alarm_inv_def)
  then have "woken_ok i t0 (s\<lparr>as_woken := Some (rc, isset)\<rparr>)"
    using assms(2,3) a by (cases "as_owner s = Joining") (auto simp: woken_ok_def select_returns_def)
  then show "alarm_inv i t0 d (s\<lparr>as_woken := Some (rc, isset)\<rparr>)"
    using assms(1) unfolding alarm_inv_def by (auto split: option.splits)
qed

lemma alarm_round_cases:
  assumes inv: "alarm_inv i t0 d s" and woken: "as_woken s = Some (rc, isset)"
  obtains
    (error) "rc = -1" "alarm_thread_main cb rc isset s = Inr (s\<lparr>as_woken := None, as_since := as_now s\<rparr>)"
  | (call) "rc = 0" "\<not> as_exited s" "hd (as_calls s @ [t0]) + i \<le> as_now s"
      "alarm_thread_main cb rc isset s = bind_res (cb d (as_user s)) (\<lambda>u.
         Inr (s\<lparr>as_woken := None, as_since := as_now s, as_calls := as_now s # as_calls s, as_user := u\<rparr>))"
  | (stop) alarm where "rc = 1" "as_owner s = Joining" "as_alarm s = Some alarm" "\<not> as_exited s"
      "alarm_thread_main cb rc isset s =
         Inr (s\<lparr>as_alarm := Some (alarm\<lparr>al_pipe := []\<rparr>), as_exited := True, as_woken := None, as_since := as_now s\<rparr>)"
proof -
  have alive: "\<not> as_exited s" and rc: "rc = -1 \<or> rc = 0 \<and> hd (as_calls s @ [t0]) + i \<le> as_now s \<or>
      rc = 1 \<and> isset \<and> as_owner s = Joining"
    using inv woken by (auto simp: alarm_inv_def woken_ok_def)
  from inv alive obtain alarm where a: "as_alarm s = Some alarm" "al_cb_data alarm = d" and
      pipe: "al_pipe alarm = (if as_owner s = Joining then [alarm_control_codes_STOP] else [])"
    by (auto simp: alarm_inv_def split: option.splits)
  from rc show thesis
  proof (elim disjE conjE)
    assume "rc = -1"
    then show thesis using a alive
      by (intro error) (simp_all add: alarm_thread_main_def alarm_round_def)
  next
    assume 2: "rc = 0" "hd (as_calls s @ [t0]) + i \<le> as_now s"
    have "alarm_thread_main cb rc isset s = bind_res (cb d (as_user s)) (\<lambda>u.
        Inr (s\<lparr>as_woken := None, as_since := as_now s, as_calls := as_now s # as_calls s, as_user := u\<rparr>))"
      using 2 a alive by (cases "cb d (as_user s)") (simp_all add: alarm_thread_main_def alarm_round_def)
    with 2 alive show thesis by (intro call)
  next
    assume "rc = 1" "isset" "as_owner s = Joining"
    then show thesis using a pipe alive
      by (intro stop [of alarm]) (auto simp: alarm_thread_main_def alarm_round_def)
  qed
qed

lemma alarm_step_inv:
  assumes "alarm_step cb s (Inr s')" and inv: "alarm_inv i t0 d s"
  shows "alarm_inv i t0 d s'"
  using assms(1)
proof cases
  case pass
  then show ?thesis using inv by (auto simp: alarm_inv_def woken_ok_def split: option.splits)
next
  case (wake rc isset)
  then show ?thesis using alarm_select_inv [OF inv wake(2,4)] by simp
next
  case (act rc isset)
  from inv act(2) show ?thesis
  proof (cases rule: alarm_round_cases [where cb = cb])
    case error
    then have "s' = s\<lparr>as_woken := None, as_since := as_now s\<rparr>" using act(1) by simp
    then show ?thesis using inv by (simp add: alarm_inv_def woken_ok_def) (cases "as_alarm s", simp_all)
  next
    case call
    then obtain u where "s' = s\<lparr>as_woken := None, as_since := as_now s, as_calls := as_now s # as_calls s, as_user := u\<rparr>"
      using act(1) by (cases "cb d (as_user s)") simp_all
    then show ?thesis using inv call(3)
      by (simp add: alarm_inv_def woken_ok_def spaced_Cons) (cases "as_alarm s", simp_all)
  next
    case (stop alarm)
    then have "s' = s\<lparr>as_alarm := Some (alarm\<lparr>al_pipe := []\<rparr>), as_exited := True, as_woken := None, as_since := as_now s\<rparr>"
      using act(1) by simp
    then show ?thesis using inv stop(2,3) by (simp add: alarm_inv_def woken_ok_def)
  qed
next
  case send
  then show ?thesis using inv
    by (auto simp: alarm_inv_def woken_ok_def alarm_delete_send_def split: option.splits if_splits)
next
  case join
  then show ?thesis using inv
    by (auto simp: alarm_inv_def woken_ok_def alarm_delete_free_def split: option.splits if_splits)
qed

lemma alarm_reach_inv: "alarm_reach cb s0 s \<Longrightarrow> alarm_inv i t0 d s0 \<Longrightarrow> alarm_inv i t0 d s"
  by (induction rule: alarm_reach.induct) (auto intro: alarm_step_inv)

lemma alarm_reach_trans: "alarm_reach cb s1 s2 \<Longrightarrow> alarm_reach cb s0 s1 \<Longrightarrow> alarm_reach cb s0 s2"
  by (induction rule: alarm_reach.induct) (auto intro: alarm_reach.step)

text \<open>The only run-time errors are those of the callback.\<close>

lemma alarm_step_error:
  assumes "alarm_step cb s (Inl e)" and inv: "alarm_inv i t0 d s"
  shows "cb d (as_user s) = Inl e"
  using assms(1)
proof cases
  case (wake rc isset)
  then show ?thesis using alarm_select_inv(1) [OF inv wake(2,4)] by simp
next
  case (act rc isset)
  from inv act(2) show ?thesis
  proof (cases rule: alarm_round_cases [where cb = cb])
    case call
    then show ?thesis using act(1) [symmetric] by (cases "cb d (as_user s)") simp_all
  qed (use act(1) in simp_all)
next
  case send
  then show ?thesis using inv by (auto simp: alarm_inv_def alarm_delete_send_def split: option.splits)
next
  case join
  then show ?thesis using inv by (auto simp: alarm_inv_def alarm_delete_free_def split: option.splits)
qed

text \<open>
  Once the message has been sent, only a \<^verbatim>\<open>select\<close> that had already timed out can still lead to a call,
  and there is no call after that one.
\<close>

definition call_due :: "('d, 's) alarm_sys \<Rightarrow> bool" where
  "call_due s \<longleftrightarrow> (\<exists>isset. as_woken s = Some (0, isset))"

lemma alarm_step_quiet:
  assumes "alarm_step cb s (Inr s')" and inv: "alarm_inv i t0 d s" and own: "as_owner s \<noteq> Owning"
  shows "as_owner s' \<noteq> Owning \<and>
    (as_calls s' = as_calls s \<and> as_user s' = as_user s \<and> (call_due s' \<longrightarrow> call_due s) \<or>
     call_due s \<and> \<not> call_due s' \<and> (\<exists>t. as_calls s' = t # as_calls s))"
  using assms(1)
proof cases
  case (wake rc isset)
  have "rc \<noteq> 0"
    using wake(4) inv own wake(2) by (auto simp: select_returns_def alarm_inv_def split: option.splits if_splits)
      (metis alarm_owner.exhaust)
  then show ?thesis using alarm_select_inv(1) [OF inv wake(2,4)] wake(1) own by (auto simp: call_due_def)
next
  case (act rc isset)
  from inv act(2) show ?thesis
  proof (cases rule: alarm_round_cases [where cb = cb])
    case call
    then show ?thesis using act own by (cases "cb d (as_user s)") (auto simp: call_due_def)
  qed (use own act in \<open>auto simp: call_due_def\<close>)
qed (use own in \<open>auto simp: alarm_delete_free_def call_due_def split: option.splits\<close>)

lemma alarm_reach_quiet:
  assumes "alarm_reach cb s s'" and inv: "alarm_inv i t0 d s" and own: "as_owner s \<noteq> Owning"
  shows "as_owner s' \<noteq> Owning \<and>
    (as_calls s' = as_calls s \<and> as_user s' = as_user s \<and> (call_due s' \<longrightarrow> call_due s) \<or>
     call_due s \<and> \<not> call_due s' \<and> (\<exists>t. as_calls s' = t # as_calls s))"
  using assms(1)
proof induction
  case here
  then show ?case using own by simp
next
  case (step s1 s2)
  from alarm_step_quiet [OF step(2) alarm_reach_inv [OF step(1) inv]] step.IH show ?case by auto
qed

text \<open>A deletion that has begun can always be brought to its end, unless a callback that is due fails.\<close>

definition due_ok :: "('d \<Rightarrow> 's \<Rightarrow> 's res) \<Rightarrow> 'd \<Rightarrow> ('d, 's) alarm_sys \<Rightarrow> bool" where
  "due_ok cb d s \<longleftrightarrow> (call_due s \<longrightarrow> (\<exists>u. cb d (as_user s) = Inr u))"

lemma alarm_acts:
  assumes inv: "alarm_inv i t0 d s" and own: "as_owner s = Joining"
    and due: "due_ok cb d s"
  shows "\<exists>s'. alarm_reach cb s s' \<and> as_woken s' = None \<and> as_owner s' = Joining"
proof (cases "as_woken s")
  case None
  then show ?thesis using own by (auto intro: alarm_reach.here)
next
  case (Some w)
  obtain rc isset where w: "as_woken s = Some (rc, isset)" using Some by force
  note step = alarm_step.act [where cb = cb, OF w]
  from inv w show ?thesis
  proof (cases rule: alarm_round_cases [where cb = cb])
    case error
    then show ?thesis using step own by (auto intro!: exI alarm_reach.step [OF alarm_reach.here])
  next
    case call
    then obtain u where "cb d (as_user s) = Inr u" using due w by (auto simp: due_ok_def call_due_def)
    then show ?thesis using step own call by (auto intro!: exI alarm_reach.step [OF alarm_reach.here])
  next
    case (stop alarm)
    then show ?thesis using step own by (auto intro!: exI alarm_reach.step [OF alarm_reach.here])
  qed
qed

lemma alarm_exits:
  assumes inv: "alarm_inv i t0 d s" and own: "as_owner s = Joining"
    and due: "due_ok cb d s"
  shows "\<exists>s'. alarm_reach cb s s' \<and> as_exited s' \<and> as_owner s' = Joining \<and> as_alarm s' \<noteq> None"
proof -
  from alarm_acts [OF assms] obtain s1 where
    s1: "alarm_reach cb s s1" "as_woken s1 = None" "as_owner s1 = Joining" by blast
  have inv1: "alarm_inv i t0 d s1" by (rule alarm_reach_inv [OF s1(1) inv])
  show ?thesis
  proof (cases "as_exited s1")
    case True
    then show ?thesis using inv1 s1 by (auto simp: alarm_inv_def split: option.splits)
  next
    case False
    let ?s2 = "s1\<lparr>as_woken := Some (1, True)\<rparr>"
    have sel: "select_returns 1 True s1"
      using inv1 s1(3) False by (auto simp: alarm_inv_def select_returns_def split: option.splits)
    have step1: "alarm_step cb s1 (Inr ?s2)"
      using alarm_step.wake [where cb = cb, OF False s1(2) sel] alarm_select_inv(1) [OF inv1 False sel] by simp
    have "as_woken ?s2 = Some (1, True)" by simp
    note step2 = alarm_step.act [where cb = cb, OF this]
    from alarm_select_inv(2) [OF inv1 False sel] \<open>as_woken ?s2 = _\<close> show ?thesis
    proof (cases rule: alarm_round_cases [where cb = cb])
      case (stop alarm)
      then show ?thesis
        using step2 s1(3) alarm_reach.step [OF alarm_reach.step [OF s1(1) step1]] by fastforce
    qed simp_all
  qed
qed

lemma alarm_delete_ends:
  assumes inv: "alarm_inv i t0 d s" and own: "as_owner s = Joining"
    and due: "due_ok cb d s"
  shows "\<exists>s'. alarm_reach cb s s' \<and> as_owner s' = Deleted"
proof -
  from alarm_exits [OF assms] obtain s' where
    s': "alarm_reach cb s s'" "as_exited s'" "as_owner s' = Joining" "as_alarm s' \<noteq> None" by blast
  then have "alarm_step cb s' (Inr (s'\<lparr>as_alarm := None, as_owner := Deleted\<rparr>))"
    using alarm_step.join [of s' cb] by (auto simp: alarm_delete_free_def)
  from alarm_reach.step [OF s'(1) this] show ?thesis by auto
qed

text \<open>C22. An alarm from its creation on (alarm\_simple.c), in every interleaving of its thread with its
  owner, who can also run between the return of \<^verbatim>\<open>select\<close> and the callback: the first call of the callback
  comes at least the interval after the start and the calls
  are at least the interval apart; no step fails, unless the callback itself does, so no assertion
  fails and the thread never touches the freed alarm; once \<^verbatim>\<open>alarm_delete\<close> has sent its message the
  callback is called at most once more, and only when \<^verbatim>\<open>select\<close> had timed out before; when \<^verbatim>\<open>alarm_delete\<close>
  has returned the thread has ended and the callback is never called again; and \<^verbatim>\<open>alarm_delete\<close> can
  always finish, unless a callback that is due fails.
  (There is no upper bound on the distance of the calls: a \<^verbatim>\<open>select\<close> that is interrupted starts its
  whole interval again.)\<close>
theorem alarm_life:
  assumes "alarm_new interval d p c = Inr alarm"
    and "alarm_reach cb (alarm_start alarm t0 u) s"
  shows "spaced (unat interval) (as_calls s @ [t0]) \<and>
    (\<forall>e. alarm_step cb s (Inl e) \<longrightarrow> cb d (as_user s) = Inl e) \<and>
    (\<forall>s'. as_owner s \<noteq> Owning \<and> alarm_reach cb s s' \<longrightarrow>
       as_calls s' = as_calls s \<and> as_user s' = as_user s \<or>
       (\<exists>isset t. as_woken s = Some (0, isset) \<and> as_calls s' = t # as_calls s)) \<and>
    (\<forall>s'. as_owner s = Deleted \<and> alarm_reach cb s s' \<longrightarrow> as_calls s' = as_calls s) \<and>
    (as_owner s = Joining \<and> (\<forall>isset. as_woken s = Some (0, isset) \<longrightarrow> (\<exists>u. cb d (as_user s) = Inr u)) \<longrightarrow>
       (\<exists>s'. alarm_reach cb s s' \<and> as_owner s' = Deleted)) \<and>
    (as_owner s = Deleted \<longrightarrow> as_exited s \<and> as_alarm s = None)"
proof (intro conjI allI impI)
  have inv: "alarm_inv (unat interval) t0 d s"
    using alarm_reach_inv [OF assms(2) alarm_inv_start [OF assms(1)]] .
  then show "spaced (unat interval) (as_calls s @ [t0])" by (simp add: alarm_inv_def)
  show "cb d (as_user s) = Inl e" if "alarm_step cb s (Inl e)" for e
    using alarm_step_error [OF that inv] .
  show "as_calls s' = as_calls s \<and> as_user s' = as_user s \<or>
       (\<exists>isset t. as_woken s = Some (0, isset) \<and> as_calls s' = t # as_calls s)"
    if "as_owner s \<noteq> Owning \<and> alarm_reach cb s s'" for s'
    using alarm_reach_quiet [OF conjunct2 [OF that] inv conjunct1 [OF that]] by (auto simp: call_due_def)
  have gone: "as_exited s" "as_alarm s = None" "\<not> call_due s" if "as_owner s = Deleted"
    using inv that by (auto simp: alarm_inv_def woken_ok_def call_due_def split: option.splits)
  then show "as_calls s' = as_calls s" if "as_owner s = Deleted \<and> alarm_reach cb s s'" for s'
    using alarm_reach_quiet [OF conjunct2 [OF that] inv] that by auto
  show "\<exists>s'. alarm_reach cb s s' \<and> as_owner s' = Deleted"
    if "as_owner s = Joining \<and> (\<forall>isset. as_woken s = Some (0, isset) \<longrightarrow> (\<exists>u. cb d (as_user s) = Inr u))"
    using that by (intro alarm_delete_ends [OF inv]) (auto simp: due_ok_def call_due_def)
  show "as_exited s" "as_alarm s = None" if "as_owner s = Deleted" using gone that by blast+
qed

text \<open>
  An alarm of interval 5 that counts its calls: \<^verbatim>\<open>select\<close> times out at time 5, and the message to stop is
  sent before the callback runs.
\<close>

definition count_cb :: "unit \<Rightarrow> nat \<Rightarrow> nat res" where "count_cb d n = Inr (n + 1)"

definition example_alarm :: "unit alarm_t" where
  "example_alarm = \<lparr>al_interval = 5, al_cb_data = (), al_pipe = []\<rparr>"

definition example_due :: "(unit, nat) alarm_sys" where
  "example_due = \<lparr>as_alarm = Some (example_alarm\<lparr>al_pipe := [alarm_control_codes_STOP]\<rparr>),
     as_exited = False, as_owner = Joining, as_woken = Some (0, False), as_now = 5, as_since = 0,
     as_calls = [], as_user = 0\<rparr>"

definition example_called :: "(unit, nat) alarm_sys" where
  "example_called = example_due\<lparr>as_woken := None, as_since := 5, as_calls := [5], as_user := 1\<rparr>"

lemma example_alarm_new: "alarm_new 5 () 0 0 = Inr example_alarm"
  by (simp add: alarm_new_def example_alarm_def)

lemma example_due_reach: "alarm_reach count_cb (alarm_start example_alarm 0 0) example_due"
proof -
  let ?s0 = "alarm_start example_alarm 0 0 :: (unit, nat) alarm_sys"
  let ?s1 = "?s0\<lparr>as_now := 5\<rparr>"
  let ?s2 = "?s1\<lparr>as_woken := Some (0, False)\<rparr>"
  have "alarm_step count_cb ?s0 (Inr ?s1)"
    using alarm_step.pass [of count_cb ?s0 5] by (simp add: alarm_start_def)
  moreover have "alarm_step count_cb ?s1 (Inr ?s2)"
    using alarm_step.wake [of ?s1 0 False count_cb]
    by (simp add: alarm_start_def select_returns_def alarm_select_def example_alarm_def)
  moreover have "alarm_step count_cb ?s2 (Inr example_due)"
    using alarm_step.send [of ?s2 count_cb]
    by (simp add: alarm_start_def alarm_delete_send_def example_due_def example_alarm_def)
  ultimately show ?thesis by (meson alarm_reach.here alarm_reach.step)
qed

lemma example_called_reach: "alarm_reach count_cb example_due example_called"
proof -
  have "alarm_step count_cb example_due (Inr example_called)"
    using alarm_step.act [of example_due 0 False count_cb]
    by (simp add: alarm_thread_main_def alarm_round_def count_cb_def example_due_def example_alarm_def
        example_called_def)
  then show ?thesis by (meson alarm_reach.here alarm_reach.step)
qed

theorem alarm_life_witness:
  "spaced 5 (as_calls example_called @ [0]) \<and>
   as_woken example_due = Some (0, False) \<and> (\<exists>t. as_calls example_called = t # as_calls example_due) \<and>
   (\<exists>s'. alarm_reach count_cb example_called s' \<and> as_owner s' = Deleted)"
proof -
  have r: "alarm_reach count_cb (alarm_start example_alarm 0 0) example_called"
    by (rule alarm_reach_trans [OF example_called_reach example_due_reach])
  have "as_owner example_called = Joining" "as_woken example_called = None" "as_owner example_due = Joining"
    "as_woken example_due = Some (0, False)" "as_calls example_called \<noteq> as_calls example_due"
    by (simp_all add: example_called_def example_due_def)
  moreover have "spaced 5 (as_calls example_called @ [0])" "\<exists>s'. alarm_reach count_cb example_called s' \<and> as_owner s' = Deleted"
    using alarm_life [OF example_alarm_new r] calculation(1,2) by simp_all
  moreover have "\<exists>t. as_calls example_called = t # as_calls example_due"
    using alarm_life [OF example_alarm_new example_due_reach, THEN conjunct2, THEN conjunct2, THEN conjunct1,
        THEN spec, of example_called] calculation(3,5) example_called_reach by auto
  ultimately show ?thesis by blast
qed

section \<open>indexnodes\_statics\_manager.c\<close>

text \<open>
  The manager is the list of its alarms; the data of an alarm is the configured indexnode it pings
  (the \<^verbatim>\<open>mgr_pin_pair_t\<close>, whose manager is the context of the callback). \<open>sys i\<close> are the results of
  \<^verbatim>\<open>pipe\<close> and \<^verbatim>\<open>pthread_create\<close> for the alarm number \<open>i\<close>.
\<close>

type_synonym indexnodes_statics_manager_t = "proto_indexnode_t alarm_t list"

definition ping_interval :: "int \<Rightarrow> 32 word" where
  "ping_interval timeout = word_of_int (sgn timeout * (\<bar>timeout\<bar> div 2))"

fun load_indexnodes_from_config ::
  "int \<Rightarrow> (nat \<Rightarrow> int \<times> int) \<Rightarrow> nat \<Rightarrow> string list \<Rightarrow> string list \<Rightarrow> indexnodes_statics_manager_t \<Rightarrow>
   indexnodes_statics_manager_t res" where
  "load_indexnodes_from_config timeout sys i (host # hosts) (port # ports) alarms =
     bind_res (proto_indexnode_new (Some host) (Some port)) (\<lambda>pin.
     bind_res (alarm_new (ping_interval timeout) pin (fst (sys i)) (snd (sys i))) (\<lambda>alarm.
     load_indexnodes_from_config timeout sys (i + 1) hosts ports (alarm # alarms)))"
| "load_indexnodes_from_config timeout sys i hosts ports alarms = Inr alarms"

definition indexnodes_statics_manager_new ::
  "int \<Rightarrow> (nat \<Rightarrow> int \<times> int) \<Rightarrow> string list \<Rightarrow> string list \<Rightarrow> indexnodes_statics_manager_t res" where
  "indexnodes_statics_manager_new config_indexnode_timeout sys config_indexnode_hosts
       config_indexnode_ports =
     load_indexnodes_from_config config_indexnode_timeout sys 0 config_indexnode_hosts
       config_indexnode_ports []"

text \<open>The callback of the alarms.\<close>

definition ping_indexnode ::
  "indexnode_info_t curl_perform \<Rightarrow> (string \<Rightarrow> string) \<Rightarrow> char_ptr \<Rightarrow>
   (string \<Rightarrow> string \<Rightarrow> string \<Rightarrow> string \<Rightarrow> 's \<Rightarrow> 's res) \<Rightarrow> proto_indexnode_t \<Rightarrow> 's \<Rightarrow> 's res" where
  "ping_indexnode perform escape config_alias cb pin s =
     bind_res (proto_indexnode_get_info perform escape config_alias pin) (\<lambda>info.
     case info of
       None \<Rightarrow> Inr s
     | Some (protocol, uid) \<Rightarrow> cb (proto_indexnode_host pin) (proto_indexnode_port pin) protocol uid s)"

text \<open>
  Deleting the manager deletes its alarms one after the other: the system of each alarm goes from
  any state before \<^verbatim>\<open>alarm_delete\<close> to one after it.
\<close>

inductive indexnodes_statics_manager_delete ::
  "('d \<Rightarrow> 's \<Rightarrow> 's res) \<Rightarrow> ('d, 's) alarm_sys list \<Rightarrow> ('d, 's) alarm_sys list \<Rightarrow> bool" for cb where
  delete_none: "indexnodes_statics_manager_delete cb [] []"
| delete_first: "as_owner s = Owning \<Longrightarrow> alarm_delete_send s = Inr s1 \<Longrightarrow> alarm_reach cb s1 s2 \<Longrightarrow>
     as_owner s2 = Joining \<Longrightarrow> as_exited s2 \<Longrightarrow> alarm_delete_free s2 = Inr s3 \<Longrightarrow>
     indexnodes_statics_manager_delete cb ss ss' \<Longrightarrow>
     indexnodes_statics_manager_delete cb (s # ss) (s3 # ss')"

lemma load_indexnodes_alarms:
  "load_indexnodes_from_config timeout sys i hosts ports alarms = Inr alarms' \<Longrightarrow>
   alarms' = rev (map (\<lambda>(h, p). \<lparr>al_interval = ping_interval timeout,
     al_cb_data = \<lparr>pin_host = h, pin_port = p\<rparr>, al_pipe = []\<rparr>) (zip hosts ports)) @ alarms"
  by (induction timeout sys i hosts ports alarms rule: load_indexnodes_from_config.induct)
    (auto simp: alarm_new_def proto_indexnode_new_def proto_indexnode_init_def Let_def)

lemma ping_indexnode_silent:
  assumes "curl_delivers perform server" and "ping_indexnode perform escape config_alias cb pin u = Inr u'"
  shows "u' = u"
  using assms(2) get_info_no_answer [OF assms(1), of escape config_alias pin]
  by (auto simp: ping_indexnode_def split: option.splits)

lemma alarm_reach_silent:
  assumes "alarm_reach cb s0 s" and "alarm_inv i t0 d s0" and "\<And>u'. \<And>u. cb d u = Inr u' \<Longrightarrow> u' = u"
  shows "as_user s = as_user s0"
  using assms(1)
proof induction
  case (step s s')
  have inv: "alarm_inv i t0 d s" by (rule alarm_reach_inv [OF step(1) assms(2)])
  from step(2) have "as_user s' = as_user s"
  proof cases
    case (act rc isset)
    from inv act(2) show ?thesis
      by (cases rule: alarm_round_cases [where cb = cb])
        (use act(1) [symmetric] assms(3) in auto)
  qed (auto simp: alarm_select_def alarm_delete_send_def alarm_delete_free_def split: option.splits)
  with step.IH show ?case by simp
qed simp

lemma alarm_delete_all:
  assumes inv: "alarm_inv i t0 d s" and own: "as_owner s = Owning" and cb: "\<exists>u. cb d (as_user s) = Inr u"
  obtains s1 s2 s3 where "alarm_delete_send s = Inr s1" "alarm_reach cb s1 s2" "as_owner s2 = Joining"
    "as_exited s2" "alarm_delete_free s2 = Inr s3" "as_exited s3" "as_alarm s3 = None"
proof -
  from inv own obtain s1 where s1: "alarm_delete_send s = Inr s1" "as_owner s1 = Joining" "as_user s1 = as_user s"
    by (auto simp: alarm_inv_def alarm_delete_send_def split: option.splits)
  have inv1: "alarm_inv i t0 d s1"
    using alarm_step_inv [OF _ inv, of undefined] alarm_step.send [OF own] s1(1) by metis
  have "due_ok cb d s1" using cb s1(3) by (simp add: due_ok_def)
  from alarm_exits [OF inv1 s1(2) this] obtain s2 where
    "alarm_reach cb s1 s2" "as_exited s2" "as_owner s2 = Joining" "as_alarm s2 \<noteq> None" by blast
  with s1 show thesis
    by (intro that [of s1 s2 "s2\<lparr>as_alarm := None, as_owner := Deleted\<rparr>"])
      (auto simp: alarm_delete_free_def)
qed

lemma statics_manager_delete_ends:
  assumes "list_all2 (\<lambda>alarm s. alarm_reach cb (alarm_start alarm t0 u) s \<and> as_owner s = Owning \<and>
       \<not> isl (cb (al_cb_data alarm) (as_user s))) alarms ss"
    and "\<And>alarm. alarm \<in> set alarms \<Longrightarrow> al_pipe alarm = []"
  shows "\<exists>ss'. indexnodes_statics_manager_delete cb ss ss' \<and>
    (\<forall>s \<in> set ss'. as_exited s \<and> as_alarm s = None)"
  using assms
proof (induction rule: list_all2_induct)
  case Nil
  then show ?case by (auto intro!: exI [of _ "[]"] delete_none)
next
  case (Cons alarm alarms s ss)
  then obtain ss' where ss': "indexnodes_statics_manager_delete cb ss ss'"
      "\<forall>s \<in> set ss'. as_exited s \<and> as_alarm s = None" by auto
  have "alarm_inv (unat (al_interval alarm)) t0 (al_cb_data alarm) (alarm_start alarm t0 u)"
    using Cons.prems by (simp add: alarm_inv_def alarm_start_def woken_ok_def)
  from alarm_reach_inv [OF _ this] Cons.hyps(1)
  have "alarm_inv (unat (al_interval alarm)) t0 (al_cb_data alarm) s" "as_owner s = Owning"
    "\<exists>u. cb (al_cb_data alarm) (as_user s) = Inr u" by (auto simp: isl_def) (metis sum.exhaust)
  from alarm_delete_all [where cb = cb, OF this] obtain s1 s2 s3 where
    "alarm_delete_send s = Inr s1" "alarm_reach cb s1 s2" "as_owner s2 = Joining" "as_exited s2"
    "alarm_delete_free s2 = Inr s3" and s3: "as_exited s3" "as_alarm s3 = None" .
  with Cons.hyps(1) ss'(1) have "indexnodes_statics_manager_delete cb (s # ss) (s3 # ss')"
    by (auto intro: delete_first)
  with s3 ss'(2) show ?case by (intro exI [of _ "s3 # ss'"]) simp
qed

text \<open>The statically configured indexnodes (indexnodes\_statics\_manager.c over alarm\_simple.c): the
  manager starts one alarm per configured pair of a host and a port, each with half of the
  timeout, so that a healthy indexnode would be refreshed before it expires; but however long an
  alarm runs and whatever the server answers, the callback for a seen indexnode is never called, so
  a statically configured indexnode is never known. Deleting the manager can always be finished, unless
  a callback aborts, and leaves no thread running.\<close>
theorem static_indexnodes_never_seen:
  assumes "indexnodes_statics_manager_new timeout sys hosts ports = Inr alarms"
    and "curl_delivers perform server"
  shows "map al_cb_data alarms = rev (map (\<lambda>(h, p). \<lparr>pin_host = h, pin_port = p\<rparr>) (zip hosts ports)) \<and>
    (\<forall>alarm \<in> set alarms. al_interval alarm = ping_interval timeout \<and>
       (\<forall>s. alarm_reach (ping_indexnode perform escape config_alias cb) (alarm_start alarm t0 u) s \<longrightarrow>
          as_user s = u)) \<and>
    (\<forall>ss. list_all2 (\<lambda>alarm s. alarm_reach (ping_indexnode perform escape config_alias cb)
         (alarm_start alarm t0 u) s \<and> as_owner s = Owning \<and>
         \<not> isl (ping_indexnode perform escape config_alias cb (al_cb_data alarm) (as_user s))) alarms ss \<longrightarrow>
       (\<exists>ss'. indexnodes_statics_manager_delete (ping_indexnode perform escape config_alias cb) ss ss' \<and>
          (\<forall>s \<in> set ss'. as_exited s \<and> as_alarm s = None)))"
proof -
  let ?cb = "ping_indexnode perform escape config_alias cb"
  have alarms: "alarms = rev (map (\<lambda>(h, p). \<lparr>al_interval = ping_interval timeout,
      al_cb_data = \<lparr>pin_host = h, pin_port = p\<rparr>, al_pipe = []\<rparr>) (zip hosts ports))"
    using load_indexnodes_alarms [of timeout sys 0 hosts ports "[]" alarms] assms(1)
    by (simp add: indexnodes_statics_manager_new_def)
  then have pipe: "al_pipe alarm = []" "al_interval alarm = ping_interval timeout"
    if "alarm \<in> set alarms" for alarm using that by auto
  have silent: "as_user s = u" if "alarm \<in> set alarms" "alarm_reach ?cb (alarm_start alarm t0 u) s" for alarm s
  proof -
    have "alarm_inv (unat (al_interval alarm)) t0 (al_cb_data alarm) (alarm_start alarm t0 u)"
      using pipe [OF that(1)] by (simp add: alarm_inv_def alarm_start_def woken_ok_def)
    from alarm_reach_silent [OF that(2) this ping_indexnode_silent [OF assms(2)]] show ?thesis
      by (simp add: alarm_start_def)
  qed
  have "map al_cb_data alarms = rev (map (\<lambda>(h, p). \<lparr>pin_host = h, pin_port = p\<rparr>) (zip hosts ports))"
    using alarms by (simp add: rev_map case_prod_beta)
  with pipe silent statics_manager_delete_ends [OF _ pipe(1), of ?cb t0 u] show ?thesis by blast
qed

text \<open>A server that answers every request with 404, and one configured host pinged once.\<close>

definition gone_server :: "curl_request \<Rightarrow> response" where
  "gone_server rq = \<lparr>rs_headers = [], rs_body = [], rs_curl = 0, rs_code = 404\<rparr>"

definition example_ping :: "proto_indexnode_t \<Rightarrow> nat \<Rightarrow> nat res" where
  "example_ping = ping_indexnode (curl_for gone_server) id (HeapStr ''me'')
     (\<lambda>host port protocol uid n. Inr (n + 1))"

definition static_alarm :: "proto_indexnode_t alarm_t" where
  "static_alarm = \<lparr>al_interval = 5, al_cb_data = \<lparr>pin_host = ''peer'', pin_port = ''80''\<rparr>, al_pipe = []\<rparr>"

definition pinged :: "(proto_indexnode_t, nat) alarm_sys" where
  "pinged = \<lparr>as_alarm = Some static_alarm, as_exited = False, as_owner = Owning,
     as_woken = None, as_now = 5, as_since = 5, as_calls = [5], as_user = 0\<rparr>"

lemma static_alarm_new:
  "indexnodes_statics_manager_new 10 (\<lambda>_. (0, 0)) [''peer''] [''80''] = Inr [static_alarm]"
  by code_simp

lemma example_ping_gone: "example_ping \<lparr>pin_host = ''peer'', pin_port = ''80''\<rparr> 0 = Inr 0"
  by code_simp

lemma pinged_reach: "alarm_reach example_ping (alarm_start static_alarm 0 0) pinged"
proof -
  let ?s0 = "alarm_start static_alarm 0 0 :: (proto_indexnode_t, nat) alarm_sys"
  let ?s1 = "?s0\<lparr>as_now := 5\<rparr>"
  let ?s2 = "?s1\<lparr>as_woken := Some (0, False)\<rparr>"
  have "alarm_step example_ping ?s0 (Inr ?s1)"
    using alarm_step.pass [of example_ping ?s0 5] by (simp add: alarm_start_def)
  moreover have "alarm_step example_ping ?s1 (Inr ?s2)"
    using alarm_step.wake [of ?s1 0 False example_ping]
    by (simp add: alarm_start_def select_returns_def alarm_select_def static_alarm_def)
  moreover have "alarm_step example_ping ?s2 (Inr pinged)"
    using alarm_step.act [of ?s2 0 False example_ping] example_ping_gone
    by (simp add: alarm_start_def alarm_thread_main_def alarm_round_def pinged_def static_alarm_def)
  ultimately show ?thesis by (meson alarm_reach.here alarm_reach.step)
qed

theorem static_indexnodes_never_seen_witness:
  "as_user pinged = 0 \<and> al_interval static_alarm = ping_interval 10 \<and>
   (\<exists>ss'. indexnodes_statics_manager_delete example_ping [pinged] ss' \<and>
     list_all (\<lambda>s. as_exited s \<and> as_alarm s = None) ss')"
proof -
  note seen = static_indexnodes_never_seen [OF static_alarm_new curl_for_delivers, of gone_server id
    "HeapStr ''me''" "\<lambda>host port protocol uid n. Inr (n + 1)" 0 "0 :: nat", folded example_ping_def]
  have "list_all2 (\<lambda>alarm s. alarm_reach example_ping (alarm_start alarm 0 0) s \<and> as_owner s = Owning \<and>
      \<not> isl (example_ping (al_cb_data alarm) (as_user s))) [static_alarm] [pinged]"
    using pinged_reach example_ping_gone by (simp add: pinged_def static_alarm_def)
  with seen obtain ss' where "indexnodes_statics_manager_delete example_ping [pinged] ss'"
      "\<forall>s \<in> set ss'. as_exited s \<and> as_alarm s = None" by blast
  moreover have "as_user pinged = 0" "al_interval static_alarm = ping_interval 10"
    using seen pinged_reach by auto
  ultimately show ?thesis by (auto simp: list_all_iff)
qed

end
