(* ===== verification/Config.thy ===== *)
theory Config
  imports Utils String_Buffer
begin

text \<open>
  The configuration (\<^verbatim>\<open>src/src/config/\<close>). The items are those of \<^verbatim>\<open>config-config.xml\<close>, from which
  the struct of the values, the table of the loader, the defaults and the readers are generated. A
  struct of values is a map from the symbols of the items: an item whose \<open>present\<close> flag is not set
  has no value. libxml is a parameter: \<open>parse\<close> gives the document of a file, and a document the
  node set of an XPath expression; \<open>strtod\<close> is only needed for items of type float, of which there
  are none.
\<close>

section \<open>config\_internal.h, config-config.xml\<close>

datatype config_item_type_t =
    config_item_type_STRING
  | config_item_type_INTEGER
  | config_item_type_FLOAT
  | config_item_type_STRING_COLLECTION

record config_xml_info_item_t =
  ci_symbol :: string
  ci_type :: config_item_type_t
  ci_xpath :: string

text \<open>An entry of a collection is \<open>None\<close> when its pointer was never set.\<close>

datatype 'f config_value =
    cv_string string
  | cv_int int
  | cv_float 'f
  | cv_strings "string option list"

type_synonym 'f config_data_t = "string \<rightharpoonup> 'f config_value"

definition config_xml_info :: "config_xml_info_item_t list" where
  "config_xml_info = map (\<lambda>(s, t, x). \<lparr>ci_symbol = s, ci_type = t, ci_xpath = x\<rparr>)
    [(''alias'', config_item_type_STRING, ''/config/alias/text()''),
     (''timeout_chunk'', config_item_type_INTEGER, ''/config/timeouts/chunk/text()''),
     (''timeout_cache'', config_item_type_INTEGER, ''/config/timeouts/cache/text()''),
     (''indexnode_autodetect_listen'', config_item_type_INTEGER, ''/config/indexnode/autodetect/listen/text()''),
     (''indexnode_advert_port'', config_item_type_INTEGER, ''/config/indexnode/autodetect/advert_port/text()''),
     (''indexnode_timeout'', config_item_type_INTEGER, ''/config/indexnode/timeout/text()''),
     (''indexnode_hosts'', config_item_type_STRING_COLLECTION, ''/config/indexnode/host/text()''),
     (''indexnode_ports'', config_item_type_STRING_COLLECTION, ''/config/indexnode/port/text()''),
     (''attr_mode_file'', config_item_type_INTEGER, ''/config/node-attrs/mode/file/text()''),
     (''attr_mode_dir'', config_item_type_INTEGER, ''/config/node-attrs/mode/directory/text()''),
     (''attr_id_uid'', config_item_type_INTEGER, ''/config/node-attrs/id/uid/text()''),
     (''attr_id_gid'', config_item_type_INTEGER, ''/config/node-attrs/id/gid/text()''),
     (''proc_debug'', config_item_type_INTEGER, ''/config/process/debug/text()''),
     (''proc_singlethread'', config_item_type_INTEGER, ''/config/process/single-thread/text()''),
     (''proc_fg'', config_item_type_INTEGER, ''/config/process/foreground/text()''),
     (''option_cache'', config_item_type_INTEGER, ''/config/options/cache/text()''),
     (''option_cache_negative'', config_item_type_INTEGER, ''/config/options/cache_negative/text()''),
     (''peers_favourites'', config_item_type_STRING_COLLECTION, ''/config/peers/favourites/favourite/text()''),
     (''peers_blocked'', config_item_type_STRING_COLLECTION, ''/config/peers/blocked/block/text()'')]"

definition config_defaults_get :: "'f config_data_t" where
  "config_defaults_get =
    [''alias'' \<mapsto> cv_string ''[fsfuse]Anonymous'',
     ''timeout_chunk'' \<mapsto> cv_int 5,
     ''timeout_cache'' \<mapsto> cv_int 60,
     ''indexnode_autodetect_listen'' \<mapsto> cv_int 1,
     ''indexnode_advert_port'' \<mapsto> cv_int 42444,
     ''indexnode_timeout'' \<mapsto> cv_int 5,
     ''indexnode_hosts'' \<mapsto> cv_strings [],
     ''indexnode_ports'' \<mapsto> cv_strings [],
     ''attr_mode_file'' \<mapsto> cv_int 292,
     ''attr_mode_dir'' \<mapsto> cv_int 365,
     ''attr_id_uid'' \<mapsto> cv_int (-1),
     ''attr_id_gid'' \<mapsto> cv_int (-1),
     ''proc_debug'' \<mapsto> cv_int 0,
     ''proc_singlethread'' \<mapsto> cv_int 0,
     ''proc_fg'' \<mapsto> cv_int 0,
     ''option_cache'' \<mapsto> cv_int 1,
     ''option_cache_negative'' \<mapsto> cv_int 1,
     ''peers_favourites'' \<mapsto> cv_strings [],
     ''peers_blocked'' \<mapsto> cv_strings []]"

section \<open>config\_loader.c\<close>

text \<open>A node is text or something else; an entry of a node set may be null.\<close>

datatype xml_node = xml_text string | xml_other

type_synonym xml_doc = "string \<Rightarrow> xml_node option list option"

definition xpath_get_array :: "string \<Rightarrow> xml_doc \<Rightarrow> string option list" where
  "xpath_get_array xpath doc =
     (case doc xpath of
        None \<Rightarrow> []
      | Some nodes \<Rightarrow> map (\<lambda>n. case n of Some (xml_text s) \<Rightarrow> Some s | _ \<Rightarrow> None) nodes)"

definition xpath_get :: "string \<Rightarrow> xml_doc \<Rightarrow> string option" where
  "xpath_get xpath doc =
     (case doc xpath of
        Some [Some (xml_text s)] \<Rightarrow> Some s
      | _ \<Rightarrow> None)"

text \<open>\<^verbatim>\<open>strtoul\<close> with base 0, as far as an \<^verbatim>\<open>int\<close> keeps it.\<close>

definition strtoul :: "string \<Rightarrow> int" where
  "strtoul s =
     (let t = dropWhile is_space s;
          neg = (t \<noteq> [] \<and> hd t = CHR ''-'');
          u = (if t \<noteq> [] \<and> (hd t = CHR ''-'' \<or> hd t = CHR ''+'') then tl t else t) in
      case strtol_body 0 u of
        None \<Rightarrow> 0
      | Some (n, r) \<Rightarrow> if n \<ge> 2 ^ 64 then 2 ^ 64 - 1 else if neg then (- int n) mod 2 ^ 64 else int n)"

definition load_item :: "(string \<Rightarrow> 'f) \<Rightarrow> xml_doc \<Rightarrow> config_xml_info_item_t \<Rightarrow> 'f config_data_t \<Rightarrow> 'f config_data_t" where
  "load_item strtod doc item data =
     (case ci_type item of
        config_item_type_STRING \<Rightarrow>
          (case xpath_get (ci_xpath item) doc of
             Some val \<Rightarrow> data(ci_symbol item \<mapsto> cv_string val) | None \<Rightarrow> data)
      | config_item_type_INTEGER \<Rightarrow>
          (case xpath_get (ci_xpath item) doc of
             Some val \<Rightarrow> data(ci_symbol item \<mapsto> cv_int (to_int (strtoul val))) | None \<Rightarrow> data)
      | config_item_type_FLOAT \<Rightarrow>
          (case xpath_get (ci_xpath item) doc of
             Some val \<Rightarrow> data(ci_symbol item \<mapsto> cv_float (strtod val)) | None \<Rightarrow> data)
      | config_item_type_STRING_COLLECTION \<Rightarrow>
          data(ci_symbol item \<mapsto> cv_strings (xpath_get_array (ci_xpath item) doc)))"

definition config_loader_tryread_from_file ::
  "(string \<Rightarrow> xml_doc option) \<Rightarrow> (string \<Rightarrow> 'f) \<Rightarrow> char_ptr \<Rightarrow> 'f config_data_t option res" where
  "config_loader_tryread_from_file parse strtod path =
     (let data = map_option (\<lambda>doc. fold (load_item strtod doc) config_xml_info Map.empty) (parse (deref path)) in
      bind_res (free_const path) (\<lambda>_. Inr data))"

text \<open>
  Freeing the values of a file. The loop ends at an item whose offset in the struct is 0; the address
  of a value is computed with the offset as a number of structs, which lies behind the values. The
  result is what was freed.
\<close>

fun string_collection_free :: "string option list \<Rightarrow> string list" where
  "string_collection_free [] = []"
| "string_collection_free (None # ss) = []"
| "string_collection_free (Some s # ss) = s # string_collection_free ss"

fun items_free :: "(string \<Rightarrow> nat) \<Rightarrow> config_xml_info_item_t list \<Rightarrow> 'f config_data_t \<Rightarrow> string list res" where
  "items_free offset [] data = Inr []"
| "items_free offset (item # items) data =
     (if offset (ci_symbol item) = 0 then Inr []
      else case ci_type item of
        config_item_type_STRING \<Rightarrow> Inl OutOfBounds
      | config_item_type_INTEGER \<Rightarrow> items_free offset items data
      | config_item_type_FLOAT \<Rightarrow> items_free offset items data
      | config_item_type_STRING_COLLECTION \<Rightarrow> Inl OutOfBounds)"

definition config_loader_items_free :: "(string \<Rightarrow> nat) \<Rightarrow> 'f config_data_t \<Rightarrow> string list res" where
  "config_loader_items_free offset data = items_free offset config_xml_info data"

text \<open>The first item is the first member of the struct: nothing is freed.\<close>

lemma items_free_nothing: "offset ''alias'' = 0 \<Longrightarrow> config_loader_items_free offset data = Inr []"
  by (simp add: config_loader_items_free_def config_xml_info_def)

section \<open>config\_reader.c\<close>

record 'f config_reader_t =
  datas :: "'f config_data_t list"

definition config_reader_new :: "'f config_data_t list \<Rightarrow> 'f config_reader_t" where
  "config_reader_new ds = \<lparr>datas = ds\<rparr>"

text \<open>The getter that is generated for an item: the values are searched from the top of the stack.\<close>

fun get_from :: "string \<Rightarrow> 'f config_data_t list \<Rightarrow> 'f config_value res" where
  "get_from key [] = Inl AssertFail"
| "get_from key (d # ds) = (case d key of Some v \<Rightarrow> Inr v | None \<Rightarrow> get_from key ds)"

definition config_get :: "string \<Rightarrow> 'f config_reader_t \<Rightarrow> 'f config_value res" where
  "config_get key reader = get_from key (rev (datas reader))"

section \<open>config\_manager.c\<close>

record 'f config_manager_t =
  data_stack :: "'f config_data_t list"

text \<open>The state of the module is the singleton.\<close>

definition data_push :: "'f config_data_t \<Rightarrow> 'f config_manager_t \<Rightarrow> 'f config_manager_t" where
  "data_push data mgr = mgr\<lparr>data_stack := data_stack mgr @ [data]\<rparr>"

definition config_singleton_get :: "'f config_manager_t option \<Rightarrow> 'f config_manager_t" where
  "config_singleton_get singleton =
     (case singleton of
        None \<Rightarrow> data_push config_defaults_get \<lparr>data_stack = []\<rparr>
      | Some mgr \<Rightarrow> mgr)"

text \<open>
  The strings of all sets of values are freed, those of the last set first; collections and the
  sets themselves are not. The result is what was freed and the new state.
\<close>

definition set_string :: "string \<Rightarrow> 'f config_data_t \<Rightarrow> string list" where
  "set_string key data = (case data key of Some (cv_string s) \<Rightarrow> [s] | _ \<Rightarrow> [])"

definition config_singleton_delete ::
  "'f config_manager_t option \<Rightarrow> (string list \<times> 'f config_manager_t option) res" where
  "config_singleton_delete singleton =
     bind_res (c_assert (singleton \<noteq> None)) (\<lambda>_.
     Inr (concat (map (\<lambda>item.
            if ci_type item = config_item_type_STRING
            then concat (map (set_string (ci_symbol item)) (rev (data_stack (the singleton)))) else [])
          config_xml_info), None))"

definition config_manager_add_from_file ::
  "(string \<Rightarrow> xml_doc option) \<Rightarrow> (string \<Rightarrow> 'f) \<Rightarrow> char_ptr \<Rightarrow> 'f config_manager_t option \<Rightarrow>
   (int \<times> 'f config_manager_t option) res" where
  "config_manager_add_from_file parse strtod path singleton =
     (let mgr = config_singleton_get singleton in
      bind_res (config_loader_tryread_from_file parse strtod path) (\<lambda>data.
      case data of
        Some data \<Rightarrow> Inr (0, Some (data_push data mgr))
      | None \<Rightarrow> Inr (1, Some mgr)))"

definition config_manager_add_from_cmdline ::
  "bool \<Rightarrow> int \<Rightarrow> bool \<Rightarrow> int \<Rightarrow> bool \<Rightarrow> int \<Rightarrow> 'f config_manager_t option \<Rightarrow> 'f config_manager_t option" where
  "config_manager_add_from_cmdline debug_set debug singlethread_set singlethread fg_set fg singleton =
     (let mgr = config_singleton_get singleton;
          data = (\<lambda>key. if key = ''proc_debug'' \<and> debug_set then Some (cv_int debug)
                        else if key = ''proc_singlethread'' \<and> singlethread_set then Some (cv_int singlethread)
                        else if key = ''proc_fg'' \<and> fg_set then Some (cv_int fg)
                        else None) in
      Some (data_push data mgr))"

definition config_get_reader :: "'f config_manager_t option \<Rightarrow> 'f config_reader_t \<times> 'f config_manager_t option" where
  "config_get_reader singleton =
     (let mgr = config_singleton_get singleton in (config_reader_new (data_stack mgr), Some mgr))"

section \<open>What a reader sees\<close>

text \<open>The configuration as one map: each set of values overrides those below it.\<close>

definition effective :: "'f config_manager_t option \<Rightarrow> 'f config_data_t" where
  "effective singleton = foldl (++) Map.empty (data_stack (config_singleton_get singleton))"

lemma get_from_foldl: "get_from key (rev ds) = (case foldl (++) Map.empty ds key of Some v \<Rightarrow> Inr v | None \<Rightarrow> Inl AssertFail)"
  by (induction ds rule: rev_induct) (auto simp: map_add_def split: option.splits)

lemma effective_push:
  "effective (Some (data_push data (config_singleton_get singleton))) = effective singleton ++ data"
  by (simp add: effective_def data_push_def config_singleton_get_def)

lemma effective_new: "effective None = config_defaults_get"
  by (simp add: effective_def config_singleton_get_def data_push_def)

lemma reader_effective:
  "config_get key (fst (config_get_reader singleton)) =
     (case effective singleton key of Some v \<Rightarrow> Inr v | None \<Rightarrow> Inl AssertFail)"
  by (simp add: config_get_def config_get_reader_def config_reader_new_def effective_def get_from_foldl Let_def)

lemma dom_defaults: "dom (config_defaults_get :: 'f config_data_t) = set (map ci_symbol config_xml_info)"
  by (auto simp: config_defaults_get_def config_xml_info_def split: if_splits)

text \<open>What a document says of an item.\<close>

definition doc_value :: "(string \<Rightarrow> 'f) \<Rightarrow> xml_doc \<Rightarrow> config_xml_info_item_t \<Rightarrow> 'f config_value option" where
  "doc_value strtod doc item =
     (case ci_type item of
        config_item_type_STRING \<Rightarrow> map_option cv_string (xpath_get (ci_xpath item) doc)
      | config_item_type_INTEGER \<Rightarrow> map_option (cv_int \<circ> to_int \<circ> strtoul) (xpath_get (ci_xpath item) doc)
      | config_item_type_FLOAT \<Rightarrow> map_option (cv_float \<circ> strtod) (xpath_get (ci_xpath item) doc)
      | config_item_type_STRING_COLLECTION \<Rightarrow> Some (cv_strings (xpath_get_array (ci_xpath item) doc)))"

lemma load_item_value:
  "load_item strtod doc item data =
     (case doc_value strtod doc item of None \<Rightarrow> data | Some v \<Rightarrow> data(ci_symbol item \<mapsto> v))"
  by (auto simp: load_item_def doc_value_def split: config_item_type_t.splits option.splits)

lemma load_items:
  assumes "distinct (map ci_symbol items)"
  shows "fold (load_item strtod doc) items data key =
    (case find (\<lambda>item. ci_symbol item = key) items of
       None \<Rightarrow> data key
     | Some item \<Rightarrow> (case doc_value strtod doc item of None \<Rightarrow> data key | Some v \<Rightarrow> Some v))"
  using assms
proof (induction items arbitrary: data)
  case (Cons item items)
  have "find (\<lambda>it. ci_symbol it = ci_symbol item) items = None"
    using Cons.prems by (auto simp: find_None_iff image_iff)
  then show ?case
    using Cons by (auto simp: load_item_value split: option.splits)
qed simp

lemma find_symbol:
  "distinct (map ci_symbol items) \<Longrightarrow> item \<in> set items \<Longrightarrow> find (\<lambda>it. ci_symbol it = ci_symbol item) items = Some item"
  by (induction items) auto

lemma distinct_symbols: "distinct (map ci_symbol config_xml_info)"
  by (simp add: config_xml_info_def)

datatype config_source =
    from_file string
  | from_cmdline bool int bool int bool int

fun add_source ::
  "(string \<Rightarrow> xml_doc option) \<Rightarrow> (string \<Rightarrow> 'f) \<Rightarrow> config_source \<Rightarrow> 'f config_manager_t option \<Rightarrow>
   'f config_manager_t option res" where
  "add_source parse strtod (from_file path) singleton =
     bind_res (config_manager_add_from_file parse strtod (HeapStr path) singleton) (\<lambda>(rc, s). Inr s)"
| "add_source parse strtod (from_cmdline ds d ss s fs f) singleton =
     Inr (config_manager_add_from_cmdline ds d ss s fs f singleton)"

text \<open>What a source says of an item.\<close>

fun source_value ::
  "(string \<Rightarrow> xml_doc option) \<Rightarrow> (string \<Rightarrow> 'f) \<Rightarrow> config_source \<Rightarrow> config_xml_info_item_t \<Rightarrow> 'f config_value option" where
  "source_value parse strtod (from_file path) item =
     (case parse path of None \<Rightarrow> None | Some doc \<Rightarrow> doc_value strtod doc item)"
| "source_value parse strtod (from_cmdline ds d ss s fs f) item =
     (if ci_symbol item = ''proc_debug'' \<and> ds then Some (cv_int d)
      else if ci_symbol item = ''proc_singlethread'' \<and> ss then Some (cv_int s)
      else if ci_symbol item = ''proc_fg'' \<and> fs then Some (cv_int f)
      else None)"

lemma add_source_effective:
  "\<exists>s'. add_source parse strtod src s = Inr s' \<and> (\<forall>item \<in> set config_xml_info.
     effective s' (ci_symbol item) = (case source_value parse strtod src item of
        None \<Rightarrow> effective s (ci_symbol item) | Some v \<Rightarrow> Some v))"
proof (cases src)
  case (from_file path)
  show ?thesis
  proof (cases "parse path")
    case None
    then show ?thesis
      using from_file by (simp add: config_manager_add_from_file_def config_loader_tryread_from_file_def
        effective_def config_singleton_get_def Let_def)
  next
    case (Some doc)
    let ?data = "fold (load_item strtod doc) config_xml_info Map.empty"
    have "add_source parse strtod src s = Inr (Some (data_push ?data (config_singleton_get s)))"
      using from_file Some
      by (simp add: config_manager_add_from_file_def config_loader_tryread_from_file_def Let_def)
    moreover have "?data (ci_symbol item) = source_value parse strtod src item" if "item \<in> set config_xml_info" for item
      using from_file Some load_items [OF distinct_symbols, of strtod doc Map.empty] find_symbol [OF distinct_symbols that]
      by (auto split: option.splits)
    ultimately show ?thesis by (simp add: effective_push map_add_def split: option.splits)
  qed
next
  case (from_cmdline ds d ss t fs f)
  then show ?thesis
    by (simp add: config_manager_add_from_cmdline_def Let_def effective_push map_add_def)
qed



text \<open>The type of the values of an item.\<close>

fun has_type :: "config_item_type_t \<Rightarrow> 'f config_value \<Rightarrow> bool" where
  "has_type config_item_type_STRING (cv_string s) \<longleftrightarrow> True"
| "has_type config_item_type_INTEGER (cv_int i) \<longleftrightarrow> - (2 ^ 31) \<le> i \<and> i < 2 ^ 31"
| "has_type config_item_type_FLOAT (cv_float f) \<longleftrightarrow> True"
| "has_type config_item_type_STRING_COLLECTION (cv_strings ss) \<longleftrightarrow> True"
| "has_type t v \<longleftrightarrow> False"

text \<open>The numbers of a command line are of type \<^verbatim>\<open>int\<close>.\<close>

fun source_typed :: "config_source \<Rightarrow> bool" where
  "source_typed (from_file path) \<longleftrightarrow> True"
| "source_typed (from_cmdline ds d ss s fs f) \<longleftrightarrow> (\<forall>i \<in> {d, s, f}. - (2 ^ 31) \<le> i \<and> i < 2 ^ 31)"

definition well_typed :: "'f config_data_t \<Rightarrow> bool" where
  "well_typed data \<longleftrightarrow>
     (\<forall>item \<in> set config_xml_info. \<forall>v. data (ci_symbol item) = Some v \<longrightarrow> has_type (ci_type item) v)"

lemma defaults_typed: "well_typed config_defaults_get"
  by (simp add: well_typed_def config_xml_info_def config_defaults_get_def)

lemma to_int_range: "- (2 ^ 31) \<le> to_int n" "to_int n < 2 ^ 31"
  using sint_ge [of "word_of_int n :: 32 word"] sint_lt [of "word_of_int n :: 32 word"] unfolding to_int_def by simp_all

lemma doc_value_typed: "doc_value strtod doc item = Some v \<Longrightarrow> has_type (ci_type item) v"
  by (auto simp: doc_value_def to_int_range [simplified] split: config_item_type_t.splits)

lemma info_cmdline_types:
  "item \<in> set config_xml_info \<Longrightarrow> ci_symbol item \<in> {''proc_debug'', ''proc_singlethread'', ''proc_fg''} \<Longrightarrow>
   ci_type item = config_item_type_INTEGER"
  by (auto simp: config_xml_info_def)

lemma source_value_typed:
  "source_typed src \<Longrightarrow> item \<in> set config_xml_info \<Longrightarrow> source_value parse strtod src item = Some v \<Longrightarrow>
   has_type (ci_type item) v"
  using info_cmdline_types [of item]
  by (cases src) (auto split: option.splits if_splits dest: doc_value_typed)

lemma add_source_typed:
  assumes "add_source parse strtod src s = Inr s'" "source_typed src" "well_typed (effective s)"
  shows "well_typed (effective s')"
  using add_source_effective [of parse strtod src s] source_value_typed [OF assms(2)] assms(1,3)
  by (auto simp: well_typed_def split: option.splits)



text \<open>Collections do not stack (config\_loader.c, \<^verbatim>\<open>xpath_get_array\<close>): a configuration file that can be
  parsed sets every collection, also one that it does not mention: the hosts and ports of the
  indexnodes and the favourite and blocked peers of all earlier files are then lost, although
  later files are meant to override only what they set.\<close>
theorem config_collections_hidden:
  assumes "item \<in> set config_xml_info" "ci_type item = config_item_type_STRING_COLLECTION"
    and "parse path = Some doc" "doc (ci_xpath item) = None \<or> doc (ci_xpath item) = Some []"
  shows "\<exists>s. fold_res (add_source parse strtod) (srcs @ [from_file path]) None = Inr s \<and>
    config_get (ci_symbol item) (fst (config_get_reader s)) = Inr (cv_strings [])"
proof -
  have ex: "\<exists>s. fold_res (add_source parse strtod) srcs None = Inr s"
  proof (induction srcs rule: rev_induct)
    case (snoc src srcs)
    then show ?case using add_source_effective [of parse strtod src] by (fastforce simp: fold_res_append)
  qed simp
  then obtain s where s: "fold_res (add_source parse strtod) srcs None = Inr s" by blast
  have "source_value parse strtod (from_file path) item = Some (cv_strings [])"
    using assms(2-4) by (auto simp: doc_value_def xpath_get_array_def)
  with add_source_effective [of parse strtod "from_file path" s] assms(1) obtain s' where
    "add_source parse strtod (from_file path) s = Inr s'" "effective s' (ci_symbol item) = Some (cv_strings [])"
    by auto
  with s show ?thesis by (auto simp: fold_res_append reader_effective)
qed

theorem config_collections_hidden_witness:
  "\<exists>s. fold_res (add_source (\<lambda>path. Some (\<lambda>x. if path = ''a'' then Some [Some (xml_text ''host'')] else None)) (\<lambda>_. ()))
      ([from_file ''a''] @ [from_file ''b'']) None = Inr s \<and>
    config_get ''indexnode_hosts'' (fst (config_get_reader s)) = Inr (cv_strings [])"
proof -
  let ?item = "\<lparr>ci_symbol = ''indexnode_hosts'', ci_type = config_item_type_STRING_COLLECTION,
      ci_xpath = ''/config/indexnode/host/text()''\<rparr>"
  have "?item \<in> set config_xml_info" by (simp add: config_xml_info_def)
  then show ?thesis
    using config_collections_hidden [of ?item
      "\<lambda>path. Some (\<lambda>x. if path = ''a'' then Some [Some (xml_text ''host'')] else None)" "''b''" "\<lambda>x. None"
      "\<lambda>_. ()" "[from_file ''a'']"] by simp
qed

end
