(* ===== verification/Program.thy ===== *)
theory Program
  imports Config Trace Nativefs
begin

text \<open>
  The program's entry point (\<^verbatim>\<open>src/src/fsfuse.c\<close>) and the locale check (\<^verbatim>\<open>localei.c\<close>). The
  environment of the process is a record: the versions of libfuse, the files libxml can parse, the
  options as the two passes of \<^verbatim>\<open>getopt_long\<close> return them with their arguments, the operands behind them,
  \<^verbatim>\<open>realpath\<close>, the results of the initialisers and of libfuse. What the program does with libfuse is
  logged. \<^verbatim>\<open>trace_error\<close> ends the process, so what stands behind a call of it is not reached.
\<close>

section \<open>localei.c\<close>

text \<open>The result is the exit code when the process is ended, or the return code.\<close>

definition locale_init :: "bool \<Rightarrow> string \<Rightarrow> trace_t \<Rightarrow> (int + int) \<times> trace_t" where
  "locale_init locale_set codeset st =
     (if \<not> locale_set
      then (Inr 1, trace_warn ''Can't set the specified locale! Check LANG, LC_CTYPE, LC_ALL.'' st)
      else let rc = (codeset \<noteq> ''UTF-8'' \<and> codeset \<noteq> ''ANSI_X3.4-1968'') in
        if rc then (let (code, st) = trace_error (''Encoding '' @ codeset @ '' unsupported!'') st in (Inl code, st))
        else (Inr 0, st))"

definition locale_finalise :: "trace_t \<Rightarrow> trace_t" where "locale_finalise st = st"

section \<open>fsfuse.c\<close>

datatype start_action_t = start_action_MOUNT | start_action_VERSION | start_action_USAGE

record mountpoint_t =
  mp_real :: "string option"
  mp_raw :: "string option"
  mp_error :: "string option"

datatype fuse_call =
    call_mount string "string list"
  | call_lowlevel_new
  | call_daemonize int
  | call_session_loop
  | call_session_loop_mt
  | call_unmount string

record 'f process =
  pr_name :: string
  pr_fuse_version :: nat
  pr_fuse_use_version :: nat
  pr_parse :: "string \<Rightarrow> xml_doc option"
  pr_strtod :: "string \<Rightarrow> 'f"
  pr_config_options :: "(char \<times> string) list"
  pr_options :: "(char \<times> string) list"
  pr_operands :: "string list"
  pr_realpath :: "string \<Rightarrow> string option"
  pr_strerror :: "string \<Rightarrow> string"
  pr_self :: nat
  pr_trace :: trace_t
  pr_fopen_ok :: bool
  pr_key_create :: int
  pr_key_delete :: int
  pr_locale_set :: bool
  pr_codeset :: string
  pr_root :: addr
  pr_fuse_mount :: bool
  pr_fuse_lowlevel_new :: bool
  pr_session_rc :: int

definition EXIT_FAILURE :: int where "EXIT_FAILURE = 1"

fun settings_tryget_config_file :: "(char \<times> string) list \<Rightarrow> string option res" where
  "settings_tryget_config_file [] = Inr None"
| "settings_tryget_config_file ((c, optarg) # opts) =
     (if c = CHR ''c'' then Inr (Some optarg)
      else if c = CHR ''?'' then settings_tryget_config_file opts
      else Inl AssertFail)"

record cmdline =
  cl_action :: start_action_t
  cl_debug_set :: bool
  cl_debug :: int
  cl_fg_set :: bool
  cl_fg :: int
  cl_singlethread_set :: bool
  cl_singlethread :: int

text \<open>One option; \<^verbatim>\<open>d\<close> falls through to \<^verbatim>\<open>f\<close>. The areas of \<^verbatim>\<open>-t\<close> only affect debug output.\<close>

definition parse_option :: "char \<times> string \<Rightarrow> cmdline \<Rightarrow> cmdline res" where
  "parse_option = (\<lambda>(c, optarg) l.
     if c = CHR ''c'' then Inr l
     else if c = CHR ''d'' then Inr (l\<lparr>cl_debug := 1, cl_debug_set := True, cl_fg := 1, cl_fg_set := True\<rparr>)
     else if c = CHR ''f'' then Inr (l\<lparr>cl_fg := 1, cl_fg_set := True\<rparr>)
     else if c = CHR ''s'' then Inr (l\<lparr>cl_singlethread := 1, cl_singlethread_set := True\<rparr>)
     else if c = CHR ''t'' then Inr l
     else if c = CHR ''v'' then Inr (l\<lparr>cl_action := start_action_VERSION\<rparr>)
     else if c = CHR ''h'' \<or> c = CHR ''?'' then Inr (l\<lparr>cl_action := start_action_USAGE\<rparr>)
     else if c = CHR ''o'' then Inr l
     else Inl AssertFail)"

text \<open>The values start indeterminate (zero here); they are only read when their flag is set.\<close>

definition settings_parse_command_line ::
  "'f process \<Rightarrow> 'f config_manager_t option \<Rightarrow>
   (start_action_t \<times> mountpoint_t \<times> 'f config_manager_t option) res" where
  "settings_parse_command_line pr singleton =
     bind_res (fold_res parse_option (pr_options pr)
       \<lparr>cl_action = start_action_MOUNT, cl_debug_set = False, cl_debug = 0, cl_fg_set = False, cl_fg = 0,
        cl_singlethread_set = False, cl_singlethread = 0\<rparr>) (\<lambda>l.
     let singleton = config_manager_add_from_cmdline (cl_debug_set l) (cl_debug l) (cl_fg_set l) (cl_fg l)
           (cl_singlethread_set l) (cl_singlethread l) singleton;
         none = \<lparr>mp_real = None, mp_raw = None, mp_error = None\<rparr>;
         mp = (case pr_operands pr of
                 _ # arg # _ \<Rightarrow> \<lparr>mp_real = pr_realpath pr arg, mp_raw = Some arg,
                    mp_error = (if pr_realpath pr arg = None then Some (pr_strerror pr arg) else None)\<rparr>
               | _ \<Rightarrow> none) in
     Inr (cl_action l, mp, singleton))"

text \<open>The getter of an item of type integer.\<close>

definition config_get_int :: "string \<Rightarrow> 'f config_reader_t \<Rightarrow> int res" where
  "config_get_int key config =
     bind_res (config_get key config) (\<lambda>v. case v of cv_int n \<Rightarrow> Inr n | _ \<Rightarrow> Inl Uninitialised)"

text \<open>An argument is formatted in the buffer and \<^verbatim>\<open>fuse_opt_add_arg\<close> copies it.\<close>

definition add_arg :: "string \<Rightarrow> string_buffer_t \<times> string list \<Rightarrow> (string_buffer_t \<times> string list) res" where
  "add_arg arg = (\<lambda>(my_arg, args).
     bind_res (string_buffer_printf my_arg arg) (\<lambda>my_arg.
     bind_res (string_buffer_peek my_arg) (\<lambda>s. Inr (my_arg, args @ [s]))))"

definition FSFUSE_NAME :: string where "FSFUSE_NAME = ''fsfuse''"
definition FSFUSE_VERSION :: string where "FSFUSE_VERSION = ''0.5.0''"

definition fuse_args_set :: "string \<Rightarrow> 'f config_reader_t \<Rightarrow> string list res" where
  "fuse_args_set progname config =
     bind_res string_buffer_new (\<lambda>my_arg.
     bind_res (config_get_int ''proc_debug'' config) (\<lambda>debug.
     bind_res (if debug \<noteq> 0 then add_arg ''-d'' (my_arg, [progname]) else Inr (my_arg, [progname])) (\<lambda>s.
     bind_res (add_arg (''-ofsname='' @ FSFUSE_NAME) s) (\<lambda>s.
     bind_res (add_arg (''-osubtype='' @ FSFUSE_NAME @ ''-'' @ FSFUSE_VERSION) s) (\<lambda>s.
     bind_res (add_arg ''-oallow_other'' s) (\<lambda>s.
     bind_res (add_arg ''-oro'' s) (\<lambda>(my_arg, args). Inr args)))))))"

text \<open>\<^verbatim>\<open>my_fuse_main\<close> is only called with a mount point that exists.\<close>

definition my_fuse_main ::
  "'f process \<Rightarrow> string \<Rightarrow> 'f config_manager_t option \<Rightarrow> (int \<times> fuse_call list \<times> 'f config_manager_t option) res" where
  "my_fuse_main pr real singleton =
     (let (config, singleton) = config_get_reader singleton in
      bind_res (fuse_args_set (pr_name pr) config) (\<lambda>args.
      if \<not> pr_fuse_mount pr then Inr (EXIT_FAILURE, [call_mount real args], singleton)
      else if \<not> pr_fuse_lowlevel_new pr then Inr (EXIT_FAILURE, [call_mount real args, call_lowlevel_new], singleton)
      else bind_res (config_get_int ''proc_fg'' config) (\<lambda>fg.
           bind_res (config_get_int ''proc_singlethread'' config) (\<lambda>st.
           Inr (pr_session_rc pr,
             [call_mount real args, call_lowlevel_new, call_daemonize fg,
              if st \<noteq> 0 then call_session_loop else call_session_loop_mt, call_unmount real], singleton)))))"

definition fetcher_init :: int where "fetcher_init = 0"

text \<open>The static data of the native file system before it is initialised.\<close>

definition fs_static :: nativefs_t where
  "fs_static = \<lparr>fs_des = Map.empty, fs_lis = Map.empty, fs_ins = Map.empty, s_inode_map = [],
     s_inode_map_size = 0, s_inode_map_used = 0, s_inode_next = 2\<rparr>"

text \<open>
  The initialisers, up to the first that fails: the exit code when one of them ends the process, or
  \<open>None\<close> when one has failed, or the file system; and the state of the streams. \<^verbatim>\<open>direntry_init\<close>, which
  allocates the root, always returns 0.
\<close>

definition inits :: "'f process \<Rightarrow> ((int + nativefs_t option) \<times> trace_t) res" where
  "inits pr =
     (let (trace_rc, st) = trace_init (pr_fopen_ok pr) (pr_trace pr) in
      if trace_rc \<noteq> 0 \<or> pr_key_create pr \<noteq> 0 then Inr (Inr None, st)
      else case locale_init (pr_locale_set pr) (pr_codeset pr) st of
          (Inl code, st) \<Rightarrow> Inr (Inl code, st)
        | (Inr locale_rc, st) \<Rightarrow>
            if locale_rc \<noteq> 0 \<or> fetcher_init \<noteq> 0 then Inr (Inr None, st)
            else bind_res (direntry_init (pr_root pr) fs_static) (\<lambda>fs. Inr (Inr (Some fs), st)))"

definition finalise :: "'f process \<Rightarrow> nativefs_t \<Rightarrow> trace_t \<Rightarrow> trace_t res" where
  "finalise pr fs st =
     bind_res (direntry_finalise fs) (\<lambda>fs.
     bind_res (utils_finalise (pr_self pr) (pr_key_delete pr) (tr_indices (locale_finalise st))) (\<lambda>indices.
     trace_finalise (st\<lparr>tr_indices := indices\<rparr>)))"

text \<open>The label \<^verbatim>\<open>pre_init_bail\<close>: the configuration is deleted on every way out.\<close>

definition pre_init_bail :: "int \<Rightarrow> fuse_call list \<Rightarrow> 'f config_manager_t option \<Rightarrow> (int \<times> fuse_call list) res" where
  "pre_init_bail rc fcalls singleton = bind_res (config_singleton_delete singleton) (\<lambda>_. Inr (rc, fcalls))"

definition load_config :: "'f process \<Rightarrow> string \<Rightarrow> 'f config_manager_t option \<Rightarrow> 'f config_manager_t option res" where
  "load_config pr path singleton =
     bind_res (config_manager_add_from_file (pr_parse pr) (pr_strtod pr) (HeapStr path) singleton) (\<lambda>(rc, s). Inr s)"

text \<open>The configuration files, the file named on the command line, and the command line itself.\<close>

definition settings ::
  "'f process \<Rightarrow> (start_action_t \<times> mountpoint_t \<times> 'f config_manager_t option) res" where
  "settings pr =
     bind_res (fold_res (load_config pr) [''/etc/fsfuserc'', ''~/.fsfuserc'', ''./fsfuserc''] None) (\<lambda>s.
     bind_res (settings_tryget_config_file (pr_config_options pr)) (\<lambda>config_file.
     bind_res (case config_file of None \<Rightarrow> Inr s | Some path \<Rightarrow> load_config pr path s) (\<lambda>s.
     settings_parse_command_line pr s)))"

definition fsfuse_main :: "'f process \<Rightarrow> (int \<times> fuse_call list) res" where
  "fsfuse_main pr =
     (if pr_fuse_version pr < pr_fuse_use_version pr then pre_init_bail EXIT_FAILURE [] (None :: 'f config_manager_t option)
      else bind_res (settings pr) (\<lambda>(sa, mp, s).
        case sa of
          start_action_VERSION \<Rightarrow> pre_init_bail EXIT_FAILURE [] s
        | start_action_USAGE \<Rightarrow> pre_init_bail EXIT_FAILURE [] s
        | start_action_MOUNT \<Rightarrow>
            (case mp_real mp of
               None \<Rightarrow> Inr (fst (trace_error ''bad or missing mount point'' (pr_trace pr)), [])
             | Some real \<Rightarrow>
                 bind_res (inits pr) (\<lambda>(r, st).
                 case r of
                   Inl code \<Rightarrow> Inr (code, [])
                 | Inr None \<Rightarrow> Inr (fst (trace_error ''initialisation failed'' st), [])
                 | Inr (Some fs) \<Rightarrow>
                     bind_res (my_fuse_main pr real s) (\<lambda>(rc, fcalls, s).
                     bind_res (finalise pr fs st) (\<lambda>_. pre_init_bail rc fcalls s))))))"

section \<open>Arguments for libfuse\<close>

lemma add_arg_holds:
  assumes "sb_holds my_arg t" "nul_free arg"
  shows "\<exists>my_arg'. add_arg arg (my_arg, args) = Inr (my_arg', args @ [arg]) \<and> sb_holds my_arg' arg"
proof -
  from sb_printf_holds [OF assms] obtain b where "string_buffer_printf my_arg arg = Inr b" "sb_holds b arg" by blast
  then show ?thesis using sb_peek_holds [of b arg] by (simp add: add_arg_def)
qed

definition mount_args :: "string \<Rightarrow> int \<Rightarrow> string list" where
  "mount_args progname debug = [progname] @ (if debug \<noteq> 0 then [''-d''] else []) @
     [''-ofsname=fsfuse'', ''-osubtype=fsfuse-0.5.0'', ''-oallow_other'', ''-oro'']"

lemma fuse_args_set_ok:
  assumes "config_get_int ''proc_debug'' config = Inr debug"
  shows "fuse_args_set progname config = Inr (mount_args progname debug)"
proof -
  obtain b where b: "string_buffer_new = Inr b" "sb_holds b ''''" using sb_new_holds by blast
  obtain b0 t where b0: "(if debug \<noteq> 0 then add_arg ''-d'' (b, [progname]) else Inr (b, [progname])) =
      Inr (b0, [progname] @ (if debug \<noteq> 0 then [''-d''] else []))" "sb_holds b0 t"
    using add_arg_holds [OF b(2), of "''-d''" "[progname]"] b(2) by (cases "debug = 0") auto
  have all: "\<exists>b'. fold_res add_arg xs (b, args) = Inr (b', args @ xs)"
    if "sb_holds b t" "\<forall>x \<in> set xs. nul_free x" for b t xs args
    using that
  proof (induction xs arbitrary: b t args)
    case (Cons x xs)
    from add_arg_holds [OF Cons.prems(1), of x args] Cons.prems(2) obtain b1 where
      "add_arg x (b, args) = Inr (b1, args @ [x])" "sb_holds b1 x" by auto
    then show ?case using Cons.IH [of b1 x "args @ [x]"] Cons.prems(2) by simp
  qed simp
  let ?xs = "[''-ofsname='' @ FSFUSE_NAME, ''-osubtype='' @ FSFUSE_NAME @ ''-'' @ FSFUSE_VERSION, ''-oallow_other'', ''-oro'']"
  from all [OF b0(2), of ?xs "[progname] @ (if debug \<noteq> 0 then [''-d''] else [])"] obtain b' where
    "fold_res add_arg ?xs (b0, [progname] @ (if debug \<noteq> 0 then [''-d''] else [])) =
      Inr (b', ([progname] @ (if debug \<noteq> 0 then [''-d''] else [])) @ ?xs)"
    by (auto simp: FSFUSE_NAME_def FSFUSE_VERSION_def)
  then show ?thesis
    unfolding fuse_args_set_def b(1) using assms b0(1)
    by (auto simp: mount_args_def FSFUSE_NAME_def FSFUSE_VERSION_def)
qed

section \<open>The command line\<close>

fun has_option :: "char \<Rightarrow> (char \<times> string) list \<Rightarrow> bool" where
  "has_option c [] = False"
| "has_option c ((d, a) # opts) = (d = c \<or> has_option c opts)"

definition options_ok :: "(char \<times> string) list \<Rightarrow> bool" where
  "options_ok opts \<longleftrightarrow> (\<forall>(c, a) \<in> set opts.
     c = CHR ''c'' \<or> c = CHR ''d'' \<or> c = CHR ''f'' \<or> c = CHR ''s'' \<or> c = CHR ''t'' \<or> c = CHR ''o'')"

lemma parse_option_simps:
  "parse_option (CHR ''c'', a) l = Inr l"
  "parse_option (CHR ''d'', a) l = Inr (l\<lparr>cl_debug := 1, cl_debug_set := True, cl_fg := 1, cl_fg_set := True\<rparr>)"
  "parse_option (CHR ''f'', a) l = Inr (l\<lparr>cl_fg := 1, cl_fg_set := True\<rparr>)"
  "parse_option (CHR ''s'', a) l = Inr (l\<lparr>cl_singlethread := 1, cl_singlethread_set := True\<rparr>)"
  "parse_option (CHR ''t'', a) l = Inr l"
  "parse_option (CHR ''o'', a) l = Inr l"
  by (simp_all add: parse_option_def)

lemma parse_options:
  assumes "options_ok opts"
  shows "fold_res parse_option opts l = Inr (l\<lparr>
      cl_debug_set := cl_debug_set l \<or> has_option CHR ''d'' opts,
      cl_debug := if has_option CHR ''d'' opts then 1 else cl_debug l,
      cl_fg_set := cl_fg_set l \<or> has_option CHR ''d'' opts \<or> has_option CHR ''f'' opts,
      cl_fg := if has_option CHR ''d'' opts \<or> has_option CHR ''f'' opts then 1 else cl_fg l,
      cl_singlethread_set := cl_singlethread_set l \<or> has_option CHR ''s'' opts,
      cl_singlethread := if has_option CHR ''s'' opts then 1 else cl_singlethread l\<rparr>)"
  using assms
proof (induction opts arbitrary: l)
  case (Cons opt opts)
  obtain c a where opt: "opt = (c, a)" by force
  have "options_ok opts" using Cons.prems by (simp add: options_ok_def)
  note ih = Cons.IH [OF this]
  from Cons.prems consider "c = CHR ''c''" | "c = CHR ''d''" | "c = CHR ''f''" | "c = CHR ''s''" | "c = CHR ''t''" | "c = CHR ''o''"
    by (auto simp: opt options_ok_def)
  then show ?case by cases (simp_all add: opt parse_option_simps ih)
qed simp

text \<open>The configuration that is read says nothing of how the process is to run.\<close>

definition silent :: "'f process \<Rightarrow> bool" where
  "silent pr \<longleftrightarrow> (\<forall>path. \<forall>item \<in> set config_xml_info.
     ci_symbol item \<in> {''proc_debug'', ''proc_singlethread'', ''proc_fg''} \<longrightarrow>
     source_value (pr_parse pr) (pr_strtod pr) (from_file path) item = None)"

definition proc_items :: "'f config_manager_t option \<Rightarrow> int \<Rightarrow> int \<Rightarrow> int \<Rightarrow> bool" where
  "proc_items s debug st fg \<longleftrightarrow> effective s ''proc_debug'' = Some (cv_int debug) \<and>
     effective s ''proc_singlethread'' = Some (cv_int st) \<and> effective s ''proc_fg'' = Some (cv_int fg)"

lemma proc_items_default: "proc_items None 0 0 0"
  by (simp add: proc_items_def effective_new config_defaults_get_def)

lemma load_config_silent:
  assumes "silent pr" "proc_items s debug st fg"
  shows "\<exists>s'. load_config pr path s = Inr s' \<and> proc_items s' debug st fg"
proof -
  from add_source_effective [of "pr_parse pr" "pr_strtod pr" "from_file path" s] obtain s' where
    s': "load_config pr path s = Inr s'" "\<forall>item \<in> set config_xml_info.
     effective s' (ci_symbol item) = (case source_value (pr_parse pr) (pr_strtod pr) (from_file path) item of
        None \<Rightarrow> effective s (ci_symbol item) | Some v \<Rightarrow> Some v)" by (auto simp: load_config_def)
  have "effective s' key = effective s key" if "key \<in> {''proc_debug'', ''proc_singlethread'', ''proc_fg''}" for key
  proof -
    have "\<exists>item \<in> set config_xml_info. ci_symbol item = key"
      using that by (auto simp: config_xml_info_def)
    then show ?thesis using s'(2) assms(1) that unfolding silent_def by fastforce
  qed
  then show ?thesis using s'(1) assms(2) by (auto simp: proc_items_def)
qed

lemma load_configs_silent:
  "silent pr \<Longrightarrow> proc_items s debug st fg \<Longrightarrow>
   \<exists>s'. fold_res (load_config pr) paths s = Inr s' \<and> proc_items s' debug st fg"
proof (induction paths arbitrary: s)
  case (Cons p paths)
  from load_config_silent [OF Cons.prems] obtain s1 where "load_config pr p s = Inr s1" "proc_items s1 debug st fg" by blast
  then show ?case using Cons.IH [of s1] Cons.prems(1) by auto
qed auto

lemma get_int_proc:
  assumes "proc_items s debug st fg"
  shows "config_get_int ''proc_debug'' (fst (config_get_reader s)) = Inr debug"
    "config_get_int ''proc_singlethread'' (fst (config_get_reader s)) = Inr st"
    "config_get_int ''proc_fg'' (fst (config_get_reader s)) = Inr fg"
  using assms by (simp_all add: config_get_int_def reader_effective proc_items_def)

lemma cmdline_proc_items:
  assumes "proc_items s 0 0 0" "\<not> ds \<longrightarrow> d = 0" "\<not> ss \<longrightarrow> st = 0" "\<not> fs \<longrightarrow> fg = 0"
  shows "proc_items (config_manager_add_from_cmdline ds d ss st fs fg s) d st fg"
  using assms
  by (simp add: proc_items_def config_manager_add_from_cmdline_def Let_def effective_push map_add_def)

section \<open>Starting\<close>

text \<open>Everything outside the program is in order.\<close>

definition runs :: "'f process \<Rightarrow> string \<Rightarrow> bool" where
  "runs pr real \<longleftrightarrow> pr_fuse_use_version pr \<le> pr_fuse_version pr \<and> options_ok (pr_options pr) \<and>
     (\<forall>(c, a) \<in> set (pr_config_options pr). c = CHR ''c'' \<or> c = CHR ''?'') \<and>
     (\<exists>dev arg rest. pr_operands pr = dev # arg # rest \<and> pr_realpath pr arg = Some real) \<and>
     pr_fopen_ok pr \<and> pr_key_create pr = 0 \<and> pr_locale_set pr \<and>
     pr_codeset pr \<in> {''UTF-8'', ''ANSI_X3.4-1968''} \<and> pr_fuse_mount pr \<and> pr_fuse_lowlevel_new pr"

lemma direntry_init_fails: "direntry_init a fs = Inl BadCall"
  by (simp add: direntry_init_def direntry_new_root_def inode_map_add_by_prototype_def Let_def)

lemmas start_defs = inits_def trace_init_def active_emitter_def emitter_logfile_def
  emitter_logfile_init_def locale_init_def trace_error_def direntry_init_fails fetcher_init_def Let_def

lemma inits_runs: "runs pr real \<Longrightarrow> inits pr = Inl BadCall"
  by (auto simp: runs_def start_defs)

lemma inits_never: "inits pr = Inr (r, st) \<Longrightarrow> r = Inl EXIT_FAILURE \<or> r = Inr None"
  by (auto simp: start_defs EXIT_FAILURE_def split: if_splits)

lemma tryget_config_file_ok:
  "\<forall>(c, a) \<in> set opts. c = CHR ''c'' \<or> c = CHR ''?'' \<Longrightarrow> \<exists>r. settings_tryget_config_file opts = Inr r"
  by (induction opts rule: settings_tryget_config_file.induct) auto

lemma parse_command_line_ok:
  fixes pr :: "'f process"
  assumes "runs pr real" "proc_items s 0 0 0"
  shows "\<exists>mp s'. settings_parse_command_line pr s = Inr (start_action_MOUNT, mp, s') \<and> mp_real mp = Some real \<and>
    proc_items s' (of_bool (has_option CHR ''d'' (pr_options pr)))
      (of_bool (has_option CHR ''d'' (pr_options pr) \<or> has_option CHR ''f'' (pr_options pr)))
      (of_bool (has_option CHR ''s'' (pr_options pr)))"
proof -
  let ?d = "has_option CHR ''d'' (pr_options pr)" and ?f = "has_option CHR ''f'' (pr_options pr)"
    and ?st = "has_option CHR ''s'' (pr_options pr)"
  obtain dev arg rest where "pr_operands pr = dev # arg # rest" "pr_realpath pr arg = Some real"
    using assms(1) by (auto simp: runs_def)
  moreover have "options_ok (pr_options pr)" using assms(1) by (simp add: runs_def)
  ultimately show ?thesis
    by (cases ?d; cases ?f; cases ?st)
      (simp_all add: settings_parse_command_line_def parse_options Let_def cmdline_proc_items [OF assms(2)])
qed

lemma settings_runs:
  fixes pr :: "'f process"
  assumes "runs pr real" "silent pr"
  obtains mp s where "settings pr = Inr (start_action_MOUNT, mp, s)" "mp_real mp = Some real"
    "proc_items s (of_bool (has_option CHR ''d'' (pr_options pr)))
      (of_bool (has_option CHR ''d'' (pr_options pr) \<or> has_option CHR ''f'' (pr_options pr)))
      (of_bool (has_option CHR ''s'' (pr_options pr)))"
proof -
  from load_configs_silent [OF assms(2) proc_items_default] obtain s1 where
    s1: "fold_res (load_config pr) [''/etc/fsfuserc'', ''~/.fsfuserc'', ''./fsfuserc''] None = Inr s1"
      "proc_items s1 0 0 0" by blast
  from tryget_config_file_ok [of "pr_config_options pr"] assms(1) obtain cf where
    cf: "settings_tryget_config_file (pr_config_options pr) = Inr cf" by (auto simp: runs_def)
  obtain s2 where s2: "(case cf of None \<Rightarrow> Inr s1 | Some path \<Rightarrow> load_config pr path s1) = Inr s2" "proc_items s2 0 0 0"
    using load_config_silent [OF assms(2) s1(2)] s1(2) by (cases cf) auto
  have "settings pr = settings_parse_command_line pr s2"
    unfolding settings_def s1(1) bind_res_simps cf s2(1) ..
  with parse_command_line_ok [OF assms(1) s2(2)] that show thesis by auto
qed


definition example_process :: "unit process" where
  "example_process = \<lparr>pr_name = ''fsfuse'', pr_fuse_version = 29, pr_fuse_use_version = 29, pr_parse = (\<lambda>_. None),
     pr_strtod = (\<lambda>_. ()), pr_config_options = [(CHR ''?'', '''')], pr_options = [(CHR ''f'', '''')],
     pr_operands = [''fsfuse'', ''mnt''], pr_realpath = (\<lambda>p. Some (''/'' @ p)), pr_strerror = (\<lambda>_. ''''),
     pr_self = 0, pr_trace = example_trace, pr_fopen_ok = True, pr_key_create = 0, pr_key_delete = 0, pr_locale_set = True, pr_codeset = ''UTF-8'', pr_root = 0,
     pr_fuse_mount = True, pr_fuse_lowlevel_new = True, pr_session_rc = 0\<rparr>"

lemma example_runs: "runs example_process ''/mnt''" "silent example_process"
  by (simp_all add: runs_def silent_def example_process_def options_ok_def)


lemma fsfuse_main_returns:
  assumes "fsfuse_main pr = Inr (rc, fcalls)"
  shows "rc = EXIT_FAILURE \<and> fcalls = []"
proof (cases "pr_fuse_version pr < pr_fuse_use_version pr")
  case True
  then show ?thesis using assms by (simp add: fsfuse_main_def pre_init_bail_def config_singleton_delete_def)
next
  case False
  with assms obtain sa mp s where set: "settings pr = Inr (sa, mp, s)" by (auto simp: fsfuse_main_def)
  show ?thesis
  proof (cases "sa = start_action_MOUNT \<and> mp_real mp \<noteq> None")
    case True
    then obtain real where "sa = start_action_MOUNT" "mp_real mp = Some real" by blast
    with assms False set obtain r st where
      in_r: "inits pr = Inr (r, st)" by (auto simp: fsfuse_main_def)
    from inits_never [OF this] show ?thesis
      using assms False set in_r \<open>sa = start_action_MOUNT\<close> \<open>mp_real mp = Some real\<close>
      by (auto simp: fsfuse_main_def trace_error_def EXIT_FAILURE_def)
  next
    case no_mount: False
    then show ?thesis
      using assms False set
      by (cases sa) (auto simp: fsfuse_main_def pre_init_bail_def trace_error_def EXIT_FAILURE_def)
  qed
qed



text \<open>Failed starts (fsfuse.c): with a version of libfuse that is too old the program does not exit
  with its message but fails an assertion, because the configuration it deletes on the way out was
  never created; and so does the option \<^verbatim>\<open>-p\<close>, which \<^verbatim>\<open>getopt\<close> is told to accept but which is not
  handled. The options for help and version, and a mount point that does not
  exist end the program with \<^verbatim>\<open>EXIT_FAILURE\<close> before anything is mounted.\<close>
theorem fsfuse_main_failed_starts:
  fixes pr :: "'f process"
  shows "(pr_fuse_version pr < pr_fuse_use_version pr \<longrightarrow> fsfuse_main pr = Inl AssertFail) \<and>
    (pr_fuse_use_version pr \<le> pr_fuse_version pr \<and> pr_config_options pr = [] \<and> pr_options pr = [(CHR ''p'', a)] \<longrightarrow>
       fsfuse_main pr = Inl AssertFail) \<and>
    (pr_fuse_use_version pr \<le> pr_fuse_version pr \<and> pr_config_options pr = [] \<and>
       (pr_options pr = [(CHR ''h'', a)] \<or> pr_options pr = [(CHR ''v'', a)] \<or>
        pr_options pr = [] \<and> (\<forall>arg. pr_realpath pr arg = None)) \<longrightarrow>
       fsfuse_main pr = Inr (EXIT_FAILURE, []))"
proof (intro conjI impI)
  show "fsfuse_main pr = Inl AssertFail" if "pr_fuse_version pr < pr_fuse_use_version pr"
    using that by (simp add: fsfuse_main_def pre_init_bail_def config_singleton_delete_def)
  have load: "\<exists>s'. load_config pr path s = Inr s'" for path s
    using add_source_effective [of "pr_parse pr" "pr_strtod pr" "from_file path" s] by (auto simp: load_config_def)
  have "\<exists>s'. fold_res (load_config pr) paths s = Inr s'" for paths s
  proof (induction paths arbitrary: s)
    case (Cons p paths)
    then show ?case using load [of p s] by auto
  qed simp
  then obtain s where s: "fold_res (load_config pr) [''/etc/fsfuserc'', ''~/.fsfuserc'', ''./fsfuserc''] None = Inr s"
    by blast
  show "fsfuse_main pr = Inl AssertFail"
    if "pr_fuse_use_version pr \<le> pr_fuse_version pr \<and> pr_config_options pr = [] \<and> pr_options pr = [(CHR ''p'', a)]"
    unfolding fsfuse_main_def settings_def s bind_res_simps
    using that by (simp add: settings_parse_command_line_def parse_option_def)
  assume a: "pr_fuse_use_version pr \<le> pr_fuse_version pr \<and> pr_config_options pr = [] \<and>
       (pr_options pr = [(CHR ''h'', a)] \<or> pr_options pr = [(CHR ''v'', a)] \<or>
        pr_options pr = [] \<and> (\<forall>arg. pr_realpath pr arg = None))"
  then obtain sa mp s' where
    "settings_parse_command_line pr s = Inr (sa, mp, Some s')" "sa \<noteq> start_action_MOUNT \<or> mp_real mp = None"
    by (auto simp: settings_parse_command_line_def parse_option_def Let_def config_manager_add_from_cmdline_def
        split: list.splits)
  then show "fsfuse_main pr = Inr (EXIT_FAILURE, [])"
    unfolding fsfuse_main_def settings_def s bind_res_simps
    using a by (cases sa) (auto simp: pre_init_bail_def config_singleton_delete_def trace_error_def EXIT_FAILURE_def)
qed

theorem fsfuse_main_failed_starts_witness:
  "fsfuse_main (example_process\<lparr>pr_fuse_version := 26\<rparr>) = Inl AssertFail"
  using fsfuse_main_failed_starts [of "example_process\<lparr>pr_fuse_version := 26\<rparr>" "''''"] by (simp add: example_process_def)

end
