(* ===== verification/Uri.thy ===== *)
theory Uri
  imports String_Buffer Listing
begin

text \<open>
  URIs (\<^verbatim>\<open>src/src/uri.c\<close>). A component is a null pointer, a live heap string, or a pointer to a
  string that has been freed. The string buffer frees what is appended to it, so appending a
  component leaves a dangling pointer behind.
\<close>

section \<open>uri.c\<close>

datatype uri_str = Unset | Live string | Dangling

record uri_t =
  u_scheme :: uri_str
  u_userinfo :: uri_str
  u_host :: uri_str
  u_port :: uri_str
  u_path :: uri_str
  u_query :: uri_str
  u_fragment :: uri_str

definition uri_new :: uri_t where
  "uri_new = \<lparr>u_scheme = Unset, u_userinfo = Unset, u_host = Unset, u_port = Unset, u_path = Unset,
     u_query = Unset, u_fragment = Unset\<rparr>"

definition uri_from_string :: "string option \<Rightarrow> uri_t res" where
  "uri_from_string str =
     bind_res (c_assert (str \<noteq> None)) (\<lambda>_. bind_res (c_assert False) (\<lambda>_. Inr uri_new))"

text \<open>\<^verbatim>\<open>if (p) free(p)\<close>\<close>

fun free_str :: "uri_str \<Rightarrow> unit res" where
  "free_str Unset = Inr ()"
| "free_str (Live s) = Inr ()"
| "free_str Dangling = Inl InvalidFree"

definition uri_delete :: "uri_t \<Rightarrow> unit res" where
  "uri_delete uri =
     bind_res (free_str (u_scheme uri)) (\<lambda>_.
     bind_res (free_str (u_userinfo uri)) (\<lambda>_.
     bind_res (free_str (u_host uri)) (\<lambda>_.
     bind_res (free_str (u_port uri)) (\<lambda>_.
     bind_res (free_str (u_path uri)) (\<lambda>_.
     bind_res (free_str (u_query uri)) (\<lambda>_.
     free_str (u_fragment uri)))))))"

definition uri_set_scheme :: "string \<Rightarrow> uri_t \<Rightarrow> uri_t res" where
  "uri_set_scheme s uri = bind_res (free_str (u_scheme uri)) (\<lambda>_. Inr (uri\<lparr>u_scheme := Live s\<rparr>))"

definition uri_set_userinfo :: "string \<Rightarrow> uri_t \<Rightarrow> uri_t res" where
  "uri_set_userinfo s uri = bind_res (free_str (u_userinfo uri)) (\<lambda>_. Inr (uri\<lparr>u_userinfo := Live s\<rparr>))"

definition uri_set_host :: "string \<Rightarrow> uri_t \<Rightarrow> uri_t res" where
  "uri_set_host s uri = bind_res (free_str (u_host uri)) (\<lambda>_. Inr (uri\<lparr>u_host := Live s\<rparr>))"

definition uri_set_port :: "string \<Rightarrow> uri_t \<Rightarrow> uri_t res" where
  "uri_set_port s uri = bind_res (free_str (u_port uri)) (\<lambda>_. Inr (uri\<lparr>u_port := Live s\<rparr>))"

definition uri_set_path :: "string \<Rightarrow> uri_t \<Rightarrow> uri_t res" where
  "uri_set_path s uri = bind_res (free_str (u_path uri)) (\<lambda>_. Inr (uri\<lparr>u_path := Live s\<rparr>))"

definition uri_set_query :: "string \<Rightarrow> uri_t \<Rightarrow> uri_t res" where
  "uri_set_query s uri = bind_res (free_str (u_query uri)) (\<lambda>_. Inr (uri\<lparr>u_query := Live s\<rparr>))"

definition uri_set_fragment :: "string \<Rightarrow> uri_t \<Rightarrow> uri_t res" where
  "uri_set_fragment s uri = bind_res (free_str (u_fragment uri)) (\<lambda>_. Inr (uri\<lparr>u_fragment := Live s\<rparr>))"

text \<open>Appending a component that is not null: the component is read and freed.\<close>

fun append_str :: "string_buffer_t \<Rightarrow> uri_str \<Rightarrow> string_buffer_t res" where
  "append_str buf (Live s) = string_buffer_append buf (HeapStr s)"
| "append_str buf Dangling = Inl UseAfterFree"
| "append_str buf Unset = Inl NullDeref"

text \<open>The authority and what is left of the URI.\<close>

definition uri_get_authority :: "uri_t \<Rightarrow> (string \<times> uri_t) res" where
  "uri_get_authority uri =
     bind_res string_buffer_new (\<lambda>buf.
     bind_res (if u_userinfo uri \<noteq> Unset
               then bind_res (append_str buf (u_userinfo uri)) (\<lambda>buf.
                    bind_res (string_buffer_append buf (Literal ''@'')) (\<lambda>buf. Inr (buf, uri\<lparr>u_userinfo := Dangling\<rparr>)))
               else Inr (buf, uri)) (\<lambda>(buf, uri).
     bind_res (if u_host uri \<noteq> Unset
               then bind_res (append_str buf (u_host uri)) (\<lambda>buf. Inr (buf, uri\<lparr>u_host := Dangling\<rparr>))
               else Inr (buf, uri)) (\<lambda>(buf, uri).
     bind_res (if u_port uri \<noteq> Unset
               then bind_res (string_buffer_append buf (Literal '':'')) (\<lambda>buf.
                    bind_res (append_str buf (u_port uri)) (\<lambda>buf. Inr (buf, uri\<lparr>u_port := Dangling\<rparr>)))
               else Inr (buf, uri)) (\<lambda>(buf, uri).
     bind_res (string_buffer_commit buf) (\<lambda>str. Inr (str, uri))))))"

text \<open>\<^verbatim>\<open>uri_get\<close> appends the authority, which frees it, and then frees it again.\<close>

definition uri_get :: "uri_t \<Rightarrow> (string \<times> uri_t) res" where
  "uri_get uri =
     bind_res string_buffer_new (\<lambda>buf.
     bind_res (if u_scheme uri \<noteq> Unset
               then bind_res (append_str buf (u_scheme uri)) (\<lambda>buf.
                    bind_res (string_buffer_append buf (Literal '':'')) (\<lambda>buf. Inr (buf, uri\<lparr>u_scheme := Dangling\<rparr>)))
               else Inr (buf, uri)) (\<lambda>(buf, uri).
     bind_res (uri_get_authority uri) (\<lambda>(auth, uri).
     bind_res (bind_res (string_buffer_append buf (Literal ''//'')) (\<lambda>buf.
               bind_res (string_buffer_append buf (HeapStr auth)) (\<lambda>buf.
               bind_res (free_str Dangling) (\<lambda>_. Inr buf)))) (\<lambda>buf.
     bind_res (c_assert (u_path uri \<noteq> Unset)) (\<lambda>_.
     bind_res (append_str buf (u_path uri)) (\<lambda>buf.
     let uri = uri\<lparr>u_path := Dangling\<rparr> in
     bind_res (if u_query uri \<noteq> Unset
               then bind_res (string_buffer_append buf (Literal ''?'')) (\<lambda>buf.
                    bind_res (append_str buf (u_query uri)) (\<lambda>buf. Inr (buf, uri\<lparr>u_query := Dangling\<rparr>)))
               else Inr (buf, uri)) (\<lambda>(buf, uri).
     bind_res (if u_fragment uri \<noteq> Unset
               then bind_res (string_buffer_append buf (Literal ''#'')) (\<lambda>buf.
                    bind_res (append_str buf (u_fragment uri)) (\<lambda>buf. Inr (buf, uri\<lparr>u_fragment := Dangling\<rparr>)))
               else Inr (buf, uri)) (\<lambda>(buf, uri).
     bind_res (string_buffer_commit buf) (\<lambda>str. Inr (str, uri))))))))))"

text \<open>\<^verbatim>\<open>strdup\<close> of a component.\<close>

fun dup_str :: "uri_str \<Rightarrow> string res" where
  "dup_str (Live s) = strdup (Some s)"
| "dup_str Dangling = Inl UseAfterFree"
| "dup_str Unset = strdup None"

definition uri_get_scheme :: "uri_t \<Rightarrow> string res" where
  "uri_get_scheme uri = dup_str (u_scheme uri)"
definition uri_get_userinfo :: "uri_t \<Rightarrow> string res" where
  "uri_get_userinfo uri = dup_str (u_userinfo uri)"
definition uri_get_host :: "uri_t \<Rightarrow> string res" where
  "uri_get_host uri = dup_str (u_host uri)"
definition uri_get_port :: "uri_t \<Rightarrow> string res" where
  "uri_get_port uri = dup_str (u_port uri)"
definition uri_get_path :: "uri_t \<Rightarrow> string res" where
  "uri_get_path uri = dup_str (u_path uri)"
definition uri_get_query :: "uri_t \<Rightarrow> string res" where
  "uri_get_query uri = dup_str (u_query uri)"
definition uri_get_fragment :: "uri_t \<Rightarrow> string res" where
  "uri_get_fragment uri = dup_str (u_fragment uri)"

lemmas uri_defs = uri_new_def uri_delete_def uri_set_scheme_def uri_set_userinfo_def uri_set_host_def
  uri_set_port_def uri_set_path_def uri_set_query_def uri_set_fragment_def uri_get_scheme_def
  uri_get_userinfo_def uri_get_host_def uri_get_port_def uri_get_path_def uri_get_query_def
  uri_get_fragment_def

section \<open>Components\<close>

definition all_live :: "uri_t \<Rightarrow> bool" where
  "all_live uri \<longleftrightarrow> u_scheme uri \<noteq> Dangling \<and> u_userinfo uri \<noteq> Dangling \<and> u_host uri \<noteq> Dangling \<and>
     u_port uri \<noteq> Dangling \<and> u_path uri \<noteq> Dangling \<and> u_query uri \<noteq> Dangling \<and> u_fragment uri \<noteq> Dangling"

datatype uri_part = part_scheme | part_userinfo | part_host | part_port | part_path | part_query | part_fragment

fun uri_set :: "uri_part \<Rightarrow> string \<Rightarrow> uri_t \<Rightarrow> uri_t res" where
  "uri_set part_scheme = uri_set_scheme"
| "uri_set part_userinfo = uri_set_userinfo"
| "uri_set part_host = uri_set_host"
| "uri_set part_port = uri_set_port"
| "uri_set part_path = uri_set_path"
| "uri_set part_query = uri_set_query"
| "uri_set part_fragment = uri_set_fragment"

fun uri_get_part :: "uri_part \<Rightarrow> uri_t \<Rightarrow> string res" where
  "uri_get_part part_scheme = uri_get_scheme"
| "uri_get_part part_userinfo = uri_get_userinfo"
| "uri_get_part part_host = uri_get_host"
| "uri_get_part part_port = uri_get_port"
| "uri_get_part part_path = uri_get_path"
| "uri_get_part part_query = uri_get_query"
| "uri_get_part part_fragment = uri_get_fragment"

definition parts_of :: "uri_t \<Rightarrow> uri_part \<rightharpoonup> string" where
  "parts_of uri p = (case uri_get_part p uri of Inl _ \<Rightarrow> None | Inr s \<Rightarrow> Some s)"

lemma free_str_live: "s \<noteq> Dangling \<Longrightarrow> free_str s = Inr ()"
  by (cases s) auto

lemma uri_set_one:
  assumes "all_live uri"
  shows "\<exists>uri'. uri_set p s uri = Inr uri' \<and> all_live uri' \<and> parts_of uri' = (parts_of uri)(p \<mapsto> s)"
proof -
  have "parts_of uri' = (parts_of uri)(p \<mapsto> s)" if "uri_set p s uri = Inr uri'" for uri'
  proof
    fix q
    show "parts_of uri' q = ((parts_of uri)(p \<mapsto> s)) q"
      using that by (cases p; cases q) (auto simp: uri_defs parts_of_def)
  qed
  moreover have "\<exists>uri'. uri_set p s uri = Inr uri' \<and> all_live uri'"
    using assms by (cases p) (auto simp: uri_defs free_str_live all_live_def)
  ultimately show ?thesis by blast
qed

lemma uri_set_all:
  assumes "all_live uri"
  shows "\<exists>uri'. fold_res (\<lambda>(p, s). uri_set p s) sets uri = Inr uri' \<and> all_live uri' \<and>
    parts_of uri' = parts_of uri ++ map_of (rev sets)"
  using assms
proof (induction sets arbitrary: uri)
  case (Cons x sets)
  obtain p s where x: "x = (p, s)" by force
  from uri_set_one [OF Cons.prems, of p s] obtain u where
    u: "uri_set p s uri = Inr u" "all_live u" "parts_of u = (parts_of uri)(p \<mapsto> s)" by blast
  have "(parts_of uri)(p \<mapsto> s) ++ map_of (rev sets) = parts_of uri ++ map_of (rev (x # sets))"
    by (rule ext) (simp add: x map_add_def split: option.splits)
  moreover from Cons.IH [OF u(2)] obtain u' where
    "fold_res (\<lambda>(p, s). uri_set p s) sets u = Inr u'" "all_live u'" "parts_of u' = parts_of u ++ map_of (rev sets)"
    by blast
  moreover have "fold_res (\<lambda>(p, s). uri_set p s) (x # sets) uri = fold_res (\<lambda>(p, s). uri_set p s) sets u"
    by (simp add: x u(1))
  ultimately show ?case using u(3) by metis
qed simp

lemma parts_of_new: "parts_of uri_new = Map.empty"
proof
  fix q show "parts_of uri_new q = None" by (cases q) (simp_all add: parts_of_def uri_defs)
qed

lemma uri_delete_live: "all_live uri \<Longrightarrow> uri_delete uri = Inr ()"
  by (simp add: uri_delete_def all_live_def free_str_live)

text \<open>The components of a URI (uri.c): after any sequence of calls that set components of a new URI,
  each getter returns what was last set for its component and crashes exactly when nothing was,
  and deleting the URI frees each string once.\<close>
theorem uri_components:
  "\<exists>uri. fold_res (\<lambda>(p, s). uri_set p s) sets uri_new = Inr uri \<and>
     (\<forall>p. uri_get_part p uri = (case map_of (rev sets) p of None \<Rightarrow> Inl NullDeref | Some s \<Rightarrow> Inr s)) \<and>
     uri_delete uri = Inr ()"
proof -
  have "all_live uri_new" by (simp add: all_live_def uri_new_def)
  from uri_set_all [OF this, of sets] obtain uri where
    u: "fold_res (\<lambda>(p, s). uri_set p s) sets uri_new = Inr uri" "all_live uri" "parts_of uri = map_of (rev sets)"
    by (auto simp: parts_of_new)
  have get: "uri_get_part p uri = (case parts_of uri p of None \<Rightarrow> Inl NullDeref | Some s \<Rightarrow> Inr s)" for p
  proof -
    obtain x where "uri_get_part p uri = dup_str x" "x \<noteq> Dangling"
      using u(2) by (cases p) (auto simp: uri_defs all_live_def)
    then show ?thesis by (cases x) (auto simp: parts_of_def)
  qed
  show ?thesis using u(1) get uri_delete_live [OF u(2)] u(3) by auto
qed

section \<open>The whole URI\<close>

lemma append_literal: "sb_holds buf t \<Longrightarrow> nul_free s \<Longrightarrow> string_buffer_append buf (Literal s) = Inl InvalidFree"
  using sb_append_holds [of buf t s] by (auto simp: string_buffer_append_def Let_def)

lemma append_live:
  assumes "sb_holds buf t" "x = Live s" "nul_free s"
  shows "\<exists>buf'. append_str buf x = Inr buf' \<and> sb_holds buf' (t @ s)"
  using sb_append_holds [OF assms(1,3)] assms(2) by simp

lemma authority_fails:
  assumes "all_live uri" "\<forall>s. Live s \<in> {u_userinfo uri, u_host uri, u_port uri} \<longrightarrow> nul_free s"
  shows "(\<exists>auth uri'. uri_get_authority uri = Inr (auth, uri') \<and> nul_free auth) \<or>
    uri_get_authority uri = Inl InvalidFree"
proof -
  obtain buf where buf: "string_buffer_new = Inr buf" "sb_holds buf ''''" using sb_new_holds by blast
  show ?thesis
  proof (cases "u_userinfo uri")
    case (Live s)
    with assms(2) append_live [OF buf(2), of _ s] obtain b where
      "append_str buf (u_userinfo uri) = Inr b" "sb_holds b s" by auto
    then have "uri_get_authority uri = Inl InvalidFree"
      unfolding uri_get_authority_def buf(1) using Live append_literal [of b s "''@''"] by simp
    then show ?thesis ..
  next
    case Unset
    obtain b h where b: "(if u_host uri \<noteq> Unset
         then bind_res (append_str buf (u_host uri)) (\<lambda>buf. Inr (buf, uri\<lparr>u_host := Dangling\<rparr>))
         else Inr (buf, uri)) = Inr (b, h)" "sb_holds b (case u_host uri of Live s \<Rightarrow> s | _ \<Rightarrow> '''')"
        "u_port h = u_port uri"
    proof (cases "u_host uri")
      case (Live s)
      with assms(2) append_live [OF buf(2), of _ s] show ?thesis by (auto intro: that)
    qed (use buf(2) assms(1) that in \<open>auto simp: all_live_def\<close>)
    show ?thesis
    proof (cases "u_port uri")
      case Unset
      have "string_buffer_commit b = Inr (case u_host uri of Live s \<Rightarrow> s | _ \<Rightarrow> '''')"
        using sb_commit_holds [OF b(2)] .
      moreover have "nul_free (case u_host uri of Live s \<Rightarrow> s | _ \<Rightarrow> '''')"
        using assms(2) by (auto split: uri_str.splits)
      ultimately show ?thesis
        unfolding uri_get_authority_def buf(1) using b(1,3) Unset \<open>u_userinfo uri = Unset\<close> by simp
    next
      case (Live s)
      then have "uri_get_authority uri = Inl InvalidFree"
        unfolding uri_get_authority_def buf(1)
        using b(1,3) \<open>u_userinfo uri = Unset\<close> append_literal [OF b(2), of "'':''"] by simp
      then show ?thesis ..
    qed (use assms(1) in \<open>simp add: all_live_def\<close>)
  qed (use assms(1) in \<open>simp add: all_live_def\<close>)
qed

text \<open>Formatting a URI (uri.c, \<^verbatim>\<open>uri_get\<close>): no URI can be formatted. The string buffer frees every string
  that is appended to it, and the separators are string literals: whatever components are set,
  the call frees a literal.\<close>
theorem uri_get_fails:
  assumes "all_live uri"
    and "\<forall>s. Live s \<in> {u_scheme uri, u_userinfo uri, u_host uri, u_port uri} \<longrightarrow> nul_free s"
  shows "uri_get uri = Inl InvalidFree"
proof -
  obtain buf where buf: "string_buffer_new = Inr buf" "sb_holds buf ''''" using sb_new_holds by blast
  show ?thesis
  proof (cases "u_scheme uri")
    case (Live s)
    with assms(2) append_live [OF buf(2), of _ s] obtain b where
      "append_str buf (u_scheme uri) = Inr b" "sb_holds b s" by auto
    then show ?thesis unfolding uri_get_def buf(1) using Live append_literal [of b s "'':''"] by simp
  next
    case Unset
    from authority_fails [OF assms(1)] assms(2) append_literal [OF buf(2), of "''//''"] show ?thesis
      unfolding uri_get_def buf(1) using Unset by auto
  qed (use assms(1) in \<open>simp add: all_live_def\<close>)
qed

theorem uri_get_fails_witness:
  "uri_get (uri_new\<lparr>u_scheme := Live ''http'', u_host := Live ''h'', u_path := Live ''/''\<rparr>) = Inl InvalidFree"
  by (rule uri_get_fails) (simp_all add: all_live_def uri_new_def)

end
