(* ===== verification/Http.thy ===== *)
theory Http
  imports Uri
begin

text \<open>
  The HTTP client (\<^verbatim>\<open>src/src/http.c\<close>). The array of headers is the flat list of keys and values. What
  the kernel does is given as data: the addresses \<^verbatim>\<open>getaddrinfo\<close> returns with the results of
  \<^verbatim>\<open>socket\<close> and \<^verbatim>\<open>connect\<close> on them, and the sequences of results of \<^verbatim>\<open>write\<close> and \<^verbatim>\<open>read\<close>; when a
  sequence is exhausted the call blocks, and the value is \<open>None\<close>.
\<close>

section \<open>Requests\<close>

datatype http_req_state_t =
    http_req_state_NEW
  | http_req_state_CONNECTING
  | http_req_state_CONNECTED
  | http_req_state_SENDING
  | http_req_state_WAITING_HEADERS
  | http_req_state_WAITING_DATA
  | http_req_state_DONE

record 'c http_req_t =
  hr_uri :: "uri_t option"
  hr_state :: http_req_state_t
  hr_headers :: "string list"
  hr_header_count :: nat
  hr_header_cb :: "(string \<Rightarrow> string \<Rightarrow> 'c option \<Rightarrow> 'c option) option"
  hr_header_cb_ctxt :: "'c option"
  hr_data_cb :: "(string \<Rightarrow> 'c option \<Rightarrow> 'c option) option"
  hr_data_cb_ctxt :: "'c option"

definition http_req_new :: "'c http_req_t" where
  "http_req_new = \<lparr>hr_uri = None, hr_state = http_req_state_NEW, hr_headers = [], hr_header_count = 0,
     hr_header_cb = None, hr_header_cb_ctxt = None, hr_data_cb = None, hr_data_cb_ctxt = None\<rparr>"

text \<open>Every function of \<^verbatim>\<open>uri.c\<close> asserts that its URI is not null.\<close>

definition the_uri :: "'c http_req_t \<Rightarrow> uri_t res" where
  "the_uri req = (case hr_uri req of None \<Rightarrow> Inl AssertFail | Some uri \<Rightarrow> Inr uri)"

definition http_req_delete :: "'c http_req_t \<Rightarrow> unit res" where
  "http_req_delete req = bind_res (the_uri req) uri_delete"

definition http_req_set_uri :: "string option \<Rightarrow> 'c http_req_t \<Rightarrow> 'c http_req_t res" where
  "http_req_set_uri uri_str req =
     bind_res (c_assert (uri_str \<noteq> None)) (\<lambda>_.
     bind_res (uri_from_string uri_str) (\<lambda>uri. Inr (req\<lparr>hr_uri := Some uri\<rparr>)))"

definition http_req_set_components :: "string \<Rightarrow> string \<Rightarrow> string \<Rightarrow> 'c http_req_t \<Rightarrow> 'c http_req_t res" where
  "http_req_set_components host port path req =
     bind_res (uri_set_scheme ''http'' uri_new) (\<lambda>uri.
     bind_res (uri_set_host host uri) (\<lambda>uri.
     bind_res (uri_set_port port uri) (\<lambda>uri.
     bind_res (uri_set_path path uri) (\<lambda>uri. Inr (req\<lparr>hr_uri := Some uri\<rparr>)))))"

text \<open>The position of a key among the first \<open>n\<close> headers.\<close>

function find_header :: "string list \<Rightarrow> nat \<Rightarrow> string \<Rightarrow> nat \<Rightarrow> nat option res" where
  "find_header headers n key i =
     (if i < n
      then if i * 2 < length headers
        then if headers ! (i * 2) = key then Inr (Some (i * 2)) else find_header headers n key (i + 1)
        else Inl OutOfBounds
      else Inr None)"
  by pat_completeness auto
termination by (relation "measure (\<lambda>(headers, n, key, i). n - i)") auto

declare find_header.simps [simp del]

definition header_find :: "string list \<Rightarrow> nat \<Rightarrow> string \<Rightarrow> nat option res" where
  "header_find headers n key = find_header headers n key 0"

definition http_req_set_header :: "string \<Rightarrow> string \<Rightarrow> 'c http_req_t \<Rightarrow> 'c http_req_t res" where
  "http_req_set_header key val req =
     bind_res (header_find (hr_headers req) (hr_header_count req) key) (\<lambda>header.
     case header of
       Some i \<Rightarrow>
         if i + 1 < length (hr_headers req) then Inr (req\<lparr>hr_headers := (hr_headers req)[i + 1 := val]\<rparr>)
         else Inl OutOfBounds
     | None \<Rightarrow>
         let hs = take ((hr_header_count req + 1) * 2) (hr_headers req @ replicate 2 []);
             i = hr_header_count req * 2 in
         Inr (req\<lparr>hr_headers := hs[i := key, i + 1 := val], hr_header_count := hr_header_count req + 1\<rparr>))"

definition http_req_set_header_cb ::
  "(string \<Rightarrow> string \<Rightarrow> 'c option \<Rightarrow> 'c option) \<Rightarrow> 'c option \<Rightarrow> 'c http_req_t \<Rightarrow> 'c http_req_t" where
  "http_req_set_header_cb cb ctxt req = req\<lparr>hr_header_cb := Some cb, hr_header_cb_ctxt := ctxt\<rparr>"

definition http_req_set_data_cb ::
  "(string \<Rightarrow> 'c option \<Rightarrow> 'c option) \<Rightarrow> 'c option \<Rightarrow> 'c http_req_t \<Rightarrow> 'c http_req_t" where
  "http_req_set_data_cb cb ctxt req = req\<lparr>hr_data_cb := Some cb, hr_data_cb_ctxt := ctxt\<rparr>"

section \<open>Sending\<close>

definition make_req_string :: "'c http_req_t \<Rightarrow> string res" where
  "make_req_string req =
     bind_res string_buffer_new (\<lambda>buf.
     bind_res (bind_res (the_uri req) uri_get_path) (\<lambda>path.
     bind_res (string_buffer_append buf (Literal ''GET '')) (\<lambda>buf.
     bind_res (string_buffer_append buf (HeapStr path)) (\<lambda>buf.
     bind_res (string_buffer_append buf (Literal '' HTTP/1.1\<newline>\<newline>'')) (\<lambda>buf.
     bind_res (free_str Dangling) (\<lambda>_.
     bind_res (fold_res (\<lambda>i buf.
         if i * 2 + 1 < length (hr_headers req)
         then bind_res (string_buffer_append buf (HeapStr (hr_headers req ! (i * 2)))) (\<lambda>buf.
              bind_res (string_buffer_append buf (Literal '': '')) (\<lambda>buf.
              bind_res (string_buffer_append buf (HeapStr (hr_headers req ! (i * 2 + 1)))) (\<lambda>buf.
              string_buffer_append buf (Literal ''\<newline>''))))
         else Inl OutOfBounds) [0..<hr_header_count req] buf) (\<lambda>buf.
     string_buffer_commit buf)))))))"

text \<open>An address with its family and type, and what \<^verbatim>\<open>socket\<close> and \<^verbatim>\<open>connect\<close> return for it.\<close>

record addrinfo =
  ai_family_inet :: bool
  ai_socktype_stream :: bool
  ai_socket :: int
  ai_connect :: int

text \<open>The loop over the addresses: the socket, indeterminate at first, and whether it is connected.\<close>

fun connect_loop :: "addrinfo list \<Rightarrow> int option \<Rightarrow> (int option \<times> bool) res" where
  "connect_loop [] s = Inr (s, False)"
| "connect_loop (ai # ais) s =
     bind_res (c_assert (ai_family_inet ai)) (\<lambda>_.
     bind_res (c_assert (ai_socktype_stream ai)) (\<lambda>_.
     if ai_socket ai = -1 then connect_loop ais (Some (-1))
     else if ai_connect ai \<noteq> -1 then Inr (Some (ai_socket ai), True)
     else connect_loop ais (Some (ai_socket ai))))"

text \<open>When \<^verbatim>\<open>getaddrinfo\<close> fails, the list of its results is indeterminate, and it is used all the same.\<close>

definition establish_connection ::
  "int \<times> addrinfo list \<Rightarrow> 'c http_req_t \<Rightarrow> (int option \<times> 'c http_req_t) res" where
  "establish_connection gai req =
     (let req = req\<lparr>hr_state := http_req_state_CONNECTING\<rparr> in
      bind_res (bind_res (the_uri req) uri_get_host) (\<lambda>host.
      bind_res (bind_res (the_uri req) uri_get_port) (\<lambda>port.
      bind_res (if fst gai \<noteq> 0 then Inl Uninitialised else Inr (snd gai)) (\<lambda>ai_results.
      bind_res (connect_loop ai_results None) (\<lambda>(s, connected).
      Inr (s, if connected then req\<lparr>hr_state := http_req_state_CONNECTED\<rparr> else req))))))"

text \<open>A \<^verbatim>\<open>write\<close> takes at most what it is given, is interrupted, or fails.\<close>

datatype write_result = wr_count nat | wr_eintr | wr_error

text \<open>The bytes that were sent and the results that are left.\<close>

fun send_loop :: "string \<Rightarrow> write_result list \<Rightarrow> (string \<times> write_result list) res option" where
  "send_loop [] rs = Some (Inr ([], rs))"
| "send_loop buf [] = None"
| "send_loop buf (wr_eintr # rs) = send_loop buf rs"
| "send_loop buf (wr_error # rs) = Some (Inl AssertFail)"
| "send_loop buf (wr_count n # rs) =
     (let written = min n (length buf) in
      map_option (\<lambda>r. bind_res r (\<lambda>(out, rs). Inr (take written buf @ out, rs))) (send_loop (drop written buf) rs))"

definition sock_send_buf :: "int option \<Rightarrow> string \<Rightarrow> write_result list \<Rightarrow> (string \<times> write_result list) res option" where
  "sock_send_buf s buf rs =
     (case s of
        None \<Rightarrow> Some (Inl Uninitialised)
      | Some s \<Rightarrow> if s \<ge> 0 then send_loop buf rs else Some (Inl AssertFail))"

section \<open>Receiving\<close>

definition BUF_SIZE :: nat where "BUF_SIZE = 1024"

text \<open>
  A \<^verbatim>\<open>read\<close> returns bytes that have arrived (at most as many as fit; the rest stays for the next one), no
  bytes at the end of the stream, or \<^verbatim>\<open>-1\<close>.
\<close>

datatype read_result = rd_data string | rd_error

text \<open>
  The inner loop: the bytes in the block, whether the last read returned any, and the results that are
  left. An error moves the position back by one byte: out of the block when it is empty.
\<close>

fun slurp_block :: "string \<Rightarrow> read_result list \<Rightarrow> (string \<times> bool \<times> read_result list) res option" where
  "slurp_block buf [] = None"
| "slurp_block buf (rd_error # rs) =
     (if buf = [] then Some (Inl OutOfBounds) else slurp_block (butlast buf) rs)"
| "slurp_block buf (rd_data s # rs) =
     (let buf_remain = BUF_SIZE - length buf in
      if s = [] then Some (Inr (buf, False, rs))
      else if length s < buf_remain then slurp_block (buf @ s) rs
      else Some (Inr (buf @ take buf_remain s, True,
             if length s > buf_remain then rd_data (drop buf_remain s) # rs else rs)))"

fun pending :: "read_result list \<Rightarrow> nat" where
  "pending [] = 0"
| "pending (rd_error # rs) = Suc (pending rs)"
| "pending (rd_data s # rs) = Suc (length s + pending rs)"

lemma slurp_block_pending:
  "slurp_block buf rs = Some (Inr (buf', red, rs')) \<Longrightarrow> length buf < BUF_SIZE \<Longrightarrow> pending rs' < pending rs"
proof (induction buf rs rule: slurp_block.induct)
  case (3 buf s rs)
  then have "length s < BUF_SIZE - length buf \<Longrightarrow> length (buf @ s) < BUF_SIZE" by simp
  with 3 show ?case by (fastforce simp: Let_def split: if_splits)
next
  case (2 buf rs)
  then have "length (butlast buf) < BUF_SIZE" by simp
  with 2 show ?case by (fastforce split: if_splits)
qed simp

text \<open>The outer loop: each block is passed to the callback.\<close>

function slurp_loop ::
  "(string \<Rightarrow> 'c option \<Rightarrow> 'c option) option \<Rightarrow> read_result list \<Rightarrow> 'c option \<Rightarrow> 'c option res option" where
  "slurp_loop cb rs ctxt =
     (case slurp_block [] rs of
        None \<Rightarrow> None
      | Some (Inl e) \<Rightarrow> Some (Inl e)
      | Some (Inr (buf, red, rs')) \<Rightarrow>
          (case cb of
             None \<Rightarrow> Some (Inl NullDeref)
           | Some f \<Rightarrow> if red then slurp_loop cb rs' (f buf ctxt) else Some (Inr (f buf ctxt))))"
  by pat_completeness auto
termination
  by (relation "measure (\<lambda>(cb, rs, ctxt). pending rs)")
    (auto dest: slurp_block_pending simp: BUF_SIZE_def)

declare slurp_loop.simps [simp del]

definition sock_slurp :: "int \<Rightarrow> read_result list \<Rightarrow> 'c http_req_t \<Rightarrow> 'c http_req_t res option" where
  "sock_slurp sock rs req =
     (if sock = -1 then Some (Inl AssertFail)
      else map_option (\<lambda>r. bind_res r (\<lambda>ctxt.
             Inr (req\<lparr>hr_data_cb_ctxt := ctxt, hr_state := http_req_state_DONE\<rparr>)))
           (slurp_loop (hr_data_cb req) rs (hr_data_cb_ctxt req)))"

definition http_req_send ::
  "int \<times> addrinfo list \<Rightarrow> write_result list \<Rightarrow> read_result list \<Rightarrow> 'c http_req_t \<Rightarrow>
   (int \<times> 'c http_req_t) res option" where
  "http_req_send gai ws rs req =
     (case bind_res (establish_connection gai req) (\<lambda>(sock, req).
           bind_res (make_req_string req) (\<lambda>req_str. Inr (sock, req_str, req))) of
        Inl e \<Rightarrow> Some (Inl e)
      | Inr (sock, req_str, req) \<Rightarrow>
          (case sock_send_buf sock req_str ws of
             None \<Rightarrow> None
           | Some (Inl e) \<Rightarrow> Some (Inl e)
           | Some (Inr _) \<Rightarrow>
               map_option (\<lambda>r. bind_res r (\<lambda>req. Inr (0, req)))
                 (sock_slurp (the sock) rs (req\<lparr>hr_state := http_req_state_SENDING\<rparr>))))"

section \<open>The headers as a map\<close>

fun flat :: "(string \<times> string) list \<Rightarrow> string list" where
  "flat [] = []"
| "flat ((k, v) # ps) = k # v # flat ps"

definition headers_ok :: "'c http_req_t \<Rightarrow> (string \<times> string) list \<Rightarrow> bool" where
  "headers_ok req ps \<longleftrightarrow> hr_headers req = flat ps \<and> hr_header_count req = length ps"

lemma length_flat [simp]: "length (flat ps) = 2 * length ps"
  by (induction ps rule: flat.induct) auto

lemma flat_append [simp]: "flat (ps @ qs) = flat ps @ flat qs"
  by (induction ps rule: flat.induct) auto

lemma flat_nth: "i < length ps \<Longrightarrow> flat ps ! (i * 2) = fst (ps ! i) \<and> flat ps ! Suc (i * 2) = snd (ps ! i)"
  by (induction ps arbitrary: i rule: flat.induct) (auto simp: nth_Cons split: nat.splits)

lemma flat_update: "i < length ps \<Longrightarrow> (flat ps)[Suc (i * 2) := v] = flat (ps[i := (fst (ps ! i), v)])"
  by (induction ps arbitrary: i rule: flat.induct) (auto split: nat.splits)

lemma find_header_flat:
  "case find_header (flat ps) (length ps) key i of
     Inl e \<Rightarrow> False
   | Inr None \<Rightarrow> \<forall>j < length ps. i \<le> j \<longrightarrow> fst (ps ! j) \<noteq> key
   | Inr (Some p) \<Rightarrow> \<exists>j < length ps. p = j * 2 \<and> i \<le> j \<and> fst (ps ! j) = key \<and>
       (\<forall>m < j. i \<le> m \<longrightarrow> fst (ps ! m) \<noteq> key)"
proof (induction "length ps - i" arbitrary: i)
  case 0
  then show ?case by (simp add: find_header.simps)
next
  case (Suc n)
  then have i: "i < length ps" by simp
  show ?case
  proof (cases "fst (ps ! i) = key")
    case True
    then show ?thesis using i flat_nth [OF i] by (auto simp: find_header.simps [of _ _ _ i])
  next
    case False
    then have "find_header (flat ps) (length ps) key i = find_header (flat ps) (length ps) key (i + 1)"
      using i flat_nth [OF i] by (simp add: find_header.simps [of _ _ _ i])
    moreover have "i \<le> j \<longleftrightarrow> j = i \<or> i + 1 \<le> j" for j by auto
    moreover have "case find_header (flat ps) (length ps) key (i + 1) of
        Inl e \<Rightarrow> False
      | Inr None \<Rightarrow> \<forall>j < length ps. i + 1 \<le> j \<longrightarrow> fst (ps ! j) \<noteq> key
      | Inr (Some p) \<Rightarrow> \<exists>j < length ps. p = j * 2 \<and> i + 1 \<le> j \<and> fst (ps ! j) = key \<and>
          (\<forall>m < j. i + 1 \<le> m \<longrightarrow> fst (ps ! m) \<noteq> key)"
      using Suc(1) [of "i + 1"] Suc(2) by simp
    ultimately show ?thesis
      using False by (cases "find_header (flat ps) (length ps) key (i + 1)") (force split: option.splits)+
  qed
qed

lemma map_of_None_nth: "\<forall>j < length ps. fst (ps ! j) \<noteq> k \<Longrightarrow> map_of ps k = None"
  by (metis fst_conv in_set_conv_nth map_of_SomeD not_Some_eq)

lemma map_of_set_first:
  "i < length ps \<Longrightarrow> fst (ps ! i) = k \<Longrightarrow> \<forall>j < i. fst (ps ! j) \<noteq> k \<Longrightarrow>
   map_of (ps[i := (k, v)]) = (map_of ps)(k \<mapsto> v)"
proof (induction ps arbitrary: i)
  case (Cons p ps)
  show ?case
  proof (cases i)
    case 0
    then show ?thesis using Cons.prems by (cases p) auto
  next
    case (Suc n)
    have "fst p \<noteq> k" "\<forall>j < n. fst (ps ! j) \<noteq> k" using Cons.prems(3) Suc by auto
    then show ?thesis using Cons Suc by (cases p) (auto simp: fun_upd_twist)
  qed
qed simp

lemma set_header_ok:
  assumes "headers_ok req ps"
  shows "\<exists>req' ps'. http_req_set_header key v req = Inr req' \<and> headers_ok req' ps' \<and>
    map_of ps' = (map_of ps)(key \<mapsto> v) \<and> map fst ps' = map fst ps @ (if map_of ps key = None then [key] else [])"
proof -
  have hs: "hr_headers req = flat ps" "hr_header_count req = length ps" using assms by (simp_all add: headers_ok_def)
  note find = find_header_flat [where ps = ps and key = key and i = 0]
  show ?thesis
  proof (cases "find_header (flat ps) (length ps) key 0")
    case (Inr r)
    show ?thesis
    proof (cases r)
      case None
      then have "\<forall>j < length ps. fst (ps ! j) \<noteq> key" using find Inr by simp
      then have n: "map_of ps key = None" by (rule map_of_None_nth)
      have "http_req_set_header key v req = Inr (req\<lparr>hr_headers := flat (ps @ [(key, v)]),
          hr_header_count := length (ps @ [(key, v)])\<rparr>)"
        using Inr None hs
        by (simp add: http_req_set_header_def header_find_def Let_def list_update_append numeral_2_eq_2)
      moreover have "map_of (ps @ [(key, v)]) = (map_of ps)(key \<mapsto> v)"
        using n by (auto simp: fun_eq_iff map_add_def split: option.splits)
      ultimately show ?thesis using n by (intro exI [of _ "ps @ [(key, v)]"] exI) (auto simp: headers_ok_def)
    next
      case (Some p)
      then obtain j where
        j: "j < length ps" "p = j * 2" "fst (ps ! j) = key" "\<forall>m < j. fst (ps ! m) \<noteq> key" using find Inr by auto
      have "http_req_set_header key v req = Inr (req\<lparr>hr_headers := flat (ps[j := (key, v)])\<rparr>)"
        using Inr Some hs j flat_update [OF j(1), of v] by (simp add: http_req_set_header_def header_find_def)
      moreover have "map_of (ps[j := (key, v)]) = (map_of ps)(key \<mapsto> v)" using map_of_set_first [OF j(1,3,4)] .
      moreover have "map fst (ps[j := (key, v)]) = map fst ps" using j by (metis fst_conv list_update_id map_update nth_map)
      moreover have "map_of ps key \<noteq> None" using j(1,3) nth_mem [OF j(1)] by (auto simp: map_of_eq_None_iff)
      ultimately show ?thesis using hs by (intro exI [of _ "ps[j := (key, v)]"] exI) (auto simp: headers_ok_def)
    qed
  qed (use find in simp)
qed

text \<open>The value a request has for a key.\<close>

definition header_value :: "string \<Rightarrow> 'c http_req_t \<Rightarrow> string option res" where
  "header_value key req =
     bind_res (header_find (hr_headers req) (hr_header_count req) key) (\<lambda>p.
     Inr (map_option (\<lambda>i. hr_headers req ! (i + 1)) p))"

lemma header_value_ok:
  assumes "headers_ok req ps"
  shows "header_value key req = Inr (map_of ps key)"
proof -
  have hs: "hr_headers req = flat ps" "hr_header_count req = length ps" using assms by (simp_all add: headers_ok_def)
  note find = find_header_flat [where ps = ps and key = key and i = 0]
  show ?thesis
  proof (cases "find_header (flat ps) (length ps) key 0")
    case (Inr r)
    show ?thesis
    proof (cases r)
      case None
      then have "map_of ps key = None" using find Inr by (intro map_of_None_nth) simp
      then show ?thesis using hs Inr None by (simp add: header_value_def header_find_def)
    next
      case (Some p)
      then obtain j where
        j: "j < length ps" "p = j * 2" "fst (ps ! j) = key" "\<forall>m < j. fst (ps ! m) \<noteq> key" using find Inr by auto
      have "map_of (ps[j := (key, snd (ps ! j))]) = (map_of ps)(key \<mapsto> snd (ps ! j))"
        by (rule map_of_set_first [OF j(1,3,4)])
      moreover have "ps[j := (key, snd (ps ! j))] = ps" using j by (metis list_update_id prod.collapse)
      ultimately have "map_of ps key = Some (snd (ps ! j))" by (metis fun_upd_same)
      then show ?thesis using hs Inr Some j(2) flat_nth [OF j(1)] by (simp add: header_value_def header_find_def)
    qed
  qed (use find in simp)
qed

text \<open>The headers of a request (http.c, \<^verbatim>\<open>http_req_set_header\<close>): after any sequence of calls on a new
  request, without any access outside the array, each key has the value it was last set to and
  is stored once, in the order in which the keys were first set.\<close>
theorem http_headers_map:
  "\<exists>req ps. fold_res (\<lambda>(k, v). http_req_set_header k v) sets (http_req_new :: 'c http_req_t) = Inr req \<and>
     hr_headers req = flat ps \<and> hr_header_count req = length ps \<and> map fst ps = rev (remdups (rev (map fst sets))) \<and>
     (\<forall>k. header_value k req = Inr (map_of (rev sets) k))"
proof -
  have "\<exists>req ps. fold_res (\<lambda>(k, v). http_req_set_header k v) sets (http_req_new :: 'c http_req_t) = Inr req \<and>
     headers_ok req ps \<and> map fst ps = rev (remdups (rev (map fst sets))) \<and> map_of ps = map_of (rev sets)"
  proof (induction sets rule: rev_induct)
    case Nil
    then show ?case by (simp add: headers_ok_def http_req_new_def)
  next
    case (snoc x sets)
    obtain k v where x: "x = (k, v)" by force
    from snoc obtain req :: "'c http_req_t" and ps where
      r: "fold_res (\<lambda>(k, v). http_req_set_header k v) sets http_req_new = Inr req" "headers_ok req ps"
        "map fst ps = rev (remdups (rev (map fst sets)))" "map_of ps = map_of (rev sets)" by blast
    from set_header_ok [OF r(2), of k v] obtain req' ps' where
      s: "http_req_set_header k v req = Inr req'" "headers_ok req' ps'" "map_of ps' = (map_of ps)(k \<mapsto> v)"
        "map fst ps' = map fst ps @ (if map_of ps k = None then [k] else [])" by blast
    have "map_of ps k = None \<longleftrightarrow> k \<notin> set (map fst sets)" using r(4) by (auto simp: map_of_eq_None_iff)
    then have "map fst ps' = rev (remdups (rev (map fst (sets @ [x]))))" using r(3) s(4) by (simp add: x)
    moreover have "map_of ps' = map_of (rev (sets @ [x]))" using r(4) s(3) by (simp add: x)
    moreover have "fold_res (\<lambda>(k, v). http_req_set_header k v) (sets @ [x]) http_req_new = Inr req'"
      using r(1) s(1) by (simp add: x fold_res_append)
    ultimately show ?case using s(2) by blast
  qed
  then obtain req :: "'c http_req_t" and ps where
    "fold_res (\<lambda>(k, v). http_req_set_header k v) sets http_req_new = Inr req" and ok: "headers_ok req ps" and
    "map fst ps = rev (remdups (rev (map fst sets)))" "map_of ps = map_of (rev sets)" by blast
  then show ?thesis using header_value_ok [OF ok] ok unfolding headers_ok_def by (intro exI [of _ req] exI [of _ ps]) simp
qed

section \<open>The connection\<close>

fun makes_progress :: "write_result list \<Rightarrow> nat" where
  "makes_progress [] = 0"
| "makes_progress (wr_count n # rs) = n + makes_progress rs"
| "makes_progress (_ # rs) = makes_progress rs"

lemma send_loop_sends:
  assumes "wr_error \<notin> set rs" "length buf \<le> makes_progress rs"
  shows "\<exists>rs'. send_loop buf rs = Some (Inr (buf, rs'))"
  using assms
proof (induction buf rs rule: send_loop.induct)
  case (5 c buf n rs)
  let ?w = "min n (length (c # buf))"
  have "length (drop ?w (c # buf)) \<le> makes_progress rs" using 5(3) by simp
  with 5(1) [of ?w] 5(2) obtain rs' where "send_loop (drop ?w (c # buf)) rs = Some (Inr (drop ?w (c # buf), rs'))"
    by auto
  then show ?case by (simp only: send_loop.simps Let_def) (metis append_take_drop_id bind_res_simps(2) option.map(2) prod.case)
qed auto

lemma send_loop_only:
  "send_loop buf rs = Some (Inr (out, rs')) \<Longrightarrow> out = buf"
proof (induction buf rs arbitrary: out rule: send_loop.induct)
  case (5 c buf n rs)
  then show ?case by (auto simp: Let_def) (metis append_take_drop_id)
qed auto

text \<open>Sending (http.c, \<^verbatim>\<open>sock_send_buf\<close>): however the kernel cuts the writes and however often it
  interrupts them, the loop ends once the kernel has taken as many bytes as there are, and it then
  has sent exactly the bytes of the buffer; it never ends before that.\<close>
theorem sock_send_buf_sends:
  assumes "0 \<le> s" "wr_error \<notin> set rs"
  shows "(length buf \<le> makes_progress rs \<longrightarrow> (\<exists>rs'. sock_send_buf (Some s) buf rs = Some (Inr (buf, rs')))) \<and>
    (\<forall>out rs'. sock_send_buf (Some s) buf rs = Some (Inr (out, rs')) \<longrightarrow> out = buf)"
  using assms send_loop_sends [of rs buf] send_loop_only by (auto simp: sock_send_buf_def)

theorem sock_send_buf_sends_witness:
  "\<exists>rs'. sock_send_buf (Some 3) ''hello'' [wr_count 2, wr_eintr, wr_count 9, wr_eintr] = Some (Inr (''hello'', rs'))"
  using sock_send_buf_sends [of 3 "[wr_count 2, wr_eintr, wr_count 9, wr_eintr]" "''hello''"] by simp

text \<open>The blocks a stream of bytes is cut into.\<close>

function blocks :: "string \<Rightarrow> string list" where
  "blocks s = (if length s < BUF_SIZE then [s] else take BUF_SIZE s # blocks (drop BUF_SIZE s))"
  by pat_completeness auto
termination by (relation "measure length") (auto simp: BUF_SIZE_def)

declare blocks.simps [simp del]

lemma blocks_concat: "concat (blocks s) = s"
  by (induction s rule: blocks.induct) (simp add: blocks.simps)

lemma blocks_sizes:
  "\<exists>bs b. blocks s = bs @ [b] \<and> (\<forall>x \<in> set bs. length x = BUF_SIZE) \<and> length b < BUF_SIZE"
proof (induction s rule: blocks.induct)
  case (1 s)
  show ?case
  proof (cases "length s < BUF_SIZE")
    case True
    then show ?thesis by (intro exI [of _ "[]"] exI [of _ s]) (simp add: blocks.simps)
  next
    case False
    with 1 obtain bs b where "blocks (drop BUF_SIZE s) = bs @ [b]" "\<forall>x \<in> set bs. length x = BUF_SIZE"
      "length b < BUF_SIZE" by blast
    with False show ?thesis
      by (intro exI [of _ "take BUF_SIZE s # bs"] exI [of _ b]) (simp add: blocks.simps [of s])
  qed
qed

text \<open>Segments that arrive, and the end of the stream behind them.\<close>

definition stream :: "string list \<Rightarrow> read_result list" where
  "stream ss = map rd_data ss @ [rd_data []]"

lemma slurp_block_stream:
  assumes "[] \<notin> set ss" "length buf < BUF_SIZE"
  shows "let all = buf @ concat ss in
    (length all < BUF_SIZE \<longrightarrow> slurp_block buf (stream ss) = Some (Inr (all, False, []))) \<and>
    (BUF_SIZE \<le> length all \<longrightarrow> (\<exists>ss'. slurp_block buf (stream ss) = Some (Inr (take BUF_SIZE all, True, stream ss')) \<and>
       [] \<notin> set ss' \<and> concat ss' = drop BUF_SIZE all))"
  using assms
proof (induction ss arbitrary: buf)
  case Nil
  then show ?case by (simp add: stream_def)
next
  case (Cons s ss)
  show ?case
  proof (cases "length s < BUF_SIZE - length buf")
    case True
    then have "slurp_block buf (stream (s # ss)) = slurp_block (buf @ s) (stream ss)"
      using Cons.prems(1) by (auto simp: stream_def)
    then show ?thesis using Cons.IH [of "buf @ s"] Cons.prems(1) True by (simp add: Let_def)
  next
    case False
    let ?r = "BUF_SIZE - length buf"
    let ?ss = "if length s > ?r then drop ?r s # ss else ss"
    have "slurp_block buf (stream (s # ss)) = Some (Inr (buf @ take ?r s, True, stream ?ss))"
      using False Cons.prems(1) by (auto simp: stream_def Let_def)
    moreover have "buf @ take ?r s = take BUF_SIZE (buf @ concat (s # ss))"
      using False Cons.prems(2) by simp
    ultimately have "slurp_block buf (stream (s # ss)) =
        Some (Inr (take BUF_SIZE (buf @ concat (s # ss)), True, stream ?ss))" by simp
    moreover have "[] \<notin> set ?ss" "concat ?ss = drop BUF_SIZE (buf @ concat (s # ss))"
      using False Cons.prems by auto
    moreover have "\<not> length (buf @ concat (s # ss)) < BUF_SIZE" using False Cons.prems(2) by simp
    ultimately show ?thesis unfolding Let_def by blast
  qed
qed

lemma slurp_loop_stream:
  assumes "[] \<notin> set ss"
  shows "slurp_loop (Some f) (stream ss) ctxt = Some (Inr (fold f (blocks (concat ss)) ctxt))"
  using assms
proof (induction "length (concat ss)" arbitrary: ss ctxt rule: less_induct)
  case less
  have pos: "length ([] :: string) < BUF_SIZE" by (simp add: BUF_SIZE_def)
  note block = slurp_block_stream [OF less.prems pos, unfolded Let_def append_Nil]
  show ?case
  proof (cases "length (concat ss) < BUF_SIZE")
    case True
    then show ?thesis using block by (simp add: slurp_loop.simps [of _ "stream ss"] blocks.simps [of "concat ss"])
  next
    case False
    with block obtain ss' where
      "slurp_block [] (stream ss) = Some (Inr (take BUF_SIZE (concat ss), True, stream ss'))"
      "[] \<notin> set ss'" "concat ss' = drop BUF_SIZE (concat ss)" by auto
    moreover from this have "length (concat ss') < length (concat ss)"
      using False pos by (simp del: length_concat)
    ultimately show ?thesis
      using less.hyps [of ss' "f (take BUF_SIZE (concat ss)) ctxt"] False
      by (simp add: slurp_loop.simps [of _ "stream ss"] blocks.simps [of "concat ss"] del: length_concat)
  qed
qed

text \<open>Receiving (http.c, \<^verbatim>\<open>sock_slurp\<close>): when the stream ends without an error, however its bytes arrive,
  the loop ends, and the callback has been given exactly these bytes in order, in blocks of which
  all but the last have 1024 bytes and the last has fewer.\<close>
theorem sock_slurp_delivers:
  assumes "[] \<notin> set ss" "sock \<noteq> -1"
  shows "\<exists>bs b. sock_slurp sock (stream ss) (http_req_set_data_cb f ctxt req) =
      Some (Inr ((http_req_set_data_cb f ctxt req)\<lparr>hr_data_cb_ctxt := fold f (bs @ [b]) ctxt, hr_state := http_req_state_DONE\<rparr>)) \<and>
    concat bs @ b = concat ss \<and> (\<forall>x \<in> set bs. length x = 1024) \<and> length b < 1024"
proof -
  obtain bs b where bs: "blocks (concat ss) = bs @ [b]" "\<forall>x \<in> set bs. length x = BUF_SIZE" "length b < BUF_SIZE"
    using blocks_sizes by blast
  have "concat bs @ b = concat ss" using blocks_concat [of "concat ss"] bs(1) by simp
  then show ?thesis
    using bs slurp_loop_stream [OF assms(1), of f ctxt] assms(2)
    by (auto simp: sock_slurp_def http_req_set_data_cb_def BUF_SIZE_def)
qed

theorem sock_slurp_delivers_witness:
  "\<exists>bs b. sock_slurp 3 (stream [''ab'', ''c'']) (http_req_set_data_cb (\<lambda>s c. map_option (\<lambda>t. t @ s) c) (Some '''') http_req_new) =
      Some (Inr ((http_req_set_data_cb (\<lambda>s c. map_option (\<lambda>t. t @ s) c) (Some '''') http_req_new)\<lparr>
        hr_data_cb_ctxt := fold (\<lambda>s c. map_option (\<lambda>t. t @ s) c) (bs @ [b]) (Some ''''), hr_state := http_req_state_DONE\<rparr>)) \<and>
    concat bs @ b = ''abc''"
  using sock_slurp_delivers [of "[''ab'', ''c'']" 3 "\<lambda>s c. map_option (\<lambda>t. t @ s) c" "Some ''''" http_req_new] by auto

lemma make_req_string_fails: "\<exists>e. make_req_string req = Inl e"
proof -
  obtain buf where buf: "string_buffer_new = Inr buf" "sb_holds buf ''''" using sb_new_holds by blast
  show ?thesis
    unfolding make_req_string_def buf(1) using append_literal [OF buf(2), of "''GET ''"]
    by (cases "bind_res (the_uri req) uri_get_path") auto
qed

text \<open>Requests (http.c, \<^verbatim>\<open>http_req_send\<close>): whatever the request and the network, no request is ever sent:
  the text of the request is built by appending string literals to a string buffer, which frees
  them.\<close>
theorem http_req_send_fails: "\<exists>e. http_req_send gai ws rs req = Some (Inl e)"
proof (cases "establish_connection gai req")
  case (Inr r)
  then obtain sock req' where "establish_connection gai req = Inr (sock, req')" by (cases r) auto
  then show ?thesis using make_req_string_fails [of req'] by (auto simp: http_req_send_def)
qed (simp add: http_req_send_def)

end
