(* ===== verification/Hash_Table.thy ===== *)
theory Hash_Table
  imports Prelude Complex_Main
begin

text \<open>
  The chained hash table with its iterator (\<^verbatim>\<open>src/scrap/hash_table.c\<close>). A chain is the list of its
  entries, the table of chains a list of lists. Sizes and counts are C \<^verbatim>\<open>unsigned\<close>; a
  \<^verbatim>\<open>double\<close> is the rational number it stands for, and \<open>rnd\<close> is the rounding of a quotient to a
  \<^verbatim>\<open>double\<close>. \<open>alloc n\<close> says whether \<^verbatim>\<open>calloc\<close> returns a block when it is asked for \<open>n\<close> pointers.
\<close>

unbundle bit_operations_syntax

section \<open>hash\_djb2\<close>

type_synonym hash_t = "32 word"

text \<open>A plain \<^verbatim>\<open>char\<close> is signed; it is converted to \<^verbatim>\<open>uint32_t\<close> when it is added.\<close>

definition schar :: "char \<Rightarrow> int" where
  "schar c = (let n = of_char c in if n < 128 then n else n - 256)"

fun hash_loop :: "hash_t \<Rightarrow> string \<Rightarrow> hash_t" where
  "hash_loop h [] = h"
| "hash_loop h (c # str) = hash_loop ((push_bit 5 h + h) + word_of_int (schar c)) str"

definition hash_djb2 :: "string \<Rightarrow> hash_t" where
  "hash_djb2 str = hash_loop 5381 str"

section \<open>The table\<close>

type_synonym 'd chain = "(string \<times> 'd) list"

record 'd hash_table_t =
  ht_size :: "32 word"
  ht_count :: "32 word"
  max_load :: rat
  min_load :: rat
  ht_entries :: "'d chain list"

definition c_initial_size :: "32 word" where "c_initial_size = 16"

definition hash_table_new :: "rat \<Rightarrow> rat \<Rightarrow> 'd hash_table_t" where
  "hash_table_new maxl minl = \<lparr>ht_size = c_initial_size, ht_count = 0, max_load = maxl, min_load = minl,
     ht_entries = replicate (unat c_initial_size) []\<rparr>"

definition hash_table_delete :: "'d hash_table_t \<Rightarrow> unit res" where
  "hash_table_delete tbl = c_assert (ht_count tbl = 0)"

text \<open>The index \<^verbatim>\<open>hash(key) % len\<close>, and the chain there.\<close>

definition chain_index :: "32 word \<Rightarrow> string \<Rightarrow> nat res" where
  "chain_index len key = (if len = 0 then Inl DivZero else Inr (unat (hash_djb2 key mod len)))"

definition chain_at :: "'d chain list \<Rightarrow> nat \<Rightarrow> 'd chain res" where
  "chain_at entries i = (if i < length entries then Inr (entries ! i) else Inl OutOfBounds)"

definition add_to_entries :: "32 word \<Rightarrow> string \<Rightarrow> 'd \<Rightarrow> 'd chain list \<Rightarrow> 'd chain list res" where
  "add_to_entries entries_len key data entries =
     bind_res (chain_index entries_len key) (\<lambda>i.
     bind_res (chain_at entries i) (\<lambda>oe. Inr (entries[i := (key, data) # oe])))"

definition hash_table_get_size :: "'d hash_table_t \<Rightarrow> 32 word" where "hash_table_get_size tbl = ht_size tbl"

definition hash_table_get_count :: "'d hash_table_t \<Rightarrow> 32 word" where "hash_table_get_count tbl = ht_count tbl"

definition hash_table_get_load_factor :: "(rat \<Rightarrow> rat) \<Rightarrow> 'd hash_table_t \<Rightarrow> rat" where
  "hash_table_get_load_factor rnd tbl = rnd (of_nat (unat (ht_count tbl)) / of_nat (unat (ht_size tbl)))"

definition hash_table_resize :: "(nat \<Rightarrow> bool) \<Rightarrow> 'd hash_table_t \<Rightarrow> 32 word \<Rightarrow> 'd hash_table_t res" where
  "hash_table_resize alloc tbl new_size =
     (if \<not> alloc (unat new_size) then Inr tbl
      else let old = concat (take (unat (ht_size tbl)) (ht_entries tbl)) in
        bind_res (fold_res (\<lambda>(key, data). add_to_entries new_size key data) old
                    (replicate (unat new_size) [])) (\<lambda>entries.
        bind_res (c_assert (word_of_nat (length old) = ht_count tbl)) (\<lambda>_.
        Inr (tbl\<lparr>ht_size := new_size, ht_entries := entries\<rparr>))))"

definition hash_table_add ::
  "(nat \<Rightarrow> bool) \<Rightarrow> (rat \<Rightarrow> rat) \<Rightarrow> string \<Rightarrow> 'd \<Rightarrow> 'd hash_table_t \<Rightarrow> 'd hash_table_t res" where
  "hash_table_add alloc rnd key data tbl =
     bind_res (add_to_entries (ht_size tbl) key data (ht_entries tbl)) (\<lambda>entries.
     let tbl = tbl\<lparr>ht_entries := entries, ht_count := ht_count tbl + 1\<rparr> in
     if hash_table_get_load_factor rnd tbl > max_load tbl
     then hash_table_resize alloc tbl (ht_size tbl * 2)
     else Inr tbl)"

fun find_entry :: "string \<Rightarrow> 'd chain \<Rightarrow> 'd option" where
  "find_entry key [] = None"
| "find_entry key ((k, d) # e) = (if k = key then Some d else find_entry key e)"

definition hash_table_find :: "string \<Rightarrow> 'd hash_table_t \<Rightarrow> 'd option res" where
  "hash_table_find key tbl =
     bind_res (chain_index (ht_size tbl) key) (\<lambda>i.
     bind_res (chain_at (ht_entries tbl) i) (\<lambda>e. Inr (find_entry key e)))"

text \<open>The loop behind the first entry looks at the entry behind the current one.\<close>

fun del_behind :: "string \<Rightarrow> string \<times> 'd \<Rightarrow> 'd chain \<Rightarrow> int \<times> 'd chain" where
  "del_behind key e [] = (0, [e])"
| "del_behind key e (n # ns) =
     (if fst n = key then (1, e # ns)
      else let (rc, es) = del_behind key n ns in (rc, e # es))"

fun del_entry :: "string \<Rightarrow> 'd chain \<Rightarrow> int \<times> 'd chain" where
  "del_entry key [] = (0, [])"
| "del_entry key (e # es) = (if fst e = key then (1, es) else del_behind key e es)"

definition hash_table_del ::
  "(nat \<Rightarrow> bool) \<Rightarrow> (rat \<Rightarrow> rat) \<Rightarrow> string \<Rightarrow> 'd hash_table_t \<Rightarrow> (int \<times> 'd hash_table_t) res" where
  "hash_table_del alloc rnd key tbl =
     bind_res (chain_index (ht_size tbl) key) (\<lambda>i.
     bind_res (chain_at (ht_entries tbl) i) (\<lambda>oe.
     let (rc, e) = del_entry key oe; tbl = tbl\<lparr>ht_entries := (ht_entries tbl)[i := e]\<rparr> in
     if rc \<noteq> 0
     then let tbl = tbl\<lparr>ht_count := ht_count tbl - 1\<rparr> in
       bind_res (if hash_table_get_load_factor rnd tbl < min_load tbl
                 then hash_table_resize alloc tbl (ht_size tbl div 2)
                 else Inr tbl) (\<lambda>tbl. Inr (rc, tbl))
     else Inr (rc, tbl)))"

section \<open>The iterator\<close>

text \<open>The current entry is the rest of its chain.\<close>

record 'd hash_table_iterator_t =
  iter_slot :: nat
  iter_entry :: "'d chain"
  iter_end :: bool

text \<open>The loop of \<^verbatim>\<open>hash_table_iterator_find_first\<close>: the entry and the index behind it.\<close>

function first_loop :: "'d hash_table_t \<Rightarrow> nat \<Rightarrow> ('d chain \<times> nat) res" where
  "first_loop tbl s =
     bind_res (chain_at (ht_entries tbl) s) (\<lambda>e.
     if e = [] \<and> s + 1 < unat (ht_size tbl) then first_loop tbl (s + 1) else Inr (e, s + 1))"
  by pat_completeness auto
termination by (relation "measure (\<lambda>(tbl, s). unat (ht_size tbl) - s)") auto

definition hash_table_iterator_find_first :: "'d hash_table_t \<Rightarrow> 'd hash_table_iterator_t res" where
  "hash_table_iterator_find_first tbl =
     bind_res (first_loop tbl 0) (\<lambda>(e, s).
     if s < unat (ht_size tbl) then Inr \<lparr>iter_slot = s - 1, iter_entry = e, iter_end = False\<rparr>
     else Inr \<lparr>iter_slot = 0, iter_entry = [], iter_end = True\<rparr>)"

definition hash_table_iterator_new :: "'d hash_table_t \<Rightarrow> 'd hash_table_iterator_t res" where
  "hash_table_iterator_new tbl = hash_table_iterator_find_first tbl"

definition hash_table_iterator_current_key :: "'d hash_table_iterator_t \<Rightarrow> string option res" where
  "hash_table_iterator_current_key iter =
     (if iter_end iter then Inr None
      else case iter_entry iter of [] \<Rightarrow> Inl NullDeref | (k, d) # _ \<Rightarrow> Inr (Some k))"

definition hash_table_iterator_current_data :: "'d hash_table_iterator_t \<Rightarrow> 'd option res" where
  "hash_table_iterator_current_data iter =
     (if iter_end iter then Inr None
      else case iter_entry iter of [] \<Rightarrow> Inl NullDeref | (k, d) # _ \<Rightarrow> Inr (Some d))"

function next_loop :: "'d hash_table_t \<Rightarrow> nat \<Rightarrow> ('d chain \<times> nat) res" where
  "next_loop tbl s =
     (if s < unat (ht_size tbl)
      then bind_res (chain_at (ht_entries tbl) s) (\<lambda>e. if e = [] then next_loop tbl (s + 1) else Inr (e, s))
      else Inr ([], s))"
  by pat_completeness auto
termination by (relation "measure (\<lambda>(tbl, s). unat (ht_size tbl) - s)") auto

definition hash_table_iterator_next ::
  "'d hash_table_t \<Rightarrow> 'd hash_table_iterator_t \<Rightarrow> (int \<times> 'd hash_table_iterator_t) res" where
  "hash_table_iterator_next tbl iter =
     (case iter_entry iter of
        [] \<Rightarrow> Inl AssertFail
      | e # nxt \<Rightarrow>
          if nxt \<noteq> [] then Inr (1, iter\<lparr>iter_entry := nxt\<rparr>)
          else bind_res (next_loop tbl (iter_slot iter + 1)) (\<lambda>(e, s).
               if s < unat (ht_size tbl) then Inr (1, iter\<lparr>iter_slot := s, iter_entry := e\<rparr>)
               else Inr (0, iter\<lparr>iter_end := True\<rparr>)))"

definition hash_table_iterator_at_end :: "'d hash_table_iterator_t \<Rightarrow> bool" where
  "hash_table_iterator_at_end iter = iter_end iter"

declare first_loop.simps [simp del] next_loop.simps [simp del]

section \<open>The hash function\<close>

text \<open>The sum the hash stands for: each step multiplies by 33 and adds the character.\<close>

lemma push_bit_5: "push_bit 5 h + h = (33 :: 32 word) * h"
  by (simp add: push_bit_eq_mult mult.commute)

lemma hash_loop_poly:
  "hash_loop h str = h * 33 ^ length str +
     (\<Sum>i < length str. word_of_int (schar (str ! i)) * 33 ^ (length str - 1 - i))"
proof (induction str arbitrary: h)
  case (Cons c str)
  have "(\<Sum>i < length (c # str). word_of_int (schar ((c # str) ! i)) * 33 ^ (length (c # str) - 1 - i)) =
      word_of_int (schar c) * 33 ^ length str +
      (\<Sum>i < length str. word_of_int (schar (str ! i)) * (33 :: 32 word) ^ (length str - 1 - i))"
    unfolding length_Cons sum.lessThan_Suc_shift by simp
  then show ?case using Cons.IH by (simp add: push_bit_5 distrib_right mult.assoc)
qed simp

text \<open>C29. The hash function (hash\_table.c, \<^verbatim>\<open>hash_djb2\<close>): the loop of shifts and additions computes, modulo
  \<open>2\<^sup>3\<^sup>2\<close>, the polynomial with the coefficients 5381 and the characters (as signed numbers) at 33.\<close>
theorem hash_djb2_polynomial:
  "uint (hash_djb2 str) =
     (5381 * 33 ^ length str + (\<Sum>i < length str. schar (str ! i) * 33 ^ (length str - 1 - i))) mod 2 ^ 32"
proof -
  have "hash_djb2 str = word_of_int (5381 * 33 ^ length str +
      (\<Sum>i < length str. schar (str ! i) * 33 ^ (length str - 1 - i)))"
    by (simp add: hash_djb2_def hash_loop_poly of_int_add [symmetric] of_int_sum [symmetric])
  then show ?thesis by (simp only: uint_word_of_int) simp
qed

section \<open>The table as a map\<close>

text \<open>
  Every chain holds the keys that hash to its index, each key once, and the count is the number of
  entries.
\<close>

definition ht_index :: "'d hash_table_t \<Rightarrow> string \<Rightarrow> nat" where
  "ht_index tbl key = unat (hash_djb2 key mod ht_size tbl)"

definition chains_ok :: "32 word \<Rightarrow> 'd chain list \<Rightarrow> bool" where
  "chains_ok len entries \<longleftrightarrow> len \<noteq> 0 \<and> length entries = unat len \<and>
     (\<forall>i < length entries. \<forall>e \<in> set (entries ! i). unat (hash_djb2 (fst e) mod len) = i)"

definition ht_inv :: "'d hash_table_t \<Rightarrow> bool" where
  "ht_inv tbl \<longleftrightarrow> unat (ht_size tbl) < 2 ^ 31 \<and> chains_ok (ht_size tbl) (ht_entries tbl) \<and>
     distinct (map fst (concat (ht_entries tbl))) \<and>
     ht_count tbl = word_of_nat (length (concat (ht_entries tbl)))"

definition ht_lookup :: "'d hash_table_t \<Rightarrow> string \<rightharpoonup> 'd" where
  "ht_lookup tbl = map_of (concat (ht_entries tbl))"

lemma find_entry_map_of: "find_entry key es = map_of es key"
  by (induction key es rule: find_entry.induct) auto

lemma index_less: "len \<noteq> 0 \<Longrightarrow> unat (hash_djb2 key mod len) < unat len"
  by (simp add: word_less_nat_alt [symmetric] word_mod_less_divisor word_gt_0)

lemma chains_ok_index:
  "chains_ok len entries \<Longrightarrow> chain_index len key = Inr (unat (hash_djb2 key mod len))"
  "chains_ok len entries \<Longrightarrow> chain_at entries (unat (hash_djb2 key mod len)) =
     Inr (entries ! unat (hash_djb2 key mod len))"
  using index_less [of len key] by (auto simp: chains_ok_def chain_index_def chain_at_def)

text \<open>Only the chain of a key's index has entries for it.\<close>

lemma map_of_concat:
  "(\<And>j. j < length ess \<Longrightarrow> j \<noteq> i \<Longrightarrow> map_of (ess ! j) key = None) \<Longrightarrow> i < length ess \<Longrightarrow>
   map_of (concat ess) key = map_of (ess ! i) key"
proof (induction ess arbitrary: i)
  case (Cons es ess)
  show ?case
  proof (cases i)
    case 0
    have "map_of (ess ! j) key = None" if "j < length ess" for j
      using Cons.prems(1) [of "Suc j"] that 0 by simp
    then have "\<forall>es \<in> set ess. key \<notin> fst ` set es"
      by (metis in_set_conv_nth map_of_eq_None_iff)
    then have "map_of (concat ess) key = None" by (force simp: map_of_eq_None_iff)
    then show ?thesis using 0 by (auto simp: map_add_def split: option.splits)
  next
    case (Suc m)
    have "map_of es key = None" using Cons.prems(1) [of 0] Suc by simp
    moreover have "map_of (ess ! j) key = None" if "j < length ess" "j \<noteq> m" for j
      using Cons.prems(1) [of "Suc j"] that Suc by simp
    then have "map_of (concat ess) key = map_of (ess ! m) key"
      using Cons.IH [of m] Cons.prems(2) Suc by simp
    ultimately show ?thesis using Suc by (auto simp: map_add_def split: option.splits)
  qed
qed simp

lemma chains_ok_lookup:
  assumes "chains_ok len entries"
  shows "map_of (entries ! unat (hash_djb2 key mod len)) key = map_of (concat entries) key"
proof (rule map_of_concat [symmetric])
  show "unat (hash_djb2 key mod len) < length entries"
    using assms index_less [of len key] by (simp add: chains_ok_def)
  show "map_of (entries ! j) key = None"
    if "j < length entries" "j \<noteq> unat (hash_djb2 key mod len)" for j
    using assms that by (fastforce simp: chains_ok_def map_of_eq_None_iff)
qed

lemma concat_update:
  assumes "i < length xss"
  shows "mset (concat (xss[i := ys])) + mset (xss ! i) = mset (concat xss) + mset ys"
proof -
  have "xss = take i xss @ xss ! i # drop (Suc i) xss" by (simp add: id_take_nth_drop assms)
  then have "mset (concat xss) = mset (concat (take i xss)) + mset (xss ! i) + mset (concat (drop (Suc i) xss))"
    by (metis concat.simps(2) concat_append mset_append union_assoc)
  moreover have "mset (concat (xss[i := ys])) =
      mset (concat (take i xss)) + mset ys + mset (concat (drop (Suc i) xss))"
    by (simp add: upd_conv_take_nth_drop assms)
  ultimately show ?thesis by (simp add: ac_simps)
qed

lemma distinct_chain: "distinct (map f (concat xss)) \<Longrightarrow> i < length xss \<Longrightarrow> distinct (map f (xss ! i))"
  by (induction xss arbitrary: i) (auto simp: nth_Cons split: nat.splits)

text \<open>The contents of the table as a multiset of entries determine the map when the keys are distinct.\<close>

lemma map_of_mset:
  assumes "mset xs = mset ys" "distinct (map fst xs)"
  shows "map_of xs = map_of ys \<and> distinct (map fst ys)"
proof -
  have d: "distinct (map fst ys)"
    using assms by (metis mset_eq_imp_distinct_iff mset_map)
  moreover have "set xs = set ys" using assms(1) by (rule mset_eq_setD)
  ultimately show ?thesis using map_of_eqI [of xs ys] assms(2)
    by (metis map_of_inject_set)
qed

lemma add_to_entries_ok:
  assumes "chains_ok len entries"
  shows "\<exists>es. add_to_entries len key d entries = Inr es \<and> chains_ok len es \<and>
    mset (concat es) = add_mset (key, d) (mset (concat entries))"
proof -
  let ?i = "unat (hash_djb2 key mod len)"
  have i: "?i < length entries" using assms index_less [of len key] by (simp add: chains_ok_def)
  have "mset (concat (entries[?i := (key, d) # entries ! ?i])) = add_mset (key, d) (mset (concat entries))"
    using concat_update [OF i, of "(key, d) # entries ! ?i"] by simp
  moreover have "chains_ok len (entries[?i := (key, d) # entries ! ?i])"
    using assms i by (auto simp: chains_ok_def nth_list_update)
  ultimately show ?thesis using chains_ok_index [OF assms] by (simp add: add_to_entries_def)
qed

lemma rehash_ok:
  assumes "chains_ok len entries"
  shows "\<exists>es. fold_res (\<lambda>(key, data). add_to_entries len key data) old entries = Inr es \<and> chains_ok len es \<and>
    mset (concat es) = mset old + mset (concat entries)"
  using assms
proof (induction old arbitrary: entries)
  case (Cons e old)
  obtain k d where e: "e = (k, d)" by force
  from add_to_entries_ok [OF Cons.prems, of k d] obtain es where
    "add_to_entries len k d entries = Inr es" "chains_ok len es"
    "mset (concat es) = add_mset (k, d) (mset (concat entries))" by blast
  with Cons.IH [of es] show ?case by (auto simp: e)
qed simp

lemma chains_ok_empty: "len \<noteq> 0 \<Longrightarrow> chains_ok len (replicate (unat len) [])"
  by (simp add: chains_ok_def)

text \<open>Resizing keeps the map, whether or not there is memory for it.\<close>

lemma resize_ok:
  assumes "ht_inv tbl" "new_size \<noteq> 0" "\<forall>n. alloc n \<longrightarrow> n < 2 ^ 31"
  shows "\<exists>tbl'. hash_table_resize alloc tbl new_size = Inr tbl' \<and> ht_inv tbl' \<and>
    ht_lookup tbl' = ht_lookup tbl \<and> max_load tbl' = max_load tbl \<and> min_load tbl' = min_load tbl"
proof (cases "alloc (unat new_size)")
  case True
  let ?old = "concat (ht_entries tbl)"
  have "take (unat (ht_size tbl)) (ht_entries tbl) = ht_entries tbl"
    using assms(1) by (simp add: ht_inv_def chains_ok_def)
  moreover from rehash_ok [OF chains_ok_empty [OF assms(2)], of ?old] obtain es where
    es: "fold_res (\<lambda>(key, data). add_to_entries new_size key data) ?old (replicate (unat new_size) []) = Inr es"
      "chains_ok new_size es" "mset (concat es) = mset ?old" by auto
  moreover have "length (concat es) = length ?old" using es(3) by (rule mset_eq_length)
  moreover have "map_of (concat es) = map_of ?old" "distinct (map fst (concat es))"
    using map_of_mset [OF es(3) [symmetric]] assms(1) by (simp_all add: ht_inv_def)
  ultimately show ?thesis
    using True assms(1,3) by (auto simp: hash_table_resize_def ht_inv_def ht_lookup_def Let_def)
qed (use assms(1) in \<open>simp add: hash_table_resize_def\<close>)

lemma find_ok:
  assumes "ht_inv tbl"
  shows "hash_table_find key tbl = Inr (ht_lookup tbl key)"
proof -
  have ok: "chains_ok (ht_size tbl) (ht_entries tbl)" using assms by (simp add: ht_inv_def)
  show ?thesis
    using chains_ok_index [OF ok] chains_ok_lookup [OF ok]
    by (simp add: hash_table_find_def find_entry_map_of ht_lookup_def)
qed

lemma double_nonzero: "len \<noteq> 0 \<Longrightarrow> unat len < 2 ^ 31 \<Longrightarrow> len * 2 \<noteq> (0 :: 32 word)"
  by (simp add: unat_arith_simps unat_mult_lem [THEN iffD1])

lemma add_ok:
  assumes "ht_inv tbl" "ht_lookup tbl key = None" "\<forall>n. alloc n \<longrightarrow> n < 2 ^ 31"
  shows "\<exists>tbl'. hash_table_add alloc rnd key d tbl = Inr tbl' \<and> ht_inv tbl' \<and>
    ht_lookup tbl' = (ht_lookup tbl)(key \<mapsto> d) \<and> min_load tbl' = min_load tbl"
proof -
  have ok: "chains_ok (ht_size tbl) (ht_entries tbl)" using assms(1) by (simp add: ht_inv_def)
  from add_to_entries_ok [OF ok, of key d] obtain es where
    es: "add_to_entries (ht_size tbl) key d (ht_entries tbl) = Inr es" "chains_ok (ht_size tbl) es"
      "mset (concat es) = mset ((key, d) # concat (ht_entries tbl))" by auto
  let ?tbl = "tbl\<lparr>ht_entries := es, ht_count := ht_count tbl + 1\<rparr>"
  have "distinct (map fst ((key, d) # concat (ht_entries tbl)))"
    using assms(1,2) by (auto simp: ht_inv_def ht_lookup_def map_of_eq_None_iff)
  from map_of_mset [OF es(3) [symmetric] this] have
    m: "map_of (concat es) = (map_of (concat (ht_entries tbl)))(key \<mapsto> d)" "distinct (map fst (concat es))" by auto
  have "length (concat es) = Suc (length (concat (ht_entries tbl)))"
    using mset_eq_length [OF es(3)] by simp
  then have inv: "ht_inv ?tbl" using assms(1) es(2) m(2) by (simp add: ht_inv_def)
  have l: "ht_lookup ?tbl = (ht_lookup tbl)(key \<mapsto> d)" using m(1) by (simp add: ht_lookup_def)
  have "ht_size tbl * 2 \<noteq> 0" using assms(1) by (intro double_nonzero) (auto simp: ht_inv_def chains_ok_def)
  from resize_ok [OF inv this assms(3)] show ?thesis
    using es(1) inv l by (auto simp: hash_table_add_def Let_def)
qed

lemma del_behind_eq: "del_behind key e es = (let (rc, es') = del_entry key es in (rc, e # es'))"
  by (induction key e es rule: del_behind.induct) (auto simp: Let_def split: prod.splits)

text \<open>Deleting removes the first entry of the key.\<close>

lemma del_entry_spec:
  "del_entry key es = (if map_of es key = None then (0, es) else
     (1, takeWhile (\<lambda>e. fst e \<noteq> key) es @ tl (dropWhile (\<lambda>e. fst e \<noteq> key) es)))"
proof (induction es)
  case (Cons e es)
  then show ?case by (cases e) (auto simp: del_behind_eq split: prod.splits)
qed simp

lemma del_entry_mset:
  assumes "map_of es key = Some d" "distinct (map fst es)"
  shows "fst (del_entry key es) = 1 \<and> mset es = add_mset (key, d) (mset (snd (del_entry key es)))"
  using assms by (induction es) (auto simp: del_behind_eq split: prod.splits if_splits)

lemma map_of_remove:
  assumes "mset xs = add_mset (k, d) (mset ys)" "distinct (map fst xs)"
  shows "map_of ys = (map_of xs)(k := None) \<and> distinct (map fst ys)"
proof -
  have "map_of xs = map_of ((k, d) # ys) \<and> distinct (map fst ((k, d) # ys))"
    using map_of_mset [of xs "(k, d) # ys"] assms by simp
  moreover from this have "map_of ys k = None" by (simp add: map_of_eq_None_iff)
  ultimately show ?thesis by (auto simp: fun_eq_iff)
qed

text \<open>
  What the table needs of its environment: no block of 16 GiB is ever given out, so the size does not
  wrap, and either a block of no bytes is a null pointer or the table never shrinks.
\<close>

definition table_env :: "(nat \<Rightarrow> bool) \<Rightarrow> (rat \<Rightarrow> rat) \<Rightarrow> 'd hash_table_t \<Rightarrow> bool" where
  "table_env alloc rnd tbl \<longleftrightarrow> (\<forall>n. alloc n \<longrightarrow> n < 2 ^ 31) \<and>
     (\<not> alloc 0 \<or> min_load tbl \<le> 0 \<and> (\<forall>x \<ge> 0. 0 \<le> rnd x))"

lemma shrink_ok:
  assumes "ht_inv tbl" "table_env alloc rnd tbl"
    and "hash_table_get_load_factor rnd tbl < min_load tbl"
  shows "\<exists>tbl'. hash_table_resize alloc tbl (ht_size tbl div 2) = Inr tbl' \<and> ht_inv tbl' \<and>
    ht_lookup tbl' = ht_lookup tbl \<and> min_load tbl' = min_load tbl"
proof (cases "ht_size tbl div 2 = 0")
  case True
  have "0 \<le> (of_nat (unat (ht_count tbl)) / of_nat (unat (ht_size tbl)) :: rat)"
    by (intro divide_nonneg_nonneg of_nat_0_le_iff)
  then have "\<not> alloc 0"
    using assms(2,3) unfolding table_env_def hash_table_get_load_factor_def by (meson leD le_less_trans)
  then show ?thesis using assms(1) True by (simp add: hash_table_resize_def)
next
  case False
  then show ?thesis using resize_ok [OF assms(1) False, of alloc] assms(2) by (auto simp: table_env_def)
qed

lemma chains_ok_shrink:
  assumes "chains_ok len ess" "set es \<subseteq> set (ess ! i)"
  shows "chains_ok len (ess[i := es])"
proof -
  have "set (ess[i := es] ! j) \<subseteq> set (ess ! j)" if "j < length ess" for j
    using that assms(2) by (cases "j = i") auto
  then have "unat (hash_djb2 (fst e) mod len) = j" if "j < length ess" "e \<in> set (ess[i := es] ! j)" for j e
    using that assms(1) unfolding chains_ok_def by blast
  then show ?thesis using assms(1) by (simp add: chains_ok_def)
qed

lemma del_ok:
  assumes "ht_inv tbl" "table_env alloc rnd tbl"
  shows "\<exists>tbl'. hash_table_del alloc rnd key tbl = Inr (if ht_lookup tbl key = None then 0 else 1, tbl') \<and>
    ht_inv tbl' \<and> ht_lookup tbl' = (ht_lookup tbl)(key := None) \<and> min_load tbl' = min_load tbl"
proof -
  let ?i = "unat (hash_djb2 key mod ht_size tbl)" and ?old = "concat (ht_entries tbl)"
  let ?es = "ht_entries tbl ! ?i"
  have ok: "chains_ok (ht_size tbl) (ht_entries tbl)" and dist: "distinct (map fst ?old)"
    and count: "ht_count tbl = word_of_nat (length ?old)"
    using assms(1) by (simp_all add: ht_inv_def)
  have i: "?i < length (ht_entries tbl)" using ok index_less [of "ht_size tbl" key] by (simp add: chains_ok_def)
  note idx = chains_ok_index [OF ok, of key]
  have found: "map_of ?es key = ht_lookup tbl key" using chains_ok_lookup [OF ok] by (simp add: ht_lookup_def)
  show ?thesis
  proof (cases "ht_lookup tbl key")
    case None
    then have "del_entry key ?es = (0, ?es)" using found by (simp add: del_entry_spec)
    then show ?thesis
      using idx assms(1) None i by (auto simp: hash_table_del_def)
  next
    case (Some d)
    obtain rc es where del: "del_entry key ?es = (rc, es)" by force
    have "distinct (map fst ?es)" using dist i by (rule distinct_chain)
    from del_entry_mset [OF _ this, of key d] Some found del have
      d: "rc = 1" "mset ?es = add_mset (key, d) (mset es)" by auto
    let ?tbl = "tbl\<lparr>ht_entries := (ht_entries tbl)[?i := es], ht_count := ht_count tbl - 1\<rparr>"
    have m: "mset ?old = add_mset (key, d) (mset (concat (ht_entries ?tbl)))"
      using concat_update [OF i, of es] d(2) by (simp add: add.commute)
    have "set es \<subseteq> set ?es" using d(2) by (metis set_mset_add_mset_insert set_mset_mset subset_insertI)
    from chains_ok_shrink [OF ok this] have ok': "chains_ok (ht_size ?tbl) (ht_entries ?tbl)" by simp
    have "length ?old = Suc (length (concat (ht_entries ?tbl)))"
      using arg_cong [OF m, of size] by (simp del: length_concat)
    then have count': "ht_count ?tbl = word_of_nat (length (concat (ht_entries ?tbl)))"
      using count by (simp del: length_concat)
    from map_of_remove [OF m dist] have inv: "ht_inv ?tbl"
      unfolding ht_inv_def using ok' count' assms(1) [unfolded ht_inv_def] by (simp del: length_concat)
    from map_of_remove [OF m dist] have look: "ht_lookup ?tbl = (ht_lookup tbl)(key := None)"
      unfolding ht_lookup_def by simp
    have env: "table_env alloc rnd ?tbl" using assms(2) by (simp add: table_env_def)
    from shrink_ok [OF inv env] inv look show ?thesis
      using idx del d(1) Some by (auto simp: hash_table_del_def Let_def)
  qed
qed

section \<open>The contract of a table\<close>

datatype 'd table_op = t_add string 'd | t_del string | t_find string

datatype 'd table_result = r_added | r_deleted int | r_found "'d option"

text \<open>A run of operations, and what it should do to a map.\<close>

fun run_table ::
  "(string \<Rightarrow> 'd \<Rightarrow> 't \<Rightarrow> 't res) \<Rightarrow> (string \<Rightarrow> 't \<Rightarrow> (int \<times> 't) res) \<Rightarrow> (string \<Rightarrow> 't \<Rightarrow> 'd option res) \<Rightarrow>
   'd table_op list \<Rightarrow> 't \<Rightarrow> ('d table_result list \<times> 't) res" where
  "run_table add del get [] t = Inr ([], t)"
| "run_table add del get (op # ops) t =
     bind_res
       (case op of
          t_add key d \<Rightarrow> bind_res (add key d t) (\<lambda>t. Inr (r_added, t))
        | t_del key \<Rightarrow> bind_res (del key t) (\<lambda>(rc, t). Inr (r_deleted rc, t))
        | t_find key \<Rightarrow> bind_res (get key t) (\<lambda>d. Inr (r_found d, t))) (\<lambda>(r, t).
     bind_res (run_table add del get ops t) (\<lambda>(rs, t). Inr (r # rs, t)))"

fun map_op :: "'d table_op \<Rightarrow> (string \<rightharpoonup> 'd) \<Rightarrow> 'd table_result \<times> (string \<rightharpoonup> 'd)" where
  "map_op (t_add key d) m = (r_added, m(key \<mapsto> d))"
| "map_op (t_del key) m = (r_deleted (if m key = None then 0 else 1), m(key := None))"
| "map_op (t_find key) m = (r_found (m key), m)"

fun run_map :: "'d table_op list \<Rightarrow> (string \<rightharpoonup> 'd) \<Rightarrow> 'd table_result list \<times> (string \<rightharpoonup> 'd)" where
  "run_map [] m = ([], m)"
| "run_map (op # ops) m =
     (let (r, m) = map_op op m; (rs, m) = run_map ops m in (r # rs, m))"

text \<open>The client never adds a key that is in the table.\<close>

fun adds_fresh :: "'d table_op list \<Rightarrow> (string \<rightharpoonup> 'd) \<Rightarrow> bool" where
  "adds_fresh [] m = True"
| "adds_fresh (op # ops) m =
     ((case op of t_add key d \<Rightarrow> m key = None | _ \<Rightarrow> True) \<and> adds_fresh ops (snd (map_op op m)))"

locale map_table =
  fixes add :: "string \<Rightarrow> 'd \<Rightarrow> 't \<Rightarrow> 't res"
    and del :: "string \<Rightarrow> 't \<Rightarrow> (int \<times> 't) res"
    and get :: "string \<Rightarrow> 't \<Rightarrow> 'd option res"
    and invar :: "'t \<Rightarrow> bool"
    and lookup :: "'t \<Rightarrow> string \<rightharpoonup> 'd"
  assumes find_lookup: "invar t \<Longrightarrow> get key t = Inr (lookup t key)"
    and add_lookup: "invar t \<Longrightarrow> lookup t key = None \<Longrightarrow>
      \<exists>t'. add key d t = Inr t' \<and> invar t' \<and> lookup t' = (lookup t)(key \<mapsto> d)"
    and del_lookup: "invar t \<Longrightarrow>
      \<exists>t'. del key t = Inr (if lookup t key = None then 0 else 1, t') \<and> invar t' \<and>
        lookup t' = (lookup t)(key := None)"
begin

lemma op_refines:
  assumes "invar t" "case op of t_add key d \<Rightarrow> lookup t key = None | _ \<Rightarrow> True"
  shows "\<exists>t'. (case op of
        t_add key d \<Rightarrow> bind_res (add key d t) (\<lambda>t. Inr (r_added, t))
      | t_del key \<Rightarrow> bind_res (del key t) (\<lambda>(rc, t). Inr (r_deleted rc, t))
      | t_find key \<Rightarrow> bind_res (get key t) (\<lambda>d. Inr (r_found d, t))) = Inr (fst (map_op op (lookup t)), t') \<and>
    invar t' \<and> lookup t' = snd (map_op op (lookup t))"
proof (cases op)
  case (t_add key d)
  then show ?thesis using add_lookup [of t key d] assms by auto
next
  case (t_del key)
  then show ?thesis using del_lookup [of t key] assms by auto
next
  case (t_find key)
  then show ?thesis using find_lookup [of t key] assms by auto
qed

lemma run_refines:
  "invar t \<Longrightarrow> adds_fresh ops (lookup t) \<Longrightarrow>
   \<exists>t'. run_table add del get ops t = Inr (fst (run_map ops (lookup t)), t') \<and> invar t' \<and>
     lookup t' = snd (run_map ops (lookup t))"
proof (induction ops arbitrary: t)
  case (Cons op ops)
  from op_refines [of t op] Cons.prems obtain t1 where
    t1: "(case op of
        t_add key d \<Rightarrow> bind_res (add key d t) (\<lambda>t. Inr (r_added, t))
      | t_del key \<Rightarrow> bind_res (del key t) (\<lambda>(rc, t). Inr (r_deleted rc, t))
      | t_find key \<Rightarrow> bind_res (get key t) (\<lambda>d. Inr (r_found d, t))) = Inr (fst (map_op op (lookup t)), t1)"
    "invar t1" "lookup t1 = snd (map_op op (lookup t))" by auto
  with Cons.IH [OF t1(2)] Cons.prems(2) obtain t2 where
    "run_table add del get ops t1 = Inr (fst (run_map ops (lookup t1)), t2)" "invar t2"
    "lookup t2 = snd (run_map ops (lookup t1))" by auto
  with t1 show ?case by (auto simp: Let_def split: prod.splits)
qed simp

end

interpretation ht: map_table "hash_table_add alloc rnd" "hash_table_del alloc rnd" hash_table_find
    "\<lambda>tbl. ht_inv tbl \<and> table_env alloc rnd tbl" ht_lookup
  for alloc rnd
proof
  show "ht_inv t \<and> table_env alloc rnd t \<Longrightarrow> hash_table_find key t = Inr (ht_lookup t key)"
    for t :: "'d hash_table_t" and key
    by (simp add: find_ok)
  show "ht_inv t \<and> table_env alloc rnd t \<Longrightarrow> ht_lookup t key = None \<Longrightarrow>
      \<exists>t'. hash_table_add alloc rnd key d t = Inr t' \<and> (ht_inv t' \<and> table_env alloc rnd t') \<and>
        ht_lookup t' = (ht_lookup t)(key \<mapsto> d)" for t :: "'d hash_table_t" and key d
    using add_ok [of t key alloc rnd d] by (auto simp: table_env_def)
  show "ht_inv t \<and> table_env alloc rnd t \<Longrightarrow>
      \<exists>t'. hash_table_del alloc rnd key t = Inr (if ht_lookup t key = None then 0 else 1, t') \<and>
        (ht_inv t' \<and> table_env alloc rnd t') \<and> ht_lookup t' = (ht_lookup t)(key := None)"
    for t :: "'d hash_table_t" and key
    using del_ok [of t alloc rnd key] by (auto simp: table_env_def)
qed

lemma ht_inv_new: "ht_inv (hash_table_new maxl minl)"
  using chains_ok_empty [of c_initial_size] by (simp add: ht_inv_def hash_table_new_def c_initial_size_def)

lemma ht_lookup_new [simp]: "ht_lookup (hash_table_new maxl minl) = Map.empty"
  by (simp add: ht_lookup_def hash_table_new_def)



section \<open>Iterating\<close>

text \<open>The loop of a client: while the iterator is not at its end, take the entry and step on.\<close>

fun collect :: "nat \<Rightarrow> 'd hash_table_t \<Rightarrow> 'd hash_table_iterator_t \<Rightarrow> 'd chain res option" where
  "collect 0 tbl iter = None"
| "collect (Suc fuel) tbl iter =
     (if hash_table_iterator_at_end iter then Some (Inr [])
      else case bind_res (hash_table_iterator_current_key iter) (\<lambda>k.
                bind_res (hash_table_iterator_current_data iter) (\<lambda>d.
                bind_res (hash_table_iterator_next tbl iter) (\<lambda>(rc, iter). Inr (the k, the d, iter)))) of
             Inl e \<Rightarrow> Some (Inl e)
           | Inr (k, d, iter) \<Rightarrow> map_option (\<lambda>r. bind_res r (\<lambda>es. Inr ((k, d) # es))) (collect fuel tbl iter))"

definition iter_rest :: "'d hash_table_t \<Rightarrow> 'd hash_table_iterator_t \<Rightarrow> 'd chain" where
  "iter_rest tbl iter =
     (if iter_end iter then [] else iter_entry iter @ concat (drop (Suc (iter_slot iter)) (ht_entries tbl)))"

lemma next_loop_ok:
  assumes "length (ht_entries tbl) = unat (ht_size tbl)"
  shows "\<exists>e s'. next_loop tbl s = Inr (e, s') \<and>
    (if s' < unat (ht_size tbl)
     then e \<noteq> [] \<and> concat (drop s (ht_entries tbl)) = e @ concat (drop (Suc s') (ht_entries tbl))
     else concat (drop s (ht_entries tbl)) = [])"
  using assms
proof (induction tbl s rule: next_loop.induct)
  case (1 tbl s)
  show ?case
  proof (cases "s < unat (ht_size tbl)")
    case True
    then have at: "chain_at (ht_entries tbl) s = Inr (ht_entries tbl ! s)"
      and drop: "drop s (ht_entries tbl) = ht_entries tbl ! s # drop (Suc s) (ht_entries tbl)"
      using 1(2) by (simp_all add: chain_at_def Cons_nth_drop_Suc)
    show ?thesis
    proof (cases "ht_entries tbl ! s = []")
      case True
      then have "next_loop tbl s = next_loop tbl (s + 1)"
        "concat (drop s (ht_entries tbl)) = concat (drop (s + 1) (ht_entries tbl))"
        using at drop \<open>s < unat (ht_size tbl)\<close> by (simp_all add: next_loop.simps [of tbl s])
      then show ?thesis using 1(1) [OF \<open>s < unat (ht_size tbl)\<close> at True 1(2)] by (simp only:)
    next
      case False
      then show ?thesis using at drop True by (simp add: next_loop.simps [of tbl s])
    qed
  next
    case False
    then show ?thesis using 1(2) by (simp add: next_loop.simps [of tbl s])
  qed
qed

lemma iterator_next_ok:
  assumes "length (ht_entries tbl) = unat (ht_size tbl)" "\<not> iter_end iter" "iter_entry iter = (k, d) # es"
  shows "\<exists>rc iter'. hash_table_iterator_next tbl iter = Inr (rc, iter') \<and>
    iter_rest tbl iter = (k, d) # iter_rest tbl iter' \<and> (iter_end iter' \<or> iter_entry iter' \<noteq> [])"
proof (cases "es = []")
  case True
  from next_loop_ok [OF assms(1), of "iter_slot iter + 1"] obtain e s' where
    "next_loop tbl (iter_slot iter + 1) = Inr (e, s')"
    "if s' < unat (ht_size tbl)
     then e \<noteq> [] \<and> concat (drop (iter_slot iter + 1) (ht_entries tbl)) = e @ concat (drop (Suc s') (ht_entries tbl))
     else concat (drop (iter_slot iter + 1) (ht_entries tbl)) = []" by blast
  then show ?thesis
    using True assms(2,3) by (auto simp: hash_table_iterator_next_def iter_rest_def split: if_splits)
next
  case False
  then show ?thesis using assms(2,3) by (simp add: hash_table_iterator_next_def iter_rest_def)
qed

lemma collect_rest:
  assumes "length (ht_entries tbl) = unat (ht_size tbl)" "iter_end iter \<or> iter_entry iter \<noteq> []"
    and "length (iter_rest tbl iter) < fuel"
  shows "collect fuel tbl iter = Some (Inr (iter_rest tbl iter))"
  using assms(2,3)
proof (induction fuel arbitrary: iter)
  case (Suc fuel)
  show ?case
  proof (cases "iter_end iter")
    case True
    then show ?thesis by (simp add: hash_table_iterator_at_end_def iter_rest_def)
  next
    case False
    with Suc.prems(1) obtain k d es where e: "iter_entry iter = (k, d) # es" by (cases "iter_entry iter") auto
    from iterator_next_ok [OF assms(1) False e] obtain rc iter' where
      "hash_table_iterator_next tbl iter = Inr (rc, iter')" "iter_rest tbl iter = (k, d) # iter_rest tbl iter'"
      "iter_end iter' \<or> iter_entry iter' \<noteq> []" by blast
    with Suc e False show ?thesis
      by (simp add: hash_table_iterator_at_end_def hash_table_iterator_current_key_def
          hash_table_iterator_current_data_def)
  qed
qed simp

lemma first_loop_ok:
  assumes "length (ht_entries tbl) = unat (ht_size tbl)" "s < unat (ht_size tbl)"
  shows "\<exists>j. first_loop tbl s = Inr (ht_entries tbl ! j, Suc j) \<and> s \<le> j \<and> j < unat (ht_size tbl) \<and>
    (\<forall>i. s \<le> i \<and> i < j \<longrightarrow> ht_entries tbl ! i = []) \<and>
    (ht_entries tbl ! j \<noteq> [] \<or> Suc j = unat (ht_size tbl))"
  using assms
proof (induction tbl s rule: first_loop.induct)
  case (1 tbl s)
  have at: "chain_at (ht_entries tbl) s = Inr (ht_entries tbl ! s)" using 1(2,3) by (simp add: chain_at_def)
  show ?case
  proof (cases "ht_entries tbl ! s = [] \<and> s + 1 < unat (ht_size tbl)")
    case True
    from 1(1) [OF at True 1(2)] True obtain j where
      j: "first_loop tbl (s + 1) = Inr (ht_entries tbl ! j, Suc j)" "s + 1 \<le> j" "j < unat (ht_size tbl)"
        "\<forall>i. s + 1 \<le> i \<and> i < j \<longrightarrow> ht_entries tbl ! i = []"
        "ht_entries tbl ! j \<noteq> [] \<or> Suc j = unat (ht_size tbl)" by blast
    have "ht_entries tbl ! i = []" if "s \<le> i" "i < j" for i
      using that j(4) True by (cases "i = s") auto
    with j at True show ?thesis by (intro exI [of _ j]) (simp add: first_loop.simps [of tbl s])
  next
    case False
    then show ?thesis using at 1(3) by (intro exI [of _ s]) (auto simp: first_loop.simps [of tbl s])
  qed
qed

lemma concat_skip:
  assumes "\<forall>i < j. xss ! i = []" "j < length xss"
  shows "concat xss = xss ! j @ concat (drop (Suc j) xss)"
proof -
  have "concat (take j xss) = []" using assms by (auto simp: in_set_conv_nth)
  then show ?thesis
    using assms(2) by (metis append_Nil concat.simps(2) concat_append id_take_nth_drop)
qed

text \<open>C28. Iterating (hash\_table.c, \<^verbatim>\<open>hash_table_iterator_*\<close>): a client that steps through a table with the
  iterator ends after every entry has been visited exactly once, chain by chain, without reading
  behind the table; except that nothing is visited at all when only the last chain has entries.\<close>
theorem hash_table_iterates:
  assumes "ht_inv tbl" "length (concat (ht_entries tbl)) < fuel"
  shows "\<exists>iter. hash_table_iterator_new tbl = Inr iter \<and>
    collect fuel tbl iter = Some (Inr
      (if \<forall>i < unat (ht_size tbl) - 1. ht_entries tbl ! i = [] then [] else concat (ht_entries tbl)))"
proof -
  let ?n = "unat (ht_size tbl)"
  have len: "length (ht_entries tbl) = ?n" and pos: "0 < ?n"
    using assms(1) by (auto simp: ht_inv_def chains_ok_def unat_gt_0)
  from first_loop_ok [OF len pos] obtain j where
    j: "first_loop tbl 0 = Inr (ht_entries tbl ! j, Suc j)" "j < ?n" "\<forall>i < j. ht_entries tbl ! i = []"
      "ht_entries tbl ! j \<noteq> [] \<or> Suc j = ?n" by auto
  show ?thesis
  proof (cases "Suc j < ?n")
    case True
    let ?iter = "\<lparr>iter_slot = j, iter_entry = ht_entries tbl ! j, iter_end = False\<rparr>"
    have "iter_rest tbl ?iter = concat (ht_entries tbl)"
      using concat_skip [OF j(3)] j(2) len by (simp add: iter_rest_def)
    moreover have "\<not> (\<forall>i < ?n - 1. ht_entries tbl ! i = [])" using True j(4) by (auto intro!: exI [of _ j])
    ultimately show ?thesis
      using collect_rest [OF len, of ?iter fuel] j(1,4) True assms(2)
      by (simp only: if_False) (simp add: hash_table_iterator_new_def hash_table_iterator_find_first_def)
  next
    case False
    then have "\<forall>i < ?n - 1. ht_entries tbl ! i = []" using j(2,3) by auto
    then show ?thesis
      using j(1,2) False assms(2) by (cases fuel) (auto simp: hash_table_iterator_new_def
        hash_table_iterator_find_first_def hash_table_iterator_at_end_def)
  qed
qed

theorem hash_table_iterates_witness:
  "\<exists>iter. hash_table_iterator_new (hash_table_new 1 0 :: nat hash_table_t) = Inr iter \<and>
     collect 1 (hash_table_new 1 0) iter = Some (Inr [])"
  using hash_table_iterates [OF ht_inv_new [of 1 0], of 1]
  by (simp add: hash_table_new_def c_initial_size_def)

section \<open>Limits of the table\<close>

definition empty_table :: "32 word \<Rightarrow> rat \<Rightarrow> rat \<Rightarrow> 'd hash_table_t" where
  "empty_table len maxl minl = \<lparr>ht_size = len, ht_count = 0, max_load = maxl, min_load = minl,
     ht_entries = replicate (unat len) []\<rparr>"

fun churn :: "(nat \<Rightarrow> bool) \<Rightarrow> (rat \<Rightarrow> rat) \<Rightarrow> string \<Rightarrow> 'd \<Rightarrow> nat \<Rightarrow> 'd hash_table_t \<Rightarrow> 'd hash_table_t res" where
  "churn alloc rnd key d 0 tbl = Inr tbl"
| "churn alloc rnd key d (Suc n) tbl =
     bind_res (hash_table_add alloc rnd key d tbl) (\<lambda>tbl.
     bind_res (hash_table_del alloc rnd key tbl) (\<lambda>(rc, tbl). churn alloc rnd key d n tbl))"

lemma index_ok: "len \<noteq> 0 \<Longrightarrow> chain_index len key = Inr (unat (hash_djb2 key mod len))"
  by (simp add: chain_index_def)

lemma churn_step:
  assumes "len \<noteq> 0" "alloc (unat (len div 2))" "rnd 0 = 0" "\<forall>x \<le> 1. rnd x \<le> 1" "1 \<le> maxl" "0 < minl"
  shows "churn alloc rnd key (d :: 'd) (Suc n) (empty_table len maxl minl) = churn alloc rnd key d n (empty_table (len div 2) maxl minl)"
proof -
  let ?i = "unat (hash_djb2 key mod len)"
  let ?t = "(empty_table len maxl minl)\<lparr>ht_entries := (replicate (unat len) [])[?i := [(key, d)]], ht_count := 1\<rparr>"
  have i: "?i < unat len" using index_less [OF assms(1)] .
  have "0 < unat len" using assms(1) by (simp add: unat_gt_0)
  then have "(1 :: rat) \<le> of_nat (unat len)" by (metis One_nat_def Suc_leI of_nat_1 of_nat_mono)
  then have "(1 :: rat) / of_nat (unat len) \<le> 1" by (simp add: divide_le_eq_1)
  then have "\<not> hash_table_get_load_factor rnd ?t > max_load ?t"
    using assms(4,5) by (auto simp: hash_table_get_load_factor_def empty_table_def not_less intro: order_trans)
  then have add: "hash_table_add alloc rnd key d (empty_table len maxl minl) = Inr ?t"
    using i by (simp add: hash_table_add_def add_to_entries_def index_ok [OF assms(1)] chain_at_def empty_table_def)
  let ?u = "empty_table len maxl minl :: 'd hash_table_t"
  have "?t\<lparr>ht_entries := (ht_entries ?t)[?i := []]\<rparr>\<lparr>ht_count := ht_count ?t - 1\<rparr> = ?u"
    using list_update_same_conv [of ?i "replicate (unat len) []" "[]"] i by (simp add: empty_table_def)
  moreover have "hash_table_get_load_factor rnd ?u < min_load ?u"
    using assms(3,6) by (simp add: hash_table_get_load_factor_def empty_table_def)
  moreover have "hash_table_resize alloc ?u (len div 2) = Inr (empty_table (len div 2) maxl minl)"
    using assms(2) by (simp add: hash_table_resize_def empty_table_def)
  moreover have "ht_size ?t = len" "chain_at (ht_entries ?t) ?i = Inr [(key, d)]" "ht_size ?u = len"
    using i by (simp_all add: empty_table_def chain_at_def)
  ultimately have "hash_table_del alloc rnd key ?t = Inr (1, empty_table (len div 2) maxl minl)"
    unfolding hash_table_del_def Let_def
    by (simp add: index_ok [OF assms(1)] del: hash_table_t.update_convs hash_table_t.select_convs)
  then show ?thesis using add by simp
qed

text \<open>Shrinking (hash\_table.c, \<^verbatim>\<open>hash_table_del\<close>): with a positive minimum load and an allocator that
  returns a block when it is asked for no bytes, adding one key and deleting it again five times
  halves the table to no chains at all, and every later operation divides by zero.\<close>
theorem hash_table_shrinks_to_nothing:
  assumes "\<forall>n \<le> 8. alloc n" "rnd 0 = 0" "\<forall>x \<le> 1. rnd x \<le> 1" "1 \<le> maxl" "0 < minl"
  shows "\<exists>tbl. churn alloc rnd key d 5 (hash_table_new maxl minl) = Inr tbl \<and> ht_size tbl = 0 \<and>
    hash_table_add alloc rnd key' d tbl = Inl DivZero \<and> hash_table_find key' tbl = Inl DivZero \<and>
    hash_table_del alloc rnd key' tbl = Inl DivZero"
proof -
  have step: "churn alloc rnd key d (Suc n) (empty_table len maxl minl) =
      churn alloc rnd key d n (empty_table len' maxl minl)"
    if "len div 2 = len'" "len \<noteq> 0" "unat len' \<le> 8" for n len len'
    using churn_step [OF that(2) _ assms(2-5), where alloc = alloc and key = key and d = d and n = n] assms(1) that(1,3)
    by (simp del: churn.simps)
  have "churn alloc rnd key d 5 (hash_table_new maxl minl) =
      churn alloc rnd key d (Suc (Suc (Suc (Suc (Suc 0))))) (empty_table 16 maxl minl)"
    by (simp add: hash_table_new_def empty_table_def c_initial_size_def numeral_eq_Suc)
  also have "\<dots> = churn alloc rnd key d (Suc (Suc (Suc (Suc 0)))) (empty_table 8 maxl minl)" by (rule step) simp_all
  also have "\<dots> = churn alloc rnd key d (Suc (Suc (Suc 0))) (empty_table 4 maxl minl)" by (rule step) simp_all
  also have "\<dots> = churn alloc rnd key d (Suc (Suc 0)) (empty_table 2 maxl minl)" by (rule step) simp_all
  also have "\<dots> = churn alloc rnd key d (Suc 0) (empty_table 1 maxl minl)" by (rule step) simp_all
  also have "\<dots> = churn alloc rnd key d 0 (empty_table 0 maxl minl)" by (rule step) simp_all
  finally show ?thesis
    by (simp add: empty_table_def hash_table_add_def hash_table_find_def hash_table_del_def add_to_entries_def
        chain_index_def)
qed

theorem hash_table_shrinks_to_nothing_witness:
  "\<exists>tbl. churn (\<lambda>_. True) (\<lambda>x. x) ''key'' (1 :: nat) 5 (hash_table_new 2 (1 / 2)) = Inr tbl \<and>
     hash_table_add (\<lambda>_. True) (\<lambda>x. x) ''key'' 1 tbl = Inl DivZero"
  using hash_table_shrinks_to_nothing [of "\<lambda>_. True" "\<lambda>x. x" 2 "1 / 2" "''key''" "1 :: nat" "''key''"] by auto

text \<open>Adding a key twice (hash\_table.c, \<^verbatim>\<open>hash_table_add\<close>): the second entry of a key hides the first
  until the table is resized, which turns every chain round, and then the first entry hides the
  second.\<close>
theorem hash_table_duplicate_key:
  assumes "alloc 32" "rnd (1 / 16) \<le> maxl"
  shows "\<exists>t1 t2. hash_table_add alloc rnd key d1 (hash_table_new maxl minl) = Inr t1 \<and>
    hash_table_add alloc rnd key d2 t1 = Inr t2 \<and>
    hash_table_find key t2 = Inr (Some (if rnd (2 / 16) > maxl then d1 else d2))"
proof -
  define i where "i = unat (hash_djb2 key mod 16)"
  define j where "j = unat (hash_djb2 key mod 32)"
  have i: "i < 16" "i < length (replicate 16 [])" using index_less [of 16 key] by (simp_all add: i_def)
  have j: "j < 32" using index_less [of 32 key] by (simp add: j_def)
  note idx = index_ok [of 16 key, simplified, folded i_def] index_ok [of 32 key, simplified, folded j_def]
  let ?new = "hash_table_new maxl minl"
  let ?t1 = "?new\<lparr>ht_entries := (replicate 16 [])[i := [(key, d1)]], ht_count := 1\<rparr>"
  let ?t = "?new\<lparr>ht_entries := (replicate 16 [])[i := [(key, d2), (key, d1)]], ht_count := 2\<rparr>"
  let ?t' = "?new\<lparr>ht_size := 32, ht_entries := (replicate 32 [])[j := [(key, d1), (key, d2)]], ht_count := 2\<rparr>"
  have t1: "hash_table_add alloc rnd key d1 ?new = Inr ?t1"
    using i assms(2) by (simp add: hash_table_add_def add_to_entries_def idx chain_at_def hash_table_new_def
        c_initial_size_def hash_table_get_load_factor_def)
  have t2: "hash_table_add alloc rnd key d2 ?t1 =
      (if rnd (2 / 16) > maxl then hash_table_resize alloc ?t 32 else Inr ?t)"
    using i by (simp add: hash_table_add_def add_to_entries_def idx chain_at_def hash_table_new_def
        c_initial_size_def hash_table_get_load_factor_def)
  have "concat ((replicate 16 [])[i := [(key, d2), (key, d1)]]) = [(key, d2), (key, d1)]"
    by (subst upd_conv_take_nth_drop) (use i in simp_all)
  then have "hash_table_resize alloc ?t 32 = Inr ?t'"
    using assms(1) j by (simp add: hash_table_resize_def hash_table_new_def c_initial_size_def
        add_to_entries_def idx chain_at_def)
  then show ?thesis
    using t1 t2 i j by (simp add: hash_table_find_def idx chain_at_def hash_table_new_def c_initial_size_def)
qed

theorem hash_table_duplicate_key_witness:
  "\<exists>t1 t2. hash_table_add (\<lambda>_. True) (\<lambda>x. x) ''k'' (1 :: nat) (hash_table_new (1 / 10) 0) = Inr t1 \<and>
     hash_table_add (\<lambda>_. True) (\<lambda>x. x) ''k'' 2 t1 = Inr t2 \<and> hash_table_find ''k'' t2 = Inr (Some 1)"
  using hash_table_duplicate_key [of "\<lambda>_. True" "\<lambda>x. x" "1 / 10" "''k''" "1 :: nat" 0 2] by simp

end
