(* ===== verification/Alarms_Old.thy ===== *)
theory Alarms_Old
  imports Prelude
begin

text \<open>
  The retired alarm multiplexer (\<^verbatim>\<open>src/scrap/alarms_old.c\<close>): alarms wait in a list sorted by their
  expiry, and the interval timer of the process is set for the first one. The \<open>n\<close>-th call of
  \<^verbatim>\<open>gettimeofday\<close> returns \<open>clock n\<close>; the calls of the callbacks are logged by their data. The lock of
  the list is represented by atomic operations, so that a signal does not come in the middle of one.
\<close>

section \<open>Times\<close>

record timeval =
  tv_sec :: int
  tv_usec :: int

text \<open>\<^verbatim>\<open>timeradd\<close>, \<^verbatim>\<open>timersub\<close> and \<^verbatim>\<open>timercmp\<close> with \<^verbatim>\<open><\<close> (\<^verbatim>\<open>sys/time.h\<close>).\<close>

definition timeradd :: "timeval \<Rightarrow> timeval \<Rightarrow> timeval" where
  "timeradd a b =
     (let s = tv_sec a + tv_sec b; u = tv_usec a + tv_usec b in
      if u \<ge> 1000000 then \<lparr>tv_sec = s + 1, tv_usec = u - 1000000\<rparr> else \<lparr>tv_sec = s, tv_usec = u\<rparr>)"

definition timersub :: "timeval \<Rightarrow> timeval \<Rightarrow> timeval" where
  "timersub a b =
     (let s = tv_sec a - tv_sec b; u = tv_usec a - tv_usec b in
      if u < 0 then \<lparr>tv_sec = s - 1, tv_usec = u + 1000000\<rparr> else \<lparr>tv_sec = s, tv_usec = u\<rparr>)"

definition timer_less :: "timeval \<Rightarrow> timeval \<Rightarrow> bool" where
  "timer_less a b \<longleftrightarrow> (if tv_sec a = tv_sec b then tv_usec a < tv_usec b else tv_sec a < tv_sec b)"

section \<open>State\<close>

record old_alarm_t =
  oa_expiry :: timeval
  oa_cb_data :: nat

text \<open>The timer is off (\<open>None\<close>) or set to a delay.\<close>

record alarms_t =
  alarms_list :: "old_alarm_t list"
  al_timer :: "timeval option"
  al_ticks :: nat
  al_fired :: "old_alarm_t list"

definition SIGALRM :: int where "SIGALRM = 14"

definition alarms_init :: alarms_t where
  "alarms_init = \<lparr>alarms_list = [], al_timer = None, al_ticks = 0, al_fired = []\<rparr>"

definition gettimeofday :: "(nat \<Rightarrow> timeval) \<Rightarrow> alarms_t \<Rightarrow> timeval \<times> alarms_t" where
  "gettimeofday clock st = (clock (al_ticks st), st\<lparr>al_ticks := al_ticks st + 1\<rparr>)"

text \<open>A delay of zero turns the timer off (\<^verbatim>\<open>setitimer(2)\<close>).\<close>

definition setitimer :: "timeval \<Rightarrow> alarms_t \<Rightarrow> alarms_t" where
  "setitimer tv st = st\<lparr>al_timer := if tv = \<lparr>tv_sec = 0, tv_usec = 0\<rparr> then None else Some tv\<rparr>"

section \<open>Operations\<close>

function schedule_next :: "(nat \<Rightarrow> timeval) \<Rightarrow> alarms_t \<Rightarrow> alarms_t res"
  and sigalrm_h :: "int \<Rightarrow> (nat \<Rightarrow> timeval) \<Rightarrow> alarms_t \<Rightarrow> alarms_t res" where
  "schedule_next clock st =
     (case alarms_list st of
        [] \<Rightarrow> Inl NullDeref
      | alarm # rest \<Rightarrow>
          let (tv_now, st) = gettimeofday clock st in
          if timer_less (oa_expiry alarm) tv_now then sigalrm_h SIGALRM clock st
          else Inr (setitimer (timersub (oa_expiry alarm) tv_now) st))"
| "sigalrm_h signum clock st =
     (if signum \<noteq> SIGALRM then Inl AssertFail
      else case alarms_list st of
        [] \<Rightarrow> Inl NullDeref
      | alarm # rest \<Rightarrow>
          let st = st\<lparr>al_fired := al_fired st @ [alarm], alarms_list := rest\<rparr> in
          if rest \<noteq> [] then schedule_next clock st else Inr st)"
  by pat_completeness auto
termination
  by (relation "measure (case_sum (\<lambda>(clock, st). 2 * length (alarms_list st) + 1)
       (\<lambda>(signum, clock, st). 2 * length (alarms_list st)))")
    (auto simp: gettimeofday_def)

declare schedule_next.simps [simp del] sigalrm_h.simps [simp del]

text \<open>Behind the alarms that do not expire later; the list is not empty.\<close>

fun insert_before :: "old_alarm_t \<Rightarrow> old_alarm_t list \<Rightarrow> old_alarm_t list" where
  "insert_before alarm [] = [alarm]"
| "insert_before alarm (a # as) =
     (if timer_less (oa_expiry alarm) (oa_expiry a) then alarm # a # as else a # insert_before alarm as)"

definition alarm_schedule :: "(nat \<Rightarrow> timeval) \<Rightarrow> nat \<Rightarrow> nat \<Rightarrow> nat \<Rightarrow> alarms_t \<Rightarrow> alarms_t res" where
  "alarm_schedule clock seconds useconds cb_data st =
     (let (tv_now, st) = gettimeofday clock st;
          tv_delay = \<lparr>tv_sec = int seconds, tv_usec = int useconds\<rparr>;
          tv_alarm = timeradd tv_now tv_delay;
          alarm = \<lparr>oa_expiry = tv_alarm, oa_cb_data = cb_data\<rparr> in
      if alarms_list st = [] \<or> timer_less tv_alarm (oa_expiry (hd (alarms_list st)))
      then schedule_next clock (st\<lparr>alarms_list := alarm # alarms_list st\<rparr>)
      else Inr (st\<lparr>alarms_list := insert_before alarm (alarms_list st)\<rparr>))"

section \<open>The list is sorted\<close>

abbreviation not_later :: "old_alarm_t \<Rightarrow> old_alarm_t \<Rightarrow> bool" where
  "not_later a b \<equiv> \<not> timer_less (oa_expiry b) (oa_expiry a)"

lemma timer_less_trans: "timer_less a b \<Longrightarrow> timer_less b c \<Longrightarrow> timer_less a c"
  by (auto simp: timer_less_def split: if_splits)

lemma timer_less_asym: "timer_less a b \<Longrightarrow> \<not> timer_less b a"
  by (auto simp: timer_less_def split: if_splits)

lemma not_later_trans: "timer_less a b \<Longrightarrow> \<not> timer_less c b \<Longrightarrow> \<not> timer_less c a"
  by (auto simp: timer_less_def split: if_splits)

lemma insert_before_mset [simp]: "mset (insert_before alarm as) = add_mset alarm (mset as)"
  by (induction as) auto

lemma insert_before_set [simp]: "set (insert_before alarm as) = insert alarm (set as)"
  by (metis insert_before_mset set_mset_add_mset_insert set_mset_mset)

lemma insert_before_sorted: "sorted_wrt not_later as \<Longrightarrow> sorted_wrt not_later (insert_before alarm as)"
proof (induction as)
  case (Cons a as)
  then show ?case by (auto dest: timer_less_asym not_later_trans)
qed simp

text \<open>What a call promises: the list stays sorted, and no alarm is lost, made up or fired twice.\<close>

definition kept :: "alarms_t \<Rightarrow> alarms_t res \<Rightarrow> bool" where
  "kept st r \<longleftrightarrow> (\<exists>st' n. r = Inr st' \<and> al_fired st' = al_fired st @ take n (alarms_list st) \<and>
     alarms_list st' = drop n (alarms_list st))"

lemma firing_kept:
  "alarms_list st \<noteq> [] \<Longrightarrow> kept st (schedule_next clock st)"
  "signum = SIGALRM \<Longrightarrow> alarms_list st \<noteq> [] \<Longrightarrow> kept st (sigalrm_h signum clock st)"
proof (induction clock st and signum clock st rule: schedule_next_sigalrm_h.induct)
  case (1 clock st)
  then obtain a as where as: "alarms_list st = a # as" by (cases "alarms_list st") auto
  let ?st = "st\<lparr>al_ticks := al_ticks st + 1\<rparr>"
  show ?case
  proof (cases "timer_less (oa_expiry a) (clock (al_ticks st))")
    case True
    then have "kept ?st (sigalrm_h SIGALRM clock ?st)"
      using "1.IH" [OF as refl, of "clock (al_ticks st)" ?st] as by (simp add: gettimeofday_def)
    then show ?thesis using True as
      by (simp add: schedule_next.simps [of clock st] gettimeofday_def kept_def)
  next
    case False
    then show ?thesis using as
      by (auto simp: schedule_next.simps [of clock st] gettimeofday_def kept_def setitimer_def intro!: exI [of _ 0])
  qed
next
  case (2 signum clock st)
  then obtain a as where as: "alarms_list st = a # as" by (cases "alarms_list st") auto
  let ?st = "st\<lparr>al_fired := al_fired st @ [a], alarms_list := as\<rparr>"
  show ?case
  proof (cases "as = []")
    case True
    then show ?thesis using 2 as by (auto simp: sigalrm_h.simps kept_def intro!: exI [of _ 1])
  next
    case False
    then have "kept ?st (schedule_next clock ?st)" using "2.IH" [of a as ?st] "2.prems" as by simp
    then obtain st' n where "schedule_next clock ?st = Inr st'" "al_fired st' = al_fired st @ a # take n as"
      "alarms_list st' = drop n as" by (auto simp: kept_def)
    moreover have "sigalrm_h signum clock st = schedule_next clock ?st"
      using False "2.prems" as by (simp add: sigalrm_h.simps [of SIGALRM clock st])
    ultimately show ?thesis using as
      unfolding kept_def by (intro exI [of _ st'] exI [of _ "Suc n"]) simp
  qed
qed

text \<open>A run of the process: alarms are scheduled and the timer's signal comes.\<close>

datatype alarm_event = scheduling nat nat nat | signal_alarm

fun alarm_event_step :: "(nat \<Rightarrow> timeval) \<Rightarrow> alarm_event \<Rightarrow> alarms_t \<Rightarrow> alarms_t res" where
  "alarm_event_step clock (scheduling s us d) st = alarm_schedule clock s us d st"
| "alarm_event_step clock signal_alarm st = sigalrm_h SIGALRM clock st"

definition alarms_ok :: "alarms_t \<Rightarrow> nat list \<Rightarrow> bool" where
  "alarms_ok st ds \<longleftrightarrow> sorted_wrt not_later (alarms_list st) \<and>
     mset (map oa_cb_data (al_fired st @ alarms_list st)) = mset ds"

lemma kept_ok:
  assumes "kept st r" "alarms_ok st ds"
  obtains st' where "r = Inr st'" "alarms_ok st' ds"
proof -
  from assms(1) obtain st' n where st': "r = Inr st'" "al_fired st' = al_fired st @ take n (alarms_list st)"
    "alarms_list st' = drop n (alarms_list st)" by (auto simp: kept_def)
  then have "al_fired st' @ alarms_list st' = al_fired st @ alarms_list st" by simp
  with assms(2) st' show thesis by (intro that [of st']) (auto simp: alarms_ok_def sorted_wrt_drop)
qed

text \<open>Scheduling (alarms\_old.c): it never fails, the list of alarms stays sorted by expiry, and every
  alarm that was scheduled is either in the list or has been fired once; so does a signal while
  there is an alarm in the list.\<close>
lemma alarm_event_ok:
  assumes "alarms_ok st ds" "ev = signal_alarm \<Longrightarrow> alarms_list st \<noteq> []"
  shows "\<exists>st'. alarm_event_step clock ev st = Inr st' \<and>
    alarms_ok st' (case ev of scheduling s us d \<Rightarrow> d # ds | signal_alarm \<Rightarrow> ds)"
proof (cases ev)
  case signal_alarm
  with assms(2) have "kept st (sigalrm_h SIGALRM clock st)" by (intro firing_kept(2)) auto
  from kept_ok [OF this assms(1)] signal_alarm show ?thesis by auto
next
  case (scheduling s us d)
  let ?st = "st\<lparr>al_ticks := al_ticks st + 1\<rparr>"
  let ?a = "\<lparr>oa_expiry = timeradd (clock (al_ticks st)) \<lparr>tv_sec = int s, tv_usec = int us\<rparr>, oa_cb_data = d\<rparr>"
  let ?head = "alarms_list st = [] \<or> timer_less (oa_expiry ?a) (oa_expiry (hd (alarms_list st)))"
  have step: "alarm_event_step clock ev st =
      (if ?head then schedule_next clock (?st\<lparr>alarms_list := ?a # alarms_list st\<rparr>)
       else Inr (?st\<lparr>alarms_list := insert_before ?a (alarms_list st)\<rparr>))"
    using scheduling by (simp add: alarm_schedule_def gettimeofday_def)
  have ins: "alarms_ok (?st\<lparr>alarms_list := insert_before ?a (alarms_list st)\<rparr>) (d # ds)"
    using assms(1) insert_before_sorted by (auto simp: alarms_ok_def)
  show ?thesis
  proof (cases ?head)
    case True
    then have "insert_before ?a (alarms_list st) = ?a # alarms_list st" by (cases "alarms_list st") auto
    with ins have "alarms_ok (?st\<lparr>alarms_list := ?a # alarms_list st\<rparr>) (d # ds)" by simp
    from kept_ok [OF firing_kept(1) this, of clock] True step scheduling show ?thesis by auto
  next
    case False
    then show ?thesis using ins step scheduling by simp
  qed
qed

text \<open>
  An alarm that is due at the very moment \<^verbatim>\<open>schedule_next\<close> looks at the clock is neither fired nor
  waited for: the delay is zero, which turns the timer off.
\<close>

lemma due_alarm_not_fired:
  assumes "alarms_list st = a # as" "oa_expiry a = clock (al_ticks st)"
  shows "\<exists>st'. schedule_next clock st = Inr st' \<and> al_timer st' = None \<and> alarms_list st' = a # as \<and>
    al_fired st' = al_fired st"
  using assms by (simp add: schedule_next.simps gettimeofday_def timer_less_def timersub_def setitimer_def)

end
