(* ===== verification/Tail_Queue.thy ===== *)
theory Tail_Queue
  imports Prelude
begin

text \<open>
  The tail queues of \<^verbatim>\<open>src/src/3rdparty/queue.h\<close> and the linked lists of \<^verbatim>\<open>src/src/linked_list.h\<close> on a heap
  with pointers. The other theories represent such a list by the HOL list of its elements; here the
  macros are run on the pointers they change and shown to do to the pointers what the list operations
  do to the list. \<^verbatim>\<open>tqe_prev\<close> and \<^verbatim>\<open>tqh_last\<close> are addresses of \<^verbatim>\<open>next\<close> fields, so a location is
  the first field of a head or the \<^verbatim>\<open>next\<close> field of an element. \<^verbatim>\<open>malloc\<close> hands out addresses in
  increasing order and never again, so that an access to a freed block is an error.
\<close>

type_synonym ptr = "nat option"

section \<open>The heap\<close>

datatype loc = No_Loc | In_Head nat | In_Elem nat

record tq_head =
  tqh_first :: ptr
  tqh_last :: loc

record 'd tq_elem =
  tqe_next :: ptr
  tqe_prev :: loc
  tqe_data :: 'd

record 'd tq_heap =
  tq_heads :: "nat \<rightharpoonup> tq_head"
  tq_elems :: "nat \<rightharpoonup> 'd tq_elem"
  tq_brk :: nat   \<comment> \<open>the next address of \<^verbatim>\<open>malloc\<close>\<close>

definition get_head :: "nat \<Rightarrow> 'd tq_heap \<Rightarrow> tq_head res" where
  "get_head p h = (case tq_heads h p of None \<Rightarrow> Inl UseAfterFree | Some q \<Rightarrow> Inr q)"

definition get_elem :: "nat \<Rightarrow> 'd tq_heap \<Rightarrow> 'd tq_elem res" where
  "get_elem a h = (case tq_elems h a of None \<Rightarrow> Inl UseAfterFree | Some e \<Rightarrow> Inr e)"

definition upd_head :: "nat \<Rightarrow> (tq_head \<Rightarrow> tq_head) \<Rightarrow> 'd tq_heap \<Rightarrow> 'd tq_heap res" where
  "upd_head p f h = bind_res (get_head p h) (\<lambda>q. Inr (h\<lparr>tq_heads := (tq_heads h)(p \<mapsto> f q)\<rparr>))"

definition upd_elem :: "nat \<Rightarrow> ('d tq_elem \<Rightarrow> 'd tq_elem) \<Rightarrow> 'd tq_heap \<Rightarrow> 'd tq_heap res" where
  "upd_elem a f h = bind_res (get_elem a h) (\<lambda>e. Inr (h\<lparr>tq_elems := (tq_elems h)(a \<mapsto> f e)\<rparr>))"

text \<open>Reading and writing through the address of a \<^verbatim>\<open>next\<close> field.\<close>

definition load :: "loc \<Rightarrow> 'd tq_heap \<Rightarrow> ptr res" where
  "load l h = (case l of
     No_Loc \<Rightarrow> Inl NullDeref
   | In_Head p \<Rightarrow> bind_res (get_head p h) (\<lambda>q. Inr (tqh_first q))
   | In_Elem a \<Rightarrow> bind_res (get_elem a h) (\<lambda>e. Inr (tqe_next e)))"

definition store :: "loc \<Rightarrow> ptr \<Rightarrow> 'd tq_heap \<Rightarrow> 'd tq_heap res" where
  "store l v h = (case l of
     No_Loc \<Rightarrow> Inl NullDeref
   | In_Head p \<Rightarrow> upd_head p (\<lambda>q. q\<lparr>tqh_first := v\<rparr>) h
   | In_Elem a \<Rightarrow> upd_elem a (\<lambda>e. e\<lparr>tqe_next := v\<rparr>) h)"

section \<open>queue.h: the macros of tail queues\<close>

definition tailq_init :: "nat \<Rightarrow> 'd tq_heap \<Rightarrow> 'd tq_heap res" where
  "tailq_init head h = upd_head head (\<lambda>q. q\<lparr>tqh_first := None, tqh_last := In_Head head\<rparr>) h"

definition tailq_insert_head :: "nat \<Rightarrow> nat \<Rightarrow> 'd tq_heap \<Rightarrow> 'd tq_heap res" where
  "tailq_insert_head head elm h =
     bind_res (get_head head h) (\<lambda>q.
     bind_res (upd_elem elm (\<lambda>e. e\<lparr>tqe_next := tqh_first q\<rparr>) h) (\<lambda>h.
     bind_res (case tqh_first q of
         Some a \<Rightarrow> upd_elem a (\<lambda>e. e\<lparr>tqe_prev := In_Elem elm\<rparr>) h
       | None \<Rightarrow> upd_head head (\<lambda>q. q\<lparr>tqh_last := In_Elem elm\<rparr>) h) (\<lambda>h.
     bind_res (upd_head head (\<lambda>q. q\<lparr>tqh_first := Some elm\<rparr>) h) (\<lambda>h.
     upd_elem elm (\<lambda>e. e\<lparr>tqe_prev := In_Head head\<rparr>) h))))"

definition tailq_insert_tail :: "nat \<Rightarrow> nat \<Rightarrow> 'd tq_heap \<Rightarrow> 'd tq_heap res" where
  "tailq_insert_tail head elm h =
     bind_res (upd_elem elm (\<lambda>e. e\<lparr>tqe_next := None\<rparr>) h) (\<lambda>h.
     bind_res (get_head head h) (\<lambda>q.
     bind_res (upd_elem elm (\<lambda>e. e\<lparr>tqe_prev := tqh_last q\<rparr>) h) (\<lambda>h.
     bind_res (store (tqh_last q) (Some elm) h) (\<lambda>h.
     upd_head head (\<lambda>q. q\<lparr>tqh_last := In_Elem elm\<rparr>) h))))"

definition tailq_insert_after :: "nat \<Rightarrow> nat \<Rightarrow> nat \<Rightarrow> 'd tq_heap \<Rightarrow> 'd tq_heap res" where
  "tailq_insert_after head listelm elm h =
     bind_res (get_elem listelm h) (\<lambda>le.
     bind_res (upd_elem elm (\<lambda>e. e\<lparr>tqe_next := tqe_next le\<rparr>) h) (\<lambda>h.
     bind_res (case tqe_next le of
         Some a \<Rightarrow> upd_elem a (\<lambda>e. e\<lparr>tqe_prev := In_Elem elm\<rparr>) h
       | None \<Rightarrow> upd_head head (\<lambda>q. q\<lparr>tqh_last := In_Elem elm\<rparr>) h) (\<lambda>h.
     bind_res (upd_elem listelm (\<lambda>e. e\<lparr>tqe_next := Some elm\<rparr>) h) (\<lambda>h.
     upd_elem elm (\<lambda>e. e\<lparr>tqe_prev := In_Elem listelm\<rparr>) h))))"

definition tailq_insert_before :: "nat \<Rightarrow> nat \<Rightarrow> 'd tq_heap \<Rightarrow> 'd tq_heap res" where
  "tailq_insert_before listelm elm h =
     bind_res (get_elem listelm h) (\<lambda>le.
     bind_res (upd_elem elm (\<lambda>e. e\<lparr>tqe_prev := tqe_prev le\<rparr>) h) (\<lambda>h.
     bind_res (upd_elem elm (\<lambda>e. e\<lparr>tqe_next := Some listelm\<rparr>) h) (\<lambda>h.
     bind_res (store (tqe_prev le) (Some elm) h) (\<lambda>h.
     upd_elem listelm (\<lambda>e. e\<lparr>tqe_prev := In_Elem elm\<rparr>) h))))"

definition tailq_remove :: "nat \<Rightarrow> nat \<Rightarrow> 'd tq_heap \<Rightarrow> 'd tq_heap res" where
  "tailq_remove head elm h =
     bind_res (get_elem elm h) (\<lambda>e.
     bind_res (case tqe_next e of
         Some a \<Rightarrow> upd_elem a (\<lambda>x. x\<lparr>tqe_prev := tqe_prev e\<rparr>) h
       | None \<Rightarrow> upd_head head (\<lambda>q. q\<lparr>tqh_last := tqe_prev e\<rparr>) h) (\<lambda>h.
     store (tqe_prev e) (tqe_next e) h))"

definition tailq_first :: "nat \<Rightarrow> 'd tq_heap \<Rightarrow> ptr res" where
  "tailq_first head h = bind_res (get_head head h) (\<lambda>q. Inr (tqh_first q))"

definition tailq_empty :: "nat \<Rightarrow> 'd tq_heap \<Rightarrow> bool res" where
  "tailq_empty head h = bind_res (tailq_first head h) (\<lambda>v. Inr (v = None))"

definition tailq_next :: "nat \<Rightarrow> 'd tq_heap \<Rightarrow> ptr res" where
  "tailq_next elm h = bind_res (get_elem elm h) (\<lambda>e. Inr (tqe_next e))"

text \<open>
  \<^verbatim>\<open>TAILQ_LAST\<close> and \<^verbatim>\<open>TAILQ_PREV\<close> take the two pointers at a location for the two fields of a head: the
  second one, behind \<^verbatim>\<open>tqh_first\<close> or \<^verbatim>\<open>tqe_next\<close>, is \<^verbatim>\<open>tqh_last\<close> or \<^verbatim>\<open>tqe_prev\<close>.
\<close>

definition second_at :: "loc \<Rightarrow> 'd tq_heap \<Rightarrow> loc res" where
  "second_at l h = (case l of
     No_Loc \<Rightarrow> Inl NullDeref
   | In_Head p \<Rightarrow> bind_res (get_head p h) (\<lambda>q. Inr (tqh_last q))
   | In_Elem a \<Rightarrow> bind_res (get_elem a h) (\<lambda>e. Inr (tqe_prev e)))"

definition tailq_last :: "nat \<Rightarrow> 'd tq_heap \<Rightarrow> ptr res" where
  "tailq_last head h =
     bind_res (get_head head h) (\<lambda>q. bind_res (second_at (tqh_last q) h) (\<lambda>l. load l h))"

definition tailq_prev :: "nat \<Rightarrow> 'd tq_heap \<Rightarrow> ptr res" where
  "tailq_prev elm h =
     bind_res (get_elem elm h) (\<lambda>e. bind_res (second_at (tqe_prev e) h) (\<lambda>l. load l h))"

definition tailq_concat :: "nat \<Rightarrow> nat \<Rightarrow> 'd tq_heap \<Rightarrow> 'd tq_heap res" where
  "tailq_concat head1 head2 h =
     bind_res (tailq_empty head2 h) (\<lambda>empty.
     if \<not> empty
     then bind_res (get_head head1 h) (\<lambda>q1.
          bind_res (get_head head2 h) (\<lambda>q2.
          bind_res (store (tqh_last q1) (tqh_first q2) h) (\<lambda>h.
          bind_res (case tqh_first q2 of None \<Rightarrow> Inl NullDeref
            | Some a \<Rightarrow> upd_elem a (\<lambda>e. e\<lparr>tqe_prev := tqh_last q1\<rparr>) h) (\<lambda>h.
          bind_res (upd_head head1 (\<lambda>q. q\<lparr>tqh_last := tqh_last q2\<rparr>) h) (tailq_init head2)))))
     else Inr h)"

text \<open>
  The loops, over a state with the heap in it. \<open>None\<close>: the fuel has run out, as it would on a cyclic
  chain. \<^verbatim>\<open>TAILQ_FOREACH_SAFE\<close> reads the next element before the body.
\<close>

fun tailq_foreach ::
  "nat \<Rightarrow> ('s \<Rightarrow> 'd tq_heap) \<Rightarrow> (nat \<Rightarrow> 's \<Rightarrow> 's res) \<Rightarrow> ptr \<Rightarrow> 's \<Rightarrow> 's res option" where
  "tailq_foreach n mem body None s = Some (Inr s)"
| "tailq_foreach 0 mem body (Some var) s = None"
| "tailq_foreach (Suc n) mem body (Some var) s =
     (case body var s of
        Inl e \<Rightarrow> Some (Inl e)
      | Inr s \<Rightarrow>
          (case tailq_next var (mem s) of
             Inl e \<Rightarrow> Some (Inl e)
           | Inr nxt \<Rightarrow> tailq_foreach n mem body nxt s))"

fun tailq_foreach_safe ::
  "nat \<Rightarrow> ('s \<Rightarrow> 'd tq_heap) \<Rightarrow> (nat \<Rightarrow> 's \<Rightarrow> 's res) \<Rightarrow> ptr \<Rightarrow> 's \<Rightarrow> 's res option" where
  "tailq_foreach_safe n mem body None s = Some (Inr s)"
| "tailq_foreach_safe 0 mem body (Some var) s = None"
| "tailq_foreach_safe (Suc n) mem body (Some var) s =
     (case tailq_next var (mem s) of
        Inl e \<Rightarrow> Some (Inl e)
      | Inr nxt \<Rightarrow>
          (case body var s of
             Inl e \<Rightarrow> Some (Inl e)
           | Inr s \<Rightarrow> tailq_foreach_safe n mem body nxt s))"

fun tailq_foreach_reverse ::
  "nat \<Rightarrow> ('s \<Rightarrow> 'd tq_heap) \<Rightarrow> (nat \<Rightarrow> 's \<Rightarrow> 's res) \<Rightarrow> ptr \<Rightarrow> 's \<Rightarrow> 's res option" where
  "tailq_foreach_reverse n mem body None s = Some (Inr s)"
| "tailq_foreach_reverse 0 mem body (Some var) s = None"
| "tailq_foreach_reverse (Suc n) mem body (Some var) s =
     (case body var s of
        Inl e \<Rightarrow> Some (Inl e)
      | Inr s \<Rightarrow>
          (case tailq_prev var (mem s) of
             Inl e \<Rightarrow> Some (Inl e)
           | Inr prv \<Rightarrow> tailq_foreach_reverse n mem body prv s))"

fun tailq_foreach_reverse_safe ::
  "nat \<Rightarrow> ('s \<Rightarrow> 'd tq_heap) \<Rightarrow> (nat \<Rightarrow> 's \<Rightarrow> 's res) \<Rightarrow> ptr \<Rightarrow> 's \<Rightarrow> 's res option" where
  "tailq_foreach_reverse_safe n mem body None s = Some (Inr s)"
| "tailq_foreach_reverse_safe 0 mem body (Some var) s = None"
| "tailq_foreach_reverse_safe (Suc n) mem body (Some var) s =
     (case tailq_prev var (mem s) of
        Inl e \<Rightarrow> Some (Inl e)
      | Inr prv \<Rightarrow>
          (case body var s of
             Inl e \<Rightarrow> Some (Inl e)
           | Inr s \<Rightarrow> tailq_foreach_reverse_safe n mem body prv s))"

section \<open>Which list a queue is\<close>

text \<open>What is seen of the heap: the pointer at a location, the previous location of an element, the last
  location of a queue, the data of an element.\<close>

definition ld :: "'d tq_heap \<Rightarrow> loc \<Rightarrow> ptr option" where
  "ld h l = (case l of No_Loc \<Rightarrow> None | In_Head p \<Rightarrow> map_option tqh_first (tq_heads h p)
     | In_Elem a \<Rightarrow> map_option tqe_next (tq_elems h a))"

definition pv :: "'d tq_heap \<Rightarrow> nat \<Rightarrow> loc option" where
  "pv h a = map_option tqe_prev (tq_elems h a)"

definition lt :: "'d tq_heap \<Rightarrow> nat \<Rightarrow> loc option" where
  "lt h p = map_option tqh_last (tq_heads h p)"

definition dt :: "'d tq_heap \<Rightarrow> nat \<Rightarrow> 'd option" where
  "dt h a = map_option tqe_data (tq_elems h a)"

text \<open>The first pointer of a list.\<close>

definition first_of :: "nat list \<Rightarrow> ptr" where
  "first_of xs = (case xs of [] \<Rightarrow> None | x # _ \<Rightarrow> Some x)"

lemma first_of_simps [simp]: "first_of [] = None" "first_of (x # xs) = Some x"
  by (simp_all add: first_of_def)

text \<open>From a location on the elements \<open>xs\<close> are linked in both directions.\<close>

fun chained :: "'d tq_heap \<Rightarrow> loc \<Rightarrow> nat list \<Rightarrow> bool" where
  "chained h l [] = True"
| "chained h l (a # xs) = (ld h l = Some (Some a) \<and> pv h a = Some l \<and> chained h (In_Elem a) xs)"

fun end_loc :: "loc \<Rightarrow> nat list \<Rightarrow> loc" where
  "end_loc l [] = l"
| "end_loc l (a # xs) = end_loc (In_Elem a) xs"

definition is_queue :: "'d tq_heap \<Rightarrow> nat \<Rightarrow> nat list \<Rightarrow> bool" where
  "is_queue h p xs \<longleftrightarrow> distinct xs \<and> chained h (In_Head p) xs \<and>
     ld h (end_loc (In_Head p) xs) = Some None \<and> lt h p = Some (end_loc (In_Head p) xs)"

section \<open>Chains and locations\<close>

lemma end_loc_snoc [simp]: "end_loc l (xs @ [a]) = In_Elem a"
  by (induction xs arbitrary: l) auto

lemma end_loc_append [simp]: "end_loc l (xs @ ys) = end_loc (end_loc l xs) ys"
  by (induction xs arbitrary: l) auto

lemma end_loc_cases: "end_loc l xs = l \<and> xs = [] \<or> (\<exists>a ys. xs = ys @ [a] \<and> end_loc l xs = In_Elem a)"
  by (cases xs rule: rev_cases) auto

lemma end_loc_in: "end_loc l xs \<in> insert l (In_Elem ` set xs)"
  using end_loc_cases [of l xs] by auto

lemma chained_append: "chained h l (xs @ ys) \<longleftrightarrow> chained h l xs \<and> chained h (end_loc l xs) ys"
  by (induction xs arbitrary: l) auto

text \<open>The locations a chain reads: all but the last one.\<close>

fun read_locs :: "loc \<Rightarrow> nat list \<Rightarrow> loc set" where
  "read_locs l [] = {}"
| "read_locs l (a # xs) = insert l (read_locs (In_Elem a) xs)"

lemma read_locs_subset: "read_locs l xs \<subseteq> insert l (In_Elem ` set xs)"
  by (induction xs arbitrary: l) auto

lemma end_loc_not_read:
  "distinct xs \<Longrightarrow> l \<notin> In_Elem ` set xs \<Longrightarrow> end_loc l xs \<notin> read_locs l xs"
proof (induction xs arbitrary: l)
  case (Cons a xs)
  then have "end_loc (In_Elem a) xs \<noteq> l" using end_loc_in [of "In_Elem a" xs] by auto
  with Cons.IH [of "In_Elem a"] Cons.prems show ?case by auto
qed simp

lemma chained_cong:
  assumes "\<And>k. k \<in> read_locs l xs \<Longrightarrow> ld h' k = ld h k" "\<And>a. a \<in> set xs \<Longrightarrow> pv h' a = pv h a"
  shows "chained h l xs \<Longrightarrow> chained h' l xs"
  using assms by (induction xs arbitrary: l) auto

lemma chained_elem: "chained h l xs \<Longrightarrow> a \<in> set xs \<Longrightarrow> tq_elems h a \<noteq> None"
  by (induction xs arbitrary: l) (auto simp: pv_def)

text \<open>A queue that is not touched stays the same.\<close>

lemma is_queue_cong:
  assumes "is_queue h p xs" "ld h' (In_Head p) = ld h (In_Head p)" "lt h' p = lt h p"
    and "\<And>a. a \<in> set xs \<Longrightarrow> ld h' (In_Elem a) = ld h (In_Elem a) \<and> pv h' a = pv h a"
  shows "is_queue h' p xs"
proof -
  have same: "ld h' k = ld h k" if "k \<in> insert (In_Head p) (In_Elem ` set xs)" for k
    using that assms(2,4) by auto
  have "chained h' (In_Head p) xs"
  proof (rule chained_cong)
    show "chained h (In_Head p) xs" using assms(1) by (simp add: is_queue_def)
    show "ld h' k = ld h k" if "k \<in> read_locs (In_Head p) xs" for k
      using that read_locs_subset [of "In_Head p" xs] by (intro same) auto
    show "pv h' a = pv h a" if "a \<in> set xs" for a using assms(4) [OF that] by simp
  qed
  with assms(1,3) same [OF end_loc_in [of "In_Head p" xs]] show ?thesis by (simp add: is_queue_def)
qed

lemma is_queue_elem: "is_queue h p xs \<Longrightarrow> a \<in> set xs \<Longrightarrow> tq_elems h a \<noteq> None"
  by (auto simp: is_queue_def dest: chained_elem)

lemma is_queue_head: "is_queue h p xs \<Longrightarrow> tq_heads h p \<noteq> None"
  by (auto simp: is_queue_def lt_def)

lemma is_queue_first: "is_queue h p xs \<Longrightarrow> ld h (In_Head p) = Some (first_of xs)"
  by (cases xs) (auto simp: is_queue_def)

lemma is_queue_at:
  assumes "is_queue h p (xs @ a # ys)"
  shows "ld h (In_Elem a) = Some (first_of ys)" "pv h a = Some (end_loc (In_Head p) xs)"
    "ld h (end_loc (In_Head p) xs) = Some (Some a)"
    "a \<notin> set xs" "a \<notin> set ys" "lt h p = Some (end_loc (In_Elem a) ys)"
  using assms by (cases ys; simp add: is_queue_def chained_append)+

text \<open>
  An element \<open>e\<close> between \<open>xs\<close> and \<open>ys\<close>: what has to change, and that the rest stays, make the larger
  queue of the smaller one and the other way round.
\<close>

definition linked_in :: "nat \<Rightarrow> nat list \<Rightarrow> nat \<Rightarrow> nat list \<Rightarrow> 'd tq_heap \<Rightarrow> 'd tq_heap \<Rightarrow> bool" where
  "linked_in p xs e ys h h' \<longleftrightarrow>
     ld h' (end_loc (In_Head p) xs) = Some (Some e) \<and> ld h' (In_Elem e) = Some (first_of ys) \<and>
     pv h' e = Some (end_loc (In_Head p) xs) \<and>
     (case ys of [] \<Rightarrow> lt h' p = Some (In_Elem e) | y # _ \<Rightarrow> pv h' y = Some (In_Elem e) \<and> lt h' p = lt h p) \<and>
     (\<forall>k. k \<noteq> end_loc (In_Head p) xs \<longrightarrow> k \<noteq> In_Elem e \<longrightarrow> ld h' k = ld h k) \<and>
     (\<forall>a. a \<noteq> e \<longrightarrow> Some a \<noteq> first_of ys \<longrightarrow> pv h' a = pv h a) \<and> (\<forall>r. r \<noteq> p \<longrightarrow> lt h' r = lt h r) \<and> dt h' = dt h"

lemma splice_in:
  assumes q: "is_queue h p (xs @ ys)" and new: "e \<notin> set (xs @ ys)" and l: "linked_in p xs e ys h h'"
  shows "is_queue h' p (xs @ e # ys)"
proof -
  let ?k = "end_loc (In_Head p) xs"
  note l = l [unfolded linked_in_def]
  have keep: "ld h' j = ld h j" if "j \<noteq> ?k" "j \<noteq> In_Elem e" for j using l that by blast
  have k: "?k \<noteq> In_Elem e" using end_loc_in [of "In_Head p" xs] new by auto
  have kys: "?k \<notin> In_Elem ` set ys" using q end_loc_in [of "In_Head p" xs] by (auto simp: is_queue_def)
  have ys_keep: "ld h' j = ld h j" if "j \<in> In_Elem ` set ys" for j
    using that new by (intro keep) (use kys in blast, auto)
  have xs: "chained h' (In_Head p) xs"
  proof (rule chained_cong)
    show "chained h (In_Head p) xs" using q by (simp add: is_queue_def chained_append)
    fix j assume j: "j \<in> read_locs (In_Head p) xs"
    have "?k \<notin> read_locs (In_Head p) xs" using q by (intro end_loc_not_read) (auto simp: is_queue_def)
    then have "j \<noteq> ?k" using j by auto
    moreover have "j \<noteq> In_Elem e" using j read_locs_subset [of "In_Head p" xs] new by auto
    ultimately show "ld h' j = ld h j" by (rule keep)
  next
    fix a assume "a \<in> set xs"
    then show "pv h' a = pv h a" using q new l by (cases ys) (auto simp: is_queue_def)
  qed
  have ys: "chained h' (In_Elem e) ys"
  proof (cases ys)
    case (Cons y zs)
    have "chained h' (In_Elem y) zs"
    proof (rule chained_cong)
      show "chained h (In_Elem y) zs" using q Cons by (simp add: is_queue_def chained_append)
      fix j assume "j \<in> read_locs (In_Elem y) zs"
      then show "ld h' j = ld h j" using read_locs_subset [of "In_Elem y" zs] Cons by (intro ys_keep) auto
    next
      fix a assume "a \<in> set zs"
      then show "pv h' a = pv h a" using q new l Cons by (auto simp: is_queue_def)
    qed
    then show ?thesis using l Cons by simp
  qed simp
  have "ld h' (end_loc (In_Elem e) ys) = Some None \<and> lt h' p = Some (end_loc (In_Elem e) ys)"
  proof (cases ys)
    case (Cons y zs)
    have "ld h' (end_loc (In_Elem y) zs) = ld h (end_loc (In_Elem y) zs)"
      using end_loc_in [of "In_Elem y" zs] Cons by (intro ys_keep) auto
    then show ?thesis using q l Cons by (simp add: is_queue_def)
  qed (use l in simp)
  then show ?thesis using q new l xs ys by (auto simp: is_queue_def chained_append)
qed

definition linked_out :: "nat \<Rightarrow> nat list \<Rightarrow> nat \<Rightarrow> nat list \<Rightarrow> 'd tq_heap \<Rightarrow> 'd tq_heap \<Rightarrow> bool" where
  "linked_out p xs e ys h h' \<longleftrightarrow>
     ld h' (end_loc (In_Head p) xs) = Some (first_of ys) \<and>
     (case ys of [] \<Rightarrow> lt h' p = Some (end_loc (In_Head p) xs)
      | y # _ \<Rightarrow> pv h' y = Some (end_loc (In_Head p) xs) \<and> lt h' p = lt h p) \<and>
     (\<forall>k. k \<noteq> end_loc (In_Head p) xs \<longrightarrow> ld h' k = ld h k) \<and>
     (\<forall>a. Some a \<noteq> first_of ys \<longrightarrow> pv h' a = pv h a) \<and> (\<forall>r. r \<noteq> p \<longrightarrow> lt h' r = lt h r) \<and> dt h' = dt h"

lemma splice_out:
  assumes q: "is_queue h p (xs @ e # ys)" and l: "linked_out p xs e ys h h'"
  shows "is_queue h' p (xs @ ys)"
proof -
  let ?k = "end_loc (In_Head p) xs"
  note l = l [unfolded linked_out_def]
  have keep: "ld h' j = ld h j" if "j \<noteq> ?k" for j using l that by blast
  have kys: "?k \<notin> In_Elem ` set ys"
  proof
    assume "?k \<in> In_Elem ` set ys"
    with end_loc_in [of "In_Head p" xs] q show False by (auto simp: is_queue_def)
  qed
  have ys_keep: "ld h' j = ld h j" if "j \<in> In_Elem ` set ys" for j using that kys by (intro keep) blast
  have "chained h' (In_Head p) xs"
  proof (rule chained_cong)
    show "chained h (In_Head p) xs" using q by (simp add: is_queue_def chained_append)
    show "ld h' j = ld h j" if "j \<in> read_locs (In_Head p) xs" for j
      using that q end_loc_not_read [of xs "In_Head p"] by (intro keep) (auto simp: is_queue_def)
    show "pv h' a = pv h a" if "a \<in> set xs" for a
    proof -
      have "Some a \<noteq> first_of ys" using that q by (cases ys) (auto simp: is_queue_def)
      then show ?thesis using l by blast
    qed
  qed
  moreover have "chained h' ?k ys"
  proof (cases ys)
    case (Cons y zs)
    have "chained h' (In_Elem y) zs"
    proof (rule chained_cong)
      show "chained h (In_Elem y) zs" using q Cons by (simp add: is_queue_def chained_append)
      show "ld h' j = ld h j" if "j \<in> read_locs (In_Elem y) zs" for j
        using that read_locs_subset [of "In_Elem y" zs] Cons by (intro ys_keep) auto
      show "pv h' a = pv h a" if "a \<in> set zs" for a
        using that q l Cons by (auto simp: is_queue_def)
    qed
    then show ?thesis using l Cons by simp
  qed simp
  moreover have "ld h' (end_loc ?k ys) = Some None \<and> lt h' p = Some (end_loc ?k ys)"
  proof (cases ys)
    case (Cons y zs)
    have "ld h' (end_loc (In_Elem y) zs) = ld h (end_loc (In_Elem y) zs)"
      using end_loc_in [of "In_Elem y" zs] Cons by (intro ys_keep) auto
    then show ?thesis using q l Cons by (simp add: is_queue_def)
  qed (use l in simp)
  ultimately show ?thesis using q by (auto simp: is_queue_def chained_append)
qed

text \<open>What an operation on one queue leaves alone.\<close>

definition touches :: "nat \<Rightarrow> nat set \<Rightarrow> 'd tq_heap \<Rightarrow> 'd tq_heap \<Rightarrow> bool" where
  "touches p A h h' \<longleftrightarrow>
     (\<forall>k. k \<notin> insert (In_Head p) (In_Elem ` A) \<longrightarrow> ld h' k = ld h k) \<and> (\<forall>a. a \<notin> A \<longrightarrow> pv h' a = pv h a) \<and>
     (\<forall>r. r \<noteq> p \<longrightarrow> lt h' r = lt h r) \<and> dt h' = dt h \<and> tq_brk h' = tq_brk h"

lemma other_queue_kept:
  assumes "is_queue h r zs" "touches p A h h'" "r \<noteq> p" "set zs \<inter> A = {}"
  shows "is_queue h' r zs"
proof (rule is_queue_cong [OF assms(1)])
  show "ld h' (In_Head r) = ld h (In_Head r)" "lt h' r = lt h r" using assms(2,3) by (auto simp: touches_def)
  fix a assume "a \<in> set zs"
  then have "a \<notin> A" using assms(4) by auto
  then show "ld h' (In_Elem a) = ld h (In_Elem a) \<and> pv h' a = pv h a" using assms(2) by (auto simp: touches_def)
qed

lemma linked_in_touches:
  assumes "linked_in p xs e ys h h'" "tq_brk h' = tq_brk h"
  shows "touches p (insert e (set (xs @ ys))) h h'"
proof -
  have "\<forall>a. a \<notin> set (xs @ ys) \<longrightarrow> Some a \<noteq> first_of ys" by (cases ys) auto
  moreover have "k \<noteq> end_loc (In_Head p) xs" if "k \<notin> insert (In_Head p) (In_Elem ` insert e (set (xs @ ys)))" for k
    using that end_loc_in [of "In_Head p" xs] by auto
  ultimately show ?thesis using assms by (simp add: linked_in_def touches_def)
qed

lemma linked_out_touches:
  assumes "linked_out p xs e ys h h'" "tq_brk h' = tq_brk h"
  shows "touches p (insert e (set (xs @ ys))) h h'"
proof -
  have "\<forall>a. a \<notin> set (xs @ ys) \<longrightarrow> Some a \<noteq> first_of ys" by (cases ys) auto
  moreover have "k \<noteq> end_loc (In_Head p) xs" if "k \<notin> insert (In_Head p) (In_Elem ` insert e (set (xs @ ys)))" for k
    using that end_loc_in [of "In_Head p" xs] by auto
  ultimately show ?thesis using assms by (simp add: linked_out_def touches_def)
qed

section \<open>The macros do what the list operations do\<close>

lemmas tq_obs = ld_def pv_def lt_def dt_def fun_eq_iff
lemmas tq_acts = upd_head_def upd_elem_def get_head_def get_elem_def load_def store_def

lemma tailq_init_queue:
  assumes "tq_heads h p \<noteq> None"
  shows "\<exists>h'. tailq_init p h = Inr h' \<and> is_queue h' p [] \<and> touches p {} h h'"
  using assms by (auto simp: tailq_init_def tq_acts tq_obs is_queue_def touches_def split: loc.splits)

lemma insert_head_links:
  assumes "is_queue h p xs" "tq_elems h e \<noteq> None" "e \<notin> set xs"
  shows "\<exists>h'. tailq_insert_head p e h = Inr h' \<and> linked_in p [] e xs h h' \<and> tq_brk h' = tq_brk h"
proof -
  obtain q ee where qe: "tq_heads h p = Some q" "tq_elems h e = Some ee"
    using is_queue_head [OF assms(1)] assms(2) by auto
  have f: "tqh_first q = first_of xs" using is_queue_first [OF assms(1)] qe by (simp add: ld_def)
  show ?thesis
  proof (cases xs)
    case Nil
    then show ?thesis using qe f
      by (auto simp: tailq_insert_head_def tq_acts linked_in_def tq_obs split: loc.splits)
  next
    case (Cons y ys)
    then obtain ey where "tq_elems h y = Some ey" using is_queue_elem [OF assms(1), of y] by auto
    then show ?thesis using qe f Cons assms(3)
      by (auto simp: tailq_insert_head_def tq_acts linked_in_def tq_obs split: loc.splits)
  qed
qed

text \<open>What is known of the record of an element between \<open>xs\<close> and \<open>ys\<close>, of the head and of the locations.\<close>

lemma queue_elem_fields:
  assumes "is_queue h p (xs @ a # ys)" "tq_elems h a = Some e"
  shows "tqe_next e = first_of ys" "tqe_prev e = end_loc (In_Head p) xs"
  using is_queue_at(1,2) [OF assms(1)] assms(2) by (simp_all add: ld_def pv_def)

lemma queue_head_fields:
  assumes "is_queue h p xs" "tq_heads h p = Some q"
  shows "tqh_first q = first_of xs" "tqh_last q = end_loc (In_Head p) xs"
  using is_queue_first [OF assms(1)] assms by (simp_all add: ld_def is_queue_def lt_def)

lemma insert_tail_links:
  assumes "is_queue h p xs" "tq_elems h e \<noteq> None" "e \<notin> set xs"
  shows "\<exists>h'. tailq_insert_tail p e h = Inr h' \<and> linked_in p xs e [] h h' \<and> tq_brk h' = tq_brk h"
proof -
  obtain q ee where qe: "tq_heads h p = Some q" "tq_elems h e = Some ee"
    using is_queue_head [OF assms(1)] assms(2) by auto
  note last = queue_head_fields(2) [OF assms(1) qe(1)]
  show ?thesis
  proof (cases xs rule: rev_cases)
    case Nil
    then show ?thesis using qe last
      by (auto simp: tailq_insert_tail_def tq_acts linked_in_def tq_obs split: loc.splits)
  next
    case (snoc ys y)
    then obtain ey where "tq_elems h y = Some ey" using is_queue_elem [OF assms(1), of y] by auto
    then show ?thesis using qe last snoc assms(3)
      by (auto simp: tailq_insert_tail_def tq_acts linked_in_def tq_obs split: loc.splits)
  qed
qed

lemma insert_after_links:
  assumes q: "is_queue h p (xs @ a # ys)" and e: "tq_elems h e \<noteq> None" "e \<notin> set (xs @ a # ys)"
  shows "\<exists>h'. tailq_insert_after p a e h = Inr h' \<and> linked_in p (xs @ [a]) e ys h h' \<and> tq_brk h' = tq_brk h"
proof -
  obtain hd ea ee where r: "tq_heads h p = Some hd" "tq_elems h a = Some ea" "tq_elems h e = Some ee"
    using is_queue_head [OF q] is_queue_elem [OF q, of a] e(1) by auto
  note next_a = queue_elem_fields(1) [OF q r(2)]
  show ?thesis
  proof (cases ys)
    case Nil
    then show ?thesis using r next_a e(2)
      by (auto simp: tailq_insert_after_def tq_acts linked_in_def tq_obs split: loc.splits)
  next
    case (Cons y zs)
    then obtain ey where "tq_elems h y = Some ey" using is_queue_elem [OF q, of y] by auto
    then show ?thesis using r next_a Cons e(2) is_queue_at(5) [OF q]
      by (auto simp: tailq_insert_after_def tq_acts linked_in_def tq_obs split: loc.splits)
  qed
qed

lemma insert_before_links:
  assumes q: "is_queue h p (xs @ a # ys)" and e: "tq_elems h e \<noteq> None" "e \<notin> set (xs @ a # ys)"
  shows "\<exists>h'. tailq_insert_before a e h = Inr h' \<and> linked_in p xs e (a # ys) h h' \<and> tq_brk h' = tq_brk h"
proof -
  obtain hd ea ee where r: "tq_heads h p = Some hd" "tq_elems h a = Some ea" "tq_elems h e = Some ee"
    using is_queue_head [OF q] is_queue_elem [OF q, of a] e(1) by auto
  note prev_a = queue_elem_fields(2) [OF q r(2)]
  show ?thesis
  proof (cases xs rule: rev_cases)
    case Nil
    then show ?thesis using r prev_a e(2)
      by (auto simp: tailq_insert_before_def tq_acts linked_in_def tq_obs split: loc.splits)
  next
    case (snoc zs y)
    then obtain ey where "tq_elems h y = Some ey" using is_queue_elem [OF q, of y] by auto
    then show ?thesis using r prev_a snoc e(2) is_queue_at(4) [OF q]
      by (auto simp: tailq_insert_before_def tq_acts linked_in_def tq_obs split: loc.splits)
  qed
qed

lemma remove_links:
  assumes q: "is_queue h p (xs @ a # ys)"
  shows "\<exists>h'. tailq_remove p a h = Inr h' \<and> linked_out p xs a ys h h' \<and> tq_brk h' = tq_brk h"
proof -
  obtain hd ea where r: "tq_heads h p = Some hd" "tq_elems h a = Some ea"
    using is_queue_head [OF q] is_queue_elem [OF q, of a] by auto
  note fields = queue_elem_fields [OF q r(2)] is_queue_at(4,5) [OF q]
  have dist: "distinct (xs @ a # ys)" using q by (simp add: is_queue_def)
  show ?thesis
  proof (cases xs rule: rev_cases)
    case Nil
    show ?thesis
    proof (cases ys)
      case (Cons y zs)
      then obtain ey where "tq_elems h y = Some ey" using is_queue_elem [OF q, of y] by auto
      then show ?thesis using r fields Nil Cons
        by (auto simp: tailq_remove_def tq_acts linked_out_def tq_obs split: loc.splits)
    qed (use r fields Nil in \<open>auto simp: tailq_remove_def tq_acts linked_out_def tq_obs split: loc.splits\<close>)
  next
    case (snoc ws w)
    then obtain ew where w: "tq_elems h w = Some ew" using is_queue_elem [OF q, of w] by auto
    show ?thesis
    proof (cases ys)
      case (Cons y zs)
      then obtain ey where "tq_elems h y = Some ey" using is_queue_elem [OF q, of y] by auto
      then show ?thesis using r fields snoc w Cons dist
        by (auto simp: tailq_remove_def tq_acts linked_out_def tq_obs split: loc.splits)
    qed (use r fields snoc w in \<open>auto simp: tailq_remove_def tq_acts linked_out_def tq_obs split: loc.splits\<close>)
  qed
qed

lemma queue_access:
  assumes "is_queue h p xs"
  shows "tailq_first p h = Inr (first_of xs)" "tailq_empty p h = Inr (xs = [])"
    "tailq_last p h = Inr (if xs = [] then None else Some (last xs))"
proof -
  obtain q where q: "tq_heads h p = Some q" using is_queue_head [OF assms] by auto
  note f = queue_head_fields [OF assms q]
  show "tailq_first p h = Inr (first_of xs)" "tailq_empty p h = Inr (xs = [])"
    using q f by (cases xs; simp add: tailq_empty_def tailq_first_def get_head_def)+
  show "tailq_last p h = Inr (if xs = [] then None else Some (last xs))"
  proof (cases xs rule: rev_cases)
    case Nil
    then show ?thesis using q f by (simp add: tailq_last_def second_at_def load_def get_head_def)
  next
    case (snoc ys a)
    then obtain e where e: "tq_elems h a = Some e" using is_queue_elem [OF assms, of a] by auto
    have at: "is_queue h p (ys @ a # [])" using assms snoc by simp
    have "load (end_loc (In_Head p) ys) h = Inr (Some a)"
      using is_queue_at(3) [OF at] by (auto simp: load_def ld_def get_head_def get_elem_def split: loc.splits option.splits)
    then show ?thesis using q f snoc e queue_elem_fields [OF at e]
      by (simp add: tailq_last_def second_at_def get_head_def get_elem_def)
  qed
qed

lemma queue_next:
  assumes "is_queue h p (xs @ a # ys)"
  shows "tailq_next a h = Inr (first_of ys)" "tailq_prev a h = Inr (if xs = [] then None else Some (last xs))"
proof -
  obtain e where e: "tq_elems h a = Some e" using is_queue_elem [OF assms, of a] by auto
  note f = queue_elem_fields [OF assms e]
  show "tailq_next a h = Inr (first_of ys)" using e f by (simp add: tailq_next_def get_elem_def)
  show "tailq_prev a h = Inr (if xs = [] then None else Some (last xs))"
  proof (cases xs rule: rev_cases)
    case Nil
    obtain q where q: "tq_heads h p = Some q" using is_queue_head [OF assms] by auto
    have l: "tqh_last q = end_loc (In_Elem a) ys" using is_queue_at(6) [OF assms] q by (simp add: lt_def)
    have "ld h (end_loc (In_Elem a) ys) = Some None" using assms by (simp add: is_queue_def)
    then have "load (end_loc (In_Elem a) ys) h = Inr None"
      by (auto simp: load_def ld_def get_head_def get_elem_def split: loc.splits option.splits)
    then show ?thesis using e f q l Nil by (simp add: tailq_prev_def second_at_def get_elem_def get_head_def)
  next
    case (snoc zs b)
    then obtain eb where eb: "tq_elems h b = Some eb" using is_queue_elem [OF assms, of b] by auto
    have at: "is_queue h p (zs @ b # a # ys)" using assms snoc by simp
    have "load (end_loc (In_Head p) zs) h = Inr (Some b)"
      using is_queue_at(3) [OF at] by (auto simp: load_def ld_def get_head_def get_elem_def split: loc.splits option.splits)
    then show ?thesis using e f snoc eb queue_elem_fields [OF at eb]
      by (simp add: tailq_prev_def second_at_def get_elem_def)
  qed
qed

text \<open>A loop in reverse over a heap that stays the same, from the last element before \<open>ys\<close> on.\<close>

lemma foreach_reverse_queue:
  "is_queue h p (xs @ ys) \<Longrightarrow> length xs \<le> n \<Longrightarrow>
   tailq_foreach_reverse n (\<lambda>_. h) body (if xs = [] then None else Some (last xs)) s = Some (fold_res body (rev xs) s) \<and>
   tailq_foreach_reverse_safe n (\<lambda>_. h) body (if xs = [] then None else Some (last xs)) s = Some (fold_res body (rev xs) s)"
proof (induction xs arbitrary: ys n s rule: rev_induct)
  case (snoc x xs)
  then obtain m where m: "n = Suc m" "length xs \<le> m" by (cases n) auto
  have q: "is_queue h p (xs @ x # ys)" using snoc.prems(1) by simp
  from snoc.IH [OF q m(2)] queue_next(2) [OF q] m(1) show ?case by (cases "body x s") simp_all
qed simp

text \<open>Two queues without common elements are joined, the second one is empty afterwards.\<close>

lemma tailq_concat_queue:
  assumes q: "is_queue h p xs" "is_queue h r ys" and pr: "p \<noteq> r" "set xs \<inter> set ys = {}"
  shows "\<exists>h'. tailq_concat p r h = Inr h' \<and> is_queue h' p (xs @ ys) \<and> is_queue h' r []"
proof (cases ys)
  case Nil
  then show ?thesis using q queue_access(2) [OF q(2)] by (auto simp: tailq_concat_def)
next
  case (Cons a zs)
  let ?k = "end_loc (In_Head p) xs"
  obtain q1 q2 ea where r: "tq_heads h p = Some q1" "tq_heads h r = Some q2" "tq_elems h a = Some ea"
    using is_queue_head [OF q(1)] is_queue_head [OF q(2)] is_queue_elem [OF q(2), of a] Cons by auto
  note f = queue_head_fields [OF q(1) r(1)] queue_head_fields [OF q(2) r(2)]
  have dist: "distinct (xs @ ys)" using q pr(2) by (simp add: is_queue_def)
  have "\<exists>h'. tailq_concat p r h = Inr h' \<and> ld h' ?k = Some (Some a) \<and> pv h' a = Some ?k \<and>
      lt h' p = Some (end_loc (In_Elem a) zs) \<and> is_queue h' r [] \<and>
      (\<forall>j. j \<noteq> ?k \<longrightarrow> j \<noteq> In_Head r \<longrightarrow> ld h' j = ld h j) \<and> (\<forall>b. b \<noteq> a \<longrightarrow> pv h' b = pv h b)"
  proof (cases xs rule: rev_cases)
    case Nil
    then show ?thesis using r f pr(1) Cons queue_access(2) [OF q(2)]
      by (auto simp: tailq_concat_def tailq_init_def tq_acts tq_obs is_queue_def split: loc.splits)
  next
    case (snoc ws w)
    then obtain ew where "tq_elems h w = Some ew" using is_queue_elem [OF q(1), of w] by auto
    then show ?thesis using r f pr snoc Cons queue_access(2) [OF q(2)]
      by (auto simp: tailq_concat_def tailq_init_def tq_acts tq_obs is_queue_def split: loc.splits)
  qed
  then obtain h' where h': "tailq_concat p r h = Inr h'" "ld h' ?k = Some (Some a)" "pv h' a = Some ?k"
    "lt h' p = Some (end_loc (In_Elem a) zs)" "is_queue h' r []"
    and keep: "\<And>j. j \<noteq> ?k \<Longrightarrow> j \<noteq> In_Head r \<Longrightarrow> ld h' j = ld h j" and prevs: "\<And>b. b \<noteq> a \<Longrightarrow> pv h' b = pv h b" by blast
  have xs: "chained h' (In_Head p) xs"
  proof (rule chained_cong)
    show "chained h (In_Head p) xs" using q(1) by (simp add: is_queue_def)
    fix j assume j: "j \<in> read_locs (In_Head p) xs"
    then have "j \<noteq> ?k" using end_loc_not_read [of xs "In_Head p"] dist by auto
    moreover have "j \<noteq> In_Head r" using j read_locs_subset [of "In_Head p" xs] pr(1) by auto
    ultimately show "ld h' j = ld h j" by (rule keep)
  qed (use dist Cons in \<open>auto intro!: prevs\<close>)
  have away: "ld h' j = ld h j" if "j \<in> In_Elem ` set ys" for j
  proof (rule keep)
    show "j \<noteq> ?k" using that end_loc_in [of "In_Head p" xs] pr(2) by auto
  qed (use that in auto)
  have zs: "chained h' (In_Elem a) zs"
  proof (rule chained_cong)
    show "chained h (In_Elem a) zs" using q(2) Cons by (simp add: is_queue_def)
    show "ld h' j = ld h j" if "j \<in> read_locs (In_Elem a) zs" for j
      using that read_locs_subset [of "In_Elem a" zs] Cons by (intro away) auto
  qed (use dist Cons in \<open>auto intro!: prevs\<close>)
  have "ld h' (end_loc (In_Elem a) zs) = ld h (end_loc (In_Elem a) zs)"
    using end_loc_in [of "In_Elem a" zs] Cons by (intro away) auto
  then have "ld h' (end_loc (In_Elem a) zs) = Some None" using q(2) Cons by (simp add: is_queue_def)
  with h' xs zs dist show ?thesis unfolding Cons by (auto simp: is_queue_def chained_append)
qed

text \<open>
  A loop over a queue whose body does not touch it is a fold over the list: what the body does is
  related to what \<open>f\<close> does with the data of the element.
\<close>

lemma foreach_sim:
  assumes "\<And>a s t. a \<in> set xs \<Longrightarrow> R s t \<Longrightarrow> rel_sum (=) R (body a s) (f (g a) t)"
    and "\<And>s t. R s t \<Longrightarrow> is_queue (mem s) p xs"
  shows "R s t \<Longrightarrow> xs = ys @ zs \<Longrightarrow> length zs \<le> n \<Longrightarrow>
    \<exists>r. tailq_foreach n mem body (first_of zs) s = Some r \<and> rel_sum (=) R r (fold_res f (map g zs) t)"
proof (induction zs arbitrary: s t n ys)
  case (Cons a zs)
  then obtain m where m: "n = Suc m" "length zs \<le> m" by (cases n) auto
  have b: "rel_sum (=) R (body a s) (f (g a) t)" using assms(1) [of a] Cons.prems by simp
  show ?case
  proof (cases "body a s")
    case (Inl e)
    then show ?thesis using b m by (cases "f (g a) t") auto
  next
    case (Inr s')
    then obtain t' where t': "f (g a) t = Inr t'" "R s' t'" using b by (cases "f (g a) t") auto
    have "tailq_next a (mem s') = Inr (first_of zs)"
      using queue_next(1) [of "mem s'" p ys a zs] assms(2) [OF t'(2)] Cons.prems(2) by simp
    with Cons.IH [OF t'(2), of "ys @ [a]" m] Cons.prems(2) m t'(1) Inr show ?thesis by simp
  qed
qed simp

section \<open>Sequences of operations\<close>

text \<open>An interface whose operations are steps on an abstract value.\<close>

fun all_ok :: "('op \<Rightarrow> 'l \<Rightarrow> bool) \<Rightarrow> ('op \<Rightarrow> 'l \<Rightarrow> 'l) \<Rightarrow> 'op list \<Rightarrow> 'l \<Rightarrow> bool" where
  "all_ok ok spec [] l = True"
| "all_ok ok spec (x # ops) l = (ok x l \<and> all_ok ok spec ops (spec x l))"

locale list_steps =
  fixes rep :: "'h \<Rightarrow> 'l \<Rightarrow> bool"
    and step :: "'op \<Rightarrow> 'h \<Rightarrow> 'h res"
    and spec :: "'op \<Rightarrow> 'l \<Rightarrow> 'l"
    and ok :: "'op \<Rightarrow> 'l \<Rightarrow> bool"
  assumes step_spec: "rep h l \<Longrightarrow> ok x l \<Longrightarrow> \<exists>h'. step x h = Inr h' \<and> rep h' (spec x l)"
begin

lemma run_spec:
  "rep h l \<Longrightarrow> all_ok ok spec ops l \<Longrightarrow> \<exists>h'. fold_res step ops h = Inr h' \<and> rep h' (fold spec ops l)"
proof (induction ops arbitrary: h l)
  case (Cons x ops)
  then obtain h' where "step x h = Inr h'" "rep h' (spec x l)" using step_spec by force
  with Cons show ?case by auto
qed simp

end

datatype tq_op =
    Insert_Head nat | Insert_Tail nat | Insert_After nat nat | Insert_Before nat nat | Remove nat

fun tq_do :: "nat \<Rightarrow> tq_op \<Rightarrow> 'd tq_heap \<Rightarrow> 'd tq_heap res" where
  "tq_do p (Insert_Head e) = tailq_insert_head p e"
| "tq_do p (Insert_Tail e) = tailq_insert_tail p e"
| "tq_do p (Insert_After a e) = tailq_insert_after p a e"
| "tq_do p (Insert_Before a e) = tailq_insert_before a e"
| "tq_do p (Remove a) = tailq_remove p a"

fun put_behind :: "nat \<Rightarrow> nat \<Rightarrow> nat list \<Rightarrow> nat list" where
  "put_behind a e [] = []"
| "put_behind a e (x # xs) = (if x = a then x # e # xs else x # put_behind a e xs)"

fun put_before :: "nat \<Rightarrow> nat \<Rightarrow> nat list \<Rightarrow> nat list" where
  "put_before a e [] = []"
| "put_before a e (x # xs) = (if x = a then e # x # xs else x # put_before a e xs)"

fun tq_spec :: "tq_op \<Rightarrow> nat list \<Rightarrow> nat list" where
  "tq_spec (Insert_Head e) xs = e # xs"
| "tq_spec (Insert_Tail e) xs = xs @ [e]"
| "tq_spec (Insert_After a e) xs = put_behind a e xs"
| "tq_spec (Insert_Before a e) xs = put_before a e xs"
| "tq_spec (Remove a) xs = remove1 a xs"

text \<open>Inserted elements are allocated and not in the queue, the others are in the queue.\<close>

fun tq_ok :: "nat set \<Rightarrow> tq_op \<Rightarrow> nat list \<Rightarrow> bool" where
  "tq_ok live (Insert_Head e) xs = (e \<in> live \<and> e \<notin> set xs)"
| "tq_ok live (Insert_Tail e) xs = (e \<in> live \<and> e \<notin> set xs)"
| "tq_ok live (Insert_After a e) xs = (e \<in> live \<and> e \<notin> set xs \<and> a \<in> set xs)"
| "tq_ok live (Insert_Before a e) xs = (e \<in> live \<and> e \<notin> set xs \<and> a \<in> set xs)"
| "tq_ok live (Remove a) xs = (a \<in> set xs)"

lemma put_split:
  "a \<notin> set xs \<Longrightarrow> put_behind a e (xs @ a # ys) = xs @ a # e # ys"
  "a \<notin> set xs \<Longrightarrow> put_before a e (xs @ a # ys) = xs @ e # a # ys"
  by (induction xs) auto

lemma dt_dom: "dt h' = dt h \<Longrightarrow> dom (tq_elems h') = dom (tq_elems h)"
proof -
  assume "dt h' = dt h"
  moreover have "dom (tq_elems g) = {a. dt g a \<noteq> None}" for g :: "'a tq_heap" by (auto simp: dt_def)
  ultimately show ?thesis by simp
qed

lemma touches_dom: "touches p A h h' \<Longrightarrow> dom (tq_elems h') = dom (tq_elems h)"
  by (rule dt_dom) (simp add: touches_def)

text \<open>The operations in terms of the queue and of what they leave alone.\<close>

lemma added:
  assumes "\<exists>h'. act = Inr h' \<and> linked_in p xs e ys h h' \<and> tq_brk h' = tq_brk h"
    and "is_queue h p (xs @ ys)" "e \<notin> set (xs @ ys)"
  shows "\<exists>h'. act = Inr h' \<and> is_queue h' p (xs @ e # ys) \<and> touches p (insert e (set (xs @ ys))) h h'"
proof -
  from assms(1) obtain h' where h': "act = Inr h'" "linked_in p xs e ys h h'" "tq_brk h' = tq_brk h" by blast
  show ?thesis using h'(1) splice_in [OF assms(2,3) h'(2)] linked_in_touches [OF h'(2,3)] by blast
qed

lemma tailq_insert_head_queue:
  assumes "is_queue h p xs" "tq_elems h e \<noteq> None" "e \<notin> set xs"
  shows "\<exists>h'. tailq_insert_head p e h = Inr h' \<and> is_queue h' p (e # xs) \<and> touches p (insert e (set xs)) h h'"
  using added [OF insert_head_links [OF assms]] assms by simp

lemma tailq_insert_tail_queue:
  assumes "is_queue h p xs" "tq_elems h e \<noteq> None" "e \<notin> set xs"
  shows "\<exists>h'. tailq_insert_tail p e h = Inr h' \<and> is_queue h' p (xs @ [e]) \<and> touches p (insert e (set xs)) h h'"
  using added [OF insert_tail_links [OF assms]] assms by simp

lemma tailq_insert_after_queue:
  assumes "is_queue h p (xs @ a # ys)" "tq_elems h e \<noteq> None" "e \<notin> set (xs @ a # ys)"
  shows "\<exists>h'. tailq_insert_after p a e h = Inr h' \<and> is_queue h' p (xs @ a # e # ys) \<and>
    touches p (insert e (set (xs @ a # ys))) h h'"
  using added [OF insert_after_links [OF assms]] assms by simp

lemma tailq_insert_before_queue:
  assumes "is_queue h p (xs @ a # ys)" "tq_elems h e \<noteq> None" "e \<notin> set (xs @ a # ys)"
  shows "\<exists>h'. tailq_insert_before a e h = Inr h' \<and> is_queue h' p (xs @ e # a # ys) \<and>
    touches p (insert e (set (xs @ a # ys))) h h'"
  using added [OF insert_before_links [OF assms]] assms by simp

lemma tailq_remove_queue:
  assumes "is_queue h p (xs @ a # ys)"
  shows "\<exists>h'. tailq_remove p a h = Inr h' \<and> is_queue h' p (xs @ ys) \<and> touches p (insert a (set (xs @ ys))) h h'"
proof -
  obtain h' where h': "tailq_remove p a h = Inr h'" "linked_out p xs a ys h h'" "tq_brk h' = tq_brk h"
    using remove_links [OF assms] by blast
  show ?thesis using h'(1) splice_out [OF assms h'(2)] linked_out_touches [OF h'(2,3)] by blast
qed

lemma tq_do_step:
  assumes q: "is_queue h p xs" and ok: "tq_ok (dom (tq_elems h)) x xs"
  shows "\<exists>h'. tq_do p x h = Inr h' \<and> is_queue h' p (tq_spec x xs) \<and> dom (tq_elems h') = dom (tq_elems h)"
proof -
  have "\<exists>A h'. tq_do p x h = Inr h' \<and> is_queue h' p (tq_spec x xs) \<and> touches p A h h'"
  proof (cases x)
    case (Insert_Head e)
    with ok have "tq_elems h e \<noteq> None" "e \<notin> set xs" by auto
    from tailq_insert_head_queue [OF q this] Insert_Head show ?thesis by auto
  next
    case (Insert_Tail e)
    with ok have "tq_elems h e \<noteq> None" "e \<notin> set xs" by auto
    from tailq_insert_tail_queue [OF q this] Insert_Tail show ?thesis by auto
  next
    case (Insert_After a e)
    then obtain ys zs where xs: "xs = ys @ a # zs" "a \<notin> set ys" using ok by (auto dest: split_list_first)
    then have "tq_elems h e \<noteq> None" "e \<notin> set (ys @ a # zs)" using ok Insert_After by auto
    from tailq_insert_after_queue [OF _ this] q Insert_After xs show ?thesis by (simp add: put_split) blast
  next
    case (Insert_Before a e)
    then obtain ys zs where xs: "xs = ys @ a # zs" "a \<notin> set ys" using ok by (auto dest: split_list_first)
    then have "tq_elems h e \<noteq> None" "e \<notin> set (ys @ a # zs)" using ok Insert_Before by auto
    from tailq_insert_before_queue [OF _ this] q Insert_Before xs show ?thesis by (simp add: put_split) blast
  next
    case (Remove a)
    then obtain ys zs where xs: "xs = ys @ a # zs" "a \<notin> set ys" using ok by (auto dest: split_list_first)
    with tailq_remove_queue [of h p ys a zs] q Remove show ?thesis by (simp add: remove1_append) blast
  qed
  then show ?thesis using touches_dom by blast
qed

text \<open>The queue at \<open>p\<close>, over the elements that are allocated, has the interface.\<close>

interpretation tq: list_steps "\<lambda>h xs. is_queue h p xs \<and> dom (tq_elems h) = live" "tq_do p" tq_spec "tq_ok live"
  for p live
proof
  fix h :: "'a tq_heap" and xs x
  assume "is_queue h p xs \<and> dom (tq_elems h) = live" "tq_ok live x xs"
  with tq_do_step [of h p xs x] show "\<exists>h'. tq_do p x h = Inr h' \<and> is_queue h' p (tq_spec x xs) \<and> dom (tq_elems h') = live"
    by auto
qed

text \<open>The elements a loop over the queue visits.\<close>

definition tailq_walk :: "nat \<Rightarrow> nat \<Rightarrow> 'd tq_heap \<Rightarrow> nat list res option" where
  "tailq_walk n p h =
     (case tailq_first p h of
        Inl e \<Rightarrow> Some (Inl e)
      | Inr a \<Rightarrow> tailq_foreach n (\<lambda>_. h) (\<lambda>var vs. Inr (vs @ [var])) a [])"

lemma tailq_walk_queue:
  assumes "is_queue h p xs" "length xs \<le> n"
  shows "tailq_walk n p h = Some (Inr xs)"
proof -
  have f: "fold_res (\<lambda>a vs. Inr (vs @ [a])) zs vs = Inr (vs @ zs)" for zs vs :: "nat list"
    by (induction zs arbitrary: vs) auto
  have "\<exists>r. tailq_foreach n (\<lambda>_. h) (\<lambda>var vs. Inr (vs @ [var])) (first_of xs) [] = Some r \<and>
      rel_sum (=) (=) r (fold_res (\<lambda>a vs. Inr (vs @ [a])) (map id xs) [])"
    by (rule foreach_sim [where R = "(=)" and xs = xs and ys = "[]" and p = p]) (use assms in \<open>auto simp: sum.rel_refl\<close>)
  then show ?thesis using queue_access(1) [OF assms(1)] by (simp add: tailq_walk_def f)
    (metis sum.rel_eq f append_Nil)
qed

text \<open>C20. The tail queues (3rdparty/queue.h): after \<^verbatim>\<open>TAILQ_INIT\<close> and any insertions at the head, at the
  tail, behind and before an element, and removals, of allocated elements that are not, or are, in
  the queue, no macro fails, a loop over the queue ends and visits exactly the elements of the list
  that the same operations on a list give, in that order, and the last element is the last of the
  list. In the other theories such queues are lists.\<close>
theorem tail_queue_refines_list:
  assumes "tq_heads h p \<noteq> None" "all_ok (tq_ok (dom (tq_elems h))) tq_spec ops []"
    and "fold tq_spec ops [] = xs" "length xs \<le> n"
  shows "\<exists>h'. bind_res (tailq_init p h) (fold_res (tq_do p) ops) = Inr h' \<and>
    tailq_walk n p h' = Some (Inr xs) \<and> tailq_empty p h' = Inr (xs = []) \<and>
    tailq_last p h' = Inr (if xs = [] then None else Some (last xs))"
proof -
  obtain h1 where h1: "tailq_init p h = Inr h1" "is_queue h1 p []" "touches p {} h h1"
    using tailq_init_queue [OF assms(1)] by blast
  have "dom (tq_elems h1) = dom (tq_elems h)" by (rule touches_dom [OF h1(3)])
  then obtain h' where h': "fold_res (tq_do p) ops h1 = Inr h'" "is_queue h' p xs"
    using tq.run_spec [of h1 p "[]" "dom (tq_elems h)" ops] h1(2) assms(2,3) by auto
  then show ?thesis using h1(1) tailq_walk_queue [OF h'(2) assms(4)] queue_access(2,3) [OF h'(2)] by simp
qed

definition small_heap :: "nat tq_heap" where
  "small_heap = \<lparr>tq_heads = [0 \<mapsto> \<lparr>tqh_first = None, tqh_last = No_Loc\<rparr>],
     tq_elems = (\<lambda>a. if 1 \<le> a \<and> a \<le> 3 then Some \<lparr>tqe_next = None, tqe_prev = No_Loc, tqe_data = a\<rparr> else None),
     tq_brk = 4\<rparr>"

theorem tail_queue_refines_list_witness:
  "\<exists>h'. bind_res (tailq_init 0 small_heap)
      (fold_res (tq_do 0) [Insert_Head 1, Insert_Tail 2, Insert_Before 2 3, Remove 1, Insert_After 3 1]) = Inr h' \<and>
    tailq_walk 3 0 h' = Some (Inr [3, 1, 2]) \<and> tailq_empty 0 h' = Inr ([3, 1, 2 :: nat] = []) \<and>
    tailq_last 0 h' = Inr (if [3, 1, 2 :: nat] = [] then None else Some (last [3, 1, 2]))"
  by (rule tail_queue_refines_list) (auto simp: small_heap_def dom_def)

section \<open>linked\_list.h\<close>

text \<open>
  A list is the pointer to its first item. \<^verbatim>\<open>LINKED_LIST_ADD\<close> assigns a new item to the variable,
  \<^verbatim>\<open>LINKED_LIST_DELETE\<close> passes the data of each item to a function and frees the item, with the next
  pointer read before; \<open>None\<close>: the fuel has run out.
\<close>

record 'd ll_item =
  ll_data :: 'd
  ll_next :: ptr

record 'd ll_heap =
  ll_items :: "nat \<rightharpoonup> 'd ll_item"
  ll_brk :: nat

definition linked_list_init :: ptr where
  "linked_list_init = None"

definition linked_list_add :: "'d \<Rightarrow> ptr \<times> 'd ll_heap \<Rightarrow> ptr \<times> 'd ll_heap" where
  "linked_list_add d = (\<lambda>(head, h).
     let temp = head; a = ll_brk h in
     (Some a, h\<lparr>ll_items := (ll_items h)(a \<mapsto> \<lparr>ll_data = d, ll_next = temp\<rparr>), ll_brk := a + 1\<rparr>))"

fun linked_list_foreach ::
  "nat \<Rightarrow> 'd ll_heap \<Rightarrow> ('d \<Rightarrow> 's \<Rightarrow> 's res) \<Rightarrow> ptr \<Rightarrow> 's \<Rightarrow> 's res option" where
  "linked_list_foreach n h body None s = Some (Inr s)"
| "linked_list_foreach 0 h body (Some a) s = None"
| "linked_list_foreach (Suc n) h body (Some a) s =
     (case ll_items h a of
        None \<Rightarrow> Some (Inl UseAfterFree)
      | Some it \<Rightarrow>
          (case body (ll_data it) s of
             Inl e \<Rightarrow> Some (Inl e)
           | Inr s \<Rightarrow> linked_list_foreach n h body (ll_next it) s))"

fun linked_list_delete ::
  "nat \<Rightarrow> ('d \<Rightarrow> 's \<Rightarrow> 's res) \<Rightarrow> ptr \<Rightarrow> 'd ll_heap \<times> 's \<Rightarrow> ('d ll_heap \<times> 's) res option" where
  "linked_list_delete n delete_fn None s = Some (Inr s)"
| "linked_list_delete 0 delete_fn (Some a) s = None"
| "linked_list_delete (Suc n) delete_fn (Some a) (h, s) =
     (case ll_items h a of
        None \<Rightarrow> Some (Inl UseAfterFree)
      | Some it \<Rightarrow>
          (case delete_fn (ll_data it) s of
             Inl e \<Rightarrow> Some (Inl e)
           | Inr s \<Rightarrow> linked_list_delete n delete_fn (ll_next it) (h\<lparr>ll_items := (ll_items h)(a := None)\<rparr>, s)))"

text \<open>The items at the addresses \<open>as\<close> hold the data \<open>ds\<close>; the addresses decrease, the heap has no others.\<close>

fun ll_path :: "'d ll_heap \<Rightarrow> ptr \<Rightarrow> nat list \<Rightarrow> 'd list \<Rightarrow> bool" where
  "ll_path h v [] ds = (v = None \<and> ds = [])"
| "ll_path h v (a # as) ds =
     (\<exists>it. v = Some a \<and> ll_items h a = Some it \<and> ds \<noteq> [] \<and> ll_data it = hd ds \<and> ll_path h (ll_next it) as (tl ds))"

definition ll_list :: "'d ll_heap \<Rightarrow> ptr \<Rightarrow> nat list \<Rightarrow> 'd list \<Rightarrow> bool" where
  "ll_list h v as ds \<longleftrightarrow> ll_path h v as ds \<and> distinct as \<and> dom (ll_items h) = set as \<and> (\<forall>a \<in> set as. a < ll_brk h)"

lemma ll_path_cong:
  "\<forall>a \<in> set as. ll_items g a = ll_items h a \<Longrightarrow> ll_path g v as ds = ll_path h v as ds"
  by (induction as arbitrary: v ds) auto

lemma ll_list_add:
  assumes "ll_list h v as ds"
  shows "\<exists>a. ll_list (snd (linked_list_add d (v, h))) (fst (linked_list_add d (v, h))) (a # as) (d # ds)"
proof -
  have new: "ll_brk h \<notin> set as" using assms by (auto simp: ll_list_def)
  then have "ll_path (snd (linked_list_add d (v, h))) v as ds = ll_path h v as ds"
    by (intro ll_path_cong) (auto simp: linked_list_add_def Let_def)
  with assms new show ?thesis
    by (intro exI [of _ "ll_brk h"]) (auto simp: ll_list_def linked_list_add_def Let_def)
qed

lemma linked_list_foreach_path:
  "ll_path h v as ds \<Longrightarrow> length as \<le> n \<Longrightarrow> linked_list_foreach n h body v s = Some (fold_res body ds s)"
proof (induction as arbitrary: v ds n s)
  case (Cons a as)
  then obtain m d ds' where "n = Suc m" "ds = d # ds'" by (cases n; cases ds) auto
  with Cons show ?case by (cases "body d s") auto
qed simp

lemma linked_list_delete_path:
  "ll_path h v as ds \<Longrightarrow> distinct as \<Longrightarrow> dom (ll_items h) = set as \<Longrightarrow> length as \<le> n \<Longrightarrow>
   linked_list_delete n delete_fn v (h, s) =
     Some (bind_res (fold_res delete_fn ds s) (\<lambda>s. Inr (h\<lparr>ll_items := Map.empty\<rparr>, s)))"
proof (induction as arbitrary: h v ds n s)
  case Nil
  then have "ll_items h = Map.empty" by simp
  with Nil show ?case by simp
next
  case (Cons a as)
  then obtain m d ds' where m: "n = Suc m" "ds = d # ds'" by (cases n; cases ds) auto
  let ?h = "h\<lparr>ll_items := (ll_items h)(a := None)\<rparr>"
  obtain it where it: "v = Some a" "ll_items h a = Some it" "ll_data it = d" "ll_path h (ll_next it) as ds'"
    using Cons.prems(1) m(2) by auto
  have rest: "ll_path ?h (ll_next it) as ds'"
    using it(4) Cons.prems(2) ll_path_cong [of as ?h h "ll_next it" ds'] by auto
  have left: "dom (ll_items ?h) = set as" using Cons.prems(2,3) by auto
  have dist: "distinct as" and len: "length as \<le> m" using Cons.prems(2,4) m(1) by simp_all
  have "linked_list_delete m delete_fn (ll_next it) (?h, t) =
      Some (bind_res (fold_res delete_fn ds' t) (\<lambda>s. Inr (?h\<lparr>ll_items := Map.empty\<rparr>, s)))" for t
    by (rule Cons.IH [OF rest dist left len])
  then show ?case using m it by (cases "delete_fn d s") simp_all
qed

text \<open>The linked lists (linked\_list.h): from an empty list and any number of additions, a loop over the
  list runs its body on the data, the last one added first, and deleting the list passes the data to
  the delete function in that order, up to the first error, and frees every item.\<close>
theorem linked_list_life:
  assumes "fold linked_list_add ds (linked_list_init, \<lparr>ll_items = Map.empty, ll_brk = b\<rparr>) = (head, h)"
    and "length ds \<le> n"
  shows "linked_list_foreach n h body head s = Some (fold_res body (rev ds) s) \<and>
    linked_list_delete n delete_fn head (h, t) =
      Some (bind_res (fold_res delete_fn (rev ds) t) (\<lambda>t. Inr (h\<lparr>ll_items := Map.empty\<rparr>, t)))"
proof -
  have "\<exists>as. ll_list (snd (fold linked_list_add ds (v, g))) (fst (fold linked_list_add ds (v, g))) as (rev ds @ es)"
    if "ll_list g v bs es" for v g bs es
    using that
  proof (induction ds arbitrary: v g bs es)
    case (Cons d ds)
    from ll_list_add [OF Cons.prems, of d] obtain a where
      "ll_list (snd (linked_list_add d (v, g))) (fst (linked_list_add d (v, g))) (a # bs) (d # es)" by blast
    from Cons.IH [OF this] show ?case by simp
  qed auto
  from this [of "\<lparr>ll_items = Map.empty, ll_brk = b\<rparr>" linked_list_init "[]" "[]"] assms(1)
  obtain as where as: "ll_list h head as (rev ds)" by (auto simp: ll_list_def linked_list_init_def)
  have len: "length as = length es" if "ll_path h v as es" for v es
    using that
  proof (induction as arbitrary: v es)
    case (Cons a as)
    then show ?case by (cases es) auto
  qed simp
  from as have path: "ll_path h head as (rev ds)" "distinct as" "dom (ll_items h) = set as" by (simp_all add: ll_list_def)
  have n: "length as \<le> n" using assms(2) len [OF path(1)] by simp
  show ?thesis by (rule conjI [OF linked_list_foreach_path [OF path(1) n] linked_list_delete_path [OF path n]])
qed

theorem linked_list_life_witness:
  "\<exists>head h. linked_list_foreach 2 h (\<lambda>d s. Inr (s @ [d])) head [] = Some (fold_res (\<lambda>d s. Inr (s @ [d])) (rev [7, 8 :: nat]) []) \<and>
    linked_list_delete 2 (\<lambda>d s. Inr (s + d)) head (h, 0) =
      Some (bind_res (fold_res (\<lambda>d s. Inr (s + d)) (rev [7, 8]) 0) (\<lambda>t. Inr (h\<lparr>ll_items := Map.empty\<rparr>, t)))"
proof -
  obtain head h where h: "fold linked_list_add [7, 8 :: nat] (linked_list_init, \<lparr>ll_items = Map.empty, ll_brk = 5\<rparr>) = (head, h)"
    by (cases "fold linked_list_add [7, 8 :: nat] (linked_list_init, \<lparr>ll_items = Map.empty, ll_brk = 5\<rparr>)") blast
  have "length [7, 8 :: nat] \<le> 2" by simp
  from linked_list_life [OF h this] show ?thesis by (intro exI)
qed

end
