(* ===== verification/Indexnodes_Heap.thy ===== *)
theory Indexnodes_Heap
  imports Tail_Queue Indexnodes
begin

text \<open>
  The lists of indexnodes (\<^verbatim>\<open>src/src/indexnodes/indexnodes_list.c\<close> and \<^verbatim>\<open>indexnodes_iterator.c\<close>) on the heap:
  each list is a block with the head of a tail queue, each member an item in a block of its own, and
  the functions run the macros of \<open>Tail_Queue\<close>. The definitions of \<open>Indexnodes\<close>, which represent a
  list by the sequence of its members, are shown to be what these functions compute, errors included,
  and the heap has exactly the blocks of the lists that exist.
\<close>

section \<open>indexnodes\_list.c with its pointers\<close>

type_synonym item_heap = "addr tq_heap"

text \<open>Operations that contain loops are \<open>None\<close> when the fuel of a loop runs out.\<close>

definition bind_loop :: "'a res option \<Rightarrow> ('a \<Rightarrow> 'b res option) \<Rightarrow> 'b res option" where
  "bind_loop m f = (case m of None \<Rightarrow> None | Some (Inl e) \<Rightarrow> Some (Inl e) | Some (Inr x) \<Rightarrow> f x)"

lemma bind_loop_simps [simp]:
  "bind_loop (Some (Inl e)) f = Some (Inl e)" "bind_loop (Some (Inr x)) f = f x" "bind_loop None f = None"
  by (simp_all add: bind_loop_def)

definition heap_list_new :: "item_heap \<Rightarrow> (addr \<times> item_heap) res" where
  "heap_list_new h =
     (let ins = tq_brk h;
          h = h\<lparr>tq_heads := (tq_heads h)(ins \<mapsto> \<lparr>tqh_first = None, tqh_last = No_Loc\<rparr>), tq_brk := ins + 1\<rparr> in
      bind_res (tailq_init ins h) (\<lambda>h. Inr (ins, h)))"

text \<open>The pointers of a new item are written before they are read.\<close>

definition heap_list_add :: "addr \<Rightarrow> addr \<Rightarrow> item_heap \<Rightarrow> item_heap res" where
  "heap_list_add ins ind h =
     (let item = tq_brk h;
          h = h\<lparr>tq_elems := (tq_elems h)(item \<mapsto> \<lparr>tqe_next = None, tqe_prev = No_Loc, tqe_data = ind\<rparr>),
                tq_brk := item + 1\<rparr> in
      tailq_insert_head ins item h)"

fun heap_find_loop ::
  "nat \<Rightarrow> string \<Rightarrow> ptr \<Rightarrow> item_heap \<Rightarrow> indexnode_t rc_store \<Rightarrow> (addr option \<times> indexnode_t rc_store) res option" where
  "heap_find_loop n uid None h st = Some (Inr (None, st))"
| "heap_find_loop 0 uid (Some item) h st = None"
| "heap_find_loop (Suc n) uid (Some item) h st =
     bind_loop (Some (get_elem item h)) (\<lambda>e.
     bind_loop (Some (obj_get (tqe_data e) st)) (\<lambda>ind.
     if indexnode_equals ind uid
     then Some (bind_res (indexnode_copy (tqe_data e) st) (\<lambda>st. Inr (Some (tqe_data e), st)))
     else heap_find_loop n uid (tqe_next e) h st))"

definition heap_list_find ::
  "nat \<Rightarrow> addr \<Rightarrow> string \<Rightarrow> item_heap \<Rightarrow> indexnode_t rc_store \<Rightarrow> (addr option \<times> indexnode_t rc_store) res option" where
  "heap_list_find n ins uid h st =
     bind_loop (Some (tailq_first ins h)) (\<lambda>item. heap_find_loop n uid item h st)"

type_synonym list_state = "item_heap \<times> indexnode_t rc_store"

definition copy_item :: "addr \<Rightarrow> addr \<Rightarrow> list_state \<Rightarrow> list_state res" where
  "copy_item ret item = (\<lambda>(h, st).
     bind_res (get_elem item h) (\<lambda>e.
     bind_res (indexnode_copy (tqe_data e) st) (\<lambda>st.
     bind_res (heap_list_add ret (tqe_data e) h) (\<lambda>h. Inr (h, st)))))"

definition heap_list_copy :: "nat \<Rightarrow> addr \<Rightarrow> list_state \<Rightarrow> (addr \<times> list_state) res option" where
  "heap_list_copy n orig = (\<lambda>(h, st).
     bind_loop (Some (heap_list_new h)) (\<lambda>(ret, h).
     bind_loop (Some (tailq_first orig h)) (\<lambda>item.
     bind_loop (tailq_foreach n fst (copy_item ret) item (h, st)) (\<lambda>s. Some (Inr (ret, s))))))"

definition free_item :: "addr \<Rightarrow> item_heap \<Rightarrow> item_heap res" where
  "free_item a h = (if tq_elems h a = None then Inl InvalidFree else Inr (h\<lparr>tq_elems := (tq_elems h)(a := None)\<rparr>))"

definition free_list :: "addr \<Rightarrow> item_heap \<Rightarrow> item_heap res" where
  "free_list p h = (if tq_heads h p = None then Inl InvalidFree else Inr (h\<lparr>tq_heads := (tq_heads h)(p := None)\<rparr>))"

definition delete_item :: "addr \<Rightarrow> list_state \<Rightarrow> list_state res" where
  "delete_item item = (\<lambda>(h, st).
     bind_res (get_elem item h) (\<lambda>e.
     bind_res (indexnode_delete (tqe_data e) st) (\<lambda>st.
     bind_res (free_item item h) (\<lambda>h. Inr (h, st)))))"

definition heap_list_delete :: "nat \<Rightarrow> addr \<Rightarrow> list_state \<Rightarrow> list_state res option" where
  "heap_list_delete n ins = (\<lambda>(h, st).
     bind_loop (Some (tailq_first ins h)) (\<lambda>item.
     bind_loop (tailq_foreach_safe n fst delete_item item (h, st)) (\<lambda>(h, st).
     bind_loop (Some (free_list ins h)) (\<lambda>h. Some (Inr (h, st))))))"

definition keep_valid :: "int \<Rightarrow> int \<Rightarrow> addr \<Rightarrow> addr \<Rightarrow> list_state \<Rightarrow> list_state res" where
  "keep_valid now timeout ret item = (\<lambda>(h, st).
     bind_res (get_elem item h) (\<lambda>e.
     bind_res (obj_get (tqe_data e) st) (\<lambda>ind.
     if indexnode_still_valid now timeout ind then copy_item ret item (h, st) else Inr (h, st))))"

definition heap_list_remove_expired ::
  "nat \<Rightarrow> int \<Rightarrow> int \<Rightarrow> addr \<Rightarrow> list_state \<Rightarrow> (addr \<times> list_state) res option" where
  "heap_list_remove_expired n now timeout orig = (\<lambda>(h, st).
     bind_loop (Some (heap_list_new h)) (\<lambda>(ret, h).
     bind_loop (Some (tailq_first orig h)) (\<lambda>item.
     bind_loop (tailq_foreach n fst (keep_valid now timeout ret) item (h, st)) (\<lambda>s.
     bind_loop (heap_list_delete n orig s) (\<lambda>s. Some (Inr (ret, s)))))))"

section \<open>indexnodes\_iterator.c, indexnodes.c with their pointers\<close>

text \<open>An iterator is the pointer to its current item.\<close>

definition heap_iterator_begin :: "addr \<Rightarrow> item_heap \<Rightarrow> ptr res" where
  "heap_iterator_begin ins h = tailq_first ins h"

definition heap_iterator_current ::
  "ptr \<Rightarrow> list_state \<Rightarrow> (addr \<times> indexnode_t rc_store) res" where
  "heap_iterator_current iter = (\<lambda>(h, st).
     case iter of
       None \<Rightarrow> Inl NullDeref
     | Some item \<Rightarrow>
         bind_res (get_elem item h) (\<lambda>e.
         bind_res (indexnode_copy (tqe_data e) st) (\<lambda>st. Inr (tqe_data e, st))))"

definition heap_iterator_next :: "ptr \<Rightarrow> item_heap \<Rightarrow> ptr res" where
  "heap_iterator_next iter h = (case iter of None \<Rightarrow> Inl NullDeref | Some item \<Rightarrow> tailq_next item h)"

definition heap_iterator_end :: "ptr \<Rightarrow> bool" where
  "heap_iterator_end iter = (iter = None)"

text \<open>\<^verbatim>\<open>indexnodes_get\<close>: the new list of the collection and the list for the caller.\<close>

definition heap_indexnodes_get ::
  "nat \<Rightarrow> int \<Rightarrow> int \<Rightarrow> addr \<Rightarrow> list_state \<Rightarrow> (addr \<times> addr \<times> list_state) res option" where
  "heap_indexnodes_get n now timeout ins s =
     bind_loop (heap_list_remove_expired n now timeout ins s) (\<lambda>(lis, s).
     bind_loop (heap_list_copy n lis s) (\<lambda>(list, s). Some (Inr (list, lis, s))))"

section \<open>Which lists a heap holds\<close>

text \<open>
  \<open>L\<close> says which list is at which address, \<open>X\<close> which items it has. The queues have no item in common,
  every block belongs to one of them, and \<^verbatim>\<open>malloc\<close> has handed out all of them.
\<close>

definition holds_lists :: "item_heap \<Rightarrow> (addr \<Rightarrow> addr list) \<Rightarrow> (addr \<rightharpoonup> indexnodes_list_t) \<Rightarrow> bool" where
  "holds_lists h X L \<longleftrightarrow>
     dom (tq_heads h) = dom L \<and>
     (\<forall>p lis. L p = Some lis \<longrightarrow> is_queue h p (X p) \<and> map (dt h) (X p) = map Some (ins_items lis)) \<and>
     (\<forall>p r. p \<in> dom L \<longrightarrow> r \<in> dom L \<longrightarrow> p \<noteq> r \<longrightarrow> set (X p) \<inter> set (X r) = {}) \<and>
     dom (tq_elems h) = (\<Union>p \<in> dom L. set (X p)) \<and>
     (\<forall>a \<in> dom (tq_heads h) \<union> dom (tq_elems h). a < tq_brk h)"

definition lists_at :: "item_heap \<Rightarrow> (addr \<rightharpoonup> indexnodes_list_t) \<Rightarrow> bool" where
  "lists_at h L \<longleftrightarrow> (\<exists>X. holds_lists h X L)"

lemma holds_listsD:
  assumes "holds_lists h X L"
  shows "dom (tq_heads h) = dom L"
    and "\<And>p lis. L p = Some lis \<Longrightarrow> is_queue h p (X p)"
    and "\<And>p lis. L p = Some lis \<Longrightarrow> map (dt h) (X p) = map Some (ins_items lis)"
    and "\<And>p r. p \<in> dom L \<Longrightarrow> r \<in> dom L \<Longrightarrow> p \<noteq> r \<Longrightarrow> set (X p) \<inter> set (X r) = {}"
    and "dom (tq_elems h) = (\<Union>p \<in> dom L. set (X p))"
    and "L (tq_brk h) = None" "tq_heads h (tq_brk h) = None" "tq_elems h (tq_brk h) = None"
    and "\<forall>a \<in> dom (tq_heads h) \<union> dom (tq_elems h). a < tq_brk h"
proof -
  note a = assms [unfolded holds_lists_def]
  have H: "dom (tq_heads h) = dom L"
    "\<forall>p lis. L p = Some lis \<longrightarrow> is_queue h p (X p) \<and> map (dt h) (X p) = map Some (ins_items lis)"
    "\<forall>p r. p \<in> dom L \<longrightarrow> r \<in> dom L \<longrightarrow> p \<noteq> r \<longrightarrow> set (X p) \<inter> set (X r) = {}"
    "dom (tq_elems h) = (\<Union>p \<in> dom L. set (X p))"
    "\<forall>a \<in> dom (tq_heads h) \<union> dom (tq_elems h). a < tq_brk h"
    by (rule conjunct1 [OF a] conjunct1 [OF conjunct2 [OF a]] conjunct1 [OF conjunct2 [OF conjunct2 [OF a]]]
        conjunct1 [OF conjunct2 [OF conjunct2 [OF conjunct2 [OF a]]]] conjunct2 [OF conjunct2 [OF conjunct2 [OF conjunct2 [OF a]]]])+
  show "dom (tq_heads h) = dom L" "dom (tq_elems h) = (\<Union>p \<in> dom L. set (X p))" by (rule H)+
  show "is_queue h p (X p)" "map (dt h) (X p) = map Some (ins_items lis)" if "L p = Some lis" for p lis
    using H(2) that by simp_all
  show "set (X p) \<inter> set (X r) = {}" if "p \<in> dom L" "r \<in> dom L" "p \<noteq> r" for p r using H(3) that by simp
  show "\<forall>a \<in> dom (tq_heads h) \<union> dom (tq_elems h). a < tq_brk h" by (rule H(5))
  have "tq_brk h \<notin> dom (tq_heads h) \<union> dom (tq_elems h)" using H(5) by blast
  then show "tq_heads h (tq_brk h) = None" "tq_elems h (tq_brk h) = None" "L (tq_brk h) = None"
    using H(1) by (simp_all add: domIff) (metis domIff)
qed

lemma holds_length: "holds_lists h X L \<Longrightarrow> L p = Some lis \<Longrightarrow> length (X p) = length (ins_items lis)"
  using holds_listsD(3) by (metis length_map)

section \<open>Each function does what its definition on lists says\<close>

text \<open>A new element or head outside a queue does not change it.\<close>

lemma is_queue_same:
  assumes "is_queue h p xs" "tq_heads h' p = tq_heads h p" "\<forall>a \<in> set xs. tq_elems h' a = tq_elems h a"
  shows "is_queue h' p xs"
  by (rule is_queue_cong [OF assms(1)]) (use assms(2,3) in \<open>auto simp: ld_def lt_def pv_def\<close>)

lemma dt_same: "\<forall>a \<in> set xs. tq_elems h' a = tq_elems h a \<Longrightarrow> map (dt h') xs = map (dt h) xs"
  by (simp add: dt_def)

text \<open>The items of all lists.\<close>

lemma items_upd:
  "(\<Union>r \<in> dom (L(p \<mapsto> lis)). set ((X(p := xs)) r)) = set xs \<union> (\<Union>r \<in> dom L - {p}. set (X r))"
  by (auto split: if_splits)

lemma items_split: "p \<in> dom L \<Longrightarrow> (\<Union>r \<in> dom L. set (X r)) = set (X p) \<union> (\<Union>r \<in> dom L - {p}. set (X r))"
  by blast

lemma heap_list_new_holds:
  assumes h: "holds_lists h X L"
  shows "\<exists>h'. heap_list_new h = Inr (tq_brk h, h') \<and>
    holds_lists h' (X(tq_brk h := [])) (L(tq_brk h \<mapsto> indexnodes_list_new))"
proof -
  let ?q = "tq_brk h"
  let ?h = "h\<lparr>tq_brk := ?q + 1, tq_heads := (tq_heads h)(?q \<mapsto> \<lparr>tqh_first = None, tqh_last = In_Head ?q\<rparr>)\<rparr>"
  note H = holds_listsD [OF h]
  have new: "is_queue ?h ?q []" by (simp add: is_queue_def ld_def lt_def)
  have old: "is_queue ?h p (X p)" "map (dt ?h) (X p) = map Some (ins_items lis)" if "L p = Some lis" for p lis
  proof -
    have "dt ?h = dt h" by (simp add: dt_def fun_eq_iff)
    then show "map (dt ?h) (X p) = map Some (ins_items lis)" using H(3) [OF that] by simp
    have "p \<noteq> ?q" using that H(6) by auto
    then show "is_queue ?h p (X p)" by (intro is_queue_same [OF H(2) [OF that]]) simp_all
  qed
  have "holds_lists ?h (X(?q := [])) (L(?q \<mapsto> indexnodes_list_new))"
    unfolding holds_lists_def
  proof (intro conjI)
    show "dom (tq_heads ?h) = dom (L(?q \<mapsto> indexnodes_list_new))" using H(1) by auto
    show "\<forall>p lis. (L(?q \<mapsto> indexnodes_list_new)) p = Some lis \<longrightarrow> is_queue ?h p ((X(?q := [])) p) \<and>
        map (dt ?h) ((X(?q := [])) p) = map Some (ins_items lis)"
      using new old H(6) by (auto simp: indexnodes_list_new_def)
    show "\<forall>p r. p \<in> dom (L(?q \<mapsto> indexnodes_list_new)) \<longrightarrow> r \<in> dom (L(?q \<mapsto> indexnodes_list_new)) \<longrightarrow> p \<noteq> r \<longrightarrow>
        set ((X(?q := [])) p) \<inter> set ((X(?q := [])) r) = {}" using H(4) by auto
    show "dom (tq_elems ?h) = (\<Union>p \<in> dom (L(?q \<mapsto> indexnodes_list_new)). set ((X(?q := [])) p))"
      using H(5) unfolding items_upd by (simp add: H(6) domIff)
    show "\<forall>a \<in> dom (tq_heads ?h) \<union> dom (tq_elems ?h). a < tq_brk ?h"
      using h by (auto simp: holds_lists_def less_Suc_eq)
  qed
  then show ?thesis by (simp add: heap_list_new_def tailq_init_def upd_head_def get_head_def Let_def)
qed

lemma heap_list_add_holds:
  assumes h: "holds_lists h X L" and p: "L p = Some lis"
  shows "\<exists>h'. heap_list_add p ind h = Inr h' \<and>
    holds_lists h' (X(p := tq_brk h # X p)) (L(p \<mapsto> indexnodes_list_add lis ind))"
proof -
  let ?a = "tq_brk h"
  let ?h = "h\<lparr>tq_elems := (tq_elems h)(?a \<mapsto> \<lparr>tqe_next = None, tqe_prev = No_Loc, tqe_data = ind\<rparr>), tq_brk := ?a + 1\<rparr>"
  note H = holds_listsD [OF h]
  have fresh: "?a \<notin> set (X r)" if "r \<in> dom L" for r
    using H(5,8) that by (metis UN_I domIff)
  have q1: "is_queue ?h r (X r)" if "L r = Some l" for r l
  proof (rule is_queue_same [OF H(2) [OF that]])
    show "\<forall>b \<in> set (X r). tq_elems ?h b = tq_elems h b" using fresh [of r] that by auto
  qed simp
  have "tq_elems ?h ?a \<noteq> None" "?a \<notin> set (X p)" using fresh [of p] p by auto
  from tailq_insert_head_queue [OF q1 [OF p] this] obtain h' where h': "tailq_insert_head p ?a ?h = Inr h'" "is_queue h' p (?a # X p)"
    "touches p (insert ?a (set (X p))) ?h h'"
    by blast
  have data: "dt h' = dt ?h" and brk: "tq_brk h' = ?a + 1" and doms: "dom (tq_elems h') = dom (tq_elems ?h)"
    using h'(3) touches_dom [OF h'(3)] by (simp_all add: touches_def)
  have heads: "dom (tq_heads h') = dom L"
  proof -
    have "tq_heads h' r = None \<longleftrightarrow> tq_heads h r = None" if "r \<noteq> p" for r
    proof -
      have "lt h' r = lt ?h r" using h'(3) that by (simp add: touches_def)
      then show ?thesis by (cases "tq_heads h' r"; cases "tq_heads h r") (simp_all add: lt_def)
    qed
    moreover have "tq_heads h' p \<noteq> None" by (rule is_queue_head [OF h'(2)])
    ultimately have "r \<in> dom (tq_heads h') \<longleftrightarrow> r \<in> dom L" for r
      using p H(1) by (cases "r = p") (auto simp: set_eq_iff domIff)
    then show ?thesis by blast
  qed
  have others: "is_queue h' r (X r)" if "L r = Some l" "r \<noteq> p" for r l
  proof (rule other_queue_kept [OF q1 [OF that(1)] h'(3) that(2)])
    show "set (X r) \<inter> insert ?a (set (X p)) = {}" using H(4) [of r p] fresh [of r] that p by auto
  qed
  have datas: "map (dt h') (X r) = map Some (ins_items l)" if "L r = Some l" for r l
  proof -
    have "\<forall>b \<in> set (X r). tq_elems ?h b = tq_elems h b" using fresh [of r] that by auto
    from dt_same [OF this] H(3) [OF that] show ?thesis by (simp only: data)
  qed
  have "holds_lists h' (X(p := ?a # X p)) (L(p \<mapsto> indexnodes_list_add lis ind))"
    unfolding holds_lists_def
  proof (intro conjI)
    show "dom (tq_heads h') = dom (L(p \<mapsto> indexnodes_list_add lis ind))" using heads p by auto
    have "dt h' ?a = Some ind" by (simp add: data) (simp add: dt_def)
    then show "\<forall>r l. (L(p \<mapsto> indexnodes_list_add lis ind)) r = Some l \<longrightarrow> is_queue h' r ((X(p := ?a # X p)) r) \<and>
        map (dt h') ((X(p := ?a # X p)) r) = map Some (ins_items l)"
      using h'(2) others datas p by (auto simp: indexnodes_list_add_def)
    show "\<forall>r s. r \<in> dom (L(p \<mapsto> indexnodes_list_add lis ind)) \<longrightarrow> s \<in> dom (L(p \<mapsto> indexnodes_list_add lis ind)) \<longrightarrow>
        r \<noteq> s \<longrightarrow> set ((X(p := ?a # X p)) r) \<inter> set ((X(p := ?a # X p)) s) = {}"
      using H(4) fresh p by (auto simp: dom_def)
    show "dom (tq_elems h') = (\<Union>r \<in> dom (L(p \<mapsto> indexnodes_list_add lis ind)). set ((X(p := ?a # X p)) r))"
      unfolding items_upd doms using p by (simp add: H(5) items_split [of p L X] domI)
    show "\<forall>a \<in> dom (tq_heads h') \<union> dom (tq_elems h'). a < tq_brk h'"
      using h heads H(1) by (auto simp: doms brk holds_lists_def less_Suc_eq)
  qed
  with h'(1) show ?thesis by (simp add: heap_list_add_def Let_def)
qed

text \<open>The items from an element of a queue on, as the loops read them.\<close>

fun linked_items :: "item_heap \<Rightarrow> addr list \<Rightarrow> addr list \<Rightarrow> bool" where
  "linked_items h [] ds = (ds = [])"
| "linked_items h (a # as) ds =
     (\<exists>e d ds'. ds = d # ds' \<and> tq_elems h a = Some e \<and> tqe_data e = d \<and> tqe_next e = first_of as \<and> linked_items h as ds')"

lemma queue_linked_items:
  "is_queue h p (ys @ as) \<Longrightarrow> map (dt h) as = map Some ds \<Longrightarrow> linked_items h as ds"
proof (induction as arbitrary: ys ds)
  case (Cons a as)
  then obtain d ds' where ds: "ds = d # ds'" "dt h a = Some d" by (cases ds) auto
  then obtain e where e: "tq_elems h a = Some e" "tqe_data e = d" by (auto simp: dt_def)
  with queue_elem_fields(1) [OF Cons.prems(1) e(1)] Cons.IH [of "ys @ [a]" ds'] Cons.prems ds show ?case by simp
qed simp

lemma linked_items_cong:
  "\<forall>a \<in> set as. tq_elems g a = tq_elems h a \<Longrightarrow> linked_items g as ds = linked_items h as ds"
  by (induction as arbitrary: ds) auto

lemma heap_find_loop_items:
  "linked_items h as ds \<Longrightarrow> length as \<le> n \<Longrightarrow> heap_find_loop n uid (first_of as) h st = Some (find_item uid ds st)"
proof (induction as arbitrary: ds n)
  case (Cons a as)
  then obtain m e d ds' where m: "n = Suc m" "ds = d # ds'" "tq_elems h a = Some e" "tqe_data e = d"
    "tqe_next e = first_of as" "linked_items h as ds'" by (cases n) auto
  with Cons.IH [of ds' m] Cons.prems(2) show ?case
    by (cases "obj_get d st") (simp_all add: get_elem_def)
qed simp

lemma delete_loop_items:
  "linked_items h as ds \<Longrightarrow> distinct as \<Longrightarrow> length as \<le> n \<Longrightarrow>
   tailq_foreach_safe n fst delete_item (first_of as) (h, st) =
     Some (bind_res (fold_res indexnode_delete ds st)
       (\<lambda>st. Inr (h\<lparr>tq_elems := tq_elems h |` (- set as)\<rparr>, st)))"
proof (induction as arbitrary: h ds n st)
  case Nil
  then show ?case by simp
next
  case (Cons a as)
  then obtain m e d ds' where m: "n = Suc m" "ds = d # ds'" "tq_elems h a = Some e" "tqe_data e = d"
    "tqe_next e = first_of as" "linked_items h as ds'" by (cases n) auto
  let ?h = "h\<lparr>tq_elems := (tq_elems h)(a := None)\<rparr>"
  have rest: "linked_items ?h as ds'"
    using m(6) Cons.prems(2) linked_items_cong [of as ?h h ds'] by auto
  have dist: "distinct as" and len: "length as \<le> m" using Cons.prems(2,3) m(1) by simp_all
  have restr: "(tq_elems h)(a := None) |` (- set as) = tq_elems h |` (- set (a # as))"
    by (auto simp: restrict_map_def fun_eq_iff)
  have IH: "tailq_foreach_safe m fst delete_item (first_of as) (?h, t) =
      Some (bind_res (fold_res indexnode_delete ds' t) (\<lambda>st. Inr (?h\<lparr>tq_elems := tq_elems ?h |` (- set as)\<rparr>, st)))" for t
    by (rule Cons.IH [OF rest dist len])
  show ?case
  proof (cases "indexnode_delete d st")
    case (Inr t)
    then have "delete_item a (h, st) = Inr (?h, t)" using m by (simp add: delete_item_def get_elem_def free_item_def)
    then show ?thesis using IH [of t] restr m Inr by (simp add: tailq_next_def get_elem_def)
  qed (use m in \<open>simp add: delete_item_def get_elem_def tailq_next_def\<close>)
qed

lemma heap_list_find_holds:
  assumes "holds_lists h X L" "L p = Some lis" "length (ins_items lis) \<le> n"
  shows "heap_list_find n p uid h st = Some (indexnodes_list_find lis uid st)"
proof -
  note H = holds_listsD [OF assms(1)]
  have items: "linked_items h (X p) (ins_items lis)"
    using queue_linked_items [of h p "[]" "X p"] H(2,3) [OF assms(2)] by simp
  then show ?thesis
    using heap_find_loop_items [OF items, of n uid st] assms holds_length [OF assms(1,2)]
      queue_access(1) [OF H(2) [OF assms(2)]]
    by (simp add: heap_list_find_def indexnodes_list_find_def)
qed

lemma heap_list_delete_holds:
  assumes h: "holds_lists h X L" and p: "L p = Some lis" and n: "length (ins_items lis) \<le> n"
  shows "\<exists>h'. heap_list_delete n p (h, st) = Some (bind_res (indexnodes_list_delete lis st) (\<lambda>st. Inr (h', st))) \<and>
    holds_lists h' X (L(p := None))"
proof -
  let ?h1 = "h\<lparr>tq_elems := tq_elems h |` (- set (X p))\<rparr>"
  let ?h = "?h1\<lparr>tq_heads := (tq_heads h)(p := None)\<rparr>"
  note H = holds_listsD [OF h]
  have items: "linked_items h (X p) (ins_items lis)"
    using queue_linked_items [of h p "[]" "X p"] H(2,3) [OF p] by simp
  have dist: "distinct (X p)" using H(2) [OF p] by (simp add: is_queue_def)
  have len: "length (X p) \<le> n" using n holds_length [OF h p] by simp
  have head: "tq_heads h p \<noteq> None" by (rule is_queue_head [OF H(2) [OF p]])
  have same: "\<forall>a \<in> set (X r). tq_elems ?h a = tq_elems h a" if "L r = Some l" "r \<noteq> p" for r l
    using H(4) [of r p] that p by (auto simp: restrict_map_def)
  have run: "heap_list_delete n p (h, st) = Some (bind_res (indexnodes_list_delete lis st) (\<lambda>st. Inr (?h, st)))"
    using delete_loop_items [OF items dist len] queue_access(1) [OF H(2) [OF p]] head
    by (cases "fold_res indexnode_delete (ins_items lis) st")
      (simp_all add: heap_list_delete_def indexnodes_list_delete_def free_list_def)
  have "holds_lists ?h X (L(p := None))"
    unfolding holds_lists_def
  proof (intro conjI)
    show "dom (tq_heads ?h) = dom (L(p := None))" using H(1) by auto
    show "\<forall>r l. (L(p := None)) r = Some l \<longrightarrow> is_queue ?h r (X r) \<and> map (dt ?h) (X r) = map Some (ins_items l)"
    proof (intro allI impI)
      fix r l assume "(L(p := None)) r = Some l"
      then have r: "L r = Some l" "r \<noteq> p" by (auto split: if_splits)
      show "is_queue ?h r (X r) \<and> map (dt ?h) (X r) = map Some (ins_items l)"
        using is_queue_same [OF H(2) [OF r(1)] _ same [OF r]] dt_same [OF same [OF r]] H(3) [OF r(1)] r(2) by simp
    qed
    show "\<forall>r s. r \<in> dom (L(p := None)) \<longrightarrow> s \<in> dom (L(p := None)) \<longrightarrow> r \<noteq> s \<longrightarrow> set (X r) \<inter> set (X s) = {}"
      using H(4) by auto
    have "dom (tq_elems ?h) = dom (tq_elems h) - set (X p)" by (auto simp: restrict_map_def split: if_splits)
    also have "\<dots> = (\<Union>r \<in> dom L - {p}. set (X r))"
      using H(4) p unfolding H(5) by (auto simp: set_eq_iff disjoint_iff)
    finally show "dom (tq_elems ?h) = (\<Union>r \<in> dom (L(p := None)). set (X r))" by simp
    show "\<forall>a \<in> dom (tq_heads ?h) \<union> dom (tq_elems ?h). a < tq_brk ?h"
    proof
      fix a assume "a \<in> dom (tq_heads ?h) \<union> dom (tq_elems ?h)"
      then have "a \<in> dom (tq_heads h) \<union> dom (tq_elems h)" by (auto simp: restrict_map_def split: if_splits)
      then show "a < tq_brk ?h" using H(9) by simp
    qed
  qed
  with run show ?thesis by blast
qed

text \<open>The loops that copy: the list at \<open>q\<close> grows, the one that is walked stays.\<close>

definition copying ::
  "(addr \<rightharpoonup> indexnodes_list_t) \<Rightarrow> addr \<Rightarrow> addr \<Rightarrow> addr list \<Rightarrow> list_state \<Rightarrow>
   indexnodes_list_t \<times> indexnode_t rc_store \<Rightarrow> bool" where
  "copying L orig q xs s t \<longleftrightarrow> snd s = snd t \<and> (\<exists>X. holds_lists (fst s) X (L(q \<mapsto> fst t)) \<and> X orig = xs)"

lemma copy_item_copying:
  assumes s: "copying L orig q xs s t" and a: "dt (fst s) a = Some d" and q: "orig \<noteq> q"
  shows "rel_sum (=) (copying L orig q xs) (copy_item q a s)
    (bind_res (indexnode_copy d (snd t)) (\<lambda>st. Inr (indexnodes_list_add (fst t) d, st)))"
proof -
  obtain h st ret where st: "s = (h, st)" "t = (ret, st)" using s by (cases s; cases t) (auto simp: copying_def)
  obtain X where X: "holds_lists h X (L(q \<mapsto> ret))" "X orig = xs" using s st by (auto simp: copying_def)
  obtain e where e: "tq_elems h a = Some e" "tqe_data e = d" using a st by (auto simp: dt_def)
  obtain h' where "heap_list_add q d h = Inr h'"
    "holds_lists h' (X(q := tq_brk h # X q)) (L(q \<mapsto> ret, q \<mapsto> indexnodes_list_add ret d))"
    using heap_list_add_holds [OF X(1), of q ret d] by auto
  then show ?thesis using e st X(2) q
    by (cases "indexnode_copy d st") (auto simp: copy_item_def get_elem_def copying_def)
qed

lemma copying_loop:
  assumes L: "L orig = Some lis" and q: "orig \<noteq> q" and n: "length (ins_items lis) \<le> n"
    and X: "holds_lists h X (L(q \<mapsto> ret))"
    and body: "\<And>a d s t. copying L orig q (X orig) s t \<Longrightarrow> dt (fst s) a = Some d \<Longrightarrow>
      rel_sum (=) (copying L orig q (X orig)) (body a s) (f d t)"
  shows "\<exists>r. bind_loop (Some (tailq_first orig h)) (\<lambda>item. tailq_foreach n fst body item (h, st)) = Some r \<and>
    rel_sum (=) (copying L orig q (X orig)) r (fold_res f (ins_items lis) (ret, st))"
proof -
  let ?g = "\<lambda>a. the (dt h a)"
  note H = holds_listsD [OF X]
  have Lo: "(L(q \<mapsto> ret)) orig = Some lis" using L q by simp
  have data: "map (dt h') (X orig) = map Some (ins_items lis)" if "copying L orig q (X orig) (h', st') t" for h' st' t
  proof -
    from that obtain Y where Y: "holds_lists h' Y (L(q \<mapsto> fst t))" "Y orig = X orig" by (auto simp: copying_def)
    have "(L(q \<mapsto> fst t)) orig = Some lis" using L q by simp
    from holds_listsD(3) [OF Y(1) this] Y(2) show ?thesis by simp
  qed
  have items: "map ?g (X orig) = ins_items lis"
  proof -
    have "map ?g (X orig) = map the (map (dt h) (X orig))" by simp
    then show ?thesis unfolding H(3) [OF Lo] by (simp add: comp_def)
  qed
  have "\<exists>r. tailq_foreach n fst body (first_of (X orig)) (h, st) = Some r \<and>
      rel_sum (=) (copying L orig q (X orig)) r (fold_res f (map ?g (X orig)) (ret, st))"
  proof (rule foreach_sim [where xs = "X orig" and ys = "[]" and p = orig])
    fix a s t assume a: "a \<in> set (X orig)" and s: "copying L orig q (X orig) s t"
    obtain h' st' where s': "s = (h', st')" by (cases s)
    have "map (dt h') (X orig) = map (dt h) (X orig)" using data [of h' st' t] s s' H(3) [OF Lo] by simp
    then have "dt h' a = dt h a" using a by simp
    moreover have "dt h a \<noteq> None"
    proof -
      have "dt h a \<in> set (map (dt h) (X orig))" using a by simp
      then show ?thesis unfolding H(3) [OF Lo] by auto
    qed
    ultimately have "dt (fst s) a = Some (?g a)" using s' by auto
    from body [OF s this] show "rel_sum (=) (copying L orig q (X orig)) (body a s) (f (?g a) t)" .
  next
    fix s t assume s: "copying L orig q (X orig) s t"
    then obtain Y where Y: "holds_lists (fst s) Y (L(q \<mapsto> fst t))" "Y orig = X orig" by (auto simp: copying_def)
    have "(L(q \<mapsto> fst t)) orig = Some lis" using L q by simp
    from holds_listsD(2) [OF Y(1) this] Y(2) show "is_queue (fst s) orig (X orig)" by simp
  next
    show "copying L orig q (X orig) (h, st) (ret, st)" using X by (auto simp: copying_def)
    show "length (X orig) \<le> n" using n holds_length [OF X Lo] by simp
  qed simp
  then show ?thesis using queue_access(1) [OF H(2) [OF Lo]] by (simp add: items)
qed

text \<open>The results of an operation and of its definition on lists, with the lists the heap holds after it.\<close>

definition list_result ::
  "(addr \<rightharpoonup> indexnodes_list_t) \<Rightarrow> (addr \<times> list_state) res option \<Rightarrow> (indexnodes_list_t \<times> indexnode_t rc_store) res \<Rightarrow> bool" where
  "list_result L r t \<longleftrightarrow> (\<exists>c. r = Some c \<and>
     rel_sum (=) (\<lambda>(q, h, st) (lis, st'). st = st' \<and> L q = None \<and> lists_at h (L(q \<mapsto> lis))) c t)"

lemma heap_list_copy_holds:
  assumes h: "lists_at h L" and L: "L orig = Some lis" and n: "length (ins_items lis) \<le> n"
  shows "list_result L (heap_list_copy n orig (h, st)) (indexnodes_list_copy lis st)"
proof -
  obtain X where X: "holds_lists h X L" using h by (auto simp: lists_at_def)
  let ?q = "tq_brk h"
  obtain h1 where h1: "heap_list_new h = Inr (?q, h1)"
    "holds_lists h1 (X(?q := [])) (L(?q \<mapsto> indexnodes_list_new))" using heap_list_new_holds [OF X] by blast
  have q: "orig \<noteq> ?q" "L ?q = None" using holds_listsD(6) [OF X] L by auto
  let ?f = "\<lambda>item t. bind_res (indexnode_copy item (snd t)) (\<lambda>st. Inr (indexnodes_list_add (fst t) item, st))"
  have "\<exists>r. bind_loop (Some (tailq_first orig h1)) (\<lambda>item. tailq_foreach n fst (copy_item ?q) item (h1, st)) = Some r \<and>
      rel_sum (=) (copying L orig ?q ((X(?q := [])) orig)) r (fold_res ?f (ins_items lis) (indexnodes_list_new, st))"
    by (rule copying_loop [OF L q(1) n h1(2)]) (rule copy_item_copying [OF _ _ q(1)])
  then obtain r where r: "bind_loop (Some (tailq_first orig h1)) (\<lambda>item. tailq_foreach n fst (copy_item ?q) item (h1, st)) = Some r"
    "rel_sum (=) (copying L orig ?q ((X(?q := [])) orig)) r (fold_res ?f (ins_items lis) (indexnodes_list_new, st))"
    by blast
  have "indexnodes_list_copy lis st =
      fold_res (\<lambda>item t. bind_res (indexnode_copy item (snd t)) (\<lambda>st. Inr (indexnodes_list_add (fst t) item, st)))
        (ins_items lis) (indexnodes_list_new, st)"
    by (simp add: indexnodes_list_copy_def case_prod_beta')
  with r(2) have "rel_sum (=) (copying L orig ?q ((X(?q := [])) orig)) r (indexnodes_list_copy lis st)" by simp
  then show ?thesis using r(1) h1(1) q(2)
    by (cases "tailq_first orig h1"; cases r; cases "indexnodes_list_copy lis st")
      (auto simp: list_result_def heap_list_copy_def copying_def lists_at_def)
qed

lemma keep_valid_copying:
  assumes s: "copying L orig q xs s t" and a: "dt (fst s) a = Some d" and q: "orig \<noteq> q"
  shows "rel_sum (=) (copying L orig q xs) (keep_valid now timeout q a s)
    (bind_res (obj_get d (snd t)) (\<lambda>ind.
     if indexnode_still_valid now timeout ind
     then bind_res (indexnode_copy d (snd t)) (\<lambda>st. Inr (indexnodes_list_add (fst t) d, st)) else Inr t))"
proof -
  obtain h st where st: "s = (h, st)" "snd t = st" using s by (cases s) (auto simp: copying_def)
  obtain e where e: "tq_elems h a = Some e" "tqe_data e = d" using a st by (auto simp: dt_def)
  show ?thesis
    using e st s copy_item_copying [OF assms]
    by (cases "obj_get d st") (simp_all add: keep_valid_def get_elem_def)
qed

lemma heap_list_remove_expired_holds:
  assumes h: "lists_at h L" and L: "L orig = Some lis" and n: "length (ins_items lis) \<le> n"
  shows "list_result (L(orig := None)) (heap_list_remove_expired n now timeout orig (h, st))
    (indexnodes_list_remove_expired now timeout lis st)"
proof -
  obtain X where X: "holds_lists h X L" using h by (auto simp: lists_at_def)
  let ?q = "tq_brk h"
  obtain h1 where h1: "heap_list_new h = Inr (?q, h1)"
    "holds_lists h1 (X(?q := [])) (L(?q \<mapsto> indexnodes_list_new))" using heap_list_new_holds [OF X] by blast
  have q: "orig \<noteq> ?q" "L ?q = None" using holds_listsD(6) [OF X] L by auto
  let ?f = "\<lambda>d t. bind_res (obj_get d (snd t)) (\<lambda>ind. if indexnode_still_valid now timeout ind
     then bind_res (indexnode_copy d (snd t)) (\<lambda>st. Inr (indexnodes_list_add (fst t) d, st)) else Inr t)"
  let ?loop = "bind_loop (Some (tailq_first orig h1)) (\<lambda>item. tailq_foreach n fst (keep_valid now timeout ?q) item (h1, st))"
  have "\<exists>r. ?loop = Some r \<and>
      rel_sum (=) (copying L orig ?q ((X(?q := [])) orig)) r (fold_res ?f (ins_items lis) (indexnodes_list_new, st))"
    by (rule copying_loop [OF L q(1) n h1(2)]) (rule keep_valid_copying [OF _ _ q(1)])
  then obtain r where r: "?loop = Some r"
    "rel_sum (=) (copying L orig ?q ((X(?q := [])) orig)) r (fold_res ?f (ins_items lis) (indexnodes_list_new, st))"
    by blast
  have spec: "indexnodes_list_remove_expired now timeout lis st =
      bind_res (fold_res ?f (ins_items lis) (indexnodes_list_new, st)) (\<lambda>(ret, st).
      bind_res (indexnodes_list_delete lis st) (\<lambda>st. Inr (ret, st)))"
    by (simp add: indexnodes_list_remove_expired_def case_prod_beta' cong: if_cong)
  show ?thesis
  proof (cases r)
    case (Inl e)
    then have "fold_res ?f (ins_items lis) (indexnodes_list_new, st) = Inl e"
      using r(2) by (cases "fold_res ?f (ins_items lis) (indexnodes_list_new, st)") auto
    moreover have "heap_list_remove_expired n now timeout orig (h, st) = Some (Inl e)"
      using r(1) h1(1) Inl by (cases "tailq_first orig h1") (auto simp: heap_list_remove_expired_def)
    ultimately show ?thesis by (simp only: list_result_def spec) simp
  next
    case (Inr s)
    obtain h2 st2 where s: "s = (h2, st2)" by (cases s)
    obtain t where t: "fold_res ?f (ins_items lis) (indexnodes_list_new, st) = Inr t"
      "copying L orig ?q ((X(?q := [])) orig) (h2, st2) t"
      using r(2) unfolding Inr s by (cases "fold_res ?f (ins_items lis) (indexnodes_list_new, st)") auto
    obtain ret where t_eq: "t = (ret, st2)" using t(2) by (cases t) (simp add: copying_def)
    note ret = t [unfolded t_eq]
    obtain Y where Y: "holds_lists h2 Y (L(?q \<mapsto> ret))" using ret(2) by (auto simp: copying_def)
    have "(L(?q \<mapsto> ret)) orig = Some lis" using L q by simp
    from heap_list_delete_holds [OF Y this n, of st2] obtain h3 where
      h3: "heap_list_delete n orig (h2, st2) = Some (bind_res (indexnodes_list_delete lis st2) (\<lambda>st. Inr (h3, st)))"
        "holds_lists h3 Y ((L(?q \<mapsto> ret))(orig := None))" by blast
    have run: "heap_list_remove_expired n now timeout orig (h, st) =
        Some (bind_res (indexnodes_list_delete lis st2) (\<lambda>st. Inr (?q, h3, st)))"
      using r(1) h1(1) Inr s h3(1) by (cases "tailq_first orig h1"; cases "indexnodes_list_delete lis st2")
        (auto simp: heap_list_remove_expired_def)
    have "lists_at h3 ((L(orig := None))(?q \<mapsto> ret))"
      using h3(2) q(1) by (auto simp: lists_at_def fun_upd_twist)
    then show ?thesis unfolding list_result_def run spec ret(1)
      using q by (cases "indexnodes_list_delete lis st2") auto
  qed
qed

text \<open>The valid items are not more than all items.\<close>

lemma remove_expired_length:
  assumes "indexnodes_list_remove_expired now timeout lis st = Inr (ret, st')"
  shows "length (ins_items ret) \<le> length (ins_items lis)"
proof -
  have len: "length (ins_items r') \<le> length (ins_items r) + length xs"
    if "fold_res (\<lambda>item (ret, st). bind_res (obj_get item st) (\<lambda>ind. if indexnode_still_valid now timeout ind
        then bind_res (indexnode_copy item st) (\<lambda>st. Inr (indexnodes_list_add ret item, st))
        else Inr (ret, st))) xs (r, s) = Inr (r', s')" for xs r s r' s'
    using that
  proof (induction xs arbitrary: r s)
    case (Cons x xs)
    then show ?case by (fastforce simp: indexnodes_list_add_def split: if_splits)
  qed simp
  from assms show ?thesis
    by (auto simp: indexnodes_list_remove_expired_def indexnodes_list_new_def dest!: len)
qed

lemma heap_indexnodes_get_holds:
  assumes h: "lists_at h L" and L: "L p = Some (ins_list ins)" and n: "length (ins_items (ins_list ins)) \<le> n"
  shows "\<exists>c. heap_indexnodes_get n now timeout p (h, ins_store ins) = Some c \<and>
    rel_sum (=) (\<lambda>(list, lis, h, st) (copy, ins'). st = ins_store ins' \<and> list \<noteq> lis \<and>
      lists_at h ((L(p := None))(lis \<mapsto> ins_list ins', list \<mapsto> copy))) c (indexnodes_get now timeout ins)"
proof -
  from heap_list_remove_expired_holds [OF h L n, of now timeout "ins_store ins"]
  obtain c where c: "heap_list_remove_expired n now timeout p (h, ins_store ins) = Some c"
    "rel_sum (=) (\<lambda>(q, h, st) (lis, st'). st = st' \<and> (L(p := None)) q = None \<and> lists_at h ((L(p := None))(q \<mapsto> lis)))
      c (indexnodes_list_remove_expired now timeout (ins_list ins) (ins_store ins))" by (auto simp: list_result_def)
  show ?thesis
  proof (cases c)
    case (Inl e)
    then show ?thesis using c
      by (cases "indexnodes_list_remove_expired now timeout (ins_list ins) (ins_store ins)")
        (auto simp: heap_indexnodes_get_def indexnodes_get_def)
  next
    case (Inr x)
    obtain q h2 st2 where x: "x = (q, h2, st2)" by (cases x)
    obtain lis where lis: "indexnodes_list_remove_expired now timeout (ins_list ins) (ins_store ins) = Inr (lis, st2)"
      "(L(p := None)) q = None" "lists_at h2 ((L(p := None))(q \<mapsto> lis))"
      using c Inr x by (cases "indexnodes_list_remove_expired now timeout (ins_list ins) (ins_store ins)") auto
    have "length (ins_items lis) \<le> n" using remove_expired_length [OF lis(1)] n by simp
    from heap_list_copy_holds [OF lis(3) _ this, of q st2]
    obtain d where d: "heap_list_copy n q (h2, st2) = Some d"
      "rel_sum (=) (\<lambda>(r, h, st) (copy, st'). st = st' \<and> ((L(p := None))(q \<mapsto> lis)) r = None \<and>
        lists_at h ((L(p := None))(q \<mapsto> lis, r \<mapsto> copy))) d (indexnodes_list_copy lis st2)" by (auto simp: list_result_def)
    then show ?thesis using c(1) Inr x lis(1)
      by (cases d; cases "indexnodes_list_copy lis st2")
        (auto simp: heap_indexnodes_get_def indexnodes_get_def split: if_splits)
  qed
qed

section \<open>Iterators\<close>

text \<open>The pointer of an iterator, and the rest of the list from its item on.\<close>

definition iterates :: "item_heap \<Rightarrow> addr \<Rightarrow> ptr \<Rightarrow> indexnodes_iterator_t \<Rightarrow> bool" where
  "iterates h p v iter \<longleftrightarrow>
     (\<exists>ys zs. is_queue h p (ys @ zs) \<and> v = first_of zs \<and> map (dt h) zs = map Some (iter_current iter))"

text \<open>An iterator on the heap begins, ends, moves on and returns its item, or fails, as the one on the list.\<close>

lemma heap_iterator_refines:
  "lists_at h L \<Longrightarrow> L p = Some lis \<Longrightarrow>
     \<exists>v. heap_iterator_begin p h = Inr v \<and> iterates h p v (indexnodes_iterator_begin lis)"
  "iterates h p v iter \<Longrightarrow> heap_iterator_end v = indexnodes_iterator_end iter"
  "iterates h p v iter \<Longrightarrow> rel_sum (=) (iterates h p) (heap_iterator_next v h) (indexnodes_iterator_next iter)"
  "iterates h p v iter \<Longrightarrow> heap_iterator_current v (h, st) = indexnodes_iterator_current iter st"
proof -
  assume "lists_at h L" "L p = Some lis"
  then obtain X where X: "is_queue h p (X p)" "map (dt h) (X p) = map Some (ins_items lis)"
    by (auto simp: lists_at_def dest: holds_listsD(2,3))
  then have "iterates h p (first_of (X p)) (indexnodes_iterator_begin lis)"
    unfolding iterates_def by (intro exI [of _ "[]"] exI [of _ "X p"]) (simp add: indexnodes_iterator_begin_def)
  then show "\<exists>v. heap_iterator_begin p h = Inr v \<and> iterates h p v (indexnodes_iterator_begin lis)"
    using queue_access(1) [OF X(1)] by (simp add: heap_iterator_begin_def)
next
  assume "iterates h p v iter"
  then obtain ys zs where i: "is_queue h p (ys @ zs)" "v = first_of zs" "map (dt h) zs = map Some (iter_current iter)"
    by (auto simp: iterates_def)
  show "heap_iterator_end v = indexnodes_iterator_end iter"
    using i(2,3) by (cases zs) (auto simp: heap_iterator_end_def indexnodes_iterator_end_def)
  show "rel_sum (=) (iterates h p) (heap_iterator_next v h) (indexnodes_iterator_next iter)"
  proof (cases zs)
    case Nil
    then show ?thesis using i by (simp add: heap_iterator_next_def indexnodes_iterator_next_def)
  next
    case (Cons a zs')
    then obtain d ds where d: "iter_current iter = d # ds" "map (dt h) zs' = map Some ds"
      using i(3) by (cases "iter_current iter") auto
    have "is_queue h p ((ys @ [a]) @ zs')" using i(1) Cons by simp
    then have "iterates h p (first_of zs') \<lparr>iter_current = ds\<rparr>" using d(2)
      unfolding iterates_def by (intro exI [of _ "ys @ [a]"] exI [of _ zs']) simp
    then show ?thesis using queue_next(1) [of h p ys a zs'] i(1,2) Cons d(1)
      by (simp add: heap_iterator_next_def indexnodes_iterator_next_def)
  qed
  show "heap_iterator_current v (h, st) = indexnodes_iterator_current iter st"
  proof (cases zs)
    case Nil
    then show ?thesis using i by (simp add: heap_iterator_current_def indexnodes_iterator_current_def)
  next
    case (Cons a zs')
    then obtain d ds where d: "iter_current iter = d # ds" "dt h a = Some d"
      using i(3) by (cases "iter_current iter") auto
    then obtain e where "tq_elems h a = Some e" "tqe_data e = d" by (auto simp: dt_def)
    then show ?thesis using i(2) Cons d(1)
      by (simp add: heap_iterator_current_def indexnodes_iterator_current_def get_elem_def)
  qed
qed

section \<open>The lists of the other theories are the lists on the heap\<close>

text \<open>C19. The lists of indexnodes on the heap (indexnodes\_list.c, indexnodes.c over queue.h): on a heap that
  holds any lists, finding an id, adding a member, deleting a list and \<^verbatim>\<open>indexnodes_get\<close> run to their
  end and give exactly what the definitions on sequences give, errors included, and leave a heap that
  holds exactly the lists that should be there: no block is lost, freed twice or used after it was
  freed.\<close>
theorem heap_lists_refine:
  assumes "lists_at h L" "L p = Some (ins_list ins)" "length (ins_items (ins_list ins)) \<le> n"
  shows "heap_list_find n p uid h (ins_store ins) = Some (indexnodes_list_find (ins_list ins) uid (ins_store ins)) \<and>
    (\<exists>h'. heap_list_add p ind h = Inr h' \<and> lists_at h' (L(p \<mapsto> indexnodes_list_add (ins_list ins) ind))) \<and>
    (\<exists>h'. heap_list_delete n p (h, ins_store ins) = Some (bind_res (indexnodes_delete ins) (\<lambda>st. Inr (h', st))) \<and>
      lists_at h' (L(p := None))) \<and>
    (\<exists>c. heap_indexnodes_get n now timeout p (h, ins_store ins) = Some c \<and>
      rel_sum (=) (\<lambda>(list, lis, h, st) (copy, ins'). st = ins_store ins' \<and> list \<noteq> lis \<and>
        lists_at h ((L(p := None))(lis \<mapsto> ins_list ins', list \<mapsto> copy))) c (indexnodes_get now timeout ins))"
proof -
  obtain X where X: "holds_lists h X L" using assms(1) by (auto simp: lists_at_def)
  show ?thesis
  proof (intro conjI)
    show "heap_list_find n p uid h (ins_store ins) = Some (indexnodes_list_find (ins_list ins) uid (ins_store ins))"
      by (rule heap_list_find_holds [OF X assms(2,3)])
    show "\<exists>h'. heap_list_add p ind h = Inr h' \<and> lists_at h' (L(p \<mapsto> indexnodes_list_add (ins_list ins) ind))"
      using heap_list_add_holds [OF X assms(2), of ind] unfolding lists_at_def by blast
    show "\<exists>h'. heap_list_delete n p (h, ins_store ins) = Some (bind_res (indexnodes_delete ins) (\<lambda>st. Inr (h', st))) \<and>
        lists_at h' (L(p := None))"
      using heap_list_delete_holds [OF X assms(2,3), of "ins_store ins"] unfolding lists_at_def indexnodes_delete_def by blast
  qed (rule heap_indexnodes_get_holds [OF assms])
qed

definition heap_of_one :: item_heap where
  "heap_of_one = \<lparr>tq_heads = [0 \<mapsto> \<lparr>tqh_first = None, tqh_last = In_Head 0\<rparr>], tq_elems = Map.empty, tq_brk = 1\<rparr>"

theorem heap_lists_refine_witness:
  "heap_list_find 0 0 ''u'' heap_of_one Map.empty = Some (indexnodes_list_find indexnodes_list_new ''u'' Map.empty) \<and>
    (\<exists>h'. heap_list_add 0 9 heap_of_one = Inr h' \<and> lists_at h' ([0 \<mapsto> indexnodes_list_new, 0 \<mapsto> indexnodes_list_add indexnodes_list_new 9])) \<and>
    (\<exists>h'. heap_list_delete 0 0 (heap_of_one, Map.empty) =
        Some (bind_res (indexnodes_delete (indexnodes_new Map.empty)) (\<lambda>st. Inr (h', st))) \<and>
      lists_at h' ([0 \<mapsto> indexnodes_list_new](0 := None))) \<and>
    (\<exists>c. heap_indexnodes_get 0 5 60 0 (heap_of_one, Map.empty) = Some c \<and>
      rel_sum (=) (\<lambda>(list, lis, h, st) (copy, ins'). st = ins_store ins' \<and> list \<noteq> lis \<and>
        lists_at h (([0 \<mapsto> indexnodes_list_new](0 := None))(lis \<mapsto> ins_list ins', list \<mapsto> copy))) c
        (indexnodes_get 5 60 (indexnodes_new Map.empty)))"
proof -
  have "holds_lists heap_of_one (\<lambda>_. []) [0 \<mapsto> indexnodes_list_new]"
    by (auto simp: holds_lists_def heap_of_one_def is_queue_def ld_def lt_def indexnodes_list_new_def)
  then have "lists_at heap_of_one [0 \<mapsto> indexnodes_list_new]" by (auto simp: lists_at_def)
  from heap_lists_refine [OF this, of 0 "indexnodes_new Map.empty" 0] show ?thesis
    by (simp add: indexnodes_new_def) (simp add: indexnodes_list_new_def)
qed

end
