(* ===== verification/Indexnodes_Race.thy ===== *)
theory Indexnodes_Race
  imports Indexnodes Locks
begin

text \<open>
  The collection of indexnodes under several threads: \<^verbatim>\<open>indexnodes_get\<close> and
  \<^verbatim>\<open>new_indexnode_event\<close> of \<^verbatim>\<open>src/src/indexnodes/indexnodes.c\<close> cut into the steps between which other
  threads can run. \<open>Indexnodes\<close> treats each of them as one step; here the calls of the lock are the
  steps of \<open>Locks\<close>, and what the code does without the lock, or under a lock that it holds for
  reading only, shows. The lists are blocks on a heap, because \<^verbatim>\<open>indexnodes_list_remove_expired\<close>
  frees the list it is given and \<^verbatim>\<open>ins->list\<close> is only set to the new one afterwards. A thread that has
  to wait for the lock keeps its place and tries again when it is scheduled next. A walk of a list and
  an insertion into it are each one step.

  First the two cuts are put together again: a thread that is not interrupted does what the
  definitions of \<open>Indexnodes\<close> say. Then: any number of threads that only handle adverts interleave
  without error and without losing a reference. Last, what the missing lock allows.
\<close>

section \<open>The threads\<close>

record ad_t =
  ad_host :: string
  ad_port :: string
  ad_version :: string
  ad_uid :: string

datatype job =
    No_Job
  | Get_Test | Get_Lock | Get_Build | Get_Free addr addr | Get_Set addr | Get_Copy | Get_Unlock
  | Ev_Find ad_t | Ev_Seen addr | Ev_Release addr
  | Ev_New ad_t | Ev_Test addr | Ev_Lock addr | Ev_Add addr | Ev_Unlock

record race =
  r_lock :: rw_lock_t
  r_list :: addr                       \<comment> \<open>the pointer \<^verbatim>\<open>ins->list\<close>\<close>
  r_lists :: "addr \<rightharpoonup> indexnodes_list_t"  \<comment> \<open>the lists on the heap\<close>
  r_store :: "indexnode_t rc_store"
  r_job :: "nat \<Rightarrow> job"
  r_given :: "indexnodes_list_t list"  \<comment> \<open>the lists that were returned\<close>

definition race_new :: "addr \<Rightarrow> race" where
  "race_new p = \<lparr>r_lock = rw_lock_new, r_list = p, r_lists = [p \<mapsto> indexnodes_list_new], r_store = Map.empty,
     r_job = (\<lambda>_. No_Job), r_given = []\<rparr>"

definition list_at :: "addr \<Rightarrow> race \<Rightarrow> indexnodes_list_t res" where
  "list_at p s = (case r_lists s p of None \<Rightarrow> Inl UseAfterFree | Some l \<Rightarrow> Inr l)"

definition goto :: "nat \<Rightarrow> job \<Rightarrow> race \<Rightarrow> race" where
  "goto t j s = s\<lparr>r_job := (r_job s)(t := j)\<rparr>"

text \<open>The loop of \<^verbatim>\<open>indexnodes_list_remove_expired\<close>, before it deletes the list it was given.\<close>

definition collect_valid ::
  "int \<Rightarrow> int \<Rightarrow> indexnodes_list_t \<Rightarrow> indexnode_t rc_store \<Rightarrow> (indexnodes_list_t \<times> indexnode_t rc_store) res" where
  "collect_valid now timeout orig st =
     fold_res (\<lambda>item (ret, st).
        bind_res (obj_get item st) (\<lambda>ind.
        if indexnode_still_valid now timeout ind
        then bind_res (indexnode_copy item st) (\<lambda>st. Inr (indexnodes_list_add ret item, st))
        else Inr (ret, st)))
       (ins_items orig) (indexnodes_list_new, st)"

text \<open>
  One step of thread \<open>t\<close>: \<open>q\<close> and \<open>f\<close> are the blocks \<^verbatim>\<open>malloc\<close> gives for a list and a node, \<open>now\<close> is the
  time.
\<close>

definition get_step :: "int \<Rightarrow> int \<Rightarrow> addr \<Rightarrow> nat \<Rightarrow> job \<Rightarrow> race \<Rightarrow> race res" where
  "get_step timeout now q t j s =
     (case j of
        Get_Test \<Rightarrow> Inr (goto t (if locked_by_self t (r_lock s) then Get_Build else Get_Lock) s)
      | Get_Lock \<Rightarrow>
          (case rw_lock_rlock t (r_lock s) of
             None \<Rightarrow> Inr s
           | Some l \<Rightarrow> Inr (goto t Get_Build (s\<lparr>r_lock := l\<rparr>)))
      | Get_Build \<Rightarrow>
          bind_res (list_at (r_list s) s) (\<lambda>orig.
          bind_res (collect_valid now timeout orig (r_store s)) (\<lambda>(ret, st).
          Inr (goto t (Get_Free (r_list s) q) (s\<lparr>r_lists := (r_lists s)(q \<mapsto> ret), r_store := st\<rparr>))))
      | Get_Free p q \<Rightarrow>
          bind_res (list_at p s) (\<lambda>orig.
          bind_res (indexnodes_list_delete orig (r_store s)) (\<lambda>st.
          Inr (goto t (Get_Set q) (s\<lparr>r_lists := (r_lists s)(p := None), r_store := st\<rparr>))))
      | Get_Set q \<Rightarrow> Inr (goto t Get_Copy (s\<lparr>r_list := q\<rparr>))
      | Get_Copy \<Rightarrow>
          bind_res (list_at (r_list s) s) (\<lambda>lis.
          bind_res (indexnodes_list_copy lis (r_store s)) (\<lambda>(copy, st).
          Inr (goto t Get_Unlock (s\<lparr>r_store := st, r_given := copy # r_given s\<rparr>))))
      | _ \<Rightarrow> Inr (goto t No_Job (s\<lparr>r_lock := fst (snd (rw_lock_runlock (r_lock s)))\<rparr>)))"

definition event_step :: "int \<Rightarrow> addr \<Rightarrow> nat \<Rightarrow> job \<Rightarrow> race \<Rightarrow> race res" where
  "event_step now f t j s =
     (case j of
        Ev_Find ad \<Rightarrow>
          bind_res (list_at (r_list s) s) (\<lambda>lis.
          bind_res (indexnodes_list_find lis (ad_uid ad) (r_store s)) (\<lambda>(found, st).
          Inr (goto t (case found of Some a \<Rightarrow> Ev_Seen a | None \<Rightarrow> Ev_New ad) (s\<lparr>r_store := st\<rparr>))))
      | Ev_Seen a \<Rightarrow>
          bind_res (obj_get a (r_store s)) (\<lambda>node.
          bind_res (obj_put a (indexnode_seen now node) (r_store s)) (\<lambda>st.
          Inr (goto t (Ev_Release a) (s\<lparr>r_store := st\<rparr>))))
      | Ev_Release a \<Rightarrow>
          bind_res (indexnode_delete a (r_store s)) (\<lambda>st. Inr (goto t No_Job (s\<lparr>r_store := st\<rparr>)))
      | Ev_New ad \<Rightarrow>
          bind_res (indexnode_new f now (ad_host ad) (ad_port ad) (ad_version ad) (ad_uid ad) (r_store s)) (\<lambda>(new_in, st).
          Inr (goto t (case new_in of Some a \<Rightarrow> Ev_Test a | None \<Rightarrow> No_Job) (s\<lparr>r_store := st\<rparr>)))
      | Ev_Test a \<Rightarrow> Inr (goto t (if locked_by_self t (r_lock s) then Ev_Add a else Ev_Lock a) s)
      | Ev_Lock a \<Rightarrow>
          (case rw_lock_wlock t (r_lock s) of
             None \<Rightarrow> Inr s
           | Some l \<Rightarrow> Inr (goto t (Ev_Add a) (s\<lparr>r_lock := l\<rparr>)))
      | Ev_Add a \<Rightarrow>
          bind_res (list_at (r_list s) s) (\<lambda>lis.
          Inr (goto t Ev_Unlock (s\<lparr>r_lists := (r_lists s)(r_list s \<mapsto> indexnodes_list_add lis a)\<rparr>)))
      | _ \<Rightarrow> Inr (goto t No_Job (s\<lparr>r_lock := fst (snd (rw_lock_wunlock (r_lock s)))\<rparr>)))"

definition is_get :: "job \<Rightarrow> bool" where
  "is_get j = (case j of Get_Test \<Rightarrow> True | Get_Lock \<Rightarrow> True | Get_Build \<Rightarrow> True | Get_Free p q \<Rightarrow> True
     | Get_Set q \<Rightarrow> True | Get_Copy \<Rightarrow> True | Get_Unlock \<Rightarrow> True | _ \<Rightarrow> False)"

definition job_step :: "int \<Rightarrow> int \<Rightarrow> addr \<Rightarrow> addr \<Rightarrow> nat \<Rightarrow> race \<Rightarrow> race res" where
  "job_step timeout now q f t s =
     (let j = r_job s t in
      if j = No_Job then Inr s
      else if is_get j then get_step timeout now q t j s else event_step now f t j s)"

text \<open>A thread that is not interrupted.\<close>

fun run_alone :: "nat \<Rightarrow> int \<Rightarrow> int \<Rightarrow> addr \<Rightarrow> addr \<Rightarrow> nat \<Rightarrow> race \<Rightarrow> race res" where
  "run_alone 0 timeout now q f t s = Inr s"
| "run_alone (Suc n) timeout now q f t s =
     bind_res (job_step timeout now q f t s) (run_alone n timeout now q f t)"

section \<open>One thread alone\<close>

text \<open>What \<open>Indexnodes\<close> sees of the state, when the list is there.\<close>

definition collection :: "race \<Rightarrow> indexnodes_t" where
  "collection s = \<lparr>ins_list = the (r_lists s (r_list s)), ins_store = r_store s\<rparr>"

lemma remove_expired_split:
  "indexnodes_list_remove_expired now timeout orig st =
     bind_res (collect_valid now timeout orig st) (\<lambda>(ret, st).
     bind_res (indexnodes_list_delete orig st) (\<lambda>st. Inr (ret, st)))"
  by (simp add: indexnodes_list_remove_expired_def collect_valid_def)


text \<open>The step at each place.\<close>

lemma get_steps:
  "r_job s t = Get_Test \<Longrightarrow> job_step timeout now q f t s =
     Inr (goto t (if locked_by_self t (r_lock s) then Get_Build else Get_Lock) s)"
  "r_job s t = Get_Lock \<Longrightarrow> rw_lock_rlock t (r_lock s) = Some l \<Longrightarrow> job_step timeout now q f t s =
     Inr (goto t Get_Build (s\<lparr>r_lock := l\<rparr>))"
  "r_job s t = Get_Build \<Longrightarrow> job_step timeout now q f t s =
     bind_res (list_at (r_list s) s) (\<lambda>orig.
     bind_res (collect_valid now timeout orig (r_store s)) (\<lambda>(ret, st).
     Inr (goto t (Get_Free (r_list s) q) (s\<lparr>r_lists := (r_lists s)(q \<mapsto> ret), r_store := st\<rparr>))))"
  "r_job s t = Get_Free p q' \<Longrightarrow> job_step timeout now q f t s =
     bind_res (list_at p s) (\<lambda>orig.
     bind_res (indexnodes_list_delete orig (r_store s)) (\<lambda>st.
     Inr (goto t (Get_Set q') (s\<lparr>r_lists := (r_lists s)(p := None), r_store := st\<rparr>))))"
  "r_job s t = Get_Set q' \<Longrightarrow> job_step timeout now q f t s = Inr (goto t Get_Copy (s\<lparr>r_list := q'\<rparr>))"
  "r_job s t = Get_Copy \<Longrightarrow> job_step timeout now q f t s =
     bind_res (list_at (r_list s) s) (\<lambda>lis.
     bind_res (indexnodes_list_copy lis (r_store s)) (\<lambda>(copy, st).
     Inr (goto t Get_Unlock (s\<lparr>r_store := st, r_given := copy # r_given s\<rparr>))))"
  "r_job s t = Get_Unlock \<Longrightarrow> job_step timeout now q f t s =
     Inr (goto t No_Job (s\<lparr>r_lock := fst (snd (rw_lock_runlock (r_lock s)))\<rparr>))"
  by (simp_all add: job_step_def is_get_def get_step_def)

lemma event_steps:
  "r_job s t = Ev_Find ad \<Longrightarrow> job_step timeout now q f t s =
     bind_res (list_at (r_list s) s) (\<lambda>lis.
     bind_res (indexnodes_list_find lis (ad_uid ad) (r_store s)) (\<lambda>(found, st).
     Inr (goto t (case found of Some a \<Rightarrow> Ev_Seen a | None \<Rightarrow> Ev_New ad) (s\<lparr>r_store := st\<rparr>))))"
  "r_job s t = Ev_Seen a \<Longrightarrow> job_step timeout now q f t s =
     bind_res (obj_get a (r_store s)) (\<lambda>node.
     bind_res (obj_put a (indexnode_seen now node) (r_store s)) (\<lambda>st.
     Inr (goto t (Ev_Release a) (s\<lparr>r_store := st\<rparr>))))"
  "r_job s t = Ev_Release a \<Longrightarrow> job_step timeout now q f t s =
     bind_res (indexnode_delete a (r_store s)) (\<lambda>st. Inr (goto t No_Job (s\<lparr>r_store := st\<rparr>)))"
  "r_job s t = Ev_New ad \<Longrightarrow> job_step timeout now q f t s =
     bind_res (indexnode_new f now (ad_host ad) (ad_port ad) (ad_version ad) (ad_uid ad) (r_store s)) (\<lambda>(new_in, st).
     Inr (goto t (case new_in of Some a \<Rightarrow> Ev_Test a | None \<Rightarrow> No_Job) (s\<lparr>r_store := st\<rparr>)))"
  "r_job s t = Ev_Test a \<Longrightarrow> job_step timeout now q f t s =
     Inr (goto t (if locked_by_self t (r_lock s) then Ev_Add a else Ev_Lock a) s)"
  "r_job s t = Ev_Lock a \<Longrightarrow> job_step timeout now q f t s =
     (case rw_lock_wlock t (r_lock s) of None \<Rightarrow> Inr s | Some l \<Rightarrow> Inr (goto t (Ev_Add a) (s\<lparr>r_lock := l\<rparr>)))"
  "r_job s t = Ev_Add a \<Longrightarrow> job_step timeout now q f t s =
     bind_res (list_at (r_list s) s) (\<lambda>lis.
     Inr (goto t Ev_Unlock (s\<lparr>r_lists := (r_lists s)(r_list s \<mapsto> indexnodes_list_add lis a)\<rparr>)))"
  "r_job s t = Ev_Unlock \<Longrightarrow> job_step timeout now q f t s =
     Inr (goto t No_Job (s\<lparr>r_lock := fst (snd (rw_lock_wunlock (r_lock s)))\<rparr>))"
  "r_job s t = No_Job \<Longrightarrow> job_step timeout now q f t s = Inr s"
  by (simp_all add: job_step_def is_get_def event_step_def)

lemma goto_simps [simp]:
  "r_lock (goto t j s) = r_lock s" "r_list (goto t j s) = r_list s" "r_lists (goto t j s) = r_lists s"
  "r_store (goto t j s) = r_store s" "r_given (goto t j s) = r_given s"
  "r_job (goto t j s) = (r_job s)(t := j)" "list_at p (goto t j s) = list_at p s"
  by (simp_all add: goto_def list_at_def)

lemma run_alone_idle: "r_job s t = No_Job \<Longrightarrow> run_alone n timeout now q f t s = Inr s"
  by (induction n) (simp_all add: event_steps)

text \<open>The lock of a thread that is alone with it.\<close>

lemma lock_alone:
  "0 < t \<Longrightarrow> \<not> locked_by_self t rw_lock_new"
  "rw_lock_rlock t rw_lock_new = Some \<lparr>readers_reading = 1, writer_writing = 0, locking_thread = t\<rparr>"
  "fst (snd (rw_lock_runlock \<lparr>readers_reading = 1, writer_writing = 0, locking_thread = t\<rparr>)) = rw_lock_new"
  "rw_lock_wlock t rw_lock_new = Some \<lparr>readers_reading = 0, writer_writing = 1, locking_thread = t\<rparr>"
  "fst (snd (rw_lock_wunlock \<lparr>readers_reading = 0, writer_writing = 1, locking_thread = t\<rparr>)) = rw_lock_new"
  by (simp_all add: rw_lock_new_def locked_by_self_def rw_lock_rlock_def rw_lock_runlock_def
      rw_lock_wlock_def rw_lock_wunlock_def Let_def)


lemma get_alone:
  assumes "r_lock s = rw_lock_new" "0 < t" "r_lists s (r_list s) = Some orig" "r_lists s q = None"
    and "r_job s t = Get_Test"
  shows "run_alone 7 timeout now q f t s =
    bind_res (indexnodes_get now timeout (collection s)) (\<lambda>(lis, ins).
      Inr (s\<lparr>r_list := q, r_lists := (r_lists s)(r_list s := None, q \<mapsto> ins_list ins),
         r_store := ins_store ins, r_job := (r_job s)(t := No_Job), r_given := lis # r_given s\<rparr>))"
proof -
  have qp: "q \<noteq> r_list s" using assms(3,4) by auto
  have l: "list_at (r_list s) s = Inr orig" using assms(3) by (simp add: list_at_def)
  let ?l = "\<lparr>readers_reading = 1, writer_writing = 0, locking_thread = t\<rparr>"
  show ?thesis
  proof (cases "collect_valid now timeout orig (r_store s)")
    case (Inl e)
    then show ?thesis using assms l
      by (simp add: numeral_eq_Suc get_steps lock_alone collection_def indexnodes_get_def remove_expired_split list_at_def)
  next
    case (Inr c)
    obtain ret st1 where c: "c = (ret, st1)" by force
    show ?thesis
    proof (cases "indexnodes_list_delete orig st1")
      case (Inl e)
      then show ?thesis using assms l qp Inr c
        by (simp add: numeral_eq_Suc get_steps lock_alone collection_def indexnodes_get_def remove_expired_split list_at_def)
    next
      case (Inr st2)
      show ?thesis
      proof (cases "indexnodes_list_copy ret st2")
        case (Inl e)
        then show ?thesis using assms l qp Inr \<open>collect_valid _ _ _ _ = _\<close> c
          by (simp add: numeral_eq_Suc get_steps lock_alone collection_def indexnodes_get_def remove_expired_split list_at_def)
      next
        case (Inr d)
        obtain lis st3 where "d = (lis, st3)" by force
        then show ?thesis using assms l qp Inr \<open>indexnodes_list_delete _ _ = _\<close> \<open>collect_valid _ _ _ _ = _\<close> c
          by (simp add: numeral_eq_Suc get_steps lock_alone collection_def indexnodes_get_def remove_expired_split list_at_def goto_def)
            (simp add: fun_eq_iff fun_upd_def)
      qed
    qed
  qed
qed

lemma event_alone:
  assumes "r_lock s = rw_lock_new" "0 < t" "r_lists s (r_list s) = Some lis" "r_job s t = Ev_Find ad"
    and "parse_fs2protocol fs2protocol = Inr (0, ad_version ad)"
  shows "run_alone 6 timeout now q f t s =
    bind_res (new_indexnode_event f now (ad_host ad) (ad_port ad) fs2protocol (ad_uid ad) (collection s)) (\<lambda>ins.
      Inr (s\<lparr>r_lists := (r_lists s)(r_list s \<mapsto> ins_list ins), r_store := ins_store ins,
         r_job := (r_job s)(t := No_Job)\<rparr>))"
proof -
  note defs = numeral_eq_Suc event_steps lock_alone collection_def new_indexnode_event_def list_at_def
  have l: "list_at (r_list s) s = Inr lis" using assms(3) by (simp add: list_at_def)
  show ?thesis
  proof (cases "indexnodes_list_find lis (ad_uid ad) (r_store s)")
    case (Inl e)
    then show ?thesis using assms l by (simp add: defs)
  next
    case (Inr r)
    obtain found st1 where r: "r = (found, st1)" by force
    show ?thesis
    proof (cases found)
      case None
      show ?thesis
      proof (cases "indexnode_new f now (ad_host ad) (ad_port ad) (ad_version ad) (ad_uid ad) st1")
        case (Inl e)
        then show ?thesis using assms l Inr r None by (simp add: defs)
      next
        case inr2: (Inr r2)
        obtain new_in st2 where "r2 = (new_in, st2)" by force
        then show ?thesis using assms l Inr r None inr2
          by (cases new_in) (simp_all add: defs goto_def fun_upd_idem)
      qed
    next
      case (Some a)
      show ?thesis
      proof (cases "obj_get a st1")
        case (Inl e)
        then show ?thesis using assms l Inr r Some by (simp add: defs)
      next
        case get: (Inr node)
        show ?thesis
        proof (cases "obj_put a (indexnode_seen now node) st1")
          case (Inl e)
          then show ?thesis using assms l Inr r Some get by (simp add: defs)
        next
          case put: (Inr st2)
          then show ?thesis using assms l Inr r Some get
            by (cases "indexnode_delete a st2") (simp_all add: defs goto_def fun_upd_idem)
        qed
      qed
    qed
  qed
qed


text \<open>The whole operations of \<open>Indexnodes\<close> on this state; \<open>pr\<close> is the protocol string of the advert.\<close>

definition atomic_job :: "int \<Rightarrow> int \<Rightarrow> addr \<Rightarrow> addr \<Rightarrow> string \<Rightarrow> nat \<Rightarrow> race \<Rightarrow> race res" where
  "atomic_job timeout now q f pr t s =
     (case r_job s t of
        Get_Test \<Rightarrow>
          bind_res (indexnodes_get now timeout (collection s)) (\<lambda>(lis, ins).
          Inr (goto t No_Job (s\<lparr>r_list := q, r_lists := (r_lists s)(r_list s := None, q \<mapsto> ins_list ins),
            r_store := ins_store ins, r_given := lis # r_given s\<rparr>)))
      | Ev_Find ad \<Rightarrow>
          bind_res (new_indexnode_event f now (ad_host ad) (ad_port ad) pr (ad_uid ad) (collection s)) (\<lambda>ins.
          Inr (goto t No_Job (s\<lparr>r_lists := (r_lists s)(r_list s \<mapsto> ins_list ins), r_store := ins_store ins\<rparr>)))
      | _ \<Rightarrow> Inr s)"

definition begins :: "string \<Rightarrow> job \<Rightarrow> bool" where
  "begins pr j = (case j of Get_Test \<Rightarrow> True
     | Ev_Find ad \<Rightarrow> parse_fs2protocol pr = Inr (0, ad_version ad) | _ \<Rightarrow> False)"

lemma run_alone_add:
  "run_alone (m + k) timeout now q f t s = bind_res (run_alone m timeout now q f t s) (run_alone k timeout now q f t)"
proof (induction m arbitrary: s)
  case (Suc m)
  then show ?case by (cases "job_step timeout now q f t s") simp_all
qed simp



section \<open>Any number of threads\<close>

text \<open>
  The threads are numbered from 1 to \<open>n\<close>. A thread that has nothing to do begins one of the jobs that
  are \<open>allowed\<close>; a step of a job that allocates gets an unused block from \<^verbatim>\<open>malloc\<close>, and any time.
\<close>

fun takes_node :: "job \<Rightarrow> bool" where
  "takes_node (Ev_New ad) = True"
| "takes_node _ = False"

definition malloc_ok :: "nat \<Rightarrow> addr \<Rightarrow> addr \<Rightarrow> race \<Rightarrow> bool" where
  "malloc_ok t q f s \<longleftrightarrow> (r_job s t = Get_Build \<longrightarrow> r_lists s q = None) \<and>
     (takes_node (r_job s t) \<longrightarrow> r_store s f = None)"

inductive race_step :: "int \<Rightarrow> nat \<Rightarrow> (job \<Rightarrow> bool) \<Rightarrow> race \<Rightarrow> race \<Rightarrow> bool" for timeout n allowed where
  begin_job: "1 \<le> t \<Longrightarrow> t \<le> n \<Longrightarrow> r_job s t = No_Job \<Longrightarrow> allowed j \<Longrightarrow> race_step timeout n allowed s (goto t j s)"
| job: "1 \<le> t \<Longrightarrow> t \<le> n \<Longrightarrow> malloc_ok t q f s \<Longrightarrow>
     job_step timeout now q f t s = Inr s' \<Longrightarrow> race_step timeout n allowed s s'"

inductive race_reach :: "int \<Rightarrow> nat \<Rightarrow> (job \<Rightarrow> bool) \<Rightarrow> race \<Rightarrow> bool" for timeout n allowed where
  start: "race_reach timeout n allowed (race_new p)"
| step: "race_reach timeout n allowed s \<Longrightarrow> race_step timeout n allowed s s' \<Longrightarrow> race_reach timeout n allowed s'"

lemma reach_begin:
  "race_reach timeout n allowed s \<Longrightarrow> 1 \<le> t \<Longrightarrow> t \<le> n \<Longrightarrow> r_job s t = No_Job \<Longrightarrow> allowed j \<Longrightarrow>
   race_reach timeout n allowed (goto t j s)"
  by (rule race_reach.step, assumption, rule begin_job)

lemma reach_job:
  "race_reach timeout n allowed s \<Longrightarrow> 1 \<le> t \<Longrightarrow> t \<le> n \<Longrightarrow> malloc_ok t q f s \<Longrightarrow>
   job_step timeout now q f t s = Inr s' \<Longrightarrow> race_reach timeout n allowed s'"
  by (rule race_reach.step, assumption, rule job)

text \<open>The jobs: an advert whose fields are not empty, and a request for the list.\<close>

definition ad_ok :: "ad_t \<Rightarrow> bool" where
  "ad_ok ad \<longleftrightarrow> ad_host ad \<noteq> [] \<and> ad_port ad \<noteq> [] \<and> ad_version ad \<noteq> [] \<and> ad_uid ad \<noteq> []"

fun handles_advert :: "job \<Rightarrow> bool" where
  "handles_advert (Ev_Find ad) = ad_ok ad"
| "handles_advert _ = False"

fun any_job :: "job \<Rightarrow> bool" where
  "any_job (Ev_Find ad) = ad_ok ad"
| "any_job Get_Test = True"
| "any_job _ = False"

section \<open>Adverts alone\<close>

text \<open>The node a job has a reference to, and the nodes that are not on the list yet.\<close>

fun holds_node :: "addr \<Rightarrow> job \<Rightarrow> bool" where
  "holds_node a (Ev_Seen b) = (a = b)"
| "holds_node a (Ev_Release b) = (a = b)"
| "holds_node a (Ev_Test b) = (a = b)"
| "holds_node a (Ev_Lock b) = (a = b)"
| "holds_node a (Ev_Add b) = (a = b)"
| "holds_node a _ = False"

fun owns_node :: "addr \<Rightarrow> job \<Rightarrow> bool" where
  "owns_node a (Ev_Test b) = (a = b)"
| "owns_node a (Ev_Lock b) = (a = b)"
| "owns_node a (Ev_Add b) = (a = b)"
| "owns_node a _ = False"

fun advert_job :: "job \<Rightarrow> bool" where
  "advert_job (Ev_Find ad) = ad_ok ad"
| "advert_job (Ev_New ad) = ad_ok ad"
| "advert_job j = (\<not> is_get j)"

text \<open>The number of threads whose job is of a kind.\<close>

definition jobs_with :: "nat \<Rightarrow> (job \<Rightarrow> bool) \<Rightarrow> (nat \<Rightarrow> job) \<Rightarrow> nat" where
  "jobs_with n P f = (\<Sum>t = 1..n. of_bool (P (f t)))"

lemma jobs_with_upd:
  assumes "1 \<le> t" "t \<le> n"
  shows "jobs_with n P (f(t := j)) + of_bool (P (f t)) = jobs_with n P f + of_bool (P j)"
proof -
  have t: "t \<in> {1..n}" using assms by simp
  have "(\<Sum>u \<in> {1..n} - {t}. of_bool (P ((f(t := j)) u))) = (\<Sum>u \<in> {1..n} - {t}. (of_bool (P (f u)) :: nat))"
    by (rule sum.cong) auto
  then show ?thesis
    using sum.remove [OF _ t, of "\<lambda>u. of_bool (P ((f(t := j)) u)) :: nat"]
      sum.remove [OF _ t, of "\<lambda>u. of_bool (P (f u)) :: nat"]
    by (simp add: jobs_with_def)
qed

lemma jobs_with_le: "jobs_with n P f \<le> n"
proof -
  have "jobs_with n P f \<le> (\<Sum>t = 1..n. 1)" unfolding jobs_with_def by (rule sum_mono) simp
  then show ?thesis by simp
qed

lemma jobs_with_pos: "1 \<le> t \<Longrightarrow> t \<le> n \<Longrightarrow> P (f t) \<Longrightarrow> 0 < jobs_with n P f"
  using jobs_with_upd [of t n P f "f t"] sum.remove [of "{1..n}" t "\<lambda>u. of_bool (P (f u)) :: nat"]
  by (simp add: jobs_with_def)

lemma jobs_with_mono: "(\<And>j. P j \<Longrightarrow> Q j) \<Longrightarrow> jobs_with n P f \<le> jobs_with n Q f"
  unfolding jobs_with_def by (rule sum_mono) auto

text \<open>
  The list is there, each of its nodes is on it once, and the references to a node are the list's
  and those of the threads that have one in their hands.
\<close>

definition race_inv :: "nat \<Rightarrow> race \<Rightarrow> bool" where
  "race_inv n s \<longleftrightarrow> (\<exists>lis. r_lists s (r_list s) = Some lis \<and>
     (\<forall>a. refs (r_store s) a = count_list (ins_items lis) a + jobs_with n (holds_node a) (r_job s)) \<and>
     (\<forall>a. count_list (ins_items lis) a + jobs_with n (owns_node a) (r_job s) \<le> 1)) \<and>
     (\<forall>t. advert_job (r_job s t))"

lemma race_inv_new: "race_inv n (race_new p)"
  by (simp add: race_inv_def race_new_def indexnodes_list_new_def jobs_with_def refs_def is_get_def)

lemma race_invD:
  assumes "race_inv n s"
  obtains lis where "r_lists s (r_list s) = Some lis" "list_at (r_list s) s = Inr lis"
    "\<And>a. refs (r_store s) a = count_list (ins_items lis) a + jobs_with n (holds_node a) (r_job s)"
    "\<And>a. count_list (ins_items lis) a + jobs_with n (owns_node a) (r_job s) \<le> 1"
  using assms by (auto simp: race_inv_def list_at_def)

text \<open>A step that changes neither the list nor what the threads own, but perhaps one reference.\<close>

lemma race_inv_upd:
  assumes "race_inv n s" "1 \<le> t" "t \<le> n" "advert_job j" "r_list s' = r_list s" "r_job s' = (r_job s)(t := j)"
    and "r_lists s (r_list s) = Some lis" "r_lists s' (r_list s) = Some lis'"
    and "\<And>a. refs (r_store s') a + count_list (ins_items lis) a + of_bool (holds_node a (r_job s t)) =
      refs (r_store s) a + count_list (ins_items lis') a + of_bool (holds_node a j)"
    and "\<And>a. count_list (ins_items lis') a + jobs_with n (owns_node a) ((r_job s)(t := j)) \<le> 1"
  shows "race_inv n s'"
proof -
  have "refs (r_store s') a = count_list (ins_items lis') a + jobs_with n (holds_node a) (r_job s')" for a
    using assms(1,7) jobs_with_upd [OF assms(2,3), of "holds_node a" "r_job s" j] assms(9) [of a]
    by (auto simp: race_inv_def assms(6))
  then show ?thesis using assms(1,4-6,8,10) by (auto simp: race_inv_def)
qed

lemma race_inv_same_owns:
  assumes "race_inv n s" "1 \<le> t" "t \<le> n" "advert_job j" "r_list s' = r_list s" "r_job s' = (r_job s)(t := j)"
    and "r_lists s' = r_lists s"
    and "\<And>a. refs (r_store s') a + of_bool (holds_node a (r_job s t)) = refs (r_store s) a + of_bool (holds_node a j)"
    and "\<And>a. owns_node a j \<Longrightarrow> owns_node a (r_job s t)"
  shows "race_inv n s'"
proof -
  obtain lis where lis: "r_lists s (r_list s) = Some lis" using assms(1) by (auto simp: race_inv_def)
  show ?thesis
  proof (rule race_inv_upd [OF assms(1-6) lis])
    show "r_lists s' (r_list s) = Some lis" using lis assms(7) by simp
    fix a
    show "refs (r_store s') a + count_list (ins_items lis) a + of_bool (holds_node a (r_job s t)) =
      refs (r_store s) a + count_list (ins_items lis) a + of_bool (holds_node a j)" using assms(8) [of a] by simp
    have "jobs_with n (owns_node a) ((r_job s)(t := j)) \<le> jobs_with n (owns_node a) (r_job s)"
      using jobs_with_upd [OF assms(2,3), of "owns_node a" "r_job s" j] assms(9) [of a]
      by (auto simp: of_bool_def split: if_splits)
    then show "count_list (ins_items lis) a + jobs_with n (owns_node a) ((r_job s)(t := j)) \<le> 1"
      using assms(1) lis by (auto simp: race_inv_def intro: le_trans [OF add_left_mono])
  qed
qed


lemma refs_bound:
  assumes "race_inv n s" "n + 2 \<le> max_refs"
  shows "refs (r_store s) a < max_refs"
proof -
  have "refs (r_store s) a < n + 2"
  proof (rule race_invD [OF assms(1)])
    fix lis
    assume "\<And>a. refs (r_store s) a = count_list (ins_items lis) a + jobs_with n (holds_node a) (r_job s)"
      "\<And>a. count_list (ins_items lis) a + jobs_with n (owns_node a) (r_job s) \<le> 1"
    from this(1) [of a] this(2) [of a] show ?thesis
      using jobs_with_le [of n "holds_node a" "r_job s"] by linarith
  qed
  then show ?thesis using assms(2) by (rule less_le_trans)
qed

lemma held_live:
  assumes "race_inv n s" "1 \<le> t" "t \<le> n" "holds_node a (r_job s t)"
  shows "0 < refs (r_store s) a"
  using jobs_with_pos [OF assms(2,3), of "holds_node a" "r_job s"] assms(1,4) by (auto simp: race_inv_def)

lemma step_find:
  assumes inv: "race_inv n s" and t: "1 \<le> t" "t \<le> n" and j: "r_job s t = Ev_Find ad" and n: "n + 2 \<le> max_refs"
  shows "\<exists>s'. job_step timeout now q f t s = Inr s' \<and> race_inv n s'"
proof -
  obtain lis where lis: "r_lists s (r_list s) = Some lis" "list_at (r_list s) s = Inr lis"
    "\<And>a. refs (r_store s) a = count_list (ins_items lis) a + jobs_with n (holds_node a) (r_job s)"
    using race_invD [OF inv] by metis
  have ad: "ad_ok ad" using inv j by (auto simp: race_inv_def dest: spec [of _ t])
  have live: "\<forall>a \<in> set (ins_items lis). 0 < refs (r_store s) a"
    using lis(3) by (metis add_gr_0 count_list_0_iff neq0_conv)
  show ?thesis
  proof (cases "find (\<lambda>a. in_id (node_at (r_store s) a) = ad_uid ad) (ins_items lis)")
    case None
    have "job_step timeout now q f t s = Inr (goto t (Ev_New ad) s)"
      using live lis(2) None by (simp add: event_steps(1) [OF j] indexnodes_list_find_def find_item_find)
    moreover have "race_inv n (goto t (Ev_New ad) s)"
      by (rule race_inv_same_owns [OF inv t]) (use j ad in auto)
    ultimately show ?thesis by blast
  next
    case (Some a)
    then have "a \<in> set (ins_items lis)" by (auto simp: find_Some_iff)
    with live have "0 < refs (r_store s) a" by blast
    from indexnode_rc.copy_count [OF this refs_bound [OF inv n]] obtain st where
      st: "indexnode_copy a (r_store s) = Inr st" "refs st = (refs (r_store s))(a := refs (r_store s) a + 1)" by blast
    have "job_step timeout now q f t s = Inr (goto t (Ev_Seen a) (s\<lparr>r_store := st\<rparr>))"
      using live lis(2) Some st(1) by (simp add: event_steps(1) [OF j] indexnodes_list_find_def find_item_find)
    moreover have "race_inv n (goto t (Ev_Seen a) (s\<lparr>r_store := st\<rparr>))"
      by (rule race_inv_same_owns [OF inv t]) (use j st(2) in \<open>auto simp: is_get_def\<close>)
    ultimately show ?thesis by blast
  qed
qed

lemma step_new:
  assumes inv: "race_inv n s" and t: "1 \<le> t" "t \<le> n" and j: "r_job s t = Ev_New ad" and f: "r_store s f = None"
  shows "\<exists>s'. job_step timeout now q f t s = Inr s' \<and> race_inv n s'"
proof -
  obtain lis where lis: "r_lists s (r_list s) = Some lis"
    "\<And>a. refs (r_store s) a = count_list (ins_items lis) a + jobs_with n (holds_node a) (r_job s)"
    "\<And>a. count_list (ins_items lis) a + jobs_with n (owns_node a) (r_job s) \<le> 1"
    using race_invD [OF inv] by metis
  have ad: "ad_ok ad" using inv j by (auto simp: race_inv_def dest: spec [of _ t])
  have "refs (r_store s) f = 0" using f by (simp add: refs_def)
  moreover have "jobs_with n (owns_node f) (r_job s) \<le> jobs_with n (holds_node f) (r_job s)"
    by (rule jobs_with_mono) (auto elim: owns_node.elims)
  ultimately have f0: "count_list (ins_items lis) f = 0" "jobs_with n (owns_node f) (r_job s) = 0"
    using lis(2) [of f] by auto
  obtain st where st: "indexnode_new f now (ad_host ad) (ad_port ad) (ad_version ad) (ad_uid ad) (r_store s) = Inr (Some f, st)"
    "refs st = (refs (r_store s))(f := 1)"
    using ad by (simp add: indexnode_new_def ad_ok_def check_version_always proto_indexnode_init_def ref_count_new_def)
  let ?s = "goto t (Ev_Test f) (s\<lparr>r_store := st\<rparr>)"
  have "job_step timeout now q f t s = Inr ?s" using st(1) by (simp add: event_steps(4) [OF j])
  moreover have "race_inv n ?s"
  proof (rule race_inv_upd [OF inv t _ _ _ lis(1)])
    show "count_list (ins_items lis) a + jobs_with n (owns_node a) ((r_job s)(t := Ev_Test f)) \<le> 1" for a
      using jobs_with_upd [OF t, of "owns_node a" "r_job s" "Ev_Test f"] lis(3) [of a] f0 j by auto
  qed (use j st(2) \<open>refs (r_store s) f = 0\<close> lis(1) in \<open>auto simp: is_get_def\<close>)
  ultimately show ?thesis by blast
qed

lemma step_add:
  assumes inv: "race_inv n s" and t: "1 \<le> t" "t \<le> n" and j: "r_job s t = Ev_Add b"
  shows "\<exists>s'. job_step timeout now q f t s = Inr s' \<and> race_inv n s'"
proof -
  obtain lis where lis: "r_lists s (r_list s) = Some lis" "list_at (r_list s) s = Inr lis"
    "\<And>a. count_list (ins_items lis) a + jobs_with n (owns_node a) (r_job s) \<le> 1"
    using race_invD [OF inv] by metis
  let ?s = "goto t Ev_Unlock (s\<lparr>r_lists := (r_lists s)(r_list s \<mapsto> indexnodes_list_add lis b)\<rparr>)"
  have "job_step timeout now q f t s = Inr ?s" using lis(2) by (simp add: event_steps(7) [OF j])
  moreover have "race_inv n ?s"
  proof (rule race_inv_upd [OF inv t _ _ _ lis(1)])
    show "count_list (ins_items (indexnodes_list_add lis b)) a + jobs_with n (owns_node a) ((r_job s)(t := Ev_Unlock)) \<le> 1" for a
      using jobs_with_upd [OF t, of "owns_node a" "r_job s" Ev_Unlock] lis(3) [of a] j
      by (auto simp: indexnodes_list_add_def)
  qed (use j in \<open>auto simp: is_get_def indexnodes_list_add_def\<close>)
  ultimately show ?thesis by blast
qed

lemma step_seen:
  assumes inv: "race_inv n s" and t: "1 \<le> t" "t \<le> n" and j: "r_job s t = Ev_Seen a"
  shows "\<exists>s'. job_step timeout now q f t s = Inr s' \<and> race_inv n s'"
proof -
  have pos: "0 < refs (r_store s) a" using held_live [OF inv t] j by simp
  from obj_put_node [OF pos] obtain st where
    st: "obj_put a (indexnode_seen now (node_at (r_store s) a)) (r_store s) = Inr st" "refs st = refs (r_store s)" by blast
  have "job_step timeout now q f t s = Inr (goto t (Ev_Release a) (s\<lparr>r_store := st\<rparr>))"
    using st(1) by (simp add: event_steps(2) [OF j] obj_get_node [OF pos])
  moreover have "race_inv n (goto t (Ev_Release a) (s\<lparr>r_store := st\<rparr>))"
    by (rule race_inv_same_owns [OF inv t]) (use j st(2) in \<open>auto simp: is_get_def\<close>)
  ultimately show ?thesis by blast
qed

lemma step_release:
  assumes inv: "race_inv n s" and t: "1 \<le> t" "t \<le> n" and j: "r_job s t = Ev_Release a"
  shows "\<exists>s'. job_step timeout now q f t s = Inr s' \<and> race_inv n s'"
proof -
  have pos: "0 < refs (r_store s) a" using held_live [OF inv t] j by simp
  from indexnode_rc.delete_count [OF pos] obtain st where
    st: "indexnode_delete a (r_store s) = Inr st" "refs st = (refs (r_store s))(a := refs (r_store s) a - 1)" by blast
  have "job_step timeout now q f t s = Inr (goto t No_Job (s\<lparr>r_store := st\<rparr>))"
    using st(1) by (simp add: event_steps(3) [OF j])
  moreover have "race_inv n (goto t No_Job (s\<lparr>r_store := st\<rparr>))"
    by (rule race_inv_same_owns [OF inv t]) (use j st(2) pos in \<open>auto simp: is_get_def\<close>)
  ultimately show ?thesis by blast
qed

lemma step_lock:
  assumes inv: "race_inv n s" and t: "1 \<le> t" "t \<le> n" and j: "r_job s t \<in> {Ev_Test a, Ev_Lock a, Ev_Unlock, No_Job}"
  shows "\<exists>s'. job_step timeout now q f t s = Inr s' \<and> race_inv n s'"
proof -
  have same: "race_inv n (goto t j' (s\<lparr>r_lock := l\<rparr>))"
    if "advert_job j'" "\<And>b. holds_node b j' = holds_node b (r_job s t)"
      "\<And>b. owns_node b j' = owns_node b (r_job s t)" for j' l
    by (rule race_inv_same_owns [OF inv t, where j = j']) (use that in auto)
  moreover have "race_inv n (goto t j' s)"
    if "advert_job j'" "\<And>b. holds_node b j' = holds_node b (r_job s t)"
      "\<And>b. owns_node b j' = owns_node b (r_job s t)" for j' using same [of j' "r_lock s"] that by simp
  ultimately show ?thesis
    using j inv by (auto simp: event_steps is_get_def split: option.splits)
qed

lemma advert_step_safe:
  assumes "race_inv n s" "1 \<le> t" "t \<le> n" "malloc_ok t q f s" "n + 2 \<le> max_refs"
  shows "\<exists>s'. job_step timeout now q f t s = Inr s' \<and> race_inv n s'"
proof -
  have "advert_job (r_job s t)" using assms(1) by (simp add: race_inv_def)
  then show ?thesis
    using step_find [OF assms(1-3) _ assms(5)] step_new [OF assms(1-3)] assms(4) step_add [OF assms(1-3)]
      step_seen [OF assms(1-3)] step_release [OF assms(1-3)] step_lock [OF assms(1-3)]
    by (cases "r_job s t") (auto simp: is_get_def malloc_ok_def)
qed

lemma race_inv_step:
  assumes "race_inv n s" "race_step timeout n handles_advert s s'" "n + 2 \<le> max_refs"
  shows "race_inv n s'"
  using assms(2)
proof cases
  case (begin_job t j)
  then obtain ad where ad: "j = Ev_Find ad" "ad_ok ad" by (cases j) auto
  show ?thesis unfolding begin_job(1)
    by (rule race_inv_same_owns [OF assms(1) begin_job(2,3), where j = j])
      (use begin_job(4) ad in \<open>auto simp: is_get_def\<close>)
next
  case (job t q f now)
  with advert_step_safe [OF assms(1) job(1-3) assms(3), of timeout now] show ?thesis by auto
qed

lemma race_reach_inv:
  assumes "race_reach timeout n handles_advert s" "n + 2 \<le> max_refs"
  shows "race_inv n s"
  using assms(1)
proof induction
  case (start p)
  show ?case by (rule race_inv_new)
next
  case (step s s')
  then show ?case using race_inv_step assms(2) by blast
qed

text \<open>C11. Adverts under threads (indexnodes.c, \<^verbatim>\<open>new_indexnode_event\<close>): however the steps of any number
  of threads that handle adverts interleave - the listener and the thread of the static indexnodes,
  say - with whatever times and waits for the lock, no step uses freed memory, fails an assertion or
  loses a reference: in every reachable state every thread can take its next step, and the number of
  references of each indexnode is its entry in the list plus the threads that have it in hand.\<close>
theorem adverts_interleave_safely:
  assumes "race_reach timeout n handles_advert s" "1 \<le> t" "t \<le> n" "malloc_ok t q f s" "n + 2 \<le> max_refs"
  shows "\<exists>s'. job_step timeout now q f t s = Inr s' \<and>
    (\<exists>lis. r_lists s (r_list s) = Some lis \<and>
      (\<forall>a. refs (r_store s) a = count_list (ins_items lis) a + jobs_with n (holds_node a) (r_job s)))"
proof -
  have "race_inv n s" by (rule race_reach_inv [OF assms(1,5)])
  with advert_step_safe [OF _ assms(2-5), of timeout now] show ?thesis by (auto simp: race_inv_def)
qed

definition ad_a :: ad_t where
  "ad_a = \<lparr>ad_host = ''h'', ad_port = ''1337'', ad_version = ''0.13'', ad_uid = ''u''\<rparr>"

definition two_adverts :: race where
  "two_adverts = goto 2 (Ev_Find ad_a) (goto 1 (Ev_Find ad_a) (race_new 3))"

theorem adverts_interleave_safely_witness:
  "\<exists>s'. job_step 60 5 0 7 1 two_adverts = Inr s' \<and>
    (\<exists>lis. r_lists two_adverts (r_list two_adverts) = Some lis \<and>
      (\<forall>a. refs (r_store two_adverts) a =
        count_list (ins_items lis) a + jobs_with 2 (holds_node a) (r_job two_adverts)))"
proof (rule adverts_interleave_safely)
  show "race_reach 60 2 handles_advert two_adverts"
    unfolding two_adverts_def
    by (intro reach_begin race_reach.start) (simp_all add: race_new_def ad_a_def ad_ok_def)
  show "malloc_ok 1 0 7 two_adverts" by (simp add: malloc_ok_def two_adverts_def race_new_def)
qed simp_all

section \<open>What the missing lock allows\<close>

text \<open>C34. A request races with an advert (indexnodes.c): \<^verbatim>\<open>indexnodes_get\<close> frees the old list before it
  sets the pointer to the new one, and an advert is looked up in the list without the lock. From
  every state in which a request would succeed on its own and the lock is free, a thread that asks
  for the list and another that handles an advert reach a state in which the lookup walks a freed
  list.\<close>
theorem advert_walks_freed_list:
  assumes "race_reach timeout n any_job s" "r_lock s = rw_lock_new" "r_job s t = No_Job" "r_job s u = No_Job"
    and "1 \<le> t" "t \<le> n" "1 \<le> u" "u \<le> n" "t \<noteq> u" "ad_ok ad" "r_lists s q = None"
    and "r_lists s (r_list s) = Some orig" "indexnodes_get now timeout (collection s) = Inr r"
  shows "\<exists>s'. race_reach timeout n any_job s' \<and> r_job s' u = Ev_Find ad \<and>
    job_step timeout now' q' f' u s' = Inl UseAfterFree"
proof -
  let ?l = "\<lparr>readers_reading = 1, writer_writing = 0, locking_thread = t\<rparr>"
  obtain ret st1 st2 where got: "collect_valid now timeout orig (r_store s) = Inr (ret, st1)"
    "indexnodes_list_delete orig st1 = Inr st2"
    using assms(12,13) by (auto simp: indexnodes_get_def collection_def remove_expired_split)
  have q: "q \<noteq> r_list s" using assms(11,12) by auto
  define s1 where "s1 = goto t Get_Test (goto u (Ev_Find ad) s)"
  define s2 where "s2 = goto t Get_Lock s1"
  define s3 where "s3 = goto t Get_Build (s2\<lparr>r_lock := ?l\<rparr>)"
  define s4 where "s4 = goto t (Get_Free (r_list s) q) (s3\<lparr>r_lists := (r_lists s)(q \<mapsto> ret), r_store := st1\<rparr>)"
  define s5 where "s5 = goto t (Get_Set q) (s4\<lparr>r_lists := (r_lists s4)(r_list s := None), r_store := st2\<rparr>)"
  note sdefs = s1_def s2_def s3_def s4_def s5_def malloc_ok_def list_at_def
  have step: "job_step timeout now q 0 t s1 = Inr s2" "malloc_ok t q 0 s1"
    "job_step timeout now q 0 t s2 = Inr s3" "malloc_ok t q 0 s2"
    "job_step timeout now q 0 t s3 = Inr s4" "malloc_ok t q 0 s3"
    "job_step timeout now q 0 t s4 = Inr s5" "malloc_ok t q 0 s4"
    using assms(2,5,11,12) got q by (simp_all add: sdefs get_steps lock_alone)
  have "race_reach timeout n any_job s1"
    unfolding s1_def by (intro reach_begin assms) (use assms in auto)
  then have "race_reach timeout n any_job s5"
    using step reach_job [OF _ assms(5,6)] by metis
  moreover have "r_job s5 u = Ev_Find ad" "list_at (r_list s5) s5 = Inl UseAfterFree"
    using assms(9) by (simp_all add: sdefs)
  ultimately show ?thesis by (auto simp: event_steps intro!: exI [of _ s5])
qed

theorem advert_walks_freed_list_witness:
  "\<exists>s'. race_reach 60 2 any_job s' \<and> r_job s' 2 = Ev_Find ad_a \<and> job_step 60 5 0 7 2 s' = Inl UseAfterFree"
proof (rule advert_walks_freed_list [OF race_reach.start, where t = 1 and q = 4 and now = 5 and
    orig = indexnodes_list_new and r = "(indexnodes_list_new, indexnodes_new Map.empty)" and n = 2])
  show "indexnodes_get 5 60 (collection (race_new 3)) = Inr (indexnodes_list_new, indexnodes_new Map.empty)"
    by (simp add: race_new_def collection_def indexnodes_get_def indexnodes_list_new_def indexnodes_new_def
        indexnodes_list_remove_expired_def indexnodes_list_delete_def indexnodes_list_copy_def)
  show "r_lists (race_new 3) 4 = None" "r_lists (race_new 3) (r_list (race_new 3)) = Some indexnodes_list_new"
    "r_lock (race_new 3) = rw_lock_new" "r_job (race_new 3) 1 = No_Job" "r_job (race_new 3) 2 = No_Job"
    by (simp_all add: race_new_def)
  show "ad_ok ad_a" by (simp add: ad_a_def ad_ok_def)
qed simp_all

text \<open>C35. Two requests race (indexnodes.c, \<^verbatim>\<open>indexnodes_get\<close> under the lock for reading): both build a new list
  from the same old one, and both free it: the second one uses a list that is freed.\<close>
theorem requests_free_twice:
  assumes "2 \<le> n"
  shows "\<exists>s. race_reach timeout n any_job s \<and> r_job s 2 = Get_Free p (p + 2) \<and>
    job_step timeout now q f 2 s = Inl UseAfterFree"
proof -
  define s0 where "s0 = goto 2 Get_Test (goto 1 Get_Test (race_new p))"
  define s1 where "s1 = goto 2 Get_Lock (goto 1 Get_Lock s0)"
  define s2 where "s2 = goto 1 Get_Build (s1\<lparr>r_lock := \<lparr>readers_reading = 1, writer_writing = 0, locking_thread = 1\<rparr>\<rparr>)"
  define s3 where "s3 = goto 2 Get_Build (s2\<lparr>r_lock := \<lparr>readers_reading = 2, writer_writing = 0, locking_thread = 2\<rparr>\<rparr>)"
  define s4 where "s4 = goto 1 (Get_Free p (p + 1)) (s3\<lparr>r_lists := (r_lists s3)(p + 1 \<mapsto> indexnodes_list_new)\<rparr>)"
  define s5 where "s5 = goto 2 (Get_Free p (p + 2)) (s4\<lparr>r_lists := (r_lists s4)(p + 2 \<mapsto> indexnodes_list_new)\<rparr>)"
  define s6 where "s6 = goto 1 (Get_Set (p + 1)) (s5\<lparr>r_lists := (r_lists s5)(p := None)\<rparr>)"
  note sdefs = s0_def s1_def s2_def s3_def s4_def s5_def s6_def malloc_ok_def list_at_def race_new_def
    rw_lock_new_def locked_by_self_def rw_lock_rlock_def collect_valid_def indexnodes_list_new_def
    indexnodes_list_delete_def
  have step: "job_step timeout 0 0 0 1 s0 = Inr (goto 1 Get_Lock s0)"
    "job_step timeout 0 0 0 2 (goto 1 Get_Lock s0) = Inr s1"
    "job_step timeout 0 0 0 1 s1 = Inr s2" "job_step timeout 0 0 0 2 s2 = Inr s3"
    "job_step timeout 0 (p + 1) 0 1 s3 = Inr s4" "job_step timeout 0 (p + 2) 0 2 s4 = Inr s5"
    "job_step timeout 0 0 0 1 s5 = Inr s6"
    by (simp_all add: get_steps sdefs)
  have ok: "malloc_ok 1 0 0 s0" "malloc_ok 2 0 0 (goto 1 Get_Lock s0)" "malloc_ok 1 0 0 s1" "malloc_ok 2 0 0 s2"
    "malloc_ok 1 (p + 1) 0 s3" "malloc_ok 2 (p + 2) 0 s4" "malloc_ok 1 0 0 s5"
    by (simp_all add: sdefs)
  have t: "1 \<le> (1 :: nat)" "1 \<le> n" "1 \<le> (2 :: nat)" "2 \<le> n" using assms by simp_all
  have "race_reach timeout n any_job s0"
    unfolding s0_def by (intro reach_begin race_reach.start t) (simp_all add: race_new_def)
  then have "race_reach timeout n any_job s6"
    using step ok reach_job [OF _ t(1,2)] reach_job [OF _ t(3,4)] by metis
  moreover have "r_job s6 2 = Get_Free p (p + 2)" "list_at p s6 = Inl UseAfterFree"
    by (simp_all add: sdefs)
  ultimately show ?thesis by (auto simp: get_steps intro!: exI [of _ s6])
qed

theorem requests_free_twice_witness:
  "\<exists>s. race_reach 60 2 any_job s \<and> r_job s 2 = Get_Free 3 5 \<and> job_step 60 9 0 0 2 s = Inl UseAfterFree"
  using requests_free_twice [of 2 60 3 9 0 0] by simp

text \<open>A thread that has missed the id adds its node.\<close>

definition ad_node :: "int \<Rightarrow> ad_t \<Rightarrow> indexnode_t" where
  "ad_node now ad = \<lparr>in_pin = \<lparr>pin_host = ad_host ad, pin_port = ad_port ad\<rparr>, in_version = ad_version ad,
     in_id = ad_uid ad, in_last_seen = now\<rparr>"

lemma reach_add_new:
  assumes "race_reach timeout n allowed s" "1 \<le> t" "t \<le> n" "r_job s t = Ev_New ad" "ad_ok ad"
    and "r_lock s = rw_lock_new" "r_store s f = None" "r_lists s (r_list s) = Some lis"
  shows "race_reach timeout n allowed (goto t No_Job (s\<lparr>r_store := (r_store s)(f \<mapsto> (Some ref_count_new, ad_node now ad)),
    r_lists := (r_lists s)(r_list s \<mapsto> indexnodes_list_add lis f)\<rparr>))"
proof -
  let ?s = "s\<lparr>r_store := (r_store s)(f \<mapsto> (Some ref_count_new, ad_node now ad))\<rparr>"
  let ?l = "\<lparr>readers_reading = 0, writer_writing = 1, locking_thread = t\<rparr>"
  define s1 where "s1 = goto t (Ev_Test f) ?s"
  define s2 where "s2 = goto t (Ev_Lock f) ?s"
  define s3 where "s3 = goto t (Ev_Add f) (?s\<lparr>r_lock := ?l\<rparr>)"
  define s4 where "s4 = goto t Ev_Unlock (?s\<lparr>r_lock := ?l, r_lists := (r_lists s)(r_list s \<mapsto> indexnodes_list_add lis f)\<rparr>)"
  define s5 where "s5 = goto t No_Job (?s\<lparr>r_lists := (r_lists s)(r_list s \<mapsto> indexnodes_list_add lis f)\<rparr>)"
  note sdefs = s1_def s2_def s3_def s4_def s5_def
  have "job_step timeout now 0 f t s = Inr s1"
    using assms(4,5) by (simp add: event_steps sdefs indexnode_new_def ad_ok_def check_version_always
        proto_indexnode_init_def indexnode_seen_def ad_node_def)
  moreover have "job_step timeout now 0 f t s1 = Inr s2" "job_step timeout now 0 f t s2 = Inr s3"
    "job_step timeout now 0 f t s3 = Inr s4" "job_step timeout now 0 f t s4 = Inr s5"
    using assms(2,6,8) by (simp_all add: event_steps lock_alone list_at_def sdefs goto_def)
  moreover have "malloc_ok t 0 f s" "malloc_ok t 0 f s1" "malloc_ok t 0 f s2" "malloc_ok t 0 f s3" "malloc_ok t 0 f s4"
    using assms(4,7) by (simp_all add: malloc_ok_def sdefs)
  ultimately have "race_reach timeout n allowed s5"
    using reach_job [OF _ assms(2,3)] assms(1) by metis
  then show ?thesis by (simp add: s5_def)
qed

text \<open>C36. Two adverts race (indexnodes.c, \<^verbatim>\<open>new_indexnode_event\<close>): the lookup and the insertion are not one
  critical section, so two threads that handle adverts of the same indexnode can both miss it and
  both add it: the list then has two entries with one id, which no sequence of whole events makes.\<close>
theorem adverts_add_twice:
  assumes "2 \<le> n" "ad_ok ad"
  shows "\<exists>s. race_reach timeout n handles_advert s \<and> r_job s = (\<lambda>_. No_Job) \<and> \<not> ins_inv (collection s) \<and>
    map (\<lambda>a. in_id (node_at (r_store s) a)) (ins_items (ins_list (collection s))) = [ad_uid ad, ad_uid ad]"
proof -
  have t: "1 \<le> (1 :: nat)" "1 \<le> n" "1 \<le> (2 :: nat)" "2 \<le> n" using assms by simp_all
  define s0 where "s0 = goto 2 (Ev_Find ad) (goto 1 (Ev_Find ad) (race_new 0))"
  define s1 where "s1 = goto 1 (Ev_New ad) s0"
  define s2 where "s2 = goto 2 (Ev_New ad) s1"
  define s3 where "s3 = goto 1 No_Job (s2\<lparr>r_store := [1 \<mapsto> (Some ref_count_new, ad_node 0 ad)],
    r_lists := [0 \<mapsto> \<lparr>ins_items = [1]\<rparr>]\<rparr>)"
  define s4 where "s4 = goto 2 No_Job (s3\<lparr>r_store := [1 \<mapsto> (Some ref_count_new, ad_node 0 ad),
    2 \<mapsto> (Some ref_count_new, ad_node 0 ad)], r_lists := [0 \<mapsto> \<lparr>ins_items = [2, 1]\<rparr>]\<rparr>)"
  note sdefs = s0_def s1_def s2_def s3_def s4_def race_new_def
  have "race_reach timeout n handles_advert s0"
    unfolding s0_def by (intro reach_begin race_reach.start t) (simp_all add: race_new_def assms(2))
  moreover have "job_step timeout 0 0 0 1 s0 = Inr s1" "job_step timeout 0 0 0 2 s1 = Inr s2"
    "malloc_ok 1 0 0 s0" "malloc_ok 2 0 0 s1"
    by (simp_all add: event_steps sdefs malloc_ok_def list_at_def indexnodes_list_find_def indexnodes_list_new_def goto_def)
  ultimately have "race_reach timeout n handles_advert s2"
    using reach_job [OF _ t(1,2)] reach_job [OF _ t(3,4)] by metis
  then have "race_reach timeout n handles_advert s3"
    using reach_add_new [OF _ t(1,2), where f = 1 and now = 0 and ad = ad and s = s2 and lis = "\<lparr>ins_items = []\<rparr>"] assms(2)
    by (simp add: sdefs indexnodes_list_new_def indexnodes_list_add_def)
  then have "race_reach timeout n handles_advert s4"
    using reach_add_new [OF _ t(3,4), where f = 2 and now = 0 and ad = ad and s = s3 and lis = "\<lparr>ins_items = [1]\<rparr>"] assms(2)
    by (simp add: sdefs indexnodes_list_new_def indexnodes_list_add_def)
  moreover have "r_job s4 = (\<lambda>_. No_Job)" by (auto simp: sdefs)
  moreover have "map (\<lambda>a. in_id (node_at (r_store s4) a)) (ins_items (ins_list (collection s4))) = [ad_uid ad, ad_uid ad]"
    by (simp add: sdefs collection_def node_at_def contents_at_def ad_node_def)
  moreover from this have "\<not> ins_inv (collection s4)" by (simp add: ins_inv_def) (simp add: collection_def)
  ultimately show ?thesis by (intro exI [of _ s4] conjI)
qed

theorem adverts_add_twice_witness:
  "\<exists>s. race_reach 60 2 handles_advert s \<and> r_job s = (\<lambda>_. No_Job) \<and> \<not> ins_inv (collection s) \<and>
    map (\<lambda>a. in_id (node_at (r_store s) a)) (ins_items (ins_list (collection s))) = [''u'', ''u'']"
  using adverts_add_twice [of 2 ad_a 60] by (simp add: ad_a_def ad_ok_def)

end
