(* ===== verification/Num_Space.thy ===== *)
theory Num_Space
  imports Utils
begin

text \<open>
  The retired number space collapser (\<^verbatim>\<open>src/scrap/num_space_collapser.c\<close>): sparse numbers are mapped to
  consecutive ones in the order they are asked for. The hash table it uses (\<^verbatim>\<open>hash.h\<close>, whose
  constructor takes a size) is not in the repository and is a parameter: \<open>tbl_new\<close>, \<open>tbl_find\<close> and \<open>tbl_add\<close>,
  with the two laws of such a table as hypotheses. A call runs under the mutex of its collapser and
  is one step; the counter is shared by all collapsers.
\<close>

record 't num_space_collapser_t =
  nsc_hash_table :: 't

definition num_space_collapser_new :: "(nat \<Rightarrow> 't) \<Rightarrow> 't num_space_collapser_t" where
  "num_space_collapser_new tbl_new = \<lparr>nsc_hash_table = tbl_new 32\<rparr>"

text \<open>The value for the key, the counter \<^verbatim>\<open>next_value\<close> and the collapser.\<close>

definition num_space_collapser_get ::
  "('t \<Rightarrow> string \<Rightarrow> 32 word option) \<Rightarrow> ('t \<Rightarrow> string \<Rightarrow> 32 word \<Rightarrow> 't) \<Rightarrow> 32 word \<Rightarrow> 32 word \<Rightarrow>
   't num_space_collapser_t \<Rightarrow> 32 word \<times> 32 word \<times> 't num_space_collapser_t" where
  "num_space_collapser_get tbl_find tbl_add key next_value nsc =
     (let key_str = dec (unat key) in
      case tbl_find (nsc_hash_table nsc) key_str of
        Some val \<Rightarrow> (val, next_value, nsc)
      | None \<Rightarrow> (next_value, next_value + 1, nsc\<lparr>nsc_hash_table := tbl_add (nsc_hash_table nsc) key_str next_value\<rparr>))"

text \<open>Calls on any number of collapsers: which collapser, which key. The values come out in order.\<close>

definition collapse_step ::
  "('t \<Rightarrow> string \<Rightarrow> 32 word option) \<Rightarrow> ('t \<Rightarrow> string \<Rightarrow> 32 word \<Rightarrow> 't) \<Rightarrow> nat \<times> 32 word \<Rightarrow>
   32 word list \<times> 32 word \<times> (nat \<Rightarrow> 't num_space_collapser_t) \<Rightarrow>
   32 word list \<times> 32 word \<times> (nat \<Rightarrow> 't num_space_collapser_t)" where
  "collapse_step tbl_find tbl_add = (\<lambda>(c, key) (vals, next_value, nscs).
     let (val, next_value, nsc) = num_space_collapser_get tbl_find tbl_add key next_value (nscs c) in
     (vals @ [val], next_value, nscs(c := nsc)))"

definition collapse ::
  "(nat \<Rightarrow> 't) \<Rightarrow> ('t \<Rightarrow> string \<Rightarrow> 32 word option) \<Rightarrow> ('t \<Rightarrow> string \<Rightarrow> 32 word \<Rightarrow> 't) \<Rightarrow> (nat \<times> 32 word) list \<Rightarrow>
   32 word list \<times> 32 word \<times> (nat \<Rightarrow> 't num_space_collapser_t)" where
  "collapse tbl_new tbl_find tbl_add calls =
     fold (collapse_step tbl_find tbl_add) calls ([], 0, \<lambda>_. num_space_collapser_new tbl_new)"

lemma dec_unat_inj: "dec (unat k) = dec (unat k') \<longleftrightarrow> k = (k' :: 32 word)"
  by (metis num_of_dec word_unat_eq_iff)

definition collapsed ::
  "('t \<Rightarrow> string \<Rightarrow> 32 word option) \<Rightarrow> (nat \<times> 32 word) list \<Rightarrow> (nat \<times> 32 word \<Rightarrow> 32 word) \<Rightarrow>
   32 word list \<times> 32 word \<times> (nat \<Rightarrow> 't num_space_collapser_t) \<Rightarrow> bool" where
  "collapsed tbl_find calls num = (\<lambda>(vals, next_value, nscs).
     inj_on num (set calls) \<and> num ` set calls = word_of_nat ` {..<card (set calls)} \<and> vals = map num calls \<and>
     next_value = word_of_nat (card (set calls)) \<and>
     (\<forall>c k. tbl_find (nsc_hash_table (nscs c)) (dec (unat k)) = (if (c, k) \<in> set calls then Some (num (c, k)) else None)))"

lemma collapse_collapsed:
  assumes new: "\<And>k. tbl_find (tbl_new 32) k = None"
    and tbl: "\<And>t k v k'. tbl_find t k = None \<Longrightarrow> tbl_find (tbl_add t k v) k' = (if k' = k then Some v else tbl_find t k')"
  shows "length calls \<le> 2 ^ 32 \<Longrightarrow> \<exists>num. collapsed tbl_find calls num (collapse tbl_new tbl_find tbl_add calls)"
proof (induction calls rule: rev_induct)
  case Nil
  then show ?case by (simp add: collapse_def collapsed_def num_space_collapser_new_def new)
next
  case (snoc call calls)
  obtain c key where call: "call = (c, key)" by (cases call)
  obtain vals nv nscs where s: "collapse tbl_new tbl_find tbl_add calls = (vals, nv, nscs)" by (cases "collapse tbl_new tbl_find tbl_add calls")
  from snoc obtain num where num: "collapsed tbl_find calls num (vals, nv, nscs)" unfolding s by auto
  note n = num [unfolded collapsed_def prod.case]
  have step: "collapse tbl_new tbl_find tbl_add (calls @ [call]) = collapse_step tbl_find tbl_add call (vals, nv, nscs)"
    using s by (simp add: collapse_def)
  show ?case
  proof (cases "call \<in> set calls")
    case True
    then have "insert call (set calls) = set calls" by auto
    then have "collapsed tbl_find (calls @ [call]) num (collapse_step tbl_find tbl_add call (vals, nv, nscs))"
      using n True call by (simp add: collapsed_def collapse_step_def num_space_collapser_get_def)
    then show ?thesis unfolding step by blast
  next
    case False
    let ?num = "num(call := nv)"
    have "card (set calls) \<le> length calls" by (rule card_length)
    then have small: "card (set calls) < 2 ^ 32" using snoc.prems by simp
    have nv: "nv = word_of_nat (card (set calls))" using n by simp
    have fresh: "nv \<notin> num ` set calls"
    proof
      assume "nv \<in> num ` set calls"
      then obtain m where m: "m < card (set calls)" "word_of_nat m = (word_of_nat (card (set calls)) :: 32 word)"
        using n nv by auto
      from arg_cong [OF m(2), of unat] show False using m(1) small by (simp add: unat_of_nat)
    qed
    have same: "?num x = num x" if "x \<in> set calls" for x using that False by auto
    have inj: "inj_on num (set calls)" and range: "num ` set calls = word_of_nat ` {..<card (set calls)}"
      using n by simp_all
    have img: "?num ` set calls = num ` set calls" using same by (intro image_cong) auto
    have "inj_on ?num (insert call (set calls))"
      using inj fresh False img by (simp add: inj_on_fun_updI)
    moreover have "?num ` insert call (set calls) = word_of_nat ` {..<card (insert call (set calls))}"
      using False img range by (simp add: lessThan_Suc nv)
    moreover have "map ?num calls = map num calls" using same by (intro map_cong) auto
    moreover have "tbl_find (nsc_hash_table (nscs c)) (dec (unat key)) = None" using n False call by simp
    moreover note tbl [OF this]
    ultimately have "collapsed tbl_find (calls @ [call]) ?num (collapse_step tbl_find tbl_add call (vals, nv, nscs))"
      using n False call nv
      by (auto simp: collapsed_def collapse_step_def num_space_collapser_get_def dec_unat_inj Let_def)
    then show ?thesis unfolding step by blast
  qed
qed

text \<open>The number space collapser (src/scrap/num\_space\_collapser.c): over any interleaving of at most
  2^32 calls on any collapsers, each key of a collapser always gets the same number, no two keys get
  the same one, not even of different collapsers, and together the numbers are 0, 1, 2 and so on: so
  the numbers of one collapser have gaps as soon as there is a second one.\<close>
theorem collapse_numbers:
  assumes "\<And>k. tbl_find (tbl_new 32) k = None"
    and "\<And>t k v k'. tbl_find t k = None \<Longrightarrow> tbl_find (tbl_add t k v) k' = (if k' = k then Some v else tbl_find t k')"
    and "length calls \<le> 2 ^ 32"
  shows "\<exists>num. inj_on num (set calls) \<and> fst (collapse tbl_new tbl_find tbl_add calls) = map num calls \<and>
    num ` set calls = word_of_nat ` {..<card (set calls)}"
proof -
  obtain num where "collapsed tbl_find calls num (collapse tbl_new tbl_find tbl_add calls)"
    using collapse_collapsed [where tbl_find = tbl_find and tbl_new = tbl_new and tbl_add = tbl_add, OF assms] by blast
  then show ?thesis by (auto simp: collapsed_def split: prod.splits)
qed

definition some_calls :: "(nat \<times> 32 word) list" where
  "some_calls = [(0, 70), (1, 70), (0, 9), (0, 70)]"

theorem collapse_numbers_witness:
  "\<exists>num. inj_on num (set some_calls) \<and>
    fst (collapse (\<lambda>_. Map.empty) (\<lambda>t. t) (\<lambda>t k v. t(k \<mapsto> v)) some_calls) = map num some_calls \<and>
    num ` set some_calls = word_of_nat ` {..<card (set some_calls)}"
  by (rule collapse_numbers) (simp_all add: some_calls_def)

end
