(* ===== verification/Tests_Data.thy ===== *)
theory Tests_Data
  imports Binary_Heap String_Buffer Utils Ref_Count Hash_Table
begin

text \<open>
  The program's own unit tests of its data structures as definitions over the model:
  \<^verbatim>\<open>tests/unit/binary_heap_test.c\<close>, \<^verbatim>\<open>string_buffer_test.c\<close>, \<^verbatim>\<open>utils_test.c\<close>, \<^verbatim>\<open>ref_count_test.c\<close> and
  the retired \<^verbatim>\<open>scrap/hash_table_test.c\<close>. A test is a computation of type \<open>unit res\<close>: a failed check of
  the \<^verbatim>\<open>check\<close> library (\<^verbatim>\<open>fail_unless\<close>, \<^verbatim>\<open>ck_assert_...\<close>) ends it with \<open>AssertFail\<close>, and a C error in
  the code under test with that error. A suite is the list of its tests, each of which runs in a
  process of its own. The theorems evaluate them, so that every definition they go through is checked
  against what its authors expect of it; random numbers and memory behind a literal are arguments.
\<close>

section \<open>Checks\<close>

definition c_asserts :: "bool list \<Rightarrow> unit res" where
  "c_asserts checks = fold_res (\<lambda>b _. c_assert b) checks ()"

text \<open>A checked fixture: the test runs between its set-up and its tear-down.\<close>

definition with_fixture :: "'s res \<Rightarrow> ('s \<Rightarrow> unit res) \<Rightarrow> ('s \<Rightarrow> 's res) \<Rightarrow> unit res" where
  "with_fixture before after test = bind_res before (\<lambda>s. bind_res (test s) after)"

definition all_pass :: "unit res list \<Rightarrow> bool" where
  "all_pass suite = list_all (\<lambda>t. t = Inr ()) suite"

lemma all_pass_simps [simp]:
  "all_pass []" "all_pass (t # ts) \<longleftrightarrow> t = Inr () \<and> all_pass ts" "all_pass (ss @ ts) \<longleftrightarrow> all_pass ss \<and> all_pass ts"
  by (simp_all add: all_pass_def)

section \<open>binary\_heap\_test.c\<close>

text \<open>
  The value pointers \<^verbatim>\<open>&pairs[i][1]\<close> are the indices \<open>i\<close>. The tests ignore the result of
  \<^verbatim>\<open>binary_heap_trypop\<close>; on an empty heap they would compare variables that were never written.
\<close>

definition pop_out :: "nat binary_heap_t \<Rightarrow> ((int \<times> nat) \<times> nat binary_heap_t) res" where
  "pop_out heap =
     bind_res (binary_heap_trypop heap) (\<lambda>(out, heap).
     case out of None \<Rightarrow> Inl Uninitialised | Some kv \<Rightarrow> Inr (kv, heap))"

definition add_pairs :: "(nat \<Rightarrow> int) \<Rightarrow> nat list \<Rightarrow> nat binary_heap_t \<Rightarrow> nat binary_heap_t res" where
  "add_pairs key = fold_res (\<lambda>i heap. binary_heap_add heap (key i) i)"

definition pop_checked ::
  "(nat \<Rightarrow> int \<times> nat \<Rightarrow> bool) \<Rightarrow> nat list \<Rightarrow> nat binary_heap_t \<Rightarrow> nat binary_heap_t res" where
  "pop_checked ok =
     fold_res (\<lambda>i heap. bind_res (pop_out heap) (\<lambda>(out, heap). bind_res (c_assert (ok i out)) (\<lambda>_. Inr heap)))"

definition empty_is_sane :: "unit res" where
  "empty_is_sane = (let heap = binary_heap_new :: nat binary_heap_t in binary_heap_delete heap)"

definition singleton_is_sane :: "(nat \<Rightarrow> int) \<Rightarrow> unit res" where
  "singleton_is_sane random =
     (let key_in = 0; value_in = random 0 in
      bind_res (binary_heap_add binary_heap_new key_in 0) (\<lambda>heap.
      bind_res (pop_out heap) (\<lambda>((key_out, value_out), heap).
      bind_res (c_assert (key_out = key_in)) (\<lambda>_.
      bind_res (c_assert (value_out = 0 \<and> [value_in] ! value_out = value_in)) (\<lambda>_.
      binary_heap_delete heap)))))"

definition in_order :: "(nat \<Rightarrow> int) \<Rightarrow> unit res" where
  "in_order random =
     (let pairs = map (\<lambda>i. (int i, random i)) [0..<5] in
      bind_res (add_pairs (\<lambda>i. fst (pairs ! i)) [0..<5] binary_heap_new) (\<lambda>heap.
      bind_res (pop_checked (\<lambda>i (key_out, value_out). key_out = fst (pairs ! i) \<and>
        snd (pairs ! value_out) = snd (pairs ! i)) [0..<5] heap) binary_heap_delete))"

definition in_order_duplicates :: "unit res" where
  "in_order_duplicates =
     (let keys = map (\<lambda>i. int (i div 2)) [0..<5] in
      bind_res (add_pairs (\<lambda>i. keys ! i) [0..<5] binary_heap_new) (\<lambda>heap.
      bind_res (pop_checked (\<lambda>i (key_out, value_out). key_out = keys ! i) [0..<5] heap) binary_heap_delete))"

definition reverse_order :: "(nat \<Rightarrow> int) \<Rightarrow> unit res" where
  "reverse_order random =
     (let pairs = map (\<lambda>i. (int i, random (4 - i))) [0..<5] in
      bind_res (add_pairs (\<lambda>i. fst (pairs ! i)) (rev [0..<5]) binary_heap_new) (\<lambda>heap.
      bind_res (pop_checked (\<lambda>i (key_out, value_out). key_out = fst (pairs ! i) \<and>
        snd (pairs ! value_out) = snd (pairs ! i)) [0..<5] heap) binary_heap_delete))"

definition reverse_order_duplicates :: "unit res" where
  "reverse_order_duplicates =
     (let keys = map (\<lambda>i. int (i div 2)) [0..<5] in
      bind_res (add_pairs (\<lambda>i. keys ! i) (rev [0..<5]) binary_heap_new) (\<lambda>heap.
      bind_res (pop_checked (\<lambda>i (key_out, value_out). key_out = keys ! i) [0..<5] heap) binary_heap_delete))"

definition funny_order1 :: "unit res" where
  "funny_order1 =
     (let keys = [0, 3, 4, 2, 1] in
      bind_res (add_pairs (\<lambda>i. keys ! i) [0..<5] binary_heap_new) (\<lambda>heap.
      bind_res (pop_checked (\<lambda>i (key_out, value_out). key_out = int i) [0..<5] heap) binary_heap_delete))"

definition funny_order2 :: "unit res" where
  "funny_order2 =
     (let keys = [3, 2, 0, 1, 4] in
      bind_res (add_pairs (\<lambda>i. keys ! i) [0..<5] binary_heap_new) (\<lambda>heap.
      bind_res (pop_checked (\<lambda>i (key_out, value_out). key_out = int i) [0..<5] heap) binary_heap_delete))"

definition binary_heap_tests :: "(nat \<Rightarrow> int) \<Rightarrow> unit res list" where
  "binary_heap_tests random =
     [empty_is_sane, singleton_is_sane random, in_order random, in_order_duplicates, reverse_order random,
      reverse_order_duplicates, funny_order1, funny_order2]"

section \<open>string\_buffer\_test.c\<close>

definition appends :: "string list \<Rightarrow> string_buffer_t \<Rightarrow> string_buffer_t res" where
  "appends strs = fold_res (\<lambda>str sb. string_buffer_append sb (HeapStr str)) strs"

definition commits_to :: "string \<Rightarrow> string_buffer_t \<Rightarrow> unit res" where
  "commits_to str sb = bind_res (string_buffer_commit sb) (\<lambda>s. c_assert (s = str))"

definition peeks :: "string \<Rightarrow> string_buffer_t \<Rightarrow> unit res" where
  "peeks str sb = bind_res (string_buffer_peek sb) (\<lambda>s. c_assert (s = str))"

definition can_new_empty_and_commit :: "unit res" where
  "can_new_empty_and_commit = bind_res string_buffer_new (commits_to '''')"

definition can_new_empty_append_and_commit :: "unit res" where
  "can_new_empty_append_and_commit =
     bind_res string_buffer_new (\<lambda>sb.
     bind_res (string_buffer_append sb (HeapStr ''Hello'')) (commits_to ''Hello''))"

definition can_new_and_commit :: "unit res" where
  "can_new_and_commit = bind_res (string_buffer_from_chars (HeapStr ''Hello'')) (commits_to ''Hello'')"

definition can_new_append_and_commit :: "unit res" where
  "can_new_append_and_commit =
     bind_res (string_buffer_from_chars (HeapStr ''Hello'')) (\<lambda>sb.
     bind_res (string_buffer_append sb (HeapStr '', World!'')) (commits_to ''Hello, World!''))"

definition can_new_and_peek :: "unit res" where
  "can_new_and_peek = bind_res (string_buffer_from_chars (HeapStr ''Hello'')) (peeks ''Hello'')"

definition can_new_append_and_peek :: "unit res" where
  "can_new_append_and_peek =
     bind_res (string_buffer_from_chars (HeapStr ''Hello'')) (\<lambda>sb.
     bind_res (string_buffer_append sb (HeapStr '', World!'')) (peeks ''Hello, World!''))"

definition can_append_multiple_times :: "unit res" where
  "can_append_multiple_times =
     bind_res (string_buffer_from_chars (HeapStr ''Hello'')) (\<lambda>sb.
     bind_res (appends ['', World!'', '' World!'', '' World!'', '' World!'', '' World!''] sb)
       (commits_to ''Hello, World! World! World! World! World!''))"

definition string_buffer_tests :: "unit res list" where
  "string_buffer_tests =
     [can_new_empty_and_commit, can_new_empty_append_and_commit, can_new_and_commit, can_new_append_and_commit,
      can_new_and_peek, can_new_append_and_peek, can_append_multiple_times]"

section \<open>utils\_test.c\<close>

text \<open>\<open>blk s\<close> is the memory that starts at the literal \<open>s\<close>.\<close>

definition basename_is :: "(string \<Rightarrow> char list) \<Rightarrow> string \<Rightarrow> string \<Rightarrow> unit res" where
  "basename_is blk path str = bind_res (fsfuse_basename (blk path)) (\<lambda>s. c_assert (s = str))"

definition test_basename_dirname :: "(string \<Rightarrow> char list) \<Rightarrow> unit res" where
  "test_basename_dirname blk =
     (let a = ''/foo/bar/baz''; b = ''/foo''; c = ''foo''; d = ''/''; e = '''' in
      bind_res (basename_is blk a ''baz'') (\<lambda>_.
      bind_res (c_assert (fsfuse_dirname a = ''/foo/bar'')) (\<lambda>_.
      bind_res (basename_is blk b ''foo'') (\<lambda>_.
      bind_res (c_assert (fsfuse_dirname b = ''/'')) (\<lambda>_.
      bind_res (basename_is blk c ''foo'') (\<lambda>_.
      bind_res (c_assert (fsfuse_dirname c = '''')) (\<lambda>_.
      bind_res (basename_is blk d '''') (\<lambda>_.
      bind_res (c_assert (fsfuse_dirname d = ''/'')) (\<lambda>_.
      bind_res (basename_is blk e '''') (\<lambda>_.
      c_assert (fsfuse_dirname e = '''')))))))))))"

definition test_compare_dotted_version :: "unit res" where
  "test_compare_dotted_version = c_asserts (map (\<lambda>(ver, cmp, n). compare_dotted_version ver cmp = n)
    [(''1'', ''2'', -1), (''2'', ''1'', 1), (''1'', ''1'', 0), (''0'', ''0'', 0),
     (''0.1'', ''0.2'', -1), (''0.2'', ''0.1'', 1), (''0.1'', ''0.1'', 0), (''0.0'', ''0.0'', 0),
     (''0.5.1'', ''0.5.2'', -1), (''0.5.2'', ''0.5.1'', 1), (''0.5.1'', ''0.5.1'', 0), (''0.5.0'', ''0.5.0'', 0),
     (''0.2'', ''0.2.0'', 0), (''0.2'', ''0.2.1'', -1), (''0.2'', ''0.2.2'', -1), (''0.2'', ''0.2.3'', -1),
     (''0.2'', ''0.1.9'', 1), (''0.2.0'', ''0.2'', 0), (''0.2.1'', ''0.2'', 1), (''0.2.2'', ''0.2'', 1),
     (''0.2.3'', ''0.2'', 1), (''0.1.9'', ''0.2'', -1), (''0.2'', ''0.2.0.0.1'', -1), (''0.2.0.0.1'', ''0.2'', 1),
     (''1'', ''666'', -1), (''11111.11111.22'', ''11111.11111.22'', 0), (''0.10'', ''0.1'', 1), (''0.10'', ''0.1.0'', 1),
     (''0.10'', ''0.10'', 0), (''0.10'', ''0.10.0'', 0), (''0.10'', ''0.11'', -1), (''0.1'', ''0.10'', -1),
     (''0.1.0'', ''0.10'', -1), (''0.10'', ''0.10'', 0), (''0.10.0'', ''0.10'', 0), (''0.11'', ''0.10'', 1)])"

definition utils_test :: "(string \<Rightarrow> char list) \<Rightarrow> unit res" where
  "utils_test blk = bind_res (test_basename_dirname blk) (\<lambda>_. test_compare_dotted_version)"

section \<open>ref\_count\_test.c\<close>

definition ref_count_can_be_created_and_destroyed :: "unit res" where
  "ref_count_can_be_created_and_destroyed =
     bind_res (ref_count_dec ref_count_new) (\<lambda>(count, refc). Inr ())"

definition expect_count :: "32 word \<Rightarrow> (32 word \<times> ref_count_t) res \<Rightarrow> ref_count_t res" where
  "expect_count n r = bind_res r (\<lambda>(count, refc). bind_res (c_assert (count = n)) (\<lambda>_. Inr refc))"

definition ref_count_can_be_inc_and_dec :: "unit res" where
  "ref_count_can_be_inc_and_dec =
     bind_res (expect_count 2 (ref_count_inc ref_count_new)) (\<lambda>refc.
     bind_res (expect_count 3 (ref_count_inc refc)) (\<lambda>refc.
     bind_res (expect_count 4 (ref_count_inc refc)) (\<lambda>refc.
     bind_res (expect_count 3 (ref_count_dec refc)) (\<lambda>refc.
     bind_res (expect_count 2 (ref_count_dec refc)) (\<lambda>refc.
     bind_res (expect_count 1 (ref_count_dec refc)) (\<lambda>refc.
     bind_res (expect_count 0 (ref_count_dec refc)) (\<lambda>refc. Inr ())))))))"

definition ref_count_tests :: "unit res list" where
  "ref_count_tests = [ref_count_can_be_created_and_destroyed, ref_count_can_be_inc_and_dec]"

section \<open>hash\_table\_test.c\<close>

text \<open>
  The load factors 0.5 and 1.0 of the fixture make every deletion halve the table; \<open>rnd\<close> is the
  rounding of \<^verbatim>\<open>float\<close>, \<open>alloc\<close> the success of \<^verbatim>\<open>calloc\<close>.
\<close>

type_synonym test_table = "string hash_table_t"

definition table_setup :: "test_table res" where
  "table_setup = Inr (hash_table_new (1 / 2) 1)"

definition table_teardown :: "test_table \<Rightarrow> unit res" where
  "table_teardown tbl = hash_table_delete tbl"

definition add_keys :: "(nat \<Rightarrow> bool) \<Rightarrow> (rat \<Rightarrow> rat) \<Rightarrow> test_table \<Rightarrow> test_table res" where
  "add_keys alloc rnd =
     fold_res (\<lambda>(key, value). hash_table_add alloc rnd key value)
       [(''key one'', ''value one''), (''key two'', ''value two''), (''key three'', ''value three'')]"

definition find_is :: "string \<Rightarrow> string option \<Rightarrow> test_table \<Rightarrow> unit res" where
  "find_is key value tbl = bind_res (hash_table_find key tbl) (\<lambda>found. c_assert (found = value))"

definition find_are :: "(string \<times> string option) list \<Rightarrow> test_table \<Rightarrow> unit res" where
  "find_are expected tbl = fold_res (\<lambda>(key, value) _. find_is key value tbl) expected ()"

definition del_is ::
  "(nat \<Rightarrow> bool) \<Rightarrow> (rat \<Rightarrow> rat) \<Rightarrow> string \<Rightarrow> int \<Rightarrow> test_table \<Rightarrow> test_table res" where
  "del_is alloc rnd key found tbl =
     bind_res (hash_table_del alloc rnd key tbl) (\<lambda>(rc, tbl).
     bind_res (c_assert (rc = found)) (\<lambda>_. Inr tbl))"

definition del_keys :: "(nat \<Rightarrow> bool) \<Rightarrow> (rat \<Rightarrow> rat) \<Rightarrow> test_table \<Rightarrow> test_table res" where
  "del_keys alloc rnd =
     fold_res (\<lambda>key tbl. bind_res (hash_table_del alloc rnd key tbl) (\<lambda>(rc, tbl). Inr tbl))
       [''key one'', ''key two'', ''key three'']"

definition none_found :: "(string \<times> string option) list" where
  "none_found = [(''key one'', None), (''key two'', None), (''key three'', None)]"

definition all_found :: "(string \<times> string option) list" where
  "all_found = [(''key one'', Some ''value one''), (''key two'', Some ''value two''),
     (''key three'', Some ''value three'')]"

definition empty_table_test :: "test_table \<Rightarrow> test_table res" where
  "empty_table_test tbl = Inr tbl"

definition can_add_and_find_entries :: "(nat \<Rightarrow> bool) \<Rightarrow> (rat \<Rightarrow> rat) \<Rightarrow> test_table \<Rightarrow> test_table res" where
  "can_add_and_find_entries alloc rnd tbl =
     bind_res (add_keys alloc rnd tbl) (\<lambda>tbl.
     bind_res (find_are all_found tbl) (\<lambda>_.
     del_keys alloc rnd tbl))"

definition can_remove_entries :: "(nat \<Rightarrow> bool) \<Rightarrow> (rat \<Rightarrow> rat) \<Rightarrow> test_table \<Rightarrow> test_table res" where
  "can_remove_entries alloc rnd tbl =
     bind_res (add_keys alloc rnd tbl) (\<lambda>tbl.
     bind_res (del_is alloc rnd ''key one'' 1 tbl) (\<lambda>tbl.
     bind_res (find_are [(''key one'', None), (''key two'', Some ''value two''),
       (''key three'', Some ''value three'')] tbl) (\<lambda>_.
     bind_res (del_is alloc rnd ''key one'' 0 tbl) (\<lambda>tbl.
     bind_res (del_is alloc rnd ''key two'' 1 tbl) (\<lambda>tbl.
     bind_res (del_is alloc rnd ''key three'' 1 tbl) (\<lambda>tbl.
     bind_res (find_are none_found tbl) (\<lambda>_. Inr tbl)))))))"

definition can_remove_and_readd_entries ::
  "(nat \<Rightarrow> bool) \<Rightarrow> (rat \<Rightarrow> rat) \<Rightarrow> test_table \<Rightarrow> test_table res" where
  "can_remove_and_readd_entries alloc rnd tbl =
     bind_res (add_keys alloc rnd tbl) (\<lambda>tbl.
     bind_res (del_is alloc rnd ''key one'' 1 tbl) (\<lambda>tbl.
     bind_res (del_is alloc rnd ''key two'' 1 tbl) (\<lambda>tbl.
     bind_res (del_is alloc rnd ''key three'' 1 tbl) (\<lambda>tbl.
     bind_res (find_are none_found tbl) (\<lambda>_.
     bind_res (add_keys alloc rnd tbl) (\<lambda>tbl.
     bind_res (find_are all_found tbl) (\<lambda>_.
     del_keys alloc rnd tbl)))))))"

definition hash_table_tests :: "(nat \<Rightarrow> bool) \<Rightarrow> (rat \<Rightarrow> rat) \<Rightarrow> unit res list" where
  "hash_table_tests alloc rnd =
     map (with_fixture table_setup table_teardown)
       [empty_table_test, can_add_and_find_entries alloc rnd, can_remove_entries alloc rnd,
        can_remove_and_readd_entries alloc rnd]"

section \<open>The tests pass\<close>

lemma binary_heap_tests_pass: "all_pass (binary_heap_tests random)"
proof -
  have "t = Inr ()" if "t \<in> set [empty_is_sane, singleton_is_sane random, in_order random, in_order_duplicates,
      reverse_order random, reverse_order_duplicates, funny_order1, funny_order2]" for t
  proof -
    have "empty_is_sane = Inr ()" "singleton_is_sane random = Inr ()" "in_order random = Inr ()"
      "in_order_duplicates = Inr ()" "reverse_order random = Inr ()" "reverse_order_duplicates = Inr ()"
      "funny_order1 = Inr ()" "funny_order2 = Inr ()" by code_simp+
    with that show ?thesis by auto
  qed
  then show ?thesis by (simp add: binary_heap_tests_def all_pass_def list_all_iff)
qed

lemma string_buffer_tests_pass: "all_pass string_buffer_tests"
  by code_simp

lemma ref_count_tests_pass: "all_pass ref_count_tests"
  by code_simp



lemma test_basename_dirname_reads_behind: "test_basename_dirname c_block = Inl OutOfBounds"
  by code_simp

lemma test_basename_dirname_passes: "test_basename_dirname (\<lambda>s. c_block s @ [c]) = Inr ()"
  by code_simp


text \<open>The versions of the test as lists of numbers.\<close>

definition version_checks :: "(nat list \<times> nat list \<times> int) list" where
  "version_checks =
    [([1], [2], -1), ([2], [1], 1), ([1], [1], 0), ([0], [0], 0),
     ([0, 1], [0, 2], -1), ([0, 2], [0, 1], 1), ([0, 1], [0, 1], 0), ([0, 0], [0, 0], 0),
     ([0, 5, 1], [0, 5, 2], -1), ([0, 5, 2], [0, 5, 1], 1), ([0, 5, 1], [0, 5, 1], 0), ([0, 5, 0], [0, 5, 0], 0),
     ([0, 2], [0, 2, 0], 0), ([0, 2], [0, 2, 1], -1), ([0, 2], [0, 2, 2], -1), ([0, 2], [0, 2, 3], -1),
     ([0, 2], [0, 1, 9], 1), ([0, 2, 0], [0, 2], 0), ([0, 2, 1], [0, 2], 1), ([0, 2, 2], [0, 2], 1),
     ([0, 2, 3], [0, 2], 1), ([0, 1, 9], [0, 2], -1), ([0, 2], [0, 2, 0, 0, 1], -1), ([0, 2, 0, 0, 1], [0, 2], 1),
     ([1], [666], -1), ([11111, 11111, 22], [11111, 11111, 22], 0), ([0, 10], [0, 1], 1), ([0, 10], [0, 1, 0], 1),
     ([0, 10], [0, 10], 0), ([0, 10], [0, 10, 0], 0), ([0, 10], [0, 11], -1), ([0, 1], [0, 10], -1),
     ([0, 1, 0], [0, 10], -1), ([0, 10], [0, 10], 0), ([0, 10, 0], [0, 10], 0), ([0, 11], [0, 10], 1)]"

lemma version_checks_hold:
  "list_all (\<lambda>(ns, ms, n). (\<forall>m \<in> set (ns @ ms). m < 2 ^ 31) \<and> version_order ns ms = n) version_checks"
  by (simp add: version_checks_def)

lemma char_of_digits:
  "char_of (48 :: nat) = CHR ''0''" "char_of (49 :: nat) = CHR ''1''" "char_of (50 :: nat) = CHR ''2''"
  "char_of (51 :: nat) = CHR ''3''" "char_of (53 :: nat) = CHR ''5''" "char_of (54 :: nat) = CHR ''6''"
  "char_of (57 :: nat) = CHR ''9''"
  by code_simp+

lemma compare_dotted_version_test_passes: "test_compare_dotted_version = Inr ()"
proof -
  have "map (\<lambda>(ver, cmp, n). compare_dotted_version ver cmp = n)
      (map (\<lambda>(ns, ms, n). (dotted ns, dotted ms, n)) ts) = map (\<lambda>_. True) ts"
    if "list_all (\<lambda>(ns, ms, n). (\<forall>m \<in> set (ns @ ms). m < 2 ^ 31) \<and> version_order ns ms = n) ts" for ts
    using that by (induction ts) (auto simp: compare_dotted_order)
  from this [OF version_checks_hold] show ?thesis
    by (simp add: version_checks_def test_compare_dotted_version_def c_asserts_def dec.simps char_of_digits)
qed


text \<open>The hashes of the keys, and the definitions a run over the table evaluates.\<close>

lemma hash_keys:
  "hash_djb2 ''key one'' = 613486960" "hash_djb2 ''key two'' = 613492712" "hash_djb2 ''key three'' = 2373100134"
  by (simp_all add: hash_djb2_def push_bit_5 schar_def)

lemma replicate_sizes:
  "replicate 16 x = [x, x, x, x, x, x, x, x, x, x, x, x, x, x, x, x]" "replicate 8 x = [x, x, x, x, x, x, x, x]"
  "replicate 4 x = [x, x, x, x]" "replicate 2 x = [x, x]"
  by (simp_all add: numeral_eq_Suc)

lemmas table_runs = hash_table_add_def hash_table_del_def hash_table_find_def hash_table_resize_def
  hash_table_new_def hash_table_delete_def chain_index_def chain_at_def add_to_entries_def
  hash_table_get_load_factor_def hash_keys c_initial_size_def with_fixture_def table_setup_def
  table_teardown_def add_keys_def del_keys_def find_are_def find_is_def del_is_def none_found_def
  all_found_def Let_def replicate_sizes

lemma hash_table_tests_pass: "all_pass (hash_table_tests (\<lambda>_. True) id)"
proof -
  have "with_fixture table_setup table_teardown empty_table_test = Inr ()"
    by (simp add: empty_table_test_def table_runs)
  moreover have "with_fixture table_setup table_teardown (can_add_and_find_entries (\<lambda>_. True) id) = Inr ()"
    by (simp add: can_add_and_find_entries_def table_runs)
  moreover have "with_fixture table_setup table_teardown (can_remove_entries (\<lambda>_. True) id) = Inr ()"
    by (simp add: can_remove_entries_def table_runs)
  moreover have "with_fixture table_setup table_teardown (can_remove_and_readd_entries (\<lambda>_. True) id) = Inr ()"
    by (simp add: can_remove_and_readd_entries_def table_runs)
  ultimately show ?thesis by (simp add: hash_table_tests_def)
qed

text \<open>The test of the path and version functions, which the driver does not call, passes only where at
  least one readable byte follows each literal; the block of a literal alone is too short.\<close>
theorem utils_test_depends_on_memory:
  "utils_test c_block = Inl OutOfBounds \<and> utils_test (\<lambda>s. c_block s @ [c]) = Inr ()"
  by (simp add: utils_test_def test_basename_dirname_reads_behind test_basename_dirname_passes
      compare_dotted_version_test_passes)

end
