(* ===== verification/Tests_Net.thy ===== *)
theory Tests_Net
  imports Tests_Data Indexnodes Parser Config Http
begin

text \<open>
  The program's own unit tests of indexnodes, page parsers, configuration and the unused URI and HTTP
  classes as definitions over the model: \<^verbatim>\<open>proto_indexnode_test.c\<close>, \<^verbatim>\<open>indexnode_test.c\<close>,
  \<^verbatim>\<open>indexnodes_list_test.c\<close> with \<^verbatim>\<open>indexnode_stubs.c\<close>, \<^verbatim>\<open>parser_test.c\<close> and \<^verbatim>\<open>parser_xml_test.c\<close> with
  \<^verbatim>\<open>parser_stubs.c\<close>, \<^verbatim>\<open>config_test.c\<close>, \<^verbatim>\<open>uri_test.c\<close> and \<^verbatim>\<open>http_test.c\<close> (under \<^verbatim>\<open>tests/unit/\<close>). Tests are
  computations as in \<open>Tests_Data\<close>. Addresses, the time and the printed form of pointers are arguments;
  libxml is the parameter it is in the modules under test, and the configuration files under
  \<^verbatim>\<open>testdata/\<close> are the documents libxml makes of them.
\<close>

section \<open>indexnode\_stubs.c\<close>

definition get_proto_indexnode_stub :: "proto_indexnode_t res" where
  "get_proto_indexnode_stub = proto_indexnode_new (Some ''fs2.example.org'') (Some ''1337'')"

text \<open>The node, which is null for a version that is not supported.\<close>

definition get_indexnode_stub ::
  "addr \<Rightarrow> int \<Rightarrow> indexnode_t rc_store \<Rightarrow> (addr option \<times> indexnode_t rc_store) res" where
  "get_indexnode_stub a now st = indexnode_new a now ''fs2.example.org'' ''1337'' ''0.13'' ''d34db33f'' st"

definition get_indexnode_stub2 ::
  "addr \<Rightarrow> int \<Rightarrow> indexnode_t rc_store \<Rightarrow> (addr option \<times> indexnode_t rc_store) res" where
  "get_indexnode_stub2 a now st = indexnode_new a now ''second.indexnode.com'' ''1337'' ''0.14'' ''80081355'' st"

definition proto_indexnode_equals_stub :: "proto_indexnode_t \<Rightarrow> bool" where
  "proto_indexnode_equals_stub pin =
     (proto_indexnode_host pin = ''fs2.example.org'' \<and> proto_indexnode_port pin = ''1337'')"

text \<open>\<^verbatim>\<open>strstr\<close>: whether \<open>needle\<close> occurs in a string.\<close>

fun has_infix :: "string \<Rightarrow> string \<Rightarrow> bool" where
  "has_infix needle [] = (needle = [])"
| "has_infix needle (c # s) = (take (length needle) (c # s) = needle \<or> has_infix needle s)"

definition indexnode_renders ::
  "string \<Rightarrow> (addr \<Rightarrow> string) \<Rightarrow> addr \<Rightarrow> indexnode_t rc_store \<Rightarrow> bool res" where
  "indexnode_renders text show_ptr a st =
     bind_res (obj_get a st) (\<lambda>ind.
     bind_res (indexnode_tostring show_ptr a ind) (\<lambda>test_render. Inr (has_infix text test_render)))"

definition indexnode_equals_stub :: "(addr \<Rightarrow> string) \<Rightarrow> addr \<Rightarrow> indexnode_t rc_store \<Rightarrow> bool res" where
  "indexnode_equals_stub = indexnode_renders ''d34db33f @ fs2.example.org:1337 (version 0.13)''"

definition indexnode_equals_stub2 :: "(addr \<Rightarrow> string) \<Rightarrow> addr \<Rightarrow> indexnode_t rc_store \<Rightarrow> bool res" where
  "indexnode_equals_stub2 = indexnode_renders ''80081355 @ second.indexnode.com:1337 (version 0.14)''"

text \<open>A null pointer that is used as a node.\<close>

definition the_node :: "(addr option \<times> indexnode_t rc_store) res \<Rightarrow> (addr \<times> indexnode_t rc_store) res" where
  "the_node r = bind_res r (\<lambda>(n, st). case n of None \<Rightarrow> Inl NullDeref | Some a \<Rightarrow> Inr (a, st))"

text \<open>At the end of a test nothing is left on the heap.\<close>

definition nothing_left :: "addr list \<Rightarrow> indexnode_t rc_store \<Rightarrow> bool" where
  "nothing_left as st = list_all (\<lambda>a. st a = None) as"

section \<open>proto\_indexnode\_test.c\<close>

definition proto_indexnode_can_be_created_and_destroyed :: "unit res" where
  "proto_indexnode_can_be_created_and_destroyed = bind_res get_proto_indexnode_stub (\<lambda>pin. Inr ())"

definition proto_indexnode_is_sane_property_bag :: "unit res" where
  "proto_indexnode_is_sane_property_bag =
     bind_res get_proto_indexnode_stub (\<lambda>pin. c_assert (proto_indexnode_equals_stub pin))"

definition proto_indexnode_tests :: "unit res list" where
  "proto_indexnode_tests = [proto_indexnode_is_sane_property_bag, proto_indexnode_can_be_created_and_destroyed]"

section \<open>indexnode\_test.c\<close>

text \<open>The tests return the heap they leave.\<close>

type_synonym node_heap = "indexnode_t rc_store"

definition check_stub :: "(addr \<Rightarrow> string) \<Rightarrow> addr \<Rightarrow> node_heap \<Rightarrow> unit res" where
  "check_stub show_ptr a st = bind_res (indexnode_equals_stub show_ptr a st) c_assert"

definition indexnode_can_be_created_and_destroyed :: "int \<Rightarrow> node_heap res" where
  "indexnode_can_be_created_and_destroyed now =
     bind_res (get_indexnode_stub 1 now Map.empty) (\<lambda>(ind, st).
     bind_res (c_assert (ind \<noteq> None)) (\<lambda>_. indexnode_delete (the ind) st))"

definition indexnode_is_sane_property_bag :: "(addr \<Rightarrow> string) \<Rightarrow> int \<Rightarrow> node_heap res" where
  "indexnode_is_sane_property_bag show_ptr now =
     bind_res (the_node (get_indexnode_stub 1 now Map.empty)) (\<lambda>(ind, st).
     bind_res (check_stub show_ptr ind st) (\<lambda>_. indexnode_delete ind st))"

definition indexnode_can_be_copied_and_copy_outlives_original :: "(addr \<Rightarrow> string) \<Rightarrow> int \<Rightarrow> node_heap res" where
  "indexnode_can_be_copied_and_copy_outlives_original show_ptr now =
     bind_res (the_node (get_indexnode_stub 1 now Map.empty)) (\<lambda>(in1, st).
     bind_res (indexnode_copy in1 st) (\<lambda>st.
     bind_res (indexnode_delete in1 st) (\<lambda>st.
     bind_res (check_stub show_ptr in1 st) (\<lambda>_. indexnode_delete in1 st))))"

definition indexnode_can_be_copied_and_has_right_data :: "(addr \<Rightarrow> string) \<Rightarrow> int \<Rightarrow> node_heap res" where
  "indexnode_can_be_copied_and_has_right_data show_ptr now =
     bind_res (the_node (get_indexnode_stub 1 now Map.empty)) (\<lambda>(in1, st).
     bind_res (indexnode_copy in1 st) (\<lambda>st.
     bind_res (check_stub show_ptr in1 st) (\<lambda>_.
     bind_res (check_stub show_ptr in1 st) (\<lambda>_.
     bind_res (indexnode_delete in1 st) (indexnode_delete in1)))))"

definition indexnode_tests :: "(addr \<Rightarrow> string) \<Rightarrow> int \<Rightarrow> node_heap res list" where
  "indexnode_tests show_ptr now =
     [indexnode_can_be_created_and_destroyed now, indexnode_is_sane_property_bag show_ptr now,
      indexnode_can_be_copied_and_copy_outlives_original show_ptr now,
      indexnode_can_be_copied_and_has_right_data show_ptr now]"

section \<open>indexnodes\_list\_test.c\<close>

text \<open>The two stubs, and a list with a copy of each.\<close>

definition two_stubs :: "int \<Rightarrow> (addr \<times> addr \<times> node_heap) res" where
  "two_stubs now =
     bind_res (the_node (get_indexnode_stub 1 now Map.empty)) (\<lambda>(in1, st).
     bind_res (the_node (get_indexnode_stub2 2 now st)) (\<lambda>(in2, st). Inr (in1, in2, st)))"

definition add_copy :: "addr \<Rightarrow> indexnodes_list_t \<times> node_heap \<Rightarrow> (indexnodes_list_t \<times> node_heap) res" where
  "add_copy ind = (\<lambda>(ins, st). bind_res (indexnode_copy ind st) (\<lambda>st. Inr (indexnodes_list_add ins ind, st)))"

definition indexnodes_list_can_be_created_and_destroyed :: "node_heap res" where
  "indexnodes_list_can_be_created_and_destroyed = indexnodes_list_delete indexnodes_list_new Map.empty"

definition indexnodes_list_can_have_a_member :: "int \<Rightarrow> node_heap res" where
  "indexnodes_list_can_have_a_member now =
     bind_res (the_node (get_indexnode_stub 1 now Map.empty)) (\<lambda>(ind, st).
     bind_res (add_copy ind (indexnodes_list_new, st)) (\<lambda>(ins, st).
     bind_res (indexnodes_list_delete ins st) (indexnode_delete ind)))"

definition indexnodes_list_can_have_several_members :: "int \<Rightarrow> node_heap res" where
  "indexnodes_list_can_have_several_members now =
     bind_res (two_stubs now) (\<lambda>(in1, in2, st).
     bind_res (add_copy in1 (indexnodes_list_new, st)) (\<lambda>s.
     bind_res (add_copy in2 s) (\<lambda>(ins, st).
     bind_res (indexnodes_list_delete ins st) (\<lambda>st.
     bind_res (indexnode_delete in1 st) (indexnode_delete in2)))))"

text \<open>The loop over the iterator: the number of its items.\<close>

function count_items :: "indexnodes_iterator_t \<Rightarrow> nat \<Rightarrow> node_heap \<Rightarrow> (nat \<times> node_heap) res" where
  "count_items iter cnt st =
     (if \<not> indexnodes_iterator_end iter
      then bind_res (indexnodes_iterator_current iter st) (\<lambda>(in_out, st).
           bind_res (indexnode_delete in_out st) (\<lambda>st.
           bind_res (indexnodes_iterator_next iter) (\<lambda>iter. count_items iter (cnt + 1) st)))
      else Inr (cnt, st))"
  by pat_completeness auto
termination
  by (relation "measure (\<lambda>(iter, cnt, st). length (iter_current iter))")
    (auto simp: indexnodes_iterator_next_def split: list.splits)

declare count_items.simps [simp del]

definition indexnodes_list_holds_right_number_of_items :: "int \<Rightarrow> node_heap res" where
  "indexnodes_list_holds_right_number_of_items now =
     bind_res (two_stubs now) (\<lambda>(in_in1, in_in2, st).
     bind_res (add_copy in_in1 (indexnodes_list_new, st)) (\<lambda>s.
     bind_res (add_copy in_in2 s) (\<lambda>(ins, st).
     bind_res (count_items (indexnodes_iterator_begin ins) 0 st) (\<lambda>(cnt, st).
     bind_res (c_assert (cnt = 2)) (\<lambda>_.
     bind_res (indexnodes_list_delete ins st) (\<lambda>st.
     bind_res (indexnode_delete in_in1 st) (indexnode_delete in_in2)))))))"

text \<open>The current item is one of the two stubs; it is deleted.\<close>

definition check_current ::
  "(addr \<Rightarrow> string) \<Rightarrow> indexnodes_iterator_t \<Rightarrow> node_heap \<Rightarrow> node_heap res" where
  "check_current show_ptr iter st =
     bind_res (indexnodes_iterator_current iter st) (\<lambda>(in_out, st).
     bind_res (indexnode_equals_stub show_ptr in_out st) (\<lambda>is1.
     bind_res (if is1 then Inr True else indexnode_equals_stub2 show_ptr in_out st) (\<lambda>ok.
     bind_res (c_assert ok) (\<lambda>_. indexnode_delete in_out st))))"

definition indexnodes_list_returns_what_is_put_in :: "(addr \<Rightarrow> string) \<Rightarrow> int \<Rightarrow> node_heap res" where
  "indexnodes_list_returns_what_is_put_in show_ptr now =
     bind_res (two_stubs now) (\<lambda>(in_in1, in_in2, st).
     bind_res (add_copy in_in1 (indexnodes_list_new, st)) (\<lambda>s.
     bind_res (add_copy in_in2 s) (\<lambda>(ins, st).
     let iter = indexnodes_iterator_begin ins in
     bind_res (check_current show_ptr iter st) (\<lambda>st.
     bind_res (indexnodes_iterator_next iter) (\<lambda>iter.
     bind_res (check_current show_ptr iter st) (\<lambda>st.
     bind_res (indexnodes_iterator_next iter) (\<lambda>iter.
     bind_res (c_assert (indexnodes_iterator_end iter)) (\<lambda>_.
     bind_res (indexnodes_list_delete ins st) (\<lambda>st.
     bind_res (indexnode_delete in_in1 st) (indexnode_delete in_in2))))))))))"

definition indexnodes_list_tests :: "(addr \<Rightarrow> string) \<Rightarrow> int \<Rightarrow> node_heap res list" where
  "indexnodes_list_tests show_ptr now =
     [indexnodes_list_can_be_created_and_destroyed, indexnodes_list_can_have_a_member now,
      indexnodes_list_can_have_several_members now, indexnodes_list_holds_right_number_of_items now,
      indexnodes_list_returns_what_is_put_in show_ptr now]"

text \<open>A test that passes and has given back all memory.\<close>

definition passes_clean :: "node_heap res \<Rightarrow> bool" where
  "passes_clean t = (case t of Inl e \<Rightarrow> False | Inr st \<Rightarrow> nothing_left [1, 2] st)"

lemmas node_tests = nothing_left_def passes_clean_def get_indexnode_stub_def get_indexnode_stub2_def
  the_node_def two_stubs_def add_copy_def check_stub_def check_current_def indexnode_equals_stub_def
  indexnode_equals_stub2_def indexnode_renders_def

lemma stub_versions: "check_version ''0.13''" "check_version ''0.14''"
  by code_simp+

lemma stub_new:
  "get_indexnode_stub a now st = Inr (Some a, st(a \<mapsto> (Some ref_count_new,
     \<lparr>in_pin = \<lparr>pin_host = ''fs2.example.org'', pin_port = ''1337''\<rparr>, in_version = ''0.13'', in_id = ''d34db33f'',
       in_last_seen = now\<rparr>)))"
  "get_indexnode_stub2 a now st = Inr (Some a, st(a \<mapsto> (Some ref_count_new,
     \<lparr>in_pin = \<lparr>pin_host = ''second.indexnode.com'', pin_port = ''1337''\<rparr>, in_version = ''0.14'',
       in_id = ''80081355'', in_last_seen = now\<rparr>)))"
  by (simp_all add: get_indexnode_stub_def get_indexnode_stub2_def indexnode_new_def stub_versions
      proto_indexnode_init_def indexnode_seen_def)

lemma proto_indexnode_tests_pass: "all_pass proto_indexnode_tests"
  by code_simp

lemma has_infix_mid: "has_infix needle (pre @ needle @ post)"
proof (induction pre)
  case Nil
  then show ?case by (cases needle; cases post) auto
qed simp

lemma obj_ops_of_known:
  "st a = Some (rc, x) \<Longrightarrow> obj_get a st = Inr x"
  "st a = Some (Some \<lparr>ref_count = n\<rparr>, x) \<Longrightarrow> n \<noteq> 0 \<Longrightarrow>
     obj_copy a st = Inr (st(a \<mapsto> (Some \<lparr>ref_count = n + 1\<rparr>, x)))"
  "st a = Some (Some \<lparr>ref_count = n\<rparr>, x) \<Longrightarrow> n \<noteq> 0 \<Longrightarrow>
     obj_delete a st = Inr (if n - 1 = 0 then st(a := None) else st(a \<mapsto> (Some \<lparr>ref_count = n - 1\<rparr>, x)))"
  by (simp_all add: obj_get_def obj_copy_def obj_delete_def ref_count_inc_def ref_count_dec_def Let_def)

lemma indexnode_tostring_text:
  assumes "nul_free (show_ptr a)" "nul_free (in_id ind)" "nul_free (pin_host (in_pin ind))"
    "nul_free (pin_port (in_pin ind))" "nul_free (in_version ind)"
  shows "indexnode_tostring show_ptr a ind =
    Inr (''[indexnode '' @ show_ptr a @ ''] '' @ in_id ind @ '' @ '' @ pin_host (in_pin ind) @ '':'' @
        pin_port (in_pin ind) @ '' (version '' @ in_version ind @ '')'')"
  unfolding indexnode_tostring_def by (rule sb.build_printf) (use assms in simp)

declare has_infix.simps [simp del]

text \<open>Both stubs are rendered as the tests expect.\<close>

lemma stub_equals:
  assumes "nul_free (show_ptr a)"
  shows "st a = Some (rc, \<lparr>in_pin = \<lparr>pin_host = ''fs2.example.org'', pin_port = ''1337''\<rparr>, in_version = ''0.13'',
      in_id = ''d34db33f'', in_last_seen = now\<rparr>) \<Longrightarrow> indexnode_equals_stub show_ptr a st = Inr True"
    and "st a = Some (rc, \<lparr>in_pin = \<lparr>pin_host = ''second.indexnode.com'', pin_port = ''1337''\<rparr>, in_version = ''0.14'',
      in_id = ''80081355'', in_last_seen = now\<rparr>) \<Longrightarrow> indexnode_equals_stub2 show_ptr a st = Inr True"
  using assms
    has_infix_mid [of "''d34db33f @ fs2.example.org:1337 (version 0.13)''" "''[indexnode '' @ show_ptr a @ ''] ''" "[]"]
    has_infix_mid [of "''80081355 @ second.indexnode.com:1337 (version 0.14)''" "''[indexnode '' @ show_ptr a @ ''] ''" "[]"]
  by (simp_all add: indexnode_equals_stub_def indexnode_equals_stub2_def indexnode_renders_def obj_get_def
      indexnode_tostring_text)

text \<open>What the second stub looks like to the first test decides nothing.\<close>

lemma stub2_equals_stub:
  assumes "nul_free (show_ptr a)" "st a = Some (rc, \<lparr>in_pin = \<lparr>pin_host = ''second.indexnode.com'',
    pin_port = ''1337''\<rparr>, in_version = ''0.14'', in_id = ''80081355'', in_last_seen = now\<rparr>)"
  shows "indexnode_equals_stub show_ptr a st =
    Inr (has_infix ''d34db33f @ fs2.example.org:1337 (version 0.13)''
      (''[indexnode '' @ show_ptr a @ ''] 80081355 @ second.indexnode.com:1337 (version 0.14)''))"
  using assms by (simp add: indexnode_equals_stub_def indexnode_renders_def obj_get_def indexnode_tostring_text)

lemma indexnode_tests_pass:
  assumes "\<forall>a. nul_free (show_ptr a)"
  shows "list_all passes_clean (indexnode_tests show_ptr now)"
  using assms
  by (simp add: indexnode_tests_def indexnode_can_be_created_and_destroyed_def indexnode_is_sane_property_bag_def
      indexnode_can_be_copied_and_copy_outlives_original_def indexnode_can_be_copied_and_has_right_data_def
      stub_new the_node_def passes_clean_def nothing_left_def check_stub_def stub_equals indexnode_delete_def
      indexnode_copy_def obj_ops_of_known ref_count_new_def)


lemma indexnodes_list_tests_pass:
  assumes "\<forall>a. nul_free (show_ptr a)"
  shows "list_all passes_clean (indexnodes_list_tests show_ptr now)"
  using assms
  by (simp add: indexnodes_list_tests_def indexnodes_list_can_be_created_and_destroyed_def
      indexnodes_list_can_have_a_member_def indexnodes_list_can_have_several_members_def
      indexnodes_list_holds_right_number_of_items_def indexnodes_list_returns_what_is_put_in_def
      indexnodes_list_new_def indexnodes_list_add_def indexnodes_list_delete_def indexnodes_iterator_begin_def
      indexnodes_iterator_current_def indexnodes_iterator_next_def indexnodes_iterator_end_def count_items.simps
      stub_new the_node_def two_stubs_def add_copy_def check_current_def passes_clean_def nothing_left_def
      stub_equals stub2_equals_stub indexnode_delete_def indexnode_copy_def obj_ops_of_known ref_count_new_def)


section \<open>parser\_stubs.c\<close>

text \<open>An event with its text and, where it is not null, its id.\<close>

type_synonym expectation = "parser_xml_event_t \<times> string \<times> string option"

definition stats_expected_results :: "expectation list" where
  "stats_expected_results =
    [(parser_xml_event_TAG_START, ''html'', None),
     (parser_xml_event_TAG_START, ''body'', None),
     (parser_xml_event_TAG_START, ''div'', Some ''general''),
     (parser_xml_event_TAG_START, ''span'', Some ''file-count''),
     (parser_xml_event_ATTRIBUTE, ''value'', Some ''98740''),
     (parser_xml_event_TEXT, ''98740'', None),
     (parser_xml_event_TAG_END, ''span'', None),
     (parser_xml_event_TAG_START, ''span'', Some ''indexnode-started''),
     (parser_xml_event_ATTRIBUTE, ''value'', Some ''1367424501976''),
     (parser_xml_event_TEXT, ''Wed May 01 17:08:21 BST 2013'', None),
     (parser_xml_event_TAG_END, ''span'', None),
     (parser_xml_event_TAG_START, ''br'', None),
     (parser_xml_event_TAG_END, ''br'', None),
     (parser_xml_event_TAG_START, ''span'', Some ''total-size''),
     (parser_xml_event_ATTRIBUTE, ''value'', Some ''4010079412955''),
     (parser_xml_event_TEXT, ''3.6 TiB'', None),
     (parser_xml_event_TAG_END, ''span'', None),
     (parser_xml_event_TAG_END, ''div'', None),
     (parser_xml_event_TAG_END, ''body'', None),
     (parser_xml_event_TAG_END, ''html'', None)]"

definition filelist_expected_results :: "expectation list" where
  "filelist_expected_results =
    [(parser_xml_event_TAG_START, ''html'', None),
     (parser_xml_event_TAG_START, ''body'', None),
     (parser_xml_event_TAG_START, ''div'', None),
     (parser_xml_event_TAG_START, ''div'', Some ''fs2-filelist''),
     (parser_xml_event_TAG_START, ''b'', None),
     (parser_xml_event_TEXT, ''(1)'', None),
     (parser_xml_event_TAG_END, ''b'', None),
     (parser_xml_event_TAG_START, ''a'', None),
     (parser_xml_event_ATTRIBUTE, ''fs2-alternativescount'', Some ''1''),
     (parser_xml_event_ATTRIBUTE, ''fs2-clientalias'', Some ''3mpty-fileserver''),
     (parser_xml_event_ATTRIBUTE, ''fs2-hash'', Some ''cea65d7062303adea837b6eeed2b5e63''),
     (parser_xml_event_ATTRIBUTE, ''fs2-name'', Some ''docbook-xsl-1.78.0.tar.bz2''),
     (parser_xml_event_ATTRIBUTE, ''fs2-size'', Some ''5011106''),
     (parser_xml_event_ATTRIBUTE, ''fs2-type'', Some ''file''),
     (parser_xml_event_ATTRIBUTE, ''href'', Some ''http://localhost:1337/download/cea65d7062303adea837b6eeed2b5e63''),
     (parser_xml_event_TEXT, ''docbook-xsl-1.78.0.tar.bz2'', None),
     (parser_xml_event_TAG_END, ''a'', None),
     (parser_xml_event_TAG_START, ''span'', None),
     (parser_xml_event_TEXT, ''(4.8 MiB)'', None),
     (parser_xml_event_TAG_END, ''span'', None),
     (parser_xml_event_TAG_START, ''br'', None),
     (parser_xml_event_TAG_END, ''br'', None),
     (parser_xml_event_TAG_START, ''b'', None),
     (parser_xml_event_TEXT, ''(1)'', None),
     (parser_xml_event_TAG_END, ''b'', None),
     (parser_xml_event_TAG_START, ''a'', None),
     (parser_xml_event_ATTRIBUTE, ''fs2-alternativescount'', Some ''1''),
     (parser_xml_event_ATTRIBUTE, ''fs2-clientalias'', Some ''3mpty-fileserver''),
     (parser_xml_event_ATTRIBUTE, ''fs2-hash'', Some ''8fd5667996cb59ddff343329ac29f9d2''),
     (parser_xml_event_ATTRIBUTE, ''fs2-name'', Some ''Test-Pod-Coverage-1.08.tar.gz''),
     (parser_xml_event_ATTRIBUTE, ''fs2-size'', Some ''6418''),
     (parser_xml_event_ATTRIBUTE, ''fs2-type'', Some ''file''),
     (parser_xml_event_ATTRIBUTE, ''href'', Some ''http://localhost:1337/download/8fd5667996cb59ddff343329ac29f9d2''),
     (parser_xml_event_TEXT, ''Test-Pod-Coverage-1.08.tar.gz'', None),
     (parser_xml_event_TAG_END, ''a'', None),
     (parser_xml_event_TAG_START, ''span'', None),
     (parser_xml_event_TEXT, ''(6.3 KiB)'', None),
     (parser_xml_event_TAG_END, ''span'', None),
     (parser_xml_event_TAG_START, ''br'', None),
     (parser_xml_event_TAG_END, ''br'', None),
     (parser_xml_event_TAG_END, ''div'', None),
     (parser_xml_event_TAG_END, ''div'', None),
     (parser_xml_event_TAG_END, ''body'', None),
     (parser_xml_event_TAG_END, ''html'', None)]"

section \<open>parser\_test.c\<close>

definition feed_tags_stats ::
  "nat stats_cb \<Rightarrow> expectation list \<Rightarrow> parser_stats_t \<times> nat \<Rightarrow> (parser_stats_t \<times> nat) res" where
  "feed_tags_stats cb tags = fold_res (\<lambda>(event, text, i). stats_xml_cb cb event text i) tags"

definition feed_tags_filelist ::
  "nat entry_found_cb \<Rightarrow> expectation list \<Rightarrow> parser_filelist_t \<times> nat \<Rightarrow> (parser_filelist_t \<times> nat) res" where
  "feed_tags_filelist cb tags = fold_res (\<lambda>(event, text, i). filelist_xml_cb cb event text i) tags"

text \<open>The context of the callbacks is the counter \<^verbatim>\<open>called\<close>.\<close>

definition test_stats_cb :: "nat stats_cb" where
  "test_stats_cb files bytes called =
     bind_res (c_assert (files = 98740)) (\<lambda>_. bind_res (c_assert (bytes = 4010079412955)) (\<lambda>_. Inr 1))"

definition expected_entry :: "string \<Rightarrow> string \<Rightarrow> int \<Rightarrow> found_entry" where
  "expected_entry hash name sz =
     \<lparr>fe_hash = Some hash, fe_name = Some name, fe_type = Some ''file'', fe_size = sz, fe_link_count = 1,
      fe_href = Some (''http://localhost:1337/download/'' @ hash), fe_client = Some ''3mpty-fileserver''\<rparr>"

definition test_filelist_cb :: "nat entry_found_cb" where
  "test_filelist_cb e called =
     (let called = called + 1 in
      if fe_hash e = Some ''cea65d7062303adea837b6eeed2b5e63''
      then bind_res (c_assert (e = expected_entry ''cea65d7062303adea837b6eeed2b5e63'' ''docbook-xsl-1.78.0.tar.bz2'' 5011106))
             (\<lambda>_. Inr called)
      else if fe_hash e = Some ''8fd5667996cb59ddff343329ac29f9d2''
      then bind_res (c_assert (e = expected_entry ''8fd5667996cb59ddff343329ac29f9d2'' ''Test-Pod-Coverage-1.08.tar.gz'' 6418))
             (\<lambda>_. Inr called)
      else Inl AssertFail)"

definition can_parse_stats_page :: "'x xml_parse_chunk \<Rightarrow> 'x \<Rightarrow> unit res" where
  "can_parse_stats_page xml_parse_chunk x =
     bind_res (feed_tags_stats test_stats_cb stats_expected_results (parser_stats_new, 0)) (\<lambda>(parser, called).
     bind_res (c_assert (called = 1)) (\<lambda>_.
     bind_res (parser_stats_delete xml_parse_chunk test_stats_cb (x, parser, called)) (\<lambda>_. Inr ())))"

definition can_parse_filelist_page :: "'x xml_parse_chunk \<Rightarrow> 'x \<Rightarrow> unit res" where
  "can_parse_filelist_page xml_parse_chunk x =
     bind_res (feed_tags_filelist test_filelist_cb filelist_expected_results (parser_filelist_new, 0)) (\<lambda>(parser, called).
     bind_res (c_assert (called = 2)) (\<lambda>_.
     bind_res (parser_filelist_delete xml_parse_chunk test_filelist_cb (x, parser, called)) (\<lambda>_. Inr ())))"

definition parser_tests :: "'x xml_parse_chunk \<Rightarrow> 'x \<Rightarrow> unit res list" where
  "parser_tests xml_parse_chunk x = [can_parse_stats_page xml_parse_chunk x, can_parse_filelist_page xml_parse_chunk x]"

section \<open>parser\_xml\_test.c\<close>

text \<open>The context: what is expected and how much of it has come.\<close>

type_synonym xml_test_ctxt = "expectation list \<times> nat"

definition test_cb :: "xml_test_ctxt xml_cb" where
  "test_cb event text i = (\<lambda>(expected, n).
     if n < length expected
     then bind_res (c_assert (event = fst (expected ! n))) (\<lambda>_.
          bind_res (c_assert (text = fst (snd (expected ! n)))) (\<lambda>_.
          bind_res (c_assert (snd (snd (expected ! n)) = None \<or> i = snd (snd (expected ! n)))) (\<lambda>_.
          Inr (expected, n + 1))))
     else Inl OutOfBounds)"

text \<open>
  The blocks of 16 bytes that are read from a file. The file is there: when it cannot be opened,
  \<^verbatim>\<open>read\<close> returns -1 for ever and the loop does not end.
\<close>

fun file_blocks :: "nat \<Rightarrow> string \<Rightarrow> string list" where
  "file_blocks 0 file = []"
| "file_blocks (Suc n) file = (if file = [] then [] else take 16 file # file_blocks n (drop 16 file))"

definition feed_file ::
  "'x xml_parse_chunk \<Rightarrow> string \<Rightarrow> 'x \<times> xml_test_ctxt \<Rightarrow> ('x \<times> xml_test_ctxt) res" where
  "feed_file xml_parse_chunk file =
     fold_res (\<lambda>buf s. bind_res (parser_xml_consume xml_parse_chunk test_cb buf s) (\<lambda>(rc, s). Inr s))
       (file_blocks (length file) file)"

text \<open>The test of one page: the callback's context at the end.\<close>

definition can_parse_page ::
  "'x xml_parse_chunk \<Rightarrow> 'x \<Rightarrow> string \<Rightarrow> expectation list \<Rightarrow> xml_test_ctxt res" where
  "can_parse_page xml_parse_chunk x file expected =
     bind_res (feed_file xml_parse_chunk file (x, expected, 0)) (parser_xml_delete xml_parse_chunk test_cb)"

definition parser_xml_tests ::
  "'x xml_parse_chunk \<Rightarrow> 'x \<Rightarrow> string \<Rightarrow> string \<Rightarrow> xml_test_ctxt res list" where
  "parser_xml_tests xml_parse_chunk x stats_xml filelist_xml =
     [can_parse_page xml_parse_chunk x stats_xml stats_expected_results,
      can_parse_page xml_parse_chunk x filelist_xml filelist_expected_results]"

section \<open>The parser tests pass\<close>

lemma test_numbers:
  "to_ulong (atoll ''98740'') = 98740" "to_ulong (atoll ''4010079412955'') = 4010079412955"
  "atoll ''5011106'' = 5011106" "atoll ''6418'' = 6418" "to_ulong (atoll ''1'') = 1"
  by (simp_all add: atoll_def to_ulong_def strtol_def strtol_body_def convert_def is_space_def is_digit_def
      digit_val_def saturate_def LONG_MAX_def LONG_MIN_def)

lemma parser_stats_test_passes:
  assumes "fst (snd (xml_parse_chunk x [] True)) = []"
  shows "can_parse_stats_page xml_parse_chunk x = Inr ()"
  using assms
  by (simp add: can_parse_stats_page_def feed_tags_stats_def stats_expected_results_def stats_xml_cb_def
      parser_stats_new_def raise_cb_if_done_def test_stats_cb_def test_numbers parser_stats_delete_def
      parser_xml_delete_def case_prod_beta Let_def)

lemma parser_filelist_test_passes:
  assumes "fst (snd (xml_parse_chunk x [] True)) = []"
  shows "can_parse_filelist_page xml_parse_chunk x = Inr ()"
  using assms
  by (simp add: can_parse_filelist_page_def feed_tags_filelist_def filelist_expected_results_def
      filelist_xml_cb_def parser_filelist_new_def filelist_attribute_def attribute_key_defs
      fs2_filelist_node_id_def test_filelist_cb_def expected_entry_def test_numbers parser_filelist_delete_def
      parser_xml_delete_def case_prod_beta Let_def)


text \<open>The events the program's SAX callbacks pass on for an event of the library.\<close>

fun xml_events :: "sax_event \<Rightarrow> expectation list" where
  "xml_events (StartElementNs localname atts) =
     (parser_xml_event_TAG_START, localname, find_id None atts) #
     map (\<lambda>(k, v). (parser_xml_event_ATTRIBUTE, k, Some v)) (filter (\<lambda>(k, v). k \<noteq> ''id'') atts)"
| "xml_events (EndElementNs localname) = [(parser_xml_event_TAG_END, localname, None)]"
| "xml_events (CharacterRun ch len) =
     (if length (takeWhile (\<lambda>c. c \<in> {CHR '' '', CHR 0x09, CHR 0x0A, CHR 0x0D}) ch) \<noteq> len
      then [(parser_xml_event_TEXT, c_str (take len ch), None)] else [])"

lemma fold_res_attributes:
  "fold_res (\<lambda>(k, v) ctxt. if k \<noteq> ''id'' then cb parser_xml_event_ATTRIBUTE k (Some v) ctxt else Inr ctxt) atts s =
   fold_res (\<lambda>(ev, t, i). cb ev t i)
     (map (\<lambda>(k, v). (parser_xml_event_ATTRIBUTE, k, Some v)) (filter (\<lambda>(k, v). k \<noteq> ''id'') atts)) s"
proof (induction atts arbitrary: s)
  case (Cons a atts)
  show ?case
  proof (cases "fst a = ''id''")
    case False
    then show ?thesis
      by (cases "cb parser_xml_event_ATTRIBUTE (fst a) (Some (snd a)) s")
        (simp_all add: case_prod_beta Cons.IH [unfolded case_prod_beta])
  qed (simp add: case_prod_beta Cons.IH [unfolded case_prod_beta])
qed simp

lemma sax_dispatch_events: "sax_dispatch cb e s = fold_res (\<lambda>(ev, t, i). cb ev t i) (xml_events e) s"
proof (cases e)
  case (StartElementNs localname atts)
  then show ?thesis
    by (cases "cb parser_xml_event_TAG_START localname (find_id None atts) s")
      (simp_all add: on_start_element_ns_def fold_res_attributes)
next
  case (EndElementNs localname)
  then show ?thesis
    by (cases "cb parser_xml_event_TAG_END localname None s") (simp_all add: on_end_element_ns_def)
next
  case (CharacterRun ch len)
  then show ?thesis
    by (cases "cb parser_xml_event_TEXT (c_str (take len ch)) None s") (simp_all add: on_characters_def)
qed

lemma sax_dispatch_all:
  "fold_res (sax_dispatch cb) es s = fold_res (\<lambda>(ev, t, i). cb ev t i) (concat (map xml_events es)) s"
proof (induction es arbitrary: s)
  case (Cons e es)
  then show ?case
    by (cases "sax_dispatch cb e s") (simp_all add: fold_res_append sax_dispatch_events [symmetric])
qed simp

text \<open>Feeding the blocks and deleting the parser is the run of a parser over the blocks.\<close>

lemma feed_then_delete:
  "bind_res (fold_res (\<lambda>buf s. bind_res (consume buf s) (\<lambda>(rc, s). Inr s)) bs s) delete = run_parser consume delete bs s"
proof (induction bs arbitrary: s)
  case (Cons b bs)
  then show ?case by (cases "consume b s") (simp_all add: case_prod_beta)
qed simp

lemma can_parse_page_events:
  "can_parse_page xml_parse_chunk x file expected =
   fold_res (\<lambda>(ev, t, i). test_cb ev t i)
     (concat (map xml_events (sax_events xml_parse_chunk (file_blocks (length file) file) x))) (expected, 0)"
  by (simp add: can_parse_page_def feed_file_def feed_then_delete run_parser_events sax_dispatch_all)

text \<open>What a parser that matches its expectations has seen.\<close>

definition matches :: "expectation \<Rightarrow> expectation \<Rightarrow> bool" where
  "matches e ex = (fst e = fst ex \<and> fst (snd e) = fst (snd ex) \<and> (snd (snd ex) = None \<or> snd (snd e) = snd (snd ex)))"

lemma test_cb_run:
  "length seen = n \<Longrightarrow> list_all2 matches es expected \<Longrightarrow>
   fold_res (\<lambda>(ev, t, i). test_cb ev t i) es (seen @ expected, n) =
     Inr (seen @ expected, n + length expected)"
proof (induction es arbitrary: seen n expected)
  case (Cons e es)
  then obtain ex rest where ex: "expected = ex # rest" "matches e ex" "list_all2 matches es rest"
    by (auto simp: list_all2_Cons1)
  have "test_cb (fst e) (fst (snd e)) (snd (snd e)) (seen @ ex # rest, n) = Inr (seen @ ex # rest, n + 1)"
    using ex(2) Cons.prems(1) by (auto simp: test_cb_def matches_def nth_append)
  with Cons.IH [of "seen @ [ex]" "n + 1" rest] ex Cons.prems(1) show ?case by (simp add: case_prod_beta)
qed simp

text \<open>The events of the two pages under \<^verbatim>\<open>testdata/\<close>, without the runs of white space between the tags.\<close>

definition stats_xml_events :: "sax_event list" where
  "stats_xml_events =
    [StartElementNs ''html'' [],
     StartElementNs ''body'' [],
     StartElementNs ''div'' [(''id'', ''general'')],
     StartElementNs ''span'' [(''id'', ''file-count''), (''value'', ''98740'')],
     CharacterRun ''98740'' 5,
     EndElementNs ''span'',
     StartElementNs ''span'' [(''id'', ''indexnode-started''), (''value'', ''1367424501976'')],
     CharacterRun ''Wed May 01 17:08:21 BST 2013'' 28,
     EndElementNs ''span'',
     StartElementNs ''br'' [],
     EndElementNs ''br'',
     StartElementNs ''span'' [(''id'', ''total-size''), (''value'', ''4010079412955'')],
     CharacterRun ''3.6 TiB'' 7,
     EndElementNs ''span'',
     EndElementNs ''div'',
     EndElementNs ''body'',
     EndElementNs ''html'']"

definition filelist_xml_events :: "sax_event list" where
  "filelist_xml_events =
    [StartElementNs ''html'' [],
     StartElementNs ''body'' [],
     StartElementNs ''div'' [],
     StartElementNs ''div'' [(''id'', ''fs2-filelist'')],
     StartElementNs ''b'' [],
     CharacterRun ''(1)'' 3,
     EndElementNs ''b'',
     StartElementNs ''a'' [(''fs2-alternativescount'', ''1''), (''fs2-clientalias'', ''3mpty-fileserver''), (''fs2-hash'', ''cea65d7062303adea837b6eeed2b5e63''), (''fs2-name'', ''docbook-xsl-1.78.0.tar.bz2''), (''fs2-size'', ''5011106''), (''fs2-type'', ''file''), (''href'', ''http://localhost:1337/download/cea65d7062303adea837b6eeed2b5e63'')],
     CharacterRun ''docbook-xsl-1.78.0.tar.bz2'' 26,
     EndElementNs ''a'',
     StartElementNs ''span'' [],
     CharacterRun ''(4.8 MiB)'' 9,
     EndElementNs ''span'',
     StartElementNs ''br'' [],
     EndElementNs ''br'',
     StartElementNs ''b'' [],
     CharacterRun ''(1)'' 3,
     EndElementNs ''b'',
     StartElementNs ''a'' [(''fs2-alternativescount'', ''1''), (''fs2-clientalias'', ''3mpty-fileserver''), (''fs2-hash'', ''8fd5667996cb59ddff343329ac29f9d2''), (''fs2-name'', ''Test-Pod-Coverage-1.08.tar.gz''), (''fs2-size'', ''6418''), (''fs2-type'', ''file''), (''href'', ''http://localhost:1337/download/8fd5667996cb59ddff343329ac29f9d2'')],
     CharacterRun ''Test-Pod-Coverage-1.08.tar.gz'' 29,
     EndElementNs ''a'',
     StartElementNs ''span'' [],
     CharacterRun ''(6.3 KiB)'' 9,
     EndElementNs ''span'',
     StartElementNs ''br'' [],
     EndElementNs ''br'',
     EndElementNs ''div'',
     EndElementNs ''div'',
     EndElementNs ''body'',
     EndElementNs ''html'']"

fun blank_run :: "sax_event \<Rightarrow> bool" where
  "blank_run (CharacterRun ch len) =
     (length (takeWhile (\<lambda>c. c \<in> {CHR '' '', CHR 0x09, CHR 0x0A, CHR 0x0D}) ch) = len)"
| "blank_run _ = False"

lemma xml_events_blank: "concat (map xml_events (filter (\<lambda>e. \<not> blank_run e) es)) = concat (map xml_events es)"
proof (induction es)
  case (Cons e es)
  then show ?case by (cases e) auto
qed simp

lemma pages_match:
  "list_all2 matches (concat (map xml_events stats_xml_events)) stats_expected_results"
  "list_all2 matches (concat (map xml_events filelist_xml_events)) filelist_expected_results"
  by (simp_all add: stats_xml_events_def stats_expected_results_def filelist_xml_events_def
      filelist_expected_results_def matches_def c_str_def)

lemma can_parse_page_passes:
  assumes "filter (\<lambda>e. \<not> blank_run e) (sax_events xml_parse_chunk (file_blocks (length file) file) x) = events"
    and "list_all2 matches (concat (map xml_events events)) expected"
  shows "can_parse_page xml_parse_chunk x file expected = Inr (expected, length expected)"
  using test_cb_run [of "[]" 0 "concat (map xml_events events)" expected] assms
  by (auto simp: can_parse_page_events xml_events_blank)


section \<open>test\_driver.c, config\_test.c\<close>

definition test_isolate_file :: "string \<Rightarrow> string \<Rightarrow> string res" where
  "test_isolate_file testdata_path name = path_combine testdata_path name"

type_synonym config_state = "unit config_manager_t option"

text \<open>
  A reader is taken, values are read through it and compared, and it is deleted. Strings and collections
  are compared as values; a collection ends with a null pointer.
\<close>

definition config_is :: "string \<Rightarrow> unit config_value \<Rightarrow> unit config_reader_t \<Rightarrow> unit res" where
  "config_is key v reader = bind_res (config_get key reader) (\<lambda>w. c_assert (w = v))"

definition hosts_are :: "string list \<Rightarrow> unit config_reader_t \<Rightarrow> unit res" where
  "hosts_are hosts = config_is ''indexnode_hosts'' (cv_strings (map Some hosts))"

definition with_reader :: "(unit config_reader_t \<Rightarrow> unit res) list \<Rightarrow> config_state \<Rightarrow> config_state res" where
  "with_reader checks singleton =
     (let (reader, singleton) = config_get_reader singleton in
      bind_res (fold_res (\<lambda>check _. check reader) checks ()) (\<lambda>_. Inr singleton))"

definition add_test_file ::
  "(string \<Rightarrow> xml_doc option) \<Rightarrow> string \<Rightarrow> string \<Rightarrow> config_state \<Rightarrow> config_state res" where
  "add_test_file parse testdata_path name singleton =
     bind_res (test_isolate_file testdata_path name) (\<lambda>path.
     bind_res (config_manager_add_from_file parse (\<lambda>_. ()) (HeapStr path) singleton) (\<lambda>(rc, singleton).
     Inr singleton))"

definition end_config_test :: "config_state \<Rightarrow> unit res" where
  "end_config_test singleton = bind_res (config_singleton_delete singleton) (\<lambda>_. Inr ())"

definition config_defaults_are_sane :: "unit res" where
  "config_defaults_are_sane =
     bind_res (with_reader
       [config_is ''alias'' (cv_string ''[fsfuse]Anonymous''),
        config_is ''indexnode_autodetect_listen'' (cv_int 1),
        config_is ''indexnode_advert_port'' (cv_int 42444),
        hosts_are []] None) end_config_test"

definition config_can_override_from_cmdline :: "unit res" where
  "config_can_override_from_cmdline =
     bind_res (with_reader
       [config_is ''proc_fg'' (cv_int 0), config_is ''proc_singlethread'' (cv_int 0),
        config_is ''proc_debug'' (cv_int 0)] None) (\<lambda>s.
     let s = config_manager_add_from_cmdline True 0 True 1 False 1 s in
     bind_res (with_reader
       [config_is ''proc_fg'' (cv_int 0), config_is ''proc_singlethread'' (cv_int 1),
        config_is ''proc_debug'' (cv_int 0)] s) end_config_test)"

definition config_can_override_from_file :: "(string \<Rightarrow> xml_doc option) \<Rightarrow> string \<Rightarrow> unit res" where
  "config_can_override_from_file parse testdata_path =
     bind_res (with_reader
       [config_is ''alias'' (cv_string ''[fsfuse]Anonymous''),
        config_is ''indexnode_advert_port'' (cv_int 42444), hosts_are []] None) (\<lambda>s.
     bind_res (add_test_file parse testdata_path ''test_fsfuserc'' s) (\<lambda>s.
     bind_res (with_reader
       [config_is ''attr_mode_file'' (cv_int 292),
        config_is ''alias'' (cv_string ''test alias''),
        config_is ''indexnode_advert_port'' (cv_int 55555),
        hosts_are [''test host 1'', ''test host 2'']] s) end_config_test))"

definition config_can_override_from_several :: "(string \<Rightarrow> xml_doc option) \<Rightarrow> string \<Rightarrow> unit res" where
  "config_can_override_from_several parse testdata_path =
     bind_res (with_reader
       [config_is ''alias'' (cv_string ''[fsfuse]Anonymous''),
        config_is ''indexnode_advert_port'' (cv_int 42444), hosts_are []] None) (\<lambda>s.
     bind_res (add_test_file parse testdata_path ''test_fsfuserc'' s) (\<lambda>s.
     bind_res (add_test_file parse testdata_path ''test_fsfuserc2'' s) (\<lambda>s.
     let s = config_manager_add_from_cmdline True 1 True 0 False 0 s in
     bind_res (with_reader
       [config_is ''attr_mode_file'' (cv_int 292),
        config_is ''alias'' (cv_string ''test alias''),
        config_is ''indexnode_advert_port'' (cv_int 22222),
        config_is ''proc_fg'' (cv_int 1), config_is ''proc_singlethread'' (cv_int 0),
        config_is ''proc_debug'' (cv_int 1),
        hosts_are [''test host 21'']] s) end_config_test)))"

definition config_tests :: "(string \<Rightarrow> xml_doc option) \<Rightarrow> string \<Rightarrow> unit res list" where
  "config_tests parse testdata_path =
     [config_defaults_are_sane, config_can_override_from_cmdline,
      config_can_override_from_file parse testdata_path, config_can_override_from_several parse testdata_path]"

text \<open>The documents of \<^verbatim>\<open>testdata/test_fsfuserc\<close> and \<^verbatim>\<open>testdata/test_fsfuserc2\<close>.\<close>

definition fsfuserc_doc :: xml_doc where
  "fsfuserc_doc xpath =
     Some (map (Some \<circ> xml_text)
       (if xpath = ''/config/alias/text()'' then [''test alias'']
        else if xpath = ''/config/indexnode/autodetect/advert_port/text()'' then [''55555'']
        else if xpath = ''/config/indexnode/host/text()'' then [''test host 1'', ''test host 2'']
        else []))"

definition fsfuserc2_doc :: xml_doc where
  "fsfuserc2_doc xpath =
     Some (map (Some \<circ> xml_text)
       (if xpath = ''/config/indexnode/autodetect/advert_port/text()'' then [''22222'']
        else if xpath = ''/config/indexnode/host/text()'' then [''test host 21'']
        else if xpath \<in> {''/config/process/debug/text()'', ''/config/process/single-thread/text()'',
          ''/config/process/foreground/text()''} then [''1'']
        else []))"

definition test_files :: "string \<Rightarrow> xml_doc option" where
  "test_files path =
     (if path = ''testdata/test_fsfuserc'' then Some fsfuserc_doc
      else if path = ''testdata/test_fsfuserc2'' then Some fsfuserc2_doc else None)"

lemma config_numbers:
  "to_int (strtoul ''55555'') = 55555" "to_int (strtoul ''22222'') = 22222" "to_int (strtoul ''1'') = 1"
  by (simp_all add: strtoul_def strtol_body_def convert_def is_space_def is_digit_def digit_val_def to_int_def)

text \<open>What the two files set.\<close>

definition fsfuserc_data :: "unit config_data_t" where
  "fsfuserc_data = fold (load_item (\<lambda>_. ()) fsfuserc_doc) config_xml_info Map.empty"

definition fsfuserc2_data :: "unit config_data_t" where
  "fsfuserc2_data = fold (load_item (\<lambda>_. ()) fsfuserc2_doc) config_xml_info Map.empty"

lemma fsfuserc_values:
  "fsfuserc_data ''alias'' = Some (cv_string ''test alias'')"
  "fsfuserc_data ''indexnode_advert_port'' = Some (cv_int 55555)"
  "fsfuserc_data ''indexnode_hosts'' = Some (cv_strings [Some ''test host 1'', Some ''test host 2''])"
  "fsfuserc_data ''attr_mode_file'' = None"
  by (simp_all add: fsfuserc_data_def config_xml_info_def load_item_def xpath_get_def xpath_get_array_def
      fsfuserc_doc_def config_numbers)

lemma fsfuserc2_values:
  "fsfuserc2_data ''alias'' = None"
  "fsfuserc2_data ''indexnode_advert_port'' = Some (cv_int 22222)"
  "fsfuserc2_data ''indexnode_hosts'' = Some (cv_strings [Some ''test host 21''])"
  "fsfuserc2_data ''attr_mode_file'' = None"
  "fsfuserc2_data ''proc_fg'' = Some (cv_int 1)"
  by (simp_all add: fsfuserc2_data_def config_xml_info_def load_item_def xpath_get_def xpath_get_array_def
      fsfuserc2_doc_def config_numbers)

lemma add_test_files:
  "add_test_file test_files ''testdata'' ''test_fsfuserc'' s = Inr (Some (data_push fsfuserc_data (config_singleton_get s)))"
  "add_test_file test_files ''testdata'' ''test_fsfuserc2'' s = Inr (Some (data_push fsfuserc2_data (config_singleton_get s)))"
  by (simp_all add: add_test_file_def test_isolate_file_def path_combine_def test_files_def
      config_manager_add_from_file_def config_loader_tryread_from_file_def fsfuserc_data_def fsfuserc2_data_def Let_def)

lemma config_tests_pass: "all_pass (config_tests test_files ''testdata'')"
proof -
  note runs = with_reader_def end_config_test_def config_is_def hosts_are_def config_get_reader_def config_reader_new_def
    config_get_def config_singleton_get_def config_singleton_delete_def data_push_def config_defaults_get_def
    config_manager_add_from_cmdline_def add_test_files fsfuserc_values fsfuserc2_values Let_def
  have "config_defaults_are_sane = Inr ()" by (simp add: config_defaults_are_sane_def runs)
  moreover have "config_can_override_from_cmdline = Inr ()" by (simp add: config_can_override_from_cmdline_def runs)
  moreover have "config_can_override_from_file test_files ''testdata'' = Inr ()"
    by (simp add: config_can_override_from_file_def runs)
  moreover have "config_can_override_from_several test_files ''testdata'' = Inr ()"
    by (simp add: config_can_override_from_several_def runs)
  ultimately show ?thesis by (simp add: config_tests_def)
qed

section \<open>uri\_test.c, http\_test.c\<close>

text \<open>The two URIs of the test, each built from components and rendered.\<close>

definition test_uri :: "unit res" where
  "test_uri =
     bind_res (uri_set_scheme ''http'' uri_new) (\<lambda>uri.
     bind_res (uri_set_userinfo ''user'' uri) (\<lambda>uri.
     bind_res (uri_set_host ''foo.com'' uri) (\<lambda>uri.
     bind_res (uri_set_port ''1337'' uri) (\<lambda>uri.
     bind_res (uri_set_path ''/path/bar.html'' uri) (\<lambda>uri.
     bind_res (uri_set_query ''query'' uri) (\<lambda>uri.
     bind_res (uri_set_fragment ''frag'' uri) (\<lambda>uri.
     bind_res (uri_get uri) (\<lambda>(str, uri).
     bind_res (c_assert (str = ''http://user@foo.com:1337/path/bar.html?query#frag'')) (\<lambda>_.
     bind_res (uri_delete uri) (\<lambda>_.
     bind_res (uri_set_scheme ''http'' uri_new) (\<lambda>uri.
     bind_res (uri_set_host ''foo.com'' uri) (\<lambda>uri.
     bind_res (uri_set_path ''/path/bar.html'' uri) (\<lambda>uri.
     bind_res (uri_get uri) (\<lambda>(str, uri).
     bind_res (c_assert (str = ''http://foo.com/path/bar.html'')) (\<lambda>_.
     uri_delete uri)))))))))))))))"

definition http_headers_set :: "unit http_req_t \<Rightarrow> unit http_req_t res" where
  "http_headers_set =
     fold_res (\<lambda>(key, val). http_req_set_header key val)
       [(''key1'', ''FAIL''), (''key1'', ''FAIL2''), (''key2'', ''value2''), (''key1'', ''value1''),
        (''key3'', ''FAIL3''), (''key3'', ''FAIL4''), (''key3'', ''value3'')]"

text \<open>The callbacks only print; \<open>None\<close>: the results of the socket calls do not suffice.\<close>

definition http_test ::
  "int \<times> addrinfo list \<Rightarrow> write_result list \<Rightarrow> read_result list \<Rightarrow> unit res option" where
  "http_test gai ws rs =
     (case bind_res (http_req_set_components ''localhost'' ''1338'' ''/bar.html'' http_req_new) http_headers_set of
        Inl e \<Rightarrow> Some (Inl e)
      | Inr req \<Rightarrow>
          let req = http_req_set_header_cb (\<lambda>key value ctxt. ctxt) None req;
              req = http_req_set_data_cb (\<lambda>data ctxt. ctxt) None req in
          map_option (\<lambda>r. bind_res r (\<lambda>(rc, req). http_req_delete req)) (http_req_send gai ws rs req))"

lemma test_uri_fails: "test_uri = Inl InvalidFree"
  by code_simp


lemma http_test_fails: "\<exists>e. http_test gai ws rs = Some (Inl e)"
  using http_req_send_fails [of gai ws rs] by (fastforce simp: http_test_def Let_def split: sum.split)

section \<open>test\_driver.c\<close>

text \<open>
  The program that runs the suites. A test that is left with an error counts as failed, and the exit
  status is 0 when none has failed. The tests of URIs, HTTP and the utilities stand behind the
  \<^verbatim>\<open>return\<close>, in comments.
\<close>

definition ran :: "'a res \<Rightarrow> unit res" where
  "ran t = bind_res t (\<lambda>_. Inr ())"

definition num_failed :: "unit res list \<Rightarrow> nat" where
  "num_failed suites = length (filter (\<lambda>t. t \<noteq> Inr ()) suites)"

definition unit_tests_main ::
  "(nat \<Rightarrow> int) \<Rightarrow> (string \<Rightarrow> xml_doc option) \<Rightarrow> string \<Rightarrow> (addr \<Rightarrow> string) \<Rightarrow> int \<Rightarrow> 'x xml_parse_chunk \<Rightarrow> 'x \<Rightarrow>
   string \<Rightarrow> string \<Rightarrow> int" where
  "unit_tests_main random parse testdata_path show_ptr now xml_parse_chunk x stats_xml filelist_xml =
     (if num_failed (
        binary_heap_tests random @
        config_tests parse testdata_path @
        map ran (indexnode_tests show_ptr now) @
        map ran (indexnodes_list_tests show_ptr now) @
        parser_tests xml_parse_chunk x @
        map ran (parser_xml_tests xml_parse_chunk x stats_xml filelist_xml) @
        proto_indexnode_tests @
        ref_count_tests @
        string_buffer_tests) = 0 then 0 else 1)"

lemma num_failed_none: "num_failed ts = 0 \<longleftrightarrow> all_pass ts"
  by (induction ts) (auto simp: num_failed_def)

lemma ran_clean: "list_all passes_clean ts \<Longrightarrow> all_pass (map ran ts)"
  by (induction ts) (auto simp: passes_clean_def ran_def split: sum.splits)


text \<open>A library that makes the events of a page when the document ends.\<close>

definition two_pages :: "string xml_parse_chunk" where
  "two_pages x dat terminate =
     (x @ dat, if \<not> terminate then []
       else if x = ''stats'' then stats_xml_events else if x = ''filelist'' then filelist_xml_events else [], 0)"


text \<open>The tests that the driver leaves out fail: rendering a URI and sending a request free string
  literals.\<close>
theorem retired_tests_fail:
  "test_uri = Inl InvalidFree \<and> (\<exists>e. http_test gai ws rs = Some (Inl e))"
  by (simp add: test_uri_fails http_test_fails)

end
