(* ===== verification/Tests_Live.thy ===== *)
theory Tests_Live
  imports Tests_Net Listener
begin

text \<open>
  The test programs that are run by hand: the fake indexnode (\<^verbatim>\<open>tests/utils/fake_indexnode\<close>) and the
  driver that lists the indexnodes a listener hears of (\<^verbatim>\<open>tests/interactive/indexnode_listener\<close>), the
  driver of the XML parser (\<^verbatim>\<open>tests/interactive/parser_xml\<close>) and the reads of the integration tests on
  a mounted file system (\<^verbatim>\<open>tests/integration/read_test.c\<close>). The packets of the fake are passed through
  the model of the listener; the kernel's \<^verbatim>\<open>open\<close>, \<^verbatim>\<open>read\<close> and \<^verbatim>\<open>lseek\<close> on the mounted file system are a
  parameter.
\<close>

section \<open>fake\_indexnode.c\<close>

definition fixed1 :: string where "fixed1 = ''fs2protocol-0.13:1337:-479049884424373567''"
definition fixed2 :: string where "fixed2 = ''fs2protocol-0.11:4114:-55378008''"
definition autop :: string where "autop = ''fs2protocol-0.13:autoindexnode:920926720:-479049884424373567''"

text \<open>The packets of one round of the loop.\<close>

definition fake_round :: "string list" where
  "fake_round = [fixed1, fixed2, autop]"

text \<open>A round as the listener receives it, at one time: each packet with the block for a new node.\<close>

definition hear_round :: "addr \<Rightarrow> int \<Rightarrow> indexnodes_t \<Rightarrow> indexnodes_t res" where
  "hear_round f now =
     fold_res (\<lambda>(f, dat). receive_advert (new_indexnode_event f now) kind_in
       (packet dat sockaddr_in_size (example_sa [127, 0, 0, 1])))
       (zip [f, f + 1, f + 2] fake_round)"

fun hear_rounds :: "addr \<Rightarrow> int list \<Rightarrow> indexnodes_t \<Rightarrow> indexnodes_t res" where
  "hear_rounds f [] ins = Inr ins"
| "hear_rounds f (now # ts) ins = bind_res (hear_round f now ins) (hear_rounds (f + 3) ts)"

definition fake_known :: "int \<Rightarrow> string \<rightharpoonup> indexnode_t" where
  "fake_known now =
     [''-479049884424373567'' \<mapsto> \<lparr>in_pin = \<lparr>pin_host = ''127.0.0.1'', pin_port = ''1337''\<rparr>, in_version = ''0.13'',
        in_id = ''-479049884424373567'', in_last_seen = now\<rparr>,
      ''-55378008'' \<mapsto> \<lparr>in_pin = \<lparr>pin_host = ''127.0.0.1'', pin_port = ''4114''\<rparr>, in_version = ''0.11'',
        in_id = ''-55378008'', in_last_seen = now\<rparr>]"

lemma local_host:
  "address_given kind_in sockaddr_in_size (example_sa [127, 0, 0, 1])"
  "host_text kind_in (example_sa [127, 0, 0, 1]) = ''127.0.0.1''" "sk_host_len kind_in = 16"
  by (code_simp, code_simp, simp add: kind_in_def)

lemma hear_fixed:
  "receive_advert cb kind_in (packet fixed1 sockaddr_in_size (example_sa [127, 0, 0, 1])) s =
     cb ''127.0.0.1'' ''1337'' ''fs2protocol-0.13'' ''-479049884424373567'' s"
  "receive_advert cb kind_in (packet fixed2 sockaddr_in_size (example_sa [127, 0, 0, 1])) s =
     cb ''127.0.0.1'' ''4114'' ''fs2protocol-0.11'' ''-55378008'' s"
  using receive_three [of "''fs2protocol-0.13''" "''1337''" "''-479049884424373567''" "[]", OF _ _ _ _ _ _ local_host(1), of cb s]
    receive_three [of "''fs2protocol-0.11''" "''4114''" "''-55378008''" "[]", OF _ _ _ _ _ _ local_host(1), of cb s]
  by (simp_all add: field_def fixed1_def fixed2_def local_host(2,3))

lemma hear_auto: "receive_advert cb kind_in (packet autop sockaddr_in_size (example_sa [127, 0, 0, 1])) s = Inr s"
proof -
  have "parse_advert_packet (map Some (c_block autop)) = Inr None"
    by (simp add: parse_advert_packet_def autop_def c_block_def)
  moreover have "length (example_sa [127, 0, 0, 1]) = sk_socklen_in kind_in"
    using local_host(1) by (simp add: address_given_def)
  ultimately show ?thesis by (subst receive_parses) (simp_all add: autop_def)
qed


text \<open>An advert leaves free memory free, except for the block of its own node.\<close>

lemma obj_ops_keep_free:
  "obj_copy a st = Inr st' \<Longrightarrow> st b = None \<Longrightarrow> st' b = None"
  "obj_put a x st = Inr st' \<Longrightarrow> st b = None \<Longrightarrow> st' b = None"
  "obj_delete a st = Inr st' \<Longrightarrow> st b = None \<Longrightarrow> st' b = None"
  by (auto simp: obj_copy_def obj_put_def obj_delete_def split: option.splits if_splits)

lemma find_item_keeps_free: "find_item uid items st = Inr (r, st') \<Longrightarrow> st b = None \<Longrightarrow> st' b = None"
  by (induction items) (auto simp: indexnode_copy_def obj_ops_keep_free split: if_splits)

lemma event_keeps_free:
  assumes "new_indexnode_event f now host port pr uid ins = Inr ins'" "ins_store ins b = None" "b \<noteq> f"
  shows "ins_store ins' b = None"
proof -
  obtain rc version where parse: "parse_fs2protocol pr = Inr (rc, version)"
    using assms(1) by (cases "parse_fs2protocol pr") (auto simp: new_indexnode_event_def)
  have rc: "rc = 0" using assms(1) parse by (simp add: new_indexnode_event_def split: if_splits)
  obtain found st where find: "indexnodes_list_find (ins_list ins) uid (ins_store ins) = Inr (found, st)"
    using assms(1) parse rc by (cases "indexnodes_list_find (ins_list ins) uid (ins_store ins)") (auto simp: new_indexnode_event_def)
  then have free: "st b = None" using assms(2) find_item_keeps_free unfolding indexnodes_list_find_def by blast
  show ?thesis
  proof (cases found)
    case None
    have "\<exists>n st2. indexnode_new f now host port version uid st = Inr (n, st2) \<and> ins_store ins' = st2"
      using assms(1) parse rc find None by (auto simp: new_indexnode_event_def split: option.splits)
    then obtain n where "indexnode_new f now host port version uid st = Inr (n, ins_store ins')" by blast
    then show ?thesis using free assms(3) by (auto simp: indexnode_new_def fun_upd_def fun_eq_iff split: if_splits)
  next
    case (Some a)
    then obtain node st2 where "obj_put a node st = Inr st2" "indexnode_delete a st2 = Inr (ins_store ins')"
      using assms(1) parse rc find by (auto simp: new_indexnode_event_def)
    then show ?thesis using free obj_ops_keep_free(2,3) by (metis indexnode_delete_def)
  qed
qed

lemma hear_round_known:
  assumes "ins_inv ins" "accounted ins {#}" "\<forall>b \<ge> f. ins_store ins b = None"
    and "known ins = Map.empty \<or> (\<exists>t. known ins = fake_known t)"
  shows "\<exists>ins'. hear_round f now ins = Inr ins' \<and> ins_inv ins' \<and> accounted ins' {#} \<and>
    known ins' = fake_known now \<and> (\<forall>b \<ge> f + 3. ins_store ins' b = None)"
proof -
  have bound: "refs_bounded 1 (ins_store i)" if "ins_inv i" "accounted i {#}" for i
    unfolding refs_bounded_def
  proof
    fix a
    have "count_list (ins_items (ins_list i)) a \<le> 1" using that(1) by (simp add: count_list_distinct ins_inv_distinct)
    then show "refs (ins_store i) a + 1 \<le> max_refs" using that(2) by (auto simp: accounted_def intro: le_trans [of _ 2])
  qed
  have words: "scan_word ''0.13'' = ''0.13''" "scan_word ''0.11'' = ''0.11''" by code_simp+
  have e1: "\<exists>i'. new_indexnode_event f now ''127.0.0.1'' ''1337'' ''fs2protocol-0.13'' ''-479049884424373567'' ins = Inr i' \<and>
      ins_inv i' \<and> known i' = advertised now ''127.0.0.1'' ''1337'' ''0.13'' ''-479049884424373567'' (known ins) \<and>
      accounted i' {#}"
    using event_correct [OF assms(1) bound [OF assms(1,2)], of f "''0.13''" "''127.0.0.1''" "''1337''"
        "''-479049884424373567''" now] assms(2,3) by (auto simp: words)
  then obtain i1 where i1: "new_indexnode_event f now ''127.0.0.1'' ''1337'' ''fs2protocol-0.13'' ''-479049884424373567'' ins = Inr i1"
      "ins_inv i1" "known i1 = advertised now ''127.0.0.1'' ''1337'' ''0.13'' ''-479049884424373567'' (known ins)"
      "accounted i1 {#}" by blast
  have free: "ins_store i1 b = None" if "f + 1 \<le> b" for b
    by (rule event_keeps_free [OF i1(1)]) (use assms(3) that in auto)
  have e2: "\<exists>i'. new_indexnode_event (f + 1) now ''127.0.0.1'' ''4114'' ''fs2protocol-0.11'' ''-55378008'' i1 = Inr i' \<and>
      ins_inv i' \<and> known i' = advertised now ''127.0.0.1'' ''4114'' ''0.11'' ''-55378008'' (known i1) \<and>
      accounted i' {#}"
    using event_correct [OF i1(2) bound [OF i1(2,4)] free [OF order_refl], of "''0.11''" "''127.0.0.1''" "''4114''"
        "''-55378008''" now] i1(4) by (auto simp: words)
  then obtain i2 where i2: "new_indexnode_event (f + 1) now ''127.0.0.1'' ''4114'' ''fs2protocol-0.11'' ''-55378008'' i1 = Inr i2"
      "ins_inv i2" "known i2 = advertised now ''127.0.0.1'' ''4114'' ''0.11'' ''-55378008'' (known i1)" "accounted i2 {#}"
    by blast
  have "hear_round f now ins = Inr i2"
    by (simp add: hear_round_def fake_round_def hear_fixed hear_auto i1(1) i2(1) [simplified])
  moreover have "known i2 = fake_known now"
    using assms(4) unfolding i2(3) i1(3) by (auto simp: advertised_def fake_known_def)
  moreover have "ins_store i2 b = None" if "f + 3 \<le> b" for b
    by (rule event_keeps_free [OF i2(1) free]) (use that in auto)
  ultimately show ?thesis using i2(2,4) by blast
qed

text \<open>The fake indexnode and the listener (fake\_indexnode.c, indexnodes\_listener\_thread.c, indexnodes.c):
  a listener that hears any number of rounds of the fake's three packets knows exactly its two
  fixed indexnodes, with their ports and versions, as seen in the last round; the packet of an
  automatic indexnode is passed over.\<close>
theorem fake_indexnode_heard:
  "\<exists>ins. hear_rounds 0 (ts @ [now]) (indexnodes_new Map.empty) = Inr ins \<and> known ins = fake_known now"
proof -
  have "\<exists>ins'. hear_rounds f (ts @ [now]) ins = Inr ins' \<and> known ins' = fake_known now"
    if "ins_inv ins" "accounted ins {#}" "\<forall>b \<ge> f. ins_store ins b = None"
      "known ins = Map.empty \<or> (\<exists>t. known ins = fake_known t)" for f ins
    using that
  proof (induction ts arbitrary: f ins)
    case Nil
    from hear_round_known [OF Nil, of now] show ?case by auto
  next
    case (Cons t ts)
    from hear_round_known [OF Cons.prems, of t] obtain ins1 where
      "hear_round f t ins = Inr ins1" "ins_inv ins1" "accounted ins1 {#}" "known ins1 = fake_known t"
      "\<forall>b \<ge> f + 3. ins_store ins1 b = None" by blast
    with Cons.IH [of ins1 "f + 3"] show ?case by auto
  qed
  moreover have "ins_inv (indexnodes_new Map.empty)" "accounted (indexnodes_new Map.empty) {#}"
    using reach_invariant [OF ins_reach.start] by auto
  ultimately show ?thesis by (simp add: indexnodes_new_def indexnodes_list_new_def known_def)
qed


section \<open>indexnode\_listener\_driver.c\<close>

text \<open>The loop over the list: the lines it prints.\<close>

function print_loop ::
  "(addr \<Rightarrow> string) \<Rightarrow> indexnodes_iterator_t \<Rightarrow> node_heap \<Rightarrow> (string list \<times> node_heap) res" where
  "print_loop show_ptr iter st =
     (if \<not> indexnodes_iterator_end iter
      then bind_res (indexnodes_iterator_current iter st) (\<lambda>(ind, st).
           bind_res (obj_get ind st) (\<lambda>node.
           bind_res (indexnode_tostring show_ptr ind node) (\<lambda>in_render.
           bind_res (indexnode_delete ind st) (\<lambda>st.
           bind_res (indexnodes_iterator_next iter) (\<lambda>iter.
           bind_res (print_loop show_ptr iter st) (\<lambda>(out, st). Inr (in_render # out, st)))))))
      else Inr ([], st))"
  by pat_completeness auto
termination
  by (relation "measure (\<lambda>(show_ptr, iter, st). length (iter_current iter))")
    (auto simp: indexnodes_iterator_next_def split: list.splits)

declare print_loop.simps [simp del]

text \<open>One round of the driver's loop.\<close>

definition driver_round ::
  "(addr \<Rightarrow> string) \<Rightarrow> int \<Rightarrow> int \<Rightarrow> indexnodes_t \<Rightarrow> (string list \<times> indexnodes_t) res" where
  "driver_round show_ptr now timeout ins =
     bind_res (indexnodes_get now timeout ins) (\<lambda>(list, ins).
     bind_res (print_loop show_ptr (indexnodes_iterator_begin list) (ins_store ins)) (\<lambda>(out, st).
     bind_res (indexnodes_list_delete list st) (\<lambda>st. Inr (out, ins\<lparr>ins_store := st\<rparr>))))"

text \<open>The line of a node.\<close>

definition node_line :: "(addr \<Rightarrow> string) \<Rightarrow> addr \<Rightarrow> indexnode_t \<Rightarrow> string" where
  "node_line show_ptr a ind =
     ''[indexnode '' @ show_ptr a @ ''] '' @ in_id ind @ '' @ '' @ pin_host (in_pin ind) @ '':'' @
     pin_port (in_pin ind) @ '' (version '' @ in_version ind @ '')''"

definition printable :: "(addr \<Rightarrow> string) \<Rightarrow> addr \<Rightarrow> indexnode_t \<Rightarrow> bool" where
  "printable show_ptr a ind \<longleftrightarrow> nul_free (show_ptr a) \<and> nul_free (in_id ind) \<and> nul_free (pin_host (in_pin ind)) \<and>
     nul_free (pin_port (in_pin ind)) \<and> nul_free (in_version ind)"

lemma tostring_line: "printable show_ptr a ind \<Longrightarrow> indexnode_tostring show_ptr a ind = Inr (node_line show_ptr a ind)"
  by (simp add: printable_def node_line_def indexnode_tostring_text)

lemma print_loop_lines:
  "\<forall>a \<in> set items. 0 < refs st a \<and> refs st a < max_refs \<and> printable show_ptr a (node_at st a) \<Longrightarrow>
   \<exists>st'. print_loop show_ptr \<lparr>iter_current = items\<rparr> st = Inr (map (\<lambda>a. node_line show_ptr a (node_at st a)) items, st') \<and>
     refs st' = refs st \<and> (\<forall>b. 0 < refs st b \<longrightarrow> contents_at st' b = contents_at st b)"
proof (induction items arbitrary: st)
  case Nil
  then show ?case by (simp add: print_loop.simps [of show_ptr] indexnodes_iterator_end_def)
next
  case (Cons a items)
  then have a: "0 < refs st a" "refs st a < max_refs" "printable show_ptr a (node_at st a)" by auto
  from indexnode_rc.copy_count [OF a(1,2)] obtain st1 where
    1: "indexnode_copy a st = Inr st1" "refs st1 = (refs st)(a := refs st a + 1)" "contents_at st1 = contents_at st" by blast
  have get: "obj_get a st1 = Inr (node_at st a)"
    using obj_get_node [of st1 a] 1(2) by (simp add: node_at_contents [OF 1(3)])
  have "0 < refs st1 a" using 1(2) by simp
  from indexnode_rc.delete_count [OF this] obtain st2 where
    2: "indexnode_delete a st1 = Inr st2" "refs st2 = (refs st1)(a := refs st1 a - 1)"
      "\<forall>b. 0 < refs st2 b \<longrightarrow> contents_at st2 b = contents_at st1 b" by blast
  have r2: "refs st2 = refs st" using 1(2) 2(2) by simp
  have c2: "contents_at st2 b = contents_at st b" if "0 < refs st b" for b
    using that 2(3) 1(3) r2 by simp
  have n2: "node_at st2 b = node_at st b" if "b \<in> set items" for b
    using c2 [of b] Cons.prems that by (simp add: node_at_def)
  then have "\<forall>b \<in> set items. 0 < refs st2 b \<and> refs st2 b < max_refs \<and> printable show_ptr b (node_at st2 b)"
    using Cons.prems r2 by auto
  from Cons.IH [OF this] obtain st3 where
    3: "print_loop show_ptr \<lparr>iter_current = items\<rparr> st2 = Inr (map (\<lambda>a. node_line show_ptr a (node_at st2 a)) items, st3)"
      "refs st3 = refs st2" "\<forall>b. 0 < refs st2 b \<longrightarrow> contents_at st3 b = contents_at st2 b" by blast
  have "print_loop show_ptr \<lparr>iter_current = a # items\<rparr> st =
      Inr (map (\<lambda>a. node_line show_ptr a (node_at st a)) (a # items), st3)"
    using 1(1) 2(1) 3(1) get n2 tostring_line [OF a(3)]
    by (simp add: print_loop.simps [of show_ptr "\<lparr>iter_current = a # items\<rparr>"] indexnodes_iterator_end_def
        indexnodes_iterator_current_def indexnodes_iterator_next_def)
  then show ?case using 3(2,3) r2 c2 by auto
qed


text \<open>C38. Listing the indexnodes (indexnode\_listener\_driver.c over indexnodes.c, indexnodes\_iterator.c and
  indexnode.c): whatever the collection has been through, a round of the driver's loop runs without
  error, prints one line for each indexnode that was seen within the timeout, in the order of the
  list, and gives back every reference it took.\<close>
theorem driver_round_lists:
  assumes "ins_reach ins outs" "2 * size outs + 4 \<le> max_refs"
    and "\<forall>a \<in> set (ins_items (ins_list ins)). printable show_ptr a (node_at (ins_store ins) a)"
  shows "\<exists>ins'. driver_round show_ptr now timeout ins =
      Inr (map (\<lambda>a. node_line show_ptr a (node_at (ins_store ins) a))
        (filter (valid_at now timeout (ins_store ins)) (ins_items (ins_list ins))), ins') \<and>
    ins_inv ins' \<and> accounted ins' outs"
proof -
  let ?st = "ins_store ins" let ?vs = "filter (valid_at now timeout ?st) (ins_items (ins_list ins))"
  have inv: "ins_inv ins" and acc: "accounted ins outs" using reach_invariant [OF assms(1)] by auto
  have small: "size outs + 2 \<le> max_refs" using assms(2) by (rule order_trans [rotated]) simp
  have bound: "refs_bounded 1 ?st" by (rule accounted_bounded [OF inv acc small])
  from get_correct [OF inv bound, of now timeout] obtain ins1 where
    g: "indexnodes_get now timeout ins = Inr (\<lparr>ins_items = ?vs\<rparr>, ins1)" and
    items: "ins_items (ins_list ins1) = rev ?vs" and
    r: "\<forall>a. refs (ins_store ins1) a = (if a \<in> set (ins_items (ins_list ins))
       then if valid_at now timeout ?st a then refs ?st a + 1 else refs ?st a - 1 else refs ?st a)" and
    c: "\<forall>b. 0 < refs (ins_store ins1) b \<longrightarrow> contents_at (ins_store ins1) b = contents_at ?st b" by blast
  have inv1: "ins_inv ins1" by (rule get_keeps_inv [OF inv bound g])
  have acc1: "accounted ins1 (mset ?vs + outs)" using get_accounted [OF inv bound acc g] by simp
  have node: "node_at (ins_store ins1) a = node_at ?st a" if "a \<in> set ?vs" for a
    using that r c by (simp add: node_at_def)
  have "0 < refs (ins_store ins1) a \<and> refs (ins_store ins1) a < max_refs \<and>
      printable show_ptr a (node_at (ins_store ins1) a)" if a: "a \<in> set ?vs" for a
  proof -
    have eq: "refs (ins_store ins1) a = refs ?st a + 1" using r a by simp
    have "refs ?st a = 1 + count outs a"
      using acc a by (simp add: accounted_def count_list_distinct [OF ins_inv_distinct [OF inv]])
    also have "\<dots> \<le> 1 + size outs" by (simp add: count_le_size)
    finally have "refs (ins_store ins1) a < 2 * size outs + 4" using eq by linarith
    then have "refs (ins_store ins1) a < max_refs" using assms(2) by (rule less_le_trans)
    moreover have "printable show_ptr a (node_at (ins_store ins1) a)" using assms(3) a node [OF a] by simp
    ultimately show ?thesis using eq by simp
  qed
  then have "\<forall>a \<in> set ?vs. 0 < refs (ins_store ins1) a \<and> refs (ins_store ins1) a < max_refs \<and>
      printable show_ptr a (node_at (ins_store ins1) a)" by blast
  from print_loop_lines [OF this] obtain st2 where
    p: "print_loop show_ptr \<lparr>iter_current = ?vs\<rparr> (ins_store ins1) =
        Inr (map (\<lambda>a. node_line show_ptr a (node_at (ins_store ins1) a)) ?vs, st2)"
      "refs st2 = refs (ins_store ins1)"
      "\<forall>b. 0 < refs (ins_store ins1) b \<longrightarrow> contents_at st2 b = contents_at (ins_store ins1) b" by blast
  let ?ins2 = "ins1\<lparr>ins_store := st2\<rparr>"
  have "ins_inv \<lparr>ins_list = \<lparr>ins_items = ins_items (ins_list ins1)\<rparr>, ins_store = st2\<rparr>"
    by (rule ins_inv_keep [OF inv1 subset_refl ins_inv_distinct [OF inv1]])
      (use inv1 p(2,3) in \<open>auto simp: ins_inv_def\<close>)
  then have inv2: "ins_inv ?ins2" by (simp add: ins_inv_def)
  have acc2: "accounted ?ins2 (mset (ins_items \<lparr>ins_items = ?vs\<rparr>) + outs)"
    using acc1 p(2) by (simp add: accounted_def)
  from drop_correct [OF inv2 acc2] obtain st3 where
    d: "indexnodes_list_delete \<lparr>ins_items = ?vs\<rparr> st2 = Inr st3" "ins_inv (?ins2\<lparr>ins_store := st3\<rparr>)"
      "accounted (?ins2\<lparr>ins_store := st3\<rparr>) outs" by auto
  have "driver_round show_ptr now timeout ins =
      Inr (map (\<lambda>a. node_line show_ptr a (node_at ?st a)) ?vs, ins1\<lparr>ins_store := st3\<rparr>)"
    using g p(1) d(1) node by (simp add: driver_round_def indexnodes_iterator_begin_def)
  with d(2,3) show ?thesis by simp
qed

theorem driver_round_lists_witness:
  "\<exists>ins'. driver_round (\<lambda>a. ''0x1'') 5 60 (indexnodes_new Map.empty) = Inr ([], ins') \<and> ins_inv ins' \<and> accounted ins' {#}"
  using driver_round_lists [OF ins_reach.start, of "\<lambda>a. ''0x1''" 5 60]
  by (simp add: indexnodes_new_def indexnodes_list_new_def)


section \<open>parser\_xml\_driver.c\<close>

text \<open>The lines of the callback; \<^verbatim>\<open>printf\<close> shows a null pointer as \<^verbatim>\<open>(null)\<close>.\<close>

definition shown :: "string option \<Rightarrow> string" where
  "shown v = (case v of None \<Rightarrow> ''(null)'' | Some s \<Rightarrow> s)"

definition print_cb :: "string list xml_cb" where
  "print_cb event name value out =
     Inr (out @ [case event of
        parser_xml_event_TAG_START \<Rightarrow> ''<'' @ name @ '' id=\"'' @ shown value @ ''\">''
      | parser_xml_event_TEXT \<Rightarrow> ''\"'' @ name @ ''\"''
      | parser_xml_event_ATTRIBUTE \<Rightarrow> ''#attr name:\"'' @ name @ ''\", value:\"'' @ shown value @ ''\"''
      | parser_xml_event_TAG_END \<Rightarrow> ''</'' @ name @ ''>''])"

definition driver_feed_file ::
  "'x xml_parse_chunk \<Rightarrow> string \<Rightarrow> 'x \<times> string list \<Rightarrow> ('x \<times> string list) res" where
  "driver_feed_file xml_parse_chunk file =
     fold_res (\<lambda>buf s. bind_res (parser_xml_consume xml_parse_chunk print_cb buf s) (\<lambda>(rc, s). Inr s))
       (file_blocks (length file) file)"

definition parser_xml_driver :: "'x xml_parse_chunk \<Rightarrow> 'x \<Rightarrow> nat \<Rightarrow> string \<Rightarrow> string list res" where
  "parser_xml_driver xml_parse_chunk x argc file =
     bind_res (c_assert (argc = 2)) (\<lambda>_.
     bind_res (driver_feed_file xml_parse_chunk file (x, [])) (parser_xml_delete xml_parse_chunk print_cb))"

section \<open>read\_test.c\<close>

text \<open>
  The mounted file system as the test sees it: the size of a file that can be opened, and what the
  kernel returns for a read of a number of bytes at an offset. A file descriptor is the path and the
  offset.
\<close>

record mounted_fs =
  fs_size :: "string \<Rightarrow> int option"
  fs_read :: "string \<Rightarrow> int \<Rightarrow> int \<Rightarrow> string"

type_synonym fd = "string \<times> int"

definition BUF_LEN :: int where "BUF_LEN = 1024"

definition open_file :: "mounted_fs \<Rightarrow> string \<Rightarrow> string \<Rightarrow> fd res" where
  "open_file fs test_dir name =
     bind_res (path_combine test_dir name) (\<lambda>path. bind_res (c_assert (fs_size fs path \<noteq> None)) (\<lambda>_. Inr (path, 0)))"

text \<open>A read: the buffer is compared at some places with what is expected there.\<close>

definition read_is :: "mounted_fs \<Rightarrow> int \<Rightarrow> (nat \<times> char) list \<Rightarrow> fd \<Rightarrow> fd res" where
  "read_is fs rc places = (\<lambda>(path, off).
     let buf = fs_read fs path off BUF_LEN in
     bind_res (c_assert (int (length buf) = rc)) (\<lambda>_.
     bind_res (c_assert (list_all (\<lambda>(i, c). i < length buf \<and> buf ! i = c) places)) (\<lambda>_.
     Inr (path, off + int (length buf)))))"

definition seek_set :: "int \<Rightarrow> fd \<Rightarrow> fd res" where
  "seek_set off = (\<lambda>(path, _). Inr (path, off))"

definition seek_end :: "mounted_fs \<Rightarrow> int \<Rightarrow> int \<Rightarrow> fd \<Rightarrow> fd res" where
  "seek_end fs off rc = (\<lambda>(path, _).
     let new = the (fs_size fs path) + off in bind_res (c_assert (new = rc)) (\<lambda>_. Inr (path, new)))"

definition test_zero_len :: "mounted_fs \<Rightarrow> string \<Rightarrow> unit res" where
  "test_zero_len fs test_dir =
     bind_res (open_file fs test_dir ''zero_length'') (\<lambda>fd.
     bind_res (read_is fs 0 [] fd) (\<lambda>fd.
     bind_res (read_is fs 0 [] fd) (\<lambda>_. Inr ())))"

definition test_1_nul :: "mounted_fs \<Rightarrow> string \<Rightarrow> unit res" where
  "test_1_nul fs test_dir =
     bind_res (open_file fs test_dir ''1_nul'') (\<lambda>fd.
     bind_res (read_is fs 1 [(0, NUL)] fd) (\<lambda>fd.
     bind_res (read_is fs 0 [] fd) (\<lambda>_. Inr ())))"

definition test_1_rand :: "mounted_fs \<Rightarrow> string \<Rightarrow> unit res" where
  "test_1_rand fs test_dir =
     bind_res (open_file fs test_dir ''1_rand'') (\<lambda>fd.
     bind_res (read_is fs 1 [(0, CHR ''x'')] fd) (\<lambda>fd.
     bind_res (read_is fs 0 [] fd) (\<lambda>_. Inr ())))"

definition test_1M_nul :: "mounted_fs \<Rightarrow> string \<Rightarrow> unit res" where
  "test_1M_nul fs test_dir =
     bind_res (open_file fs test_dir ''1M_nul'') (\<lambda>fd.
     bind_res (read_is fs BUF_LEN [(0, NUL), (1023, NUL)] fd) (\<lambda>fd.
     bind_res (read_is fs BUF_LEN [(0, NUL), (1023, NUL)] fd) (\<lambda>fd.
     bind_res (seek_set (2 ^ 19) fd) (\<lambda>fd.
     bind_res (read_is fs BUF_LEN [(0, NUL), (1023, NUL)] fd) (\<lambda>fd.
     bind_res (seek_end fs (- 5) (2 ^ 20 - 5) fd) (\<lambda>fd.
     bind_res (read_is fs 5 [(0, NUL), (4, NUL)] fd) (\<lambda>fd.
     bind_res (seek_set (2 ^ 21) fd) (\<lambda>fd.
     bind_res (read_is fs 0 [] fd) (\<lambda>_. Inr ())))))))))"

definition test_1M_rand :: "string \<Rightarrow> unit res" where
  "test_1M_rand test_dir = Inr ()"

definition read_test :: "mounted_fs \<Rightarrow> string \<Rightarrow> unit res" where
  "read_test fs test_dir =
     bind_res (test_zero_len fs test_dir) (\<lambda>_.
     bind_res (test_1_nul fs test_dir) (\<lambda>_.
     bind_res (test_1_rand fs test_dir) (\<lambda>_.
     bind_res (test_1M_nul fs test_dir) (\<lambda>_. test_1M_rand test_dir))))"

section \<open>list\_test.c, test\_driver.c of the integration tests\<close>

definition list_test :: "string \<Rightarrow> unit res" where
  "list_test test_dir = Inr ()"

text \<open>\<open>readable\<close> is the answer of \<^verbatim>\<open>access\<close> for reading.\<close>

definition integration_tests_main :: "mounted_fs \<Rightarrow> (string \<Rightarrow> bool) \<Rightarrow> string list \<Rightarrow> int res" where
  "integration_tests_main fs readable argv =
     bind_res (c_assert (length argv = 2)) (\<lambda>_.
     let test_dir = argv ! 1 in
     bind_res (c_assert (readable test_dir)) (\<lambda>_.
     bind_res (list_test test_dir) (\<lambda>_.
     bind_res (read_test fs test_dir) (\<lambda>_. Inr 0))))"

section \<open>What the drivers print and the reads need\<close>

lemma fold_print:
  "fold_res (\<lambda>(ev, t, i). print_cb ev t i) es out =
   Inr (out @ concat (map (\<lambda>(ev, t, i). case print_cb ev t i [] of Inr l \<Rightarrow> l | Inl e \<Rightarrow> []) es))"
  by (induction es arbitrary: out) (auto simp: print_cb_def)

lemma parser_xml_driver_prints:
  "parser_xml_driver xml_parse_chunk x 2 file =
   Inr (concat (map (\<lambda>(ev, t, i). case print_cb ev t i [] of Inr l \<Rightarrow> l | Inl e \<Rightarrow> [])
     (concat (map xml_events (sax_events xml_parse_chunk (file_blocks (length file) file) x)))))"
proof -
  have "parser_xml_driver xml_parse_chunk x 2 file =
      run_parser (parser_xml_consume xml_parse_chunk print_cb) (parser_xml_delete xml_parse_chunk print_cb)
        (file_blocks (length file) file) (x, [])"
    by (simp only: parser_xml_driver_def driver_feed_file_def feed_then_delete c_assert_def) simp
  then show ?thesis by (simp only: run_parser_events sax_dispatch_all fold_print) simp
qed

text \<open>A file system that has a file and returns the bytes of each range of it.\<close>

definition serves :: "mounted_fs \<Rightarrow> string \<Rightarrow> string \<Rightarrow> bool" where
  "serves fs path content \<longleftrightarrow> fs_size fs path = Some (int (length content)) \<and>
     (\<forall>off len. 0 \<le> off \<longrightarrow> 0 \<le> len \<longrightarrow> fs_read fs path off len = take (nat len) (drop (nat off) content))"

lemma read_is_range:
  assumes "serves fs path content" "0 \<le> off" "rc = min 1024 (int (length content) - off)" "off \<le> int (length content)"
    and "list_all (\<lambda>(i, c). int i < rc \<and> content ! (nat off + i) = c) places"
  shows "read_is fs rc places (path, off) = Inr (path, off + rc)"
proof -
  let ?buf = "take 1024 (drop (nat off) content)"
  have r: "fs_read fs path off 1024 = ?buf" using assms(1,2) by (simp add: serves_def)
  have len: "int (length ?buf) = rc" using assms(2-4) by (auto simp: min_def)
  have "list_all (\<lambda>(i, c). i < length ?buf \<and> ?buf ! i = c) places"
    using assms(5)
  proof (rule list.pred_mono_strong)
    fix p assume "case p of (i, c) \<Rightarrow> int i < rc \<and> content ! (nat off + i) = c"
    then show "case p of (i, c) \<Rightarrow> i < length ?buf \<and> ?buf ! i = c"
      using len assms(2,4) by (auto simp: nth_append)
  qed
  then show ?thesis using r len by (simp add: read_is_def BUF_LEN_def Let_def)
qed

lemma read_past_end:
  assumes "serves fs path content" "int (length content) \<le> off"
  shows "read_is fs 0 [] (path, off) = Inr (path, off)"
  using assms by (simp add: serves_def read_is_def BUF_LEN_def Let_def)

lemma open_file_served:
  assumes "path_combine test_dir name = Inr path" "serves fs path content"
  shows "open_file fs test_dir name = Inr (path, 0)"
  using assms by (simp add: open_file_def serves_def)

lemma test_zero_len_pass:
  assumes "path_combine test_dir ''zero_length'' = Inr path" "serves fs path []"
  shows "test_zero_len fs test_dir = Inr ()"
  using read_past_end [OF assms(2), of 0] by (simp add: test_zero_len_def open_file_served [OF assms])

lemma test_one_byte_pass:
  assumes "serves fs path [c]"
  shows "bind_res (read_is fs 1 [(0, c)] (path, 0)) (\<lambda>fd. bind_res (read_is fs 0 [] fd) (\<lambda>_. Inr ())) = Inr ()"
  using read_is_range [OF assms, of 0 1 "[(0, c)]"] read_past_end [OF assms, of 1] by simp

lemma test_1_nul_pass:
  assumes "path_combine test_dir ''1_nul'' = Inr path" "serves fs path [NUL]"
  shows "test_1_nul fs test_dir = Inr ()"
  using test_one_byte_pass [OF assms(2)] by (simp add: test_1_nul_def open_file_served [OF assms])

lemma test_1_rand_pass:
  assumes "path_combine test_dir ''1_rand'' = Inr path" "serves fs path ''x''"
  shows "test_1_rand fs test_dir = Inr ()"
  using test_one_byte_pass [OF assms(2)] by (simp add: test_1_rand_def open_file_served [OF assms])

lemma read_nuls:
  assumes "serves fs path (replicate (2 ^ 20) NUL)" "0 \<le> off" "off \<le> 2 ^ 20" "rc = min 1024 (2 ^ 20 - off)"
    and "list_all (\<lambda>(i, c). int i < rc \<and> c = NUL) places"
  shows "read_is fs rc places (path, off) = Inr (path, off + rc)"
proof (rule read_is_range [OF assms(1,2)])
  show "rc = min 1024 (int (length (replicate (2 ^ 20) NUL)) - off)" using assms(4) by simp
  show "off \<le> int (length (replicate (2 ^ 20) NUL))" using assms(3) by simp
  show "list_all (\<lambda>(i, c). int i < rc \<and> replicate (2 ^ 20) NUL ! (nat off + i) = c) places"
    using assms(5)
  proof (rule list.pred_mono_strong)
    fix p assume p: "case p of (i, c) \<Rightarrow> int i < rc \<and> c = NUL"
    obtain i c where [simp]: "p = (i, c)" by (cases p)
    have "int i < 2 ^ 20 - off" using p assms(4) by simp
    then have "int (nat off + i) < int (2 ^ 20)" using assms(2) by simp
    then have "nat off + i < 2 ^ 20" by (rule of_nat_less_imp_less)
    then have "replicate (2 ^ 20) NUL ! (nat off + i) = NUL" by (rule nth_replicate)
    then show "case p of (i, c) \<Rightarrow> int i < rc \<and> replicate (2 ^ 20) NUL ! (nat off + i) = c" using p by simp
  qed
qed

lemma test_1M_nul_pass:
  assumes "path_combine test_dir ''1M_nul'' = Inr path" "serves fs path (replicate (2 ^ 20) NUL)"
  shows "test_1M_nul fs test_dir = Inr ()"
proof -
  note r = read_nuls [OF assms(2)]
  have "read_is fs BUF_LEN [(0, NUL), (1023, NUL)] (path, 0) = Inr (path, 1024)"
    using r [of 0 1024 "[(0, NUL), (1023, NUL)]"] by (simp add: BUF_LEN_def)
  moreover have "read_is fs BUF_LEN [(0, NUL), (1023, NUL)] (path, 1024) = Inr (path, 2048)"
    using r [of 1024 1024 "[(0, NUL), (1023, NUL)]"] by (simp add: BUF_LEN_def)
  moreover have "read_is fs BUF_LEN [(0, NUL), (1023, NUL)] (path, 2 ^ 19) = Inr (path, 2 ^ 19 + 1024)"
    using r [of "2 ^ 19" 1024 "[(0, NUL), (1023, NUL)]"] by (simp add: BUF_LEN_def)
  moreover have "seek_end fs (- 5) (2 ^ 20 - 5) (path, n) = Inr (path, 2 ^ 20 - 5)" for n
    using assms(2) by (simp add: seek_end_def serves_def)
  moreover have "read_is fs 5 [(0, NUL), (4, NUL)] (path, 2 ^ 20 - 5) = Inr (path, 2 ^ 20)"
    using r [of "2 ^ 20 - 5" 5 "[(0, NUL), (4, NUL)]"] by simp
  moreover have "read_is fs 0 [] (path, 2 ^ 21) = Inr (path, 2 ^ 21)"
    by (rule read_past_end [OF assms(2)]) simp
  ultimately show ?thesis
    by (simp only: test_1M_nul_def open_file_served [OF assms] bind_res_simps seek_set_def prod.case)
qed

text \<open>
  The integration tests pass on a file system that has the four files and returns the bytes of each range.
  What the mounted program itself answers is the subject of the theories Fuse\_Files and Server.
\<close>

theorem integration_tests_succeed:
  assumes "path_combine test_dir ''zero_length'' = Inr p0" "serves fs p0 []"
    and "path_combine test_dir ''1_nul'' = Inr p1" "serves fs p1 [NUL]"
    and "path_combine test_dir ''1_rand'' = Inr p2" "serves fs p2 ''x''"
    and "path_combine test_dir ''1M_nul'' = Inr p3" "serves fs p3 (replicate (2 ^ 20) NUL)"
    and "readable test_dir"
  shows "integration_tests_main fs readable [program, test_dir] = Inr 0"
  using assms(9) by (simp add: integration_tests_main_def list_test_def read_test_def test_1M_rand_def test_zero_len_pass [OF assms(1,2)] test_1_nul_pass [OF assms(3,4)]
      test_1_rand_pass [OF assms(5,6)] test_1M_nul_pass [OF assms(7,8)])

end
