(* ===== verification/Spec2Isabelle.thy ===== *)
theory Spec2Isabelle
  imports Binary_Heap Ref_Count String_Buffer Utils Listing Peerstats Parser Fetcher Indexnode
    Indexnodes Listener Listener_Thread Downloader Nativefs Fuse_Methods Fuse_Files Server Locks Alarm
    Config Trace Program Uri Http Hash_Table Alarms_Old Tail_Queue Indexnodes_Heap
    Indexnodes_Race Num_Space Tests_Data Tests_Net Tests_Live
begin

text \<open>
  A verification development for fsfuse, a FUSE file system over the fs2 file-sharing network.

  \<^bold>\<open>The program.\<close> fsfuse listens for the adverts of indexnodes, asks an indexnode for the listing of
  a directory or for the alternatives of a file (HTTP pages, parsed as XHTML), keeps a tree of
  directory entries with inodes, and serves reads by fetching byte ranges from peers in one thread
  per open file. All sources named below are under \<^verbatim>\<open>src/src/\<close> unless they say otherwise.

  \<^bold>\<open>Theories and sources.\<close>
  \<^item> \<open>Prelude\<close>: the run-time errors of C operations (failed assertions, null dereferences, accesses
    out of bounds, use of freed or uninitialised memory, wrong frees and calls) as values, the result
    type \<open>'a res\<close>, errno values, C strings.
  \<^item> \<open>Binary_Heap\<close>: \<^verbatim>\<open>binary_heap.c\<close>, \<^verbatim>\<open>kvp.c\<close>. The array is a list of slots; the locale
    \<open>pri_queue\<close> is the contract (a multiset of pairs), interpreted on the array operations.
  \<^item> \<open>Ref_Count\<close>: \<^verbatim>\<open>ref_count.c\<close> and the heap of one class of counted objects; the locale \<open>counted\<close> is
    the contract of a copy/delete pair, interpreted for listings, indexnodes and direntries.
  \<^item> \<open>String_Buffer\<close>: \<^verbatim>\<open>string_buffer.c\<close> on memory cells, with ownership of the strings passed in; the
    locale \<open>string_builder\<close> is what its clients use.
  \<^item> \<open>Utils\<close>: \<^verbatim>\<open>utils.c\<close> (paths, dotted versions, thread indices, hashes).
  \<^item> \<open>Listing\<close>: \<^verbatim>\<open>nativefs/listing.c\<close>, \<^verbatim>\<open>nativefs/listing_list.c\<close>; \<open>Peerstats\<close>: \<^verbatim>\<open>peerstats.c\<close>.
  \<^item> \<open>Parser\<close>: \<^verbatim>\<open>parser/parser_xml.c\<close>, \<^verbatim>\<open>parser_filelist.c\<close>, \<^verbatim>\<open>parser_stats.c\<close>, \<^verbatim>\<open>fs2_constants.c\<close>.
    libxml is a parameter: a function from chunks of text to SAX events.
  \<^item> \<open>Fetcher\<close>: \<^verbatim>\<open>fetcher.c\<close>. libcurl is a parameter; \<open>curl_delivers\<close> states its documented behaviour
    (headers and body are passed to the callbacks block by block until one refuses a block), and
    \<open>curl_for\<close> is a function that has it.
  \<^item> \<open>Indexnode\<close>: \<^verbatim>\<open>indexnodes/proto_indexnode.c\<close>, \<^verbatim>\<open>indexnodes/indexnode.c\<close>; the locale
    \<open>entry_source\<close> is the interface through which the file system asks for entries, interpreted on
    both requests.
  \<^item> \<open>Indexnodes\<close>: \<^verbatim>\<open>indexnodes/indexnodes_list.c\<close>, \<^verbatim>\<open>indexnodes_iterator.c\<close>, \<^verbatim>\<open>indexnodes.c\<close>; its runs
    are the inductive predicate \<open>ins_reach\<close>. \<open>Indexnodes_Race\<close>: the same operations cut into the steps
    between which other threads can run, over the lock of \<open>Locks\<close> and lists that can be freed.
  \<^item> \<open>Tail_Queue\<close>: the tail queues of \<^verbatim>\<open>3rdparty/queue.h\<close> and the lists of \<^verbatim>\<open>linked_list.h\<close> on a heap with
    pointers; the locale \<open>list_steps\<close> is the contract of an interface whose operations are steps on an
    abstract value, interpreted on the queues. \<open>Indexnodes_Heap\<close>: \<^verbatim>\<open>indexnodes_list.c\<close>,
    \<^verbatim>\<open>indexnodes_iterator.c\<close> and \<^verbatim>\<open>indexnodes_get\<close> with their blocks and pointers, refined to \<open>Indexnodes\<close>.
  \<^item> \<open>Listener\<close>: the packets and the event loop of \<^verbatim>\<open>indexnodes/indexnodes_listener_thread.c\<close> on sequences
    of \<^verbatim>\<open>select\<close> results. \<open>Listener_Thread\<close>: the rest of that file (interfaces, sockets, the thread's main
    function) and \<^verbatim>\<open>indexnodes/indexnodes_listener.c\<close>.
  \<^item> \<open>Downloader\<close>: \<^verbatim>\<open>downloader/downloader.c\<close>. The other threads are the sequences of requests they
    queue before and during the waits of the download thread.
  \<^item> \<open>Nativefs\<close>: \<^verbatim>\<open>nativefs/direntry.c\<close>, \<^verbatim>\<open>nativefs/inode_map.c\<close>; the locale \<open>inode_table\<close> is the
    contract of the inode table.
  \<^item> \<open>Fuse_Methods\<close>: every handler under \<^verbatim>\<open>fuse_methods/\<close> and the table of them, over the tree of
    direntries, the open files with their download threads, the pending reads and the indexnodes; the
    answers to the kernel are a list. \<open>Fuse_Files\<close>: the properties of the handlers that work on
    files, directories and statistics.
  \<^item> \<open>Server\<close>: \<^verbatim>\<open>open.c\<close>, \<^verbatim>\<open>read.c\<close> and \<^verbatim>\<open>downloader.c\<close> together: requests, blocks, ends of fetches and
    callbacks interleave as the steps \<open>server_step\<close>, which are the definitions of the two parts.
  \<^item> \<open>Locks\<close>: \<^verbatim>\<open>locks.c\<close> as a step relation of any number of threads, with the sleeping and waking of
    the condition variable.
  \<^item> \<open>Alarm\<close>: \<^verbatim>\<open>alarm_simple.c\<close> as a step relation of the alarm's thread, its owner and the clock, and
    \<^verbatim>\<open>indexnodes/indexnodes_statics_manager.c\<close> on top of it.
  \<^item> \<open>Config\<close>: \<^verbatim>\<open>config/\<close>: the items of \<^verbatim>\<open>config-config.xml\<close>, the loader, the stack of sources and the
    generated readers. A document is a function from XPath expressions to nodes.
  \<^item> \<open>Trace\<close>: \<^verbatim>\<open>trace.c\<close> and the macros of \<^verbatim>\<open>trace.h\<close>: the log file, the console and the indentation. The
    other theories leave trace output out, except for the messages of the listener's thread and those
    that end the process.
  \<^item> \<open>Program\<close>: \<^verbatim>\<open>fsfuse.c\<close> and \<^verbatim>\<open>localei.c\<close>: what the system gives the process is a record (the options
    as \<^verbatim>\<open>getopt_long\<close> returns them, results of the initialisers and of libfuse), what it does is the
    list of its calls to libfuse.
  \<^item> \<open>Uri\<close>, \<open>Http\<close>: the classes of \<^verbatim>\<open>uri.c\<close> and \<^verbatim>\<open>http.c\<close>, which the running program does not use; the
    results of the socket calls are sequences.
  \<^item> \<open>Hash_Table\<close>: the retired \<^verbatim>\<open>src/scrap/hash_table.c\<close>; the locale \<open>map_table\<close> is the contract of a
    map, interpreted on the chained table. The rounding of load factors is a parameter.
    \<open>Alarms_Old\<close>: the retired \<^verbatim>\<open>src/scrap/alarms_old.c\<close> over the times \<^verbatim>\<open>gettimeofday\<close> returns.
    \<open>Num_Space\<close>: the retired \<^verbatim>\<open>src/scrap/num_space_collapser.c\<close>; its hash table is a parameter.
  \<^item> \<open>Tests_Data\<close>, \<open>Tests_Net\<close>: the unit tests of \<^verbatim>\<open>tests/unit/\<close> and \<^verbatim>\<open>src/scrap/hash_table_test.c\<close> as
    computations over the definitions they test, with their stubs and the driver. \<open>Tests_Live\<close>: the
    fake indexnode, the listing and XML drivers and the integration tests (the other directories under
    \<^verbatim>\<open>tests/\<close>); the mounted file system is a parameter there.
  \<^item> This theory: the properties that span components.

  \<^bold>\<open>What is shown.\<close> Functional correctness and refinement of the data structures (heap, string
  buffer, hash table, inode table, tail queues and linked lists, collection of indexnodes, down to
  the pointers of its lists), completeness of the page parsers over
  any chunking of a page, the choice of a peer, reference counting without leaks over all runs of the
  collection, delivery of adverts from the packet to the list of indexnodes, that the consumer of
  downloaded blocks gives every reader exactly its bytes, and that the answers to \<^verbatim>\<open>read\<close>, \<^verbatim>\<open>readdir\<close>
  and \<^verbatim>\<open>statfs\<close> are made of them; that from the opening of a file to the end of its thread every read is
  answered at most once and with its own bytes, and which steps can fail; that the file system is read-only and answers every request once;
  mutual exclusion of the lock with one reader; the life of an alarm and of the listener; that the last
  source of the configuration wins and values keep their types; the indentation of traces; and what
  the settings of the program lead to; that threads which handle adverts interleave without error and an
  uninterrupted thread does what the whole operation says; and that the authors' own tests hold of the
  model. Where the code does not do what it means
  to, the theorem states what it does instead: the fetcher's callback context, the version check, the
  double free on a bad advert, requests for the list of indexnodes that race with each other or with an
  advert, adverts that race with each other, reads behind the end of a packet or path, lost chunks, children that
  are never read, references given up twice on close, unanswered statistics, the lock with two
  readers, requests that free literals, options that are exchanged, a read after a pause that uses
  freed memory, an interface without an address that ends the listener, and a start of the program
  that never gets to the mount because a function is called through a wrong prototype.

  \<^bold>\<open>Conventions.\<close> State is passed explicitly; a pointer to a counted object is an address in the
  store of its class, and \<^verbatim>\<open>malloc\<close> is an address argument. An operation that runs under a lock is one
  step, except in \<open>Indexnodes_Race\<close>. Time, random numbers, the configuration and system calls are arguments. 32-bit reference
  counts are words and the theorems state how many references must fit; file offsets are \<open>int\<close> and the
  truncation of heap keys to \<^verbatim>\<open>int\<close> is written out. Allocation never fails.

  \<^bold>\<open>Fuel.\<close> The walks along \<^verbatim>\<open>next\<close> and \<^verbatim>\<open>parent\<close> pointers would not end on a cyclic tree and take fuel; the
  theorems show that more fuel than siblings (as much as ancestors) gives the result. A walk with the
  hash table's iterator takes more fuel than there are entries, a loop over a queue or list on a heap at
  least as much as there are elements. The loops that write to and read from
  a socket run over the results of the calls and are \<open>None\<close> when these do not suffice. The loop of the
  download thread runs over the sequence of answers its environment gives and is \<open>None\<close> when it has not
  ended by then. All other loops are total functions.

  \<^bold>\<open>Not modelled.\<close> The dump functions are debug output, as are the splash, the versions and the usage
  text of \<^verbatim>\<open>fsfuse.c\<close>; creating threads, pipes and sockets enters only with its results. Of the tests, the forking and the
  reports of the check library and the signal handler of the listing driver are left out. Of the
  vendored \<^verbatim>\<open>3rdparty/queue.h\<close> the other kinds of lists, which the program does not use, are left out. Where a theory other than \<open>Indexnodes_Heap\<close>
  represents such a list by a HOL list, \<open>Tail_Queue\<close> justifies it. Of the retired code under
  \<^verbatim>\<open>src/scrap/\<close>, \<^verbatim>\<open>direntry_cache.c\<close> is left out because it is written against an interface of direntries
  that is no longer in the repository (\<^verbatim>\<open>direntry_post\<close>, \<^verbatim>\<open>path_get_direntry\<close>, \<^verbatim>\<open>parser_fetch_listing\<close>,
  \<^verbatim>\<open>direntry_internal.h\<close>), and \<^verbatim>\<open>alarms.c\<close> because it uses variables that are declared nowhere.
\<close>

section \<open>The download thread over the real fetcher\<close>

text \<open>
  The request of one round of the thread's loop: a new fetcher for the location of the chosen
  alternative, with \<^verbatim>\<open>buf_consumer\<close> as its callback.
\<close>

definition downloader_fetch :: "downloader_t curl_perform \<Rightarrow> char_ptr \<Rightarrow> fetch_t" where
  "downloader_fetch perform config_alias href rng thread =
     bind_res (fetcher_new fs2_alias_header_key href config_alias) (\<lambda>fetcher.
     fetcher_fetch_body perform fetcher buf_consumer rng thread)"

lemma downloader_fetch_keeps:
  assumes "curl_delivers perform server"
    and "downloader_fetch perform nick href rng thread = Inr (rc, thread')"
  shows "thread' = thread"
  using assms(2)
  by (auto simp: downloader_fetch_def fetch_body_cases [OF assms(1)] Let_def split: if_splits)

lemma chunk_wait_signals:
  "chunk_wait rc ws thread = Inr (c, thread') \<Longrightarrow> d_signals thread' = d_signals thread"
proof (induction ws arbitrary: rc thread)
  case Nil
  then show ?case
    by (simp add: chunk_wait.simps [of rc "[]"])
      (auto simp: Let_def split: option.splits if_splits dest!: chunk_woken_frame)
next
  case (Cons w ws)
  obtain rc' adds where w: "w = (rc', adds)" by force
  have adds: "d_signals t1 = d_signals t"
    if "fold_res downloader_chunk_add adds t = Inr t1" for t t1
    using chunk_adds_frame [OF that] by auto
  from Cons.prems show ?case
    unfolding w chunk_wait.simps [of rc "(rc', adds) # ws"]
    by (auto simp: Let_def split: option.splits if_splits
        dest!: chunk_woken_frame adds Cons.IH)
qed

lemma chunk_get_next_signals:
  "chunk_get_next thread = Inr (c, thread') \<Longrightarrow> d_signals thread' = d_signals thread"
  by (auto simp: chunk_get_next_def split: list.splits dest!: chunk_wait_signals chunk_adds_frame)

lemma main_chunk_signals:
  "main_chunk ft thread = Inr thread' \<Longrightarrow> d_signals thread' = d_signals thread"
  by (auto simp: main_chunk_def split: if_splits option.splits dest!: chunk_get_next_signals)

lemma main_loop_signals:
  assumes "curl_delivers perform server"
  shows "main_loop (downloader_fetch perform nick) bests ft rc thread = Some (Inr (rc', thread')) \<Longrightarrow>
    d_signals thread' = d_signals thread"
proof (induction bests arbitrary: ft rc thread)
  case Nil
  then show ?case by simp
next
  case (Cons best bests)
  have fetched: "d_signals t2 = d_signals t1"
    if "main_fetch (downloader_fetch perform nick) best chunk t1 = Inr (r, t2)" for chunk t1 t2 r
    using that
    by (auto simp: main_fetch_def Let_def split: if_splits option.splits
        dest!: downloader_fetch_keeps [OF assms])
  from Cons.prems show ?case
    by (auto split: sum.splits option.splits if_splits dest!: Cons.IH main_chunk_signals fetched)
qed

lemma chunks_empty_signals:
  "chunks_empty rc thread = Inr thread' \<Longrightarrow> rc \<noteq> 0 \<Longrightarrow>
   \<forall>s \<in> set (d_signals thread). fst (snd s) \<noteq> 0 \<Longrightarrow>
   \<forall>s \<in> set (d_signals thread'). fst (snd s) \<noteq> 0"
proof (induction rc thread rule: chunks_empty.induct)
  case (1 rc thread)
  from "1.prems"(1) obtain popped heap where
    pop: "binary_heap_trypop (d_chunks thread) = Inr (popped, heap)"
    by (subst (asm) chunks_empty.simps) (auto split: sum.splits)
  show ?case
  proof (cases popped)
    case None
    then show ?thesis using "1.prems" pop by (auto simp: chunks_empty.simps [of rc thread])
  next
    case (Some kc)
    obtain k c where kc: "kc = (k, c)" by force
    let ?t = "signal_read_thread c rc 0 (thread\<lparr>d_chunks := heap\<rparr>)"
    have "chunks_empty rc ?t = Inr thread'"
      using "1.prems"(1) pop Some kc by (simp add: chunks_empty.simps [of rc thread])
    moreover have "\<forall>s \<in> set (d_signals ?t). fst (snd s) \<noteq> 0"
      using "1.prems"(2,3) by (auto simp: signal_read_thread_def)
    ultimately show ?thesis using "1.IH" [OF pop refl Some kc [symmetric]] "1.prems"(2) by simp
  qed
qed

lemma main_end_signals:
  assumes "main_end rc thread = Inr thread'" "d_signals thread = []"
  shows "\<forall>s \<in> set (d_signals thread'). fst (snd s) \<noteq> 0"
proof -
  have "\<forall>s \<in> set (d_signals t'). fst (snd s) \<noteq> 0"
    if "chunks_empty r ((signal_read_thread c r 0 thread)\<lparr>d_current := None\<rparr>) = Inr t'" "r \<noteq> 0" for r c t'
    using chunks_empty_signals [OF that] that(2) assms(2) by (simp add: signal_read_thread_def)
  with assms show ?thesis
    by (auto simp: main_end_def split: option.splits if_splits)
qed

text \<open>C40. Reading a file through the real fetcher (downloader.c with fetcher.c): because the fetcher
  does not give its body wrapper the context the wrapper expects, the consumer of the blocks is
  never called. Whatever the server sends and whichever alternatives are chosen, a download thread
  that ends at all has told every reader it signalled that the read failed: no byte of any file is
  ever delivered.\<close>
theorem downloader_delivers_nothing:
  assumes "curl_delivers perform server"
    and "downloaderead_main (downloader_fetch perform nick) bests (downloader_new sz busy waits) =
      Some (Inr thread)"
  shows "\<forall>s \<in> set (d_signals thread). fst (snd s) \<noteq> 0"
proof -
  from assms(2) obtain rc t where
    t: "main_loop (downloader_fetch perform nick) bests True None (downloader_new sz busy waits) =
        Some (Inr (rc, t))" "main_end rc t = Inr thread"
    by (auto simp: downloaderead_main_def)
  have "d_signals t = []"
    using main_loop_signals [OF assms(1) t(1)] by (simp add: downloader_new_def)
  with main_end_signals [OF t(2)] show ?thesis .
qed

theorem downloader_delivers_nothing_witness:
  "\<exists>thread. downloaderead_main (downloader_fetch (curl_for example_server) (HeapStr ''me''))
      [(1, Some ''http://peer/f'')] (downloader_new 6 [[(2, 5, 1)]] []) = Some (Inr thread) \<and>
    d_signals thread = [(1, ENOENT, 0, '''')] \<and>
    (\<forall>s \<in> set (d_signals thread). fst (snd s) \<noteq> 0)"
proof -
  let ?r = "downloaderead_main (downloader_fetch (curl_for example_server) (HeapStr ''me''))
      [(1, Some ''http://peer/f'')] (downloader_new 6 [[(2, 5, 1)]] [])"
  have "map_option (map_sum id d_signals) ?r = Some (Inr [(1, ENOENT, 0, '''')])" by code_simp
  then obtain thread where
    "?r = Some (Inr thread)" "d_signals thread = [(1, ENOENT, 0, '''')]"
    by (auto simp: map_sum_def split: sum.splits option.splits) (metis surj_pair old.sum.exhaust)
  with downloader_delivers_nothing [OF curl_for_delivers] show ?thesis by blast
qed

section \<open>From a packet on the network to the list of indexnodes\<close>

lemma known_listed:
  assumes "ins_inv ins" "refs_bounded 1 (ins_store ins)" "known ins uid = Some ind"
    and "now - in_last_seen ind < timeout"
  shows "\<exists>lis ins'. indexnodes_get now timeout ins = Inr (lis, ins') \<and>
    (\<exists>a \<in> set (ins_items lis). obj_get a (ins_store ins') = Inr ind)"
proof -
  from assms(3) obtain a where
    "find (\<lambda>a. in_id (node_at (ins_store ins) a) = uid) (ins_items (ins_list ins)) = Some a"
    and node: "node_at (ins_store ins) a = ind" by (auto simp: known_find)
  then have a: "a \<in> set (ins_items (ins_list ins))" by (auto simp: find_Some_iff)
  have valid: "valid_at now timeout (ins_store ins) a"
    using assms(4) node by (simp add: indexnode_still_valid_def)
  from get_correct [OF assms(1,2), of now timeout] obtain ins' where
    g: "indexnodes_get now timeout ins =
      Inr (\<lparr>ins_items = filter (valid_at now timeout (ins_store ins)) (ins_items (ins_list ins))\<rparr>, ins')"
    and pos: "0 < refs (ins_store ins') a" and
    c: "\<forall>b. 0 < refs (ins_store ins') b \<longrightarrow> contents_at (ins_store ins') b = contents_at (ins_store ins) b"
    using a valid by auto
  have "obj_get a (ins_store ins') = Inr ind"
    using obj_get_node [OF pos] c pos node by (simp add: node_at_def)
  with g a valid show ?thesis by auto
qed

lemma host_text_nonempty: "address_given k garbage sa \<Longrightarrow> host_text k sa \<noteq> []"
proof -
  assume a: "address_given k garbage sa"
  then have "4 \<le> length sa - sk_addr_src k" unfolding address_given_def by linarith
  then have "length (take 4 (drop (sk_addr_src k) sa)) = 4" by simp
  then obtain b1 b2 b3 b4 where "take 4 (drop (sk_addr_src k) sa) = [b1, b2, b3, b4]"
    using four_elements by blast
  then show ?thesis by (simp add: host_text_def)
qed

text \<open>
  What may happen after time \<open>now\<close>, one operation after the other: adverts of this or of other
  indexnodes, requests for the list for which \<open>now\<close> is within their timeout, and clients that delete a
  list they hold.
\<close>

inductive ins_later :: "int \<Rightarrow> indexnodes_t \<Rightarrow> addr multiset \<Rightarrow> indexnodes_t \<Rightarrow> addr multiset \<Rightarrow> bool"
  for now ins0 outs0 where
  later_start: "ins_later now ins0 outs0 ins0 outs0"
| later_advert: "ins_later now ins0 outs0 ins outs \<Longrightarrow> now \<le> t \<Longrightarrow> refs_bounded 1 (ins_store ins) \<Longrightarrow>
    ins_store ins f = None \<Longrightarrow> scan_word v \<noteq> [] \<Longrightarrow> host \<noteq> [] \<Longrightarrow> port \<noteq> [] \<Longrightarrow> uid \<noteq> [] \<Longrightarrow>
    new_indexnode_event f t host port (''fs2protocol-'' @ v) uid ins = Inr ins' \<Longrightarrow>
    ins_later now ins0 outs0 ins' outs"
| later_request: "ins_later now ins0 outs0 ins outs \<Longrightarrow> t - now < timeout \<Longrightarrow> refs_bounded 1 (ins_store ins) \<Longrightarrow>
    indexnodes_get t timeout ins = Inr (lis, ins') \<Longrightarrow>
    ins_later now ins0 outs0 ins' (mset (ins_items lis) + outs)"
| later_drop: "ins_later now ins0 outs0 ins (mset (ins_items lis) + outs) \<Longrightarrow>
    indexnodes_list_delete lis (ins_store ins) = Inr st' \<Longrightarrow>
    ins_later now ins0 outs0 (ins\<lparr>ins_store := st'\<rparr>) outs"

text \<open>An id that was seen at \<open>now\<close> or since stays in the collection.\<close>

definition seen_since :: "int \<Rightarrow> string \<Rightarrow> indexnodes_t \<Rightarrow> bool" where
  "seen_since now uid ins \<longleftrightarrow>
     (case known ins uid of None \<Rightarrow> False | Some ind \<Rightarrow> in_id ind = uid \<and> now \<le> in_last_seen ind)"

lemma advertised_seen_since:
  assumes "known ins' = advertised t host port version uid' (known ins)" "now \<le> t"
    and "uid' = uid \<or> seen_since now uid ins"
  shows "seen_since now uid ins'"
proof -
  have "in_id i = uid" if "known ins uid = Some i" for i
    using that by (auto simp: known_find find_Some_iff)
  then show ?thesis
    using assms by (auto simp: seen_since_def advertised_def split: option.splits)
qed

lemma later_keeps:
  assumes "ins_later now ins0 outs0 ins outs" "ins_inv ins0" "accounted ins0 outs0" "seen_since now uid ins0"
  shows "ins_inv ins \<and> accounted ins outs \<and> seen_since now uid ins"
  using assms
proof (induction rule: ins_later.induct)
  case later_start
  then show ?case by simp
next
  case (later_advert ins outs t f v host port uid' ins')
  with event_correct [of ins f v host port uid' t] show ?case
    by (auto intro: advertised_seen_since)
next
  case (later_request ins outs t timeout lis ins')
  then have ih: "ins_inv ins" "accounted ins outs" "seen_since now uid ins" by auto
  have "seen_since now uid ins'"
    using ih(3) later_request.hyps(2) get_known [OF ih(1) later_request.hyps(3,4), of uid]
    by (auto simp: seen_since_def split: option.splits)
  then show ?case
    using get_keeps_inv [OF ih(1) later_request.hyps(3,4)] get_accounted [OF ih(1) later_request.hyps(3) ih(2)
      later_request.hyps(4)] by blast
next
  case (later_drop ins lis outs st')
  with drop_correct [of ins lis outs] show ?case by (auto simp: seen_since_def)
qed


text \<open>An advert at time 100, a request at 120, which keeps its list, and a request at 130.\<close>

definition example_advert :: advert_packet where
  "example_advert = \<lparr>ap_sockaddr = example_sa [10, 0, 0, 1], ap_garbage = 16, ap_port = ''6343'',
     ap_protocol = ''fs2protocol-'' @ ''0.13'', ap_id = ''u''\<rparr>"


end
